(* ===== verification/Taut_Prelude.thy ===== *)
theory Taut_Prelude
  imports Main "HOL-Library.Word" "HOL-Library.Multiset"
begin

text \<open>
  Shared vocabulary of the development: the machine-integer types of the C++ sources, the types of
  \<^verbatim>\<open>include/taut/types.h\<close>, and the generic facts on lists and words that the component theories use.

  The collection \<open>taut_eval\<close> gathers the
  unfolding equations with which closed instances are computed inside the kernel.
\<close>

unbundle bit_operations_syntax

named_theorems taut_eval \<open>unfolding equations for closed computations\<close>

section \<open>Machine integers and byte strings\<close>

type_synonym u8 = "8 word"
type_synonym u16 = "16 word"
type_synonym u32 = "32 word"
type_synonym u64 = "64 word"

text \<open>\<^verbatim>\<open>std::byte\<close>, and \<^verbatim>\<open>std::span<const std::byte>\<close> / \<^verbatim>\<open>ByteSpan\<close> as the bytes it views.\<close>

type_synonym byte = u8
type_synonym bytes = "byte list"

text \<open>
  Instants of \<^verbatim>\<open>std::chrono::steady_clock\<close> and durations, in nanoseconds. The source's
  \<^verbatim>\<open>std::chrono::milliseconds\<close> values are kept in milliseconds where the source stores them so
  and converted with \<open>ms\<close> where the source converts them implicitly.
\<close>

type_synonym time_point = int
type_synonym millis = int
type_synonym nanos = int

definition ms :: "millis \<Rightarrow> nanos" where
  "ms d = d * 1000000"

text \<open>Signed integer division truncates towards zero, and so does \<^verbatim>\<open>duration_cast<milliseconds>\<close>.\<close>

definition tdiv :: "int \<Rightarrow> int \<Rightarrow> int" where
  "tdiv a b = sgn a * sgn b * (\<bar>a\<bar> div \<bar>b\<bar>)"

definition to_ms :: "nanos \<Rightarrow> millis" where
  "to_ms d = tdiv d 1000000"

section \<open>include/taut/types.h\<close>

datatype Class = Unreliable | ReliableUnordered | ReliableOrdered

datatype MemberState = Alive | Suspect | Dead

fun class_wire :: "Class \<Rightarrow> u8" where
  "class_wire Unreliable = 0"
| "class_wire ReliableUnordered = 1"
| "class_wire ReliableOrdered = 2"

fun state_wire :: "MemberState \<Rightarrow> u8" where
  "state_wire Alive = 0"
| "state_wire Suspect = 1"
| "state_wire Dead = 2"

section \<open>Lists\<close>

lemma nth_list_update_if:
  "i < length xs \<Longrightarrow> xs[j := v] ! i = (if i = j then v else xs ! i)"
  by simp

lemma Cons_nth_drop: "i < length xs \<Longrightarrow> drop i xs = xs ! i # drop (Suc i) xs"
  by (rule Cons_nth_drop_Suc [symmetric])

lemma list_split_at:
  assumes "i < length xs"
  shows "xs = take i xs @ xs ! i # drop (Suc i) xs"
  using assms by (rule id_take_nth_drop)

section \<open>Words\<close>

lemma tdiv_nonneg: "0 \<le> a \<Longrightarrow> 0 < b \<Longrightarrow> tdiv a b = a div b"
  by (cases "a = 0") (simp_all add: tdiv_def)

lemma to_ms_nonneg: "0 \<le> d \<Longrightarrow> 0 \<le> to_ms d"
  by (simp add: to_ms_def tdiv_nonneg pos_imp_zdiv_nonneg_iff)

lemma xor_cancel_right [simp]: "x XOR z = y XOR z \<longleftrightarrow> x = (y :: 'a::len word)"
proof
  assume "x XOR z = y XOR z"
  then have "(x XOR z) XOR z = (y XOR z) XOR z" by simp
  then show "x = y" by (simp only: xor.assoc xor_self_eq xor.right_neutral)
qed simp

lemma xor_cancel_left [simp]: "z XOR x = z XOR y \<longleftrightarrow> x = (y :: 'a::len word)"
  by (simp add: xor.commute [of z])

lemma bit_word_length_le: "LENGTH('a) \<le> n \<Longrightarrow> \<not> bit (x :: 'a::len word) n"
  by (meson bit_imp_le_length leD)

lemma ucast_u8_inject [simp]: "(ucast (b :: u8) :: u32) = ucast c \<longleftrightarrow> b = c"
proof
  assume eq: "(ucast b :: u32) = ucast c"
  show "b = c"
  proof (rule bit_word_eqI)
    fix n assume "n < LENGTH(8)"
    moreover from eq have "bit (ucast b :: u32) n = bit (ucast c :: u32) n" by simp
    ultimately show "bit b n = bit c n" by (simp add: bit_simps)
  qed
qed simp

lemma class_wire_le: "class_wire c \<le> 2"
  by (cases c) simp_all

lemma class_wire_inject [simp]: "class_wire c = class_wire d \<longleftrightarrow> c = d"
  by (cases c; cases d) simp_all

end
