(* ===== verification/Crc32c.thy ===== *)
theory Crc32c
  imports Taut_Prelude
begin

text \<open>
  The checksum of \<^verbatim>\<open>src/crc32c.cc\<close>: the table-driven CRC-32C with its incremental interface, and a
  bit-serial reference. The lemmas show that the table computes the reference, that the checksum can be
  taken in chunks (which the codec uses to skip its own checksum field), and that two byte strings
  of one length that differ in exactly one byte never share a checksum.
\<close>

section \<open>Model\<close>

definition kPoly :: u32 where
  "kPoly = 0x82F63B78"

text \<open>The body of the inner loop of \<^verbatim>\<open>make_table\<close>, and the table it fills.\<close>

definition crc_step :: "u32 \<Rightarrow> u32" where
  "crc_step crc = (if crc AND 1 \<noteq> 0 then drop_bit 1 crc XOR kPoly else drop_bit 1 crc)"

definition make_table :: "u32 list" where
  "make_table = map (\<lambda>i. (crc_step ^^ 8) (word_of_nat i)) [0..<256]"

definition kTable :: "u32 list" where
  "kTable = make_table"

definition crc32c_init :: u32 where
  "crc32c_init = 0xFFFFFFFF"

fun crc32c_update :: "u32 \<Rightarrow> bytes \<Rightarrow> u32" where
  "crc32c_update state [] = state"
| "crc32c_update state (b # data) =
     (let byte = ucast b :: u32;
          idx = ucast ((state XOR byte) AND 0xFF) :: u8
      in crc32c_update (kTable ! unat idx XOR drop_bit 8 state) data)"

definition crc32c_final :: "u32 \<Rightarrow> u32" where
  "crc32c_final state = state XOR 0xFFFFFFFF"

definition crc32c :: "bytes \<Rightarrow> u32" where
  "crc32c data = crc32c_final (crc32c_update crc32c_init data)"

text \<open>The bit-serial reference: eight shift-register steps per byte, no table.\<close>

definition crc_byte :: "u32 \<Rightarrow> byte \<Rightarrow> u32" where
  "crc_byte s b = (crc_step ^^ 8) (s XOR ucast b)"

definition crc32c_bitwise :: "bytes \<Rightarrow> u32" where
  "crc32c_bitwise data = foldl crc_byte 0xFFFFFFFF data XOR 0xFFFFFFFF"

section \<open>The shift register is linear and injective\<close>

lemma crc_step_alt: "crc_step x = drop_bit 1 x XOR (if bit x 0 then kPoly else 0)"
  by (simp add: crc_step_def and_one_eq bit_0 odd_iff_mod_2_eq_one)

lemma bit_crc_step:
  "bit (crc_step x) n \<longleftrightarrow> bit x (Suc n) \<noteq> (bit x 0 \<and> bit kPoly n)"
  by (auto simp: crc_step_alt bit_simps)

lemma crc_step_xor: "crc_step (x XOR y) = crc_step x XOR crc_step y"
  by (rule bit_word_eqI) (auto simp: bit_crc_step bit_simps)

lemma crc_step_pow_xor: "(crc_step ^^ n) (x XOR y) = (crc_step ^^ n) x XOR (crc_step ^^ n) y"
  by (induction n) (simp_all add: crc_step_xor)

lemma bit_kPoly_31: "bit kPoly 31"
  by (simp add: kPoly_def)

lemma inj_crc_step: "inj crc_step"
proof (rule injI)
  fix x y assume eq: "crc_step x = crc_step y"
  have top: "bit (crc_step z) 31 \<longleftrightarrow> bit z 0" for z
    using bit_kPoly_31 bit_imp_le_length [of z 32] by (auto simp: bit_crc_step)
  show "x = y"
  proof (rule bit_word_eqI)
    fix n assume "n < LENGTH(32)"
    show "bit x n \<longleftrightarrow> bit y n"
    proof (cases n)
      case 0
      then show ?thesis using eq top by metis
    next
      case (Suc m)
      from eq have "bit (crc_step x) m \<longleftrightarrow> bit (crc_step y) m" by simp
      moreover from eq top have "bit x 0 \<longleftrightarrow> bit y 0" by metis
      ultimately show ?thesis unfolding Suc by (auto simp: bit_crc_step)
    qed
  qed
qed

lemma inj_crc_step_pow: "inj (crc_step ^^ n)"
  using inj_crc_step by (simp add: inj_fn)

lemma crc_step_pow_shift:
  assumes "\<And>i. i < n \<Longrightarrow> \<not> bit x i"
  shows "(crc_step ^^ n) x = drop_bit n x"
  using assms
proof (induction n)
  case (Suc n)
  then have "(crc_step ^^ n) x = drop_bit n x" by simp
  moreover have "\<not> bit (drop_bit n x) 0" using Suc.prems [of n] by (simp add: bit_simps)
  ultimately show ?case by (simp add: crc_step_alt [of "drop_bit n x"])
qed simp

section \<open>The table computes the register\<close>

lemma unat_u8_less: "unat (i :: u8) < 256"
  using unsigned_less [of i] by simp

lemma kTable_nth: "kTable ! unat (i :: u8) = (crc_step ^^ 8) (ucast i)"
  using unat_u8_less [of i]
  by (simp add: kTable_def make_table_def nth_map unsigned_of_nat del: funpow.simps)

lemma crc_byte_table:
  "kTable ! unat (ucast ((s XOR ucast b) AND 0xFF) :: u8) XOR drop_bit 8 s = crc_byte s b"
proof -
  let ?x = "s XOR ucast b"
  let ?lo = "?x AND 0xFF" and ?hi = "push_bit 8 (drop_bit 8 ?x)"
  have mask: "(0xFF :: u32) = mask 8" by (simp add: mask_numeral)
  have split: "?x = ?lo XOR ?hi"
    by (rule bit_word_eqI) (auto simp: mask bit_simps)
  have low: "(ucast (ucast ?lo :: u8) :: u32) = ?lo"
    by (rule bit_word_eqI) (auto simp: mask bit_simps)
  have high: "drop_bit 8 ?x = drop_bit 8 s"
    by (rule bit_word_eqI) (auto simp: bit_simps bit_word_length_le)
  have "(crc_step ^^ 8) ?hi = drop_bit 8 ?hi"
    by (rule crc_step_pow_shift) (simp add: bit_simps)
  also have "\<dots> = drop_bit 8 ?x"
    by (rule bit_word_eqI) (auto simp: bit_simps bit_word_length_le dest: bit_imp_le_length)
  also note high
  finally have hi: "(crc_step ^^ 8) ?hi = drop_bit 8 s" .
  have "crc_byte s b = (crc_step ^^ 8) (?lo XOR ?hi)"
    unfolding crc_byte_def by (rule arg_cong [OF split])
  also have "\<dots> = kTable ! unat (ucast ?lo :: u8) XOR drop_bit 8 s"
    by (simp only: crc_step_pow_xor hi kTable_nth low)
  finally show ?thesis ..
qed

lemma crc32c_update_fold: "crc32c_update s data = foldl crc_byte s data"
  by (induction data arbitrary: s) (simp_all add: crc_byte_table Let_def)

declare crc32c_update.simps(2) [simp del]

lemma crc32c_update_append:
  "crc32c_update s (xs @ ys) = crc32c_update (crc32c_update s xs) ys"
  by (simp add: crc32c_update_fold)

section \<open>Detection of corrupted bytes\<close>

lemma crc_byte_inject_state: "crc_byte s b = crc_byte t b \<longleftrightarrow> s = t"
  unfolding crc_byte_def inj_eq [OF inj_crc_step_pow] by simp

lemma crc_byte_inject_byte: "crc_byte s b = crc_byte s c \<longleftrightarrow> b = c"
  unfolding crc_byte_def inj_eq [OF inj_crc_step_pow] by simp

lemma foldl_crc_byte_inject: "foldl crc_byte s data = foldl crc_byte t data \<longleftrightarrow> s = t"
  by (induction data arbitrary: s t) (simp_all add: crc_byte_inject_state)

lemma crc32c_update_one_byte:
  "crc32c_update s (xs @ b # ys) = crc32c_update s (xs @ c # ys) \<longleftrightarrow> b = c"
  by (simp add: crc32c_update_fold foldl_crc_byte_inject crc_byte_inject_byte)

lemma crc32c_final_inject [simp]: "crc32c_final s = crc32c_final t \<longleftrightarrow> s = t"
  by (simp add: crc32c_final_def)

lemma crc32c_detects_byte_update':
  assumes "i < length ys" "ys ! i \<noteq> b"
  shows "crc32c (xs @ ys[i := b]) \<noteq> crc32c (xs @ ys)"
proof -
  have "ys = take i ys @ ys ! i # drop (Suc i) ys" by (rule id_take_nth_drop [OF assms(1)])
  moreover have "ys[i := b] = take i ys @ b # drop (Suc i) ys" by (rule upd_conv_take_nth_drop [OF assms(1)])
  ultimately have "crc32c (xs @ ys[i := b]) = crc32c (xs @ ys) \<longleftrightarrow> b = ys ! i"
    using crc32c_update_one_byte [of _ "xs @ take i ys" b "drop (Suc i) ys" "ys ! i"]
    by (metis append_assoc crc32c_def crc32c_final_inject)
  with assms(2) show ?thesis by auto
qed

lemma crc32c_detects_byte_update:
  assumes "i < length xs" "xs ! i \<noteq> b"
  shows "crc32c (xs[i := b] @ ys) \<noteq> crc32c (xs @ ys)"
  using crc32c_detects_byte_update' [of i "xs @ ys" b "[]"] assms
  by (simp add: nth_append list_update_append)

section \<open>Evaluation\<close>

lemma crc_byte_eval:
  "crc_byte s b = crc_step (crc_step (crc_step (crc_step
     (crc_step (crc_step (crc_step (crc_step (s XOR ucast b))))))))"
  by (simp add: crc_byte_def eval_nat_numeral)

lemmas crc_eval [taut_eval] =
  crc32c_def crc32c_final_def crc32c_init_def crc32c_update_fold crc_byte_eval crc_step_def kPoly_def

section \<open>Properties\<close>

text \<open>C35: The table-driven checksum equals the bit-serial CRC-32C register with polynomial
  0x82F63B78, initial value and final xor 0xFFFFFFFF, on every byte string.\<close>

theorem crc32c_table_correct: "crc32c data = crc32c_bitwise data"
  by (simp add: crc32c_def crc32c_bitwise_def crc32c_final_def crc32c_init_def crc32c_update_fold)

text \<open>Changing exactly one byte of a byte string, to any other value, changes its checksum.\<close>

theorem crc32c_detects_byte:
  assumes "b \<noteq> c"
  shows "crc32c (xs @ b # ys) \<noteq> crc32c (xs @ c # ys)"
  using assms by (simp add: crc32c_def crc32c_update_one_byte)

theorem crc32c_detects_byte_witness:
  "(2 :: byte) \<noteq> 3 \<and> crc32c ([1] @ 2 # [4]) \<noteq> crc32c ([1] @ 3 # [4])"
  using crc32c_detects_byte [of 2 3 "[1]" "[4]"] by simp

text \<open>The published check value of CRC-32C, for the ASCII digits 1 to 9.\<close>

lemma crc32c_check_value: "crc32c [0x31,0x32,0x33,0x34,0x35,0x36,0x37,0x38,0x39] = 0xE3069283"
  by (simp add: taut_eval)

end
