(* ===== verification/Codec.thy ===== *)
theory Codec
  imports Crc32c "HOL-Library.Monad_Syntax"
begin

text \<open>
  The wire format of \<^verbatim>\<open>src/codec.cc\<close> and \<^verbatim>\<open>include/taut/codec.h\<close>. \<open>encode\<close> fills a
  caller's buffer by stores at fixed offsets, as the source does; \<open>decode\<close> reads through loads that fail when
  they leave the input, so that an out-of-bounds read would be the visible value \<open>OutOfBounds\<close>.
  \<open>wire_image\<close> is the declarative layout of one datagram. The lemmas show that \<open>encode\<close> produces exactly
  that layout, that \<open>decode\<close> never reads out of bounds, that the two are mutually inverse, and that no datagram with one
  corrupted byte is accepted.
\<close>

section \<open>Constants and the packet type\<close>

definition kMagic0 :: u8 where "kMagic0 = 0x7A"
definition kMagic1 :: u8 where "kMagic1 = 0x75"
definition kVersion :: u8 where "kVersion = 1"
definition kBaseHeaderSize :: nat where "kBaseHeaderSize = 21"
definition kSackSize :: nat where "kSackSize = 8"
definition kMaxDatagram :: nat where "kMaxDatagram = 1200"
definition kCrcOffset :: nat where "kCrcOffset = 17"

text \<open>
  \<^verbatim>\<open>enum class PacketType : std::uint8_t\<close>: the decoder casts an unchecked nibble to it, so a value is any byte.
\<close>

type_synonym PacketType = u8

definition PT_Data :: PacketType where "PT_Data = 1"
definition PT_Ack :: PacketType where "PT_Ack = 2"
definition PT_Ping :: PacketType where "PT_Ping = 3"
definition PT_PingReq :: PacketType where "PT_PingReq = 4"
definition PT_Pong :: PacketType where "PT_Pong = 5"
definition PT_Join :: PacketType where "PT_Join = 6"
definition PT_ProbeWindow :: PacketType where "PT_ProbeWindow = 7"

definition SackPresent :: u8 where "SackPresent = 0x01"

datatype DecodeError = TooShort | BadMagic | BadVersion | LengthOverrun | BadCrc | Unsupported
  | OutOfBounds \<comment> \<open>not a value of the source: a load outside the input\<close>

record Packet =
  p_version :: u8
  p_type :: PacketType
  p_flags :: u8
  p_cls :: Class
  p_seq :: u32
  p_cum_ack :: u32
  p_adv_window :: u16
  p_sack :: u64
  p_payload :: bytes

text \<open>\<^verbatim>\<open>Packet p{}\<close>: value initialisation.\<close>

definition empty_packet :: Packet where
  "empty_packet = \<lparr>p_version = 0, p_type = 0, p_flags = 0, p_cls = Unreliable, p_seq = 0,
     p_cum_ack = 0, p_adv_window = 0, p_sack = 0, p_payload = []\<rparr>"

section \<open>Byte access\<close>

definition load_u8 :: "bytes \<Rightarrow> nat \<Rightarrow> u8 option" where
  "load_u8 b off = (if off < length b then Some (b ! off) else None)"

definition load_u16_le :: "bytes \<Rightarrow> nat \<Rightarrow> u16 option" where
  "load_u16_le b off = do {
     b0 \<leftarrow> load_u8 b off;
     b1 \<leftarrow> load_u8 b (off + 1);
     Some (ucast b0 OR push_bit 8 (ucast b1)) }"

definition load_u32_le :: "bytes \<Rightarrow> nat \<Rightarrow> u32 option" where
  "load_u32_le b off = do {
     b0 \<leftarrow> load_u8 b off;
     b1 \<leftarrow> load_u8 b (off + 1);
     b2 \<leftarrow> load_u8 b (off + 2);
     b3 \<leftarrow> load_u8 b (off + 3);
     Some (ucast b0 OR push_bit 8 (ucast b1) OR push_bit 16 (ucast b2) OR push_bit 24 (ucast b3)) }"

definition store_u8 :: "bytes \<Rightarrow> nat \<Rightarrow> u8 \<Rightarrow> bytes" where
  "store_u8 b off v = b[off := v]"

definition store_u16_le :: "bytes \<Rightarrow> nat \<Rightarrow> u16 \<Rightarrow> bytes" where
  "store_u16_le b off v =
     (let b = store_u8 b off (ucast (v AND 0xFF))
      in store_u8 b (off + 1) (ucast (drop_bit 8 v AND 0xFF)))"

definition store_u32_le :: "bytes \<Rightarrow> nat \<Rightarrow> u32 \<Rightarrow> bytes" where
  "store_u32_le b off v =
     (let b = store_u8 b off (ucast (v AND 0xFF));
          b = store_u8 b (off + 1) (ucast (drop_bit 8 v AND 0xFF));
          b = store_u8 b (off + 2) (ucast (drop_bit 16 v AND 0xFF))
      in store_u8 b (off + 3) (ucast (drop_bit 24 v AND 0xFF)))"

text \<open>The loops of the 64-bit accessors, over \<open>i = 0, \<dots>, 7\<close>.\<close>

definition load_u64_le :: "bytes \<Rightarrow> nat \<Rightarrow> u64 option" where
  "load_u64_le b off =
     foldl (\<lambda>acc i. do {
        v \<leftarrow> acc;
        x \<leftarrow> load_u8 b (off + i);
        Some (v OR push_bit (8 * i) (ucast x)) }) (Some 0) [0..<8]"

definition store_u64_le :: "bytes \<Rightarrow> nat \<Rightarrow> u64 \<Rightarrow> bytes" where
  "store_u64_le b off v =
     foldl (\<lambda>b i. store_u8 b (off + i) (ucast (drop_bit (8 * i) v AND 0xFF))) b [0..<8]"

definition subspan :: "bytes \<Rightarrow> nat \<Rightarrow> nat \<Rightarrow> bytes option" where
  "subspan b off n = (if off + n \<le> length b then Some (take n (drop off b)) else None)"

text \<open>\<^verbatim>\<open>std::memcpy(out.data() + off, data, size)\<close>\<close>

definition memcpy :: "bytes \<Rightarrow> nat \<Rightarrow> bytes \<Rightarrow> bytes" where
  "memcpy out off data = take off out @ data @ drop (off + length data) out"

section \<open>encode\<close>

definition has_sack :: "u8 \<Rightarrow> bool" where
  "has_sack flags \<longleftrightarrow> flags AND SackPresent \<noteq> 0"

definition header_len :: "u8 \<Rightarrow> nat" where
  "header_len flags = kBaseHeaderSize + (if has_sack flags then kSackSize else 0)"

definition encode :: "Packet \<Rightarrow> bytes \<Rightarrow> nat \<times> bytes" where
  "encode pkt out =
    (if p_flags pkt AND NOT SackPresent \<noteq> 0 then (0, out) else
     let sack = has_sack (p_flags pkt);
         hlen = header_len (p_flags pkt);
         payload_len = length (p_payload pkt)
     in if payload_len > 0xFFFF then (0, out) else
     let total = hlen + payload_len
     in if total > kMaxDatagram \<or> length out < total then (0, out) else
     let out = store_u8 out 0 kMagic0;
         out = store_u8 out 1 kMagic1;
         out = store_u8 out 2 (push_bit 4 kVersion OR (p_type pkt AND 0x0F));
         out = store_u8 out 3 (p_flags pkt);
         out = store_u8 out 4 (class_wire (p_cls pkt));
         out = store_u32_le out 5 (p_seq pkt);
         out = store_u32_le out 9 (p_cum_ack pkt);
         out = store_u16_le out 13 (p_adv_window pkt);
         out = store_u16_le out 15 (word_of_nat payload_len);
         out = store_u32_le out kCrcOffset 0;
         out = (if sack then store_u64_le out kBaseHeaderSize (p_sack pkt) else out);
         out = (if payload_len > 0 then memcpy out hlen (p_payload pkt) else out);
         crc = crc32c (take total out);
         out = store_u32_le out kCrcOffset crc
     in (total, out))"

section \<open>decode\<close>

definition class_of_wire :: "u8 \<Rightarrow> Class" where
  "class_of_wire v = (if v = 0 then Unreliable else if v = 1 then ReliableUnordered
     else ReliableOrdered)"

definition decode_body :: "bytes \<Rightarrow> (DecodeError + Packet) option" where
  "decode_body d =
    (if length d < kBaseHeaderSize then Some (Inl TooShort) else do {
     m0 \<leftarrow> load_u8 d 0;
     m1 \<leftarrow> load_u8 d 1;
     if m0 \<noteq> kMagic0 \<or> m1 \<noteq> kMagic1 then Some (Inl BadMagic) else do {
     ver_type \<leftarrow> load_u8 d 2;
     let version = drop_bit 4 ver_type;
     let type = ver_type AND 0x0F;
     if version \<noteq> kVersion then Some (Inl BadVersion) else do {
     flags \<leftarrow> load_u8 d 3;
     let sack = has_sack flags;
     let hlen = header_len flags;
     if length d < hlen then Some (Inl TooShort) else do {
     payload_len \<leftarrow> load_u16_le d 15;
     let total = hlen + unat payload_len;
     if total > kMaxDatagram \<or> length d \<noteq> total then Some (Inl LengthOverrun) else do {
     stored_crc \<leftarrow> load_u32_le d kCrcOffset;
     let crc = crc32c_init;
     head \<leftarrow> subspan d 0 kCrcOffset;
     let crc = crc32c_update crc head;
     let crc = crc32c_update crc [0, 0, 0, 0];
     rest \<leftarrow> subspan d kBaseHeaderSize (total - kBaseHeaderSize);
     let crc = crc32c_update crc rest;
     let crc = crc32c_final crc;
     if crc \<noteq> stored_crc then Some (Inl BadCrc) else
     if flags AND NOT SackPresent \<noteq> 0 then Some (Inl Unsupported) else do {
     cls_raw \<leftarrow> load_u8 d 4;
     if cls_raw > class_wire ReliableOrdered then Some (Inl Unsupported) else do {
     seq \<leftarrow> load_u32_le d 5;
     cum_ack \<leftarrow> load_u32_le d 9;
     adv_window \<leftarrow> load_u16_le d 13;
     bitmap \<leftarrow> (if sack then load_u64_le d kBaseHeaderSize else Some 0);
     payload \<leftarrow> subspan d hlen (unat payload_len);
     Some (Inr \<lparr>p_version = version, p_type = type, p_flags = flags,
       p_cls = class_of_wire cls_raw, p_seq = seq, p_cum_ack = cum_ack,
       p_adv_window = adv_window, p_sack = bitmap, p_payload = payload\<rparr>) }}}}}}})"

definition decode :: "bytes \<Rightarrow> DecodeError + Packet" where
  "decode d = (case decode_body d of None \<Rightarrow> Inl OutOfBounds | Some r \<Rightarrow> r)"

section \<open>The declarative layout\<close>

definition le16 :: "u16 \<Rightarrow> bytes" where
  "le16 v = [ucast v, ucast (drop_bit 8 v)]"

definition le32 :: "u32 \<Rightarrow> bytes" where
  "le32 v = [ucast v, ucast (drop_bit 8 v), ucast (drop_bit 16 v), ucast (drop_bit 24 v)]"

definition le64 :: "u64 \<Rightarrow> bytes" where
  "le64 v = map (\<lambda>i. ucast (drop_bit (8 * i) v)) [0..<8]"

definition wire_prefix :: "Packet \<Rightarrow> bytes" where
  "wire_prefix p = [kMagic0, kMagic1, 0x10 OR (p_type p AND 0x0F), p_flags p, class_wire (p_cls p)]
     @ le32 (p_seq p) @ le32 (p_cum_ack p) @ le16 (p_adv_window p)
     @ le16 (word_of_nat (length (p_payload p)))"

definition wire_suffix :: "Packet \<Rightarrow> bytes" where
  "wire_suffix p = (if has_sack (p_flags p) then le64 (p_sack p) else []) @ p_payload p"

definition wire_crc :: "Packet \<Rightarrow> u32" where
  "wire_crc p = crc32c (wire_prefix p @ [0, 0, 0, 0] @ wire_suffix p)"

definition wire_image :: "Packet \<Rightarrow> bytes" where
  "wire_image p = wire_prefix p @ le32 (wire_crc p) @ wire_suffix p"

text \<open>A packet that \<open>encode\<close> accepts, and one that \<open>decode\<close> can produce.\<close>

definition encodable :: "Packet \<Rightarrow> bool" where
  "encodable p \<longleftrightarrow> p_flags p AND NOT SackPresent = 0
     \<and> header_len (p_flags p) + length (p_payload p) \<le> kMaxDatagram"

section \<open>Little-endian fields\<close>

definition ld16 :: "u8 \<Rightarrow> u8 \<Rightarrow> u16" where
  "ld16 a b = ucast a OR push_bit 8 (ucast b)"

definition ld32 :: "u8 \<Rightarrow> u8 \<Rightarrow> u8 \<Rightarrow> u8 \<Rightarrow> u32" where
  "ld32 a b c d = ucast a OR push_bit 8 (ucast b) OR push_bit 16 (ucast c) OR push_bit 24 (ucast d)"

definition ld64 :: "bytes \<Rightarrow> u64" where
  "ld64 bs = foldl (\<lambda>v i. v OR push_bit (8 * i) (ucast (bs ! i))) 0 [0..<8]"

lemma bit_ld16: "bit (ld16 a b) n \<longleftrightarrow> (if n < 8 then bit a n else bit b (n - 8))"
  by (auto simp: ld16_def bit_simps bit_word_length_le dest: bit_imp_le_length)

lemma bit_ld32:
  "bit (ld32 a b c d) n \<longleftrightarrow> (if n < 8 then bit a n else if n < 16 then bit b (n - 8)
     else if n < 24 then bit c (n - 16) else bit d (n - 24))"
  by (auto simp: ld32_def bit_simps bit_word_length_le dest: bit_imp_le_length)

lemma ld16_le16 [simp]: "ld16 (ucast v) (ucast (drop_bit 8 v)) = v"
  by (rule bit_word_eqI) (auto simp: bit_ld16 bit_simps)

lemma le16_ld16 [simp]: "le16 (ld16 a b) = [a, b]"
  by (auto intro!: bit_word_eqI simp: le16_def bit_ld16 bit_simps)

lemma ld32_le32 [simp]:
  "ld32 (ucast v) (ucast (drop_bit 8 v)) (ucast (drop_bit 16 v)) (ucast (drop_bit 24 v)) = v"
  by (rule bit_word_eqI) (auto simp: bit_ld32 bit_simps)

lemma le32_ld32 [simp]: "le32 (ld32 a b c d) = [a, b, c, d]"
  by (auto intro!: bit_word_eqI simp: le32_def bit_ld32 bit_simps)

lemma ld32_inject: "ld32 a b c d = ld32 a' b' c' d' \<longleftrightarrow> a = a' \<and> b = b' \<and> c = c' \<and> d = d'"
proof
  assume "ld32 a b c d = ld32 a' b' c' d'"
  then have "le32 (ld32 a b c d) = le32 (ld32 a' b' c' d')" by simp
  then show "a = a' \<and> b = b' \<and> c = c' \<and> d = d'" by simp
qed simp

lemma bit_ld64:
  assumes "length bs = 8"
  shows "bit (ld64 bs) n \<longleftrightarrow> n < 64 \<and> bit (bs ! (n div 8)) (n mod 8)"
proof -
  have "bit (foldl (\<lambda>v i. v OR push_bit (8 * i) (ucast (bs ! i))) 0 [0..<k] :: u64) n
      \<longleftrightarrow> n < 64 \<and> n < 8 * k \<and> bit (bs ! (n div 8)) (n mod 8)" for k
  proof (induction k)
    case (Suc k)
    have "bit (push_bit (8 * k) (ucast (bs ! k)) :: u64) n
        \<longleftrightarrow> n < 64 \<and> 8 * k \<le> n \<and> n < 8 * k + 8 \<and> bit (bs ! (n div 8)) (n mod 8)"
    proof (cases "8 * k \<le> n \<and> n < 8 * k + 8")
      case True
      then have "n div 8 = k" "n mod 8 = n - 8 * k" by (auto simp: div_nat_eqI modulo_nat_def)
      then show ?thesis using True by (auto simp: bit_simps)
    next
      case False
      then show ?thesis by (auto simp: bit_simps bit_word_length_le)
    qed
    with Suc.IH show ?case by (auto simp: bit_or_iff)
  qed simp
  from this [of 8] show ?thesis by (auto simp: ld64_def)
qed

lemma length_le64 [simp]: "length (le64 v) = 8"
  by (simp add: le64_def)

lemma ld64_le64 [simp]: "ld64 (le64 v) = v"
  by (rule bit_word_eqI) (auto simp: bit_ld64, auto simp: le64_def bit_simps)

lemma le64_ld64 [simp]: "length bs = 8 \<Longrightarrow> le64 (ld64 bs) = bs"
proof (rule nth_equalityI)
  fix i assume len: "length bs = 8" and "i < length (le64 (ld64 bs))"
  then have i: "i < 8" by simp
  show "le64 (ld64 bs) ! i = bs ! i"
  proof (rule bit_word_eqI)
    fix n assume "n < LENGTH(8)"
    then have "(8 * i + n) div 8 = i" "(8 * i + n) mod 8 = n" "n < 8" by auto
    then show "bit (le64 (ld64 bs) ! i) n = bit (bs ! i) n"
      using i by (simp add: le64_def bit_simps bit_ld64 len)
  qed
qed simp

lemma length_le [simp]: "length (le16 a) = 2" "length (le32 b) = 4"
  by (simp_all add: le16_def le32_def)

text \<open>In range, the checked loads are plain reads.\<close>

lemma load_in_range:
  "off < length b \<Longrightarrow> load_u8 b off = Some (b ! off)"
  "off + 1 < length b \<Longrightarrow> load_u16_le b off = Some (ld16 (b ! off) (b ! (off + 1)))"
  "off + 3 < length b \<Longrightarrow>
     load_u32_le b off = Some (ld32 (b ! off) (b ! (off + 1)) (b ! (off + 2)) (b ! (off + 3)))"
  by (simp_all add: load_u8_def load_u16_le_def load_u32_le_def ld16_def ld32_def)

lemma load_u64_in_range:
  assumes "off + 8 \<le> length b"
  shows "load_u64_le b off = Some (ld64 (take 8 (drop off b)))"
proof -
  have "foldl (\<lambda>acc i. do { v \<leftarrow> acc; x \<leftarrow> load_u8 b (off + i);
          Some (v OR push_bit (8 * i) (ucast x)) }) (Some 0) [0..<k]
      = Some (foldl (\<lambda>v i. v OR push_bit (8 * i) (ucast (take 8 (drop off b) ! i))) (0 :: u64) [0..<k])"
    if "k \<le> 8" for k
    using that
  proof (induction k)
    case (Suc k)
    then show ?case using assms by (simp add: load_u8_def)
  qed simp
  then show ?thesis by (simp add: load_u64_le_def ld64_def)
qed

section \<open>encode writes the wire image\<close>

lemma ucast_and_mask_8: "(ucast (v AND mask 8 :: 'a::len word) :: u8) = ucast v"
  by (rule bit_word_eqI) (auto simp: bit_simps dest: bit_imp_le_length)

lemma and_mask_ucast [simp]:
  "(ucast (v AND 0xFF :: u16) :: u8) = ucast v" "(ucast (w AND 0xFF :: u32) :: u8) = ucast w"
  "(ucast (x AND 0xFF :: u64) :: u8) = ucast x"
  using ucast_and_mask_8 [of v] ucast_and_mask_8 [of w] ucast_and_mask_8 [of x]
  by (simp_all add: mask_numeral)

lemma store_u64_le_cons:
  "store_u64_le (h @ [x0, x1, x2, x3, x4, x5, x6, x7] @ r) (length h) v = h @ le64 v @ r"
  by (simp add: store_u64_le_def store_u8_def le64_def upt_rec list_update_append)

lemma list21E:
  assumes "21 \<le> length xs"
  obtains a0 a1 a2 a3 a4 a5 a6 a7 a8 a9 a10 a11 a12 a13 a14 a15 a16 a17 a18 a19 a20 r
  where "xs = a0 # a1 # a2 # a3 # a4 # a5 # a6 # a7 # a8 # a9 # a10 # a11 # a12 # a13 # a14
   # a15 # a16 # a17 # a18 # a19 # a20 # r"
  using assms by (auto simp: eval_nat_numeral Suc_le_length_iff)

lemma list8E:
  assumes "length xs = 8"
  obtains a0 a1 a2 a3 a4 a5 a6 a7 where "xs = [a0, a1, a2, a3, a4, a5, a6, a7]"
  using assms by (auto simp: eval_nat_numeral length_Suc_conv)

lemmas store_defs = store_u8_def store_u16_le_def store_u32_le_def Let_def

text \<open>The header stores, as one list update on a buffer of at least 21 bytes.\<close>

definition store_header :: "Packet \<Rightarrow> bytes \<Rightarrow> bytes" where
  "store_header pkt out =
     (let out = store_u8 out 0 kMagic0;
         out = store_u8 out 1 kMagic1;
         out = store_u8 out 2 (push_bit 4 kVersion OR (p_type pkt AND 0x0F));
         out = store_u8 out 3 (p_flags pkt);
         out = store_u8 out 4 (class_wire (p_cls pkt));
         out = store_u32_le out 5 (p_seq pkt);
         out = store_u32_le out 9 (p_cum_ack pkt);
         out = store_u16_le out 13 (p_adv_window pkt);
         out = store_u16_le out 15 (word_of_nat (length (p_payload pkt)))
     in store_u32_le out kCrcOffset 0)"

lemma length_store [simp]:
  "length (store_u8 b off v) = length b" "length (store_u16_le b off w) = length b"
  "length (store_u32_le b off x) = length b" "length (store_header p b) = length b"
  by (simp_all add: store_defs store_header_def)

lemma length_wire_prefix [simp]: "length (wire_prefix p) = 17"
  by (simp add: wire_prefix_def)

lemma store_header_eq:
  assumes "21 \<le> length out"
  shows "store_header p out = wire_prefix p @ [0, 0, 0, 0] @ drop 21 out"
proof -
  from assms show ?thesis
    by (cases rule: list21E)
      (simp add: store_header_def store_defs kCrcOffset_def eval_nat_numeral wire_prefix_def
      le16_def le32_def kVersion_def)
qed

lemma store_u32_le_at:
  assumes "length h = off" "length m = 4"
  shows "store_u32_le (h @ m @ r) off v = h @ le32 v @ r"
proof -
  from assms obtain a b c d where m: "m = [a, b, c, d]"
    by (auto simp: length_Suc_conv eval_nat_numeral)
  show ?thesis unfolding m
    using assms by (simp add: store_defs le32_def list_update_append)
qed

lemma store_u64_le_at:
  assumes "length h = off" "length m = 8"
  shows "store_u64_le (h @ m @ r) off v = h @ le64 v @ r"
  unfolding assms(1) [symmetric]
  using assms(2) by (cases rule: list8E) (simp add: store_u64_le_cons [simplified])

lemma memcpy_at:
  "length h = off \<Longrightarrow> (if 0 < length d then memcpy (h @ r) off d else h @ r) = h @ d @ drop (length d) r"
  by (simp add: memcpy_def)

definition total_len :: "Packet \<Rightarrow> nat" where
  "total_len p = header_len (p_flags p) + length (p_payload p)"

lemma length_wire_image [simp]: "length (wire_image p) = total_len p"
  by (simp add: wire_image_def wire_suffix_def total_len_def header_len_def kBaseHeaderSize_def
      kSackSize_def)

lemma encode_layout:
  assumes "21 \<le> length out"
    and "header_len (p_flags p) + length (p_payload p) \<le> length out"
  defines "o1 \<equiv> store_header p out"
  defines "o2 \<equiv> (if has_sack (p_flags p) then store_u64_le o1 kBaseHeaderSize (p_sack p) else o1)"
  defines "o3 \<equiv> (if 0 < length (p_payload p) then memcpy o2 (header_len (p_flags p)) (p_payload p) else o2)"
  shows "o3 = wire_prefix p @ [0, 0, 0, 0] @ wire_suffix p @ drop (total_len p) out"
proof (cases "has_sack (p_flags p)")
  case True
  with assms(2) have "29 \<le> length out" by (simp add: header_len_def kBaseHeaderSize_def kSackSize_def)
  have "drop 21 out = take 8 (drop 21 out) @ drop 8 (drop 21 out)"
    by (simp only: append_take_drop_id)
  then have "o1 = (wire_prefix p @ [0, 0, 0, 0]) @ take 8 (drop 21 out) @ drop (8 + 21) out"
    using store_header_eq [OF assms(1)] unfolding o1_def by (simp only: append_assoc drop_drop)
  with True \<open>29 \<le> length out\<close> have "o2 = (wire_prefix p @ [0, 0, 0, 0]) @ le64 (p_sack p) @ drop (8 + 21) out"
    unfolding o2_def by (simp only: if_True) (rule store_u64_le_at, simp_all add: kBaseHeaderSize_def)
  then have o2: "o2 = (wire_prefix p @ [0, 0, 0, 0] @ le64 (p_sack p)) @ drop (8 + 21) out" by simp
  from True show ?thesis
    unfolding o3_def o2
    by (subst memcpy_at) (simp_all add: header_len_def kBaseHeaderSize_def kSackSize_def
      wire_suffix_def total_len_def add.commute)
next
  case False
  then have o2: "o2 = (wire_prefix p @ [0, 0, 0, 0]) @ drop 21 out"
    using store_header_eq [OF assms(1)] unfolding o2_def o1_def by simp
  from False show ?thesis
    unfolding o3_def o2
    by (subst memcpy_at) (simp_all add: header_len_def kBaseHeaderSize_def kSackSize_def
      wire_suffix_def total_len_def add.commute)
qed

lemma encode_eq:
  "encode p out = (if encodable p \<and> total_len p \<le> length out
     then (total_len p, wire_image p @ drop (total_len p) out) else (0, out))"
proof (cases "encodable p \<and> total_len p \<le> length out")
  case True
  then have len: "21 \<le> length out" "header_len (p_flags p) + length (p_payload p) \<le> length out"
    by (auto simp: total_len_def header_len_def kBaseHeaderSize_def)
  let ?o1 = "store_header p out"
  let ?o2 = "if has_sack (p_flags p) then store_u64_le ?o1 kBaseHeaderSize (p_sack p) else ?o1"
  let ?o3 = "if 0 < length (p_payload p) then memcpy ?o2 (header_len (p_flags p)) (p_payload p) else ?o2"
  have o3: "?o3 = wire_prefix p @ [0, 0, 0, 0] @ wire_suffix p @ drop (total_len p) out"
    by (rule encode_layout [OF len])
  have crc: "crc32c (take (total_len p) ?o3) = wire_crc p"
  proof -
    have "length (wire_prefix p @ [0, 0, 0, 0] @ wire_suffix p) = total_len p"
      by (simp add: total_len_def header_len_def kBaseHeaderSize_def kSackSize_def wire_suffix_def)
    then show ?thesis unfolding o3 wire_crc_def
      by (metis append_assoc append_eq_conv_conj)
  qed
  have "encode p out = (total_len p, store_u32_le ?o3 kCrcOffset (crc32c (take (total_len p) ?o3)))"
    using True unfolding encode_def encodable_def total_len_def header_len_def store_header_def
    by (auto simp: Let_def kMaxDatagram_def)
  also have "\<dots> = (total_len p, wire_image p @ drop (total_len p) out)"
    unfolding crc unfolding o3 wire_image_def
    using store_u32_le_at [of "wire_prefix p" kCrcOffset "[0,0,0,0]"] by (simp add: kCrcOffset_def)
  finally show ?thesis using True by simp
next
  case False
  then show ?thesis
    unfolding encode_def encodable_def total_len_def header_len_def
    by (auto simp: Let_def)
qed

section \<open>decode as a validity check and a plain parse\<close>

definition payload_len_of :: "bytes \<Rightarrow> nat" where
  "payload_len_of d = unat (ld16 (d ! 15) (d ! 16))"

definition stored_crc :: "bytes \<Rightarrow> u32" where
  "stored_crc d = ld32 (d ! 17) (d ! 18) (d ! 19) (d ! 20)"

definition crc_input :: "bytes \<Rightarrow> bytes" where
  "crc_input d = take 17 d @ [0, 0, 0, 0] @ drop 21 d"

definition parse :: "bytes \<Rightarrow> Packet" where
  "parse d = \<lparr>p_version = drop_bit 4 (d ! 2), p_type = d ! 2 AND 0x0F, p_flags = d ! 3,
     p_cls = class_of_wire (d ! 4), p_seq = ld32 (d ! 5) (d ! 6) (d ! 7) (d ! 8),
     p_cum_ack = ld32 (d ! 9) (d ! 10) (d ! 11) (d ! 12), p_adv_window = ld16 (d ! 13) (d ! 14),
     p_sack = (if has_sack (d ! 3) then ld64 (take 8 (drop 21 d)) else 0),
     p_payload = drop (header_len (d ! 3)) d\<rparr>"

lemma crc_chunks:
  "crc32c_final (crc32c_update (crc32c_update (crc32c_update crc32c_init a) b) c) = crc32c (a @ b @ c)"
  by (simp add: crc32c_def crc32c_update_append)

lemma load_header:
  assumes "21 \<le> length d"
  shows "load_u8 d 0 = Some (d ! 0)" "load_u8 d (Suc 0) = Some (d ! Suc 0)" "load_u8 d 2 = Some (d ! 2)"
    "load_u8 d 3 = Some (d ! 3)" "load_u8 d 4 = Some (d ! 4)"
    "load_u32_le d 5 = Some (p_seq (parse d))" "load_u32_le d 9 = Some (p_cum_ack (parse d))"
    "load_u16_le d 13 = Some (p_adv_window (parse d))"
    "load_u16_le d 15 = Some (ld16 (d ! 15) (d ! 16))"
    "load_u32_le d kCrcOffset = Some (stored_crc d)"
    "subspan d 0 kCrcOffset = Some (take 17 d)"
    "subspan d kBaseHeaderSize (length d - kBaseHeaderSize) = Some (drop 21 d)"
proof -
  from assms have "d \<noteq> []" by auto
  with assms show "load_u8 d 0 = Some (d ! 0)" "load_u8 d (Suc 0) = Some (d ! Suc 0)"
    "load_u8 d 2 = Some (d ! 2)"
    "load_u8 d 3 = Some (d ! 3)" "load_u8 d 4 = Some (d ! 4)"
    "load_u32_le d 5 = Some (p_seq (parse d))" "load_u32_le d 9 = Some (p_cum_ack (parse d))"
    "load_u16_le d 13 = Some (p_adv_window (parse d))"
    "load_u16_le d 15 = Some (ld16 (d ! 15) (d ! 16))"
    "load_u32_le d kCrcOffset = Some (stored_crc d)"
    "subspan d 0 kCrcOffset = Some (take 17 d)"
    "subspan d kBaseHeaderSize (length d - kBaseHeaderSize) = Some (drop 21 d)"
    by (simp_all add: load_in_range parse_def stored_crc_def subspan_def kCrcOffset_def
      kBaseHeaderSize_def)
qed

lemma load_tail:
  assumes "length d = header_len (d ! 3) + n"
  shows "(if has_sack (d ! 3) then load_u64_le d kBaseHeaderSize else Some 0) = Some (p_sack (parse d))"
    "subspan d (header_len (d ! 3)) n = Some (p_payload (parse d))"
  using assms
  by (auto simp: parse_def header_len_def kBaseHeaderSize_def kSackSize_def subspan_def
      load_u64_in_range)

lemma decode_short: "length d < 21 \<Longrightarrow> decode d = Inl TooShort"
  by (simp add: decode_def decode_body_def kBaseHeaderSize_def)

lemma decode_bad_magic:
  "21 \<le> length d \<Longrightarrow> d ! 0 \<noteq> kMagic0 \<or> d ! 1 \<noteq> kMagic1 \<Longrightarrow> decode d = Inl BadMagic"
  by (auto simp: decode_def decode_body_def load_header kBaseHeaderSize_def)

lemma decode_bad_version:
  assumes "21 \<le> length d" "d ! 0 = kMagic0" "d ! 1 = kMagic1" "drop_bit 4 (d ! 2) \<noteq> kVersion"
  shows "decode d = Inl BadVersion"
  using assms by (simp add: decode_def decode_body_def load_header kBaseHeaderSize_def)

lemma decode_bad_length:
  assumes "21 \<le> length d" "d ! 0 = kMagic0" "d ! 1 = kMagic1" "drop_bit 4 (d ! 2) = kVersion"
    and "length d \<noteq> header_len (d ! 3) + payload_len_of d \<or> kMaxDatagram < length d"
  shows "decode d = (if length d < header_len (d ! 3) then Inl TooShort else Inl LengthOverrun)"
  using assms
  by (auto simp: decode_def decode_body_def Let_def load_header payload_len_of_def
      kBaseHeaderSize_def)

lemma decode_sized:
  assumes "21 \<le> length d" "d ! 0 = kMagic0" "d ! 1 = kMagic1" "drop_bit 4 (d ! 2) = kVersion"
    and "length d = header_len (d ! 3) + payload_len_of d" "length d \<le> kMaxDatagram"
  shows "decode d = (if crc32c (crc_input d) \<noteq> stored_crc d then Inl BadCrc
      else if d ! 3 AND NOT SackPresent \<noteq> 0 \<or> class_wire ReliableOrdered < d ! 4 then Inl Unsupported
      else Inr (parse d))"
proof -
  note tail = load_tail [OF assms(5), unfolded payload_len_of_def]
  have total: "header_len (d ! 3) + unat (ld16 (d ! 15) (d ! 16)) = length d"
    using assms(5) by (simp add: payload_len_of_def)
  have "\<not> length d < kBaseHeaderSize" using assms(1) by (simp add: kBaseHeaderSize_def)
  moreover have "\<not> length d < header_len (d ! 3)" using assms(5) by simp
  moreover have "\<lparr>p_version = kVersion, p_type = d ! 2 AND 0x0F, p_flags = d ! 3,
     p_cls = class_of_wire (d ! 4), p_seq = p_seq (parse d), p_cum_ack = p_cum_ack (parse d),
     p_adv_window = p_adv_window (parse d), p_sack = p_sack (parse d), p_payload = p_payload (parse d)\<rparr> = parse d"
    using assms(4) by (simp add: parse_def)
  ultimately show ?thesis
    using assms(2-4,6) 
    by (simp add: decode_def decode_body_def Let_def load_header [OF assms(1)] tail total crc_chunks
       crc_input_def)
qed

definition valid_datagram :: "bytes \<Rightarrow> bool" where
  "valid_datagram d \<longleftrightarrow> 21 \<le> length d \<and> d ! 0 = kMagic0 \<and> d ! 1 = kMagic1
     \<and> drop_bit 4 (d ! 2) = kVersion \<and> length d = header_len (d ! 3) + payload_len_of d
     \<and> length d \<le> kMaxDatagram \<and> crc32c (crc_input d) = stored_crc d
     \<and> d ! 3 AND NOT SackPresent = 0 \<and> d ! 4 \<le> class_wire ReliableOrdered"

lemma decode_cases:
  "case decode d of Inl e \<Rightarrow> e \<noteq> OutOfBounds \<and> \<not> valid_datagram d
     | Inr p \<Rightarrow> p = parse d \<and> valid_datagram d"
proof (cases "21 \<le> length d \<and> d ! 0 = kMagic0 \<and> d ! 1 = kMagic1 \<and> drop_bit 4 (d ! 2) = kVersion")
  case True
  then show ?thesis
    using decode_sized [of d] decode_bad_length [of d] unfolding valid_datagram_def
    by (cases "length d = header_len (d ! 3) + payload_len_of d \<and> length d \<le> kMaxDatagram") auto
next
  case False
  then show ?thesis
    using decode_short [of d] decode_bad_magic [of d] decode_bad_version [of d]
    unfolding valid_datagram_def by (cases "21 \<le> length d"; cases "d ! 0 = kMagic0 \<and> d ! 1 = kMagic1") auto
qed

lemma decode_Inr_iff: "decode d = Inr p \<longleftrightarrow> valid_datagram d \<and> p = parse d"
  using decode_cases [of d] by (auto split: sum.splits)

lemma class_wire_of_wire: "v \<le> 2 \<Longrightarrow> class_wire (class_of_wire v) = v"
proof -
  assume "v \<le> 2"
  then have "unat v \<le> 2" by (simp add: word_le_nat_alt)
  then have "unat v = 0 \<or> unat v = 1 \<or> unat v = 2" by arith
  then have "v = 0 \<or> v = 1 \<or> v = 2" by (simp add: word_unat_eq_iff)
  then show ?thesis by (auto simp: class_of_wire_def)
qed

lemma class_of_wire_wire [simp]: "class_of_wire (class_wire c) = c"
  by (cases c) (simp_all add: class_of_wire_def)

lemma nibbles:
  fixes v h t :: u8
  shows "push_bit 4 (drop_bit 4 v) OR (v AND mask 4) = v"
    and "(push_bit 4 h OR (t AND mask 4)) AND mask 4 = t AND mask 4"
    and "drop_bit 4 (push_bit 4 h OR (t AND mask 4)) = h AND mask 4"
  by (rule bit_word_eqI; auto simp: bit_simps)+

lemma version_nibble: "drop_bit 4 (v :: u8) = 1 \<Longrightarrow> 0x10 OR (v AND 0x0F) = v"
  using nibbles(1) [of v] by (simp add: mask_numeral)

lemma type_of_wire: "(0x10 OR (t AND 0x0F) :: u8) AND 0x0F = t AND 0x0F"
  using nibbles(2) [of 1 t] by (simp add: mask_numeral)

lemma version_of_wire: "drop_bit 4 (0x10 OR (t AND 0x0F) :: u8) = 1"
  using nibbles(3) [of 1 t] by (simp add: mask_numeral)

lemma wire_prefix_parse:
  assumes "valid_datagram d"
  shows "wire_prefix (parse d) = take 17 d"
proof -
  from assms have v: "21 \<le> length d" "d ! 0 = kMagic0" "d ! 1 = kMagic1"
      "drop_bit 4 (d ! 2) = kVersion" "d ! 4 \<le> 2"
    and len: "length d = header_len (d ! 3) + payload_len_of d"
    by (auto simp: valid_datagram_def)
  have pl: "word_of_nat (length (p_payload (parse d))) = ld16 (d ! 15) (d ! 16)"
    using len by (simp add: parse_def payload_len_of_def)
  have ty: "0x10 OR (d ! 2 AND 0x0F AND 0x0F) = d ! 2"
    using v(4) version_nibble by (simp add: kVersion_def and.assoc)
  from v(1) show ?thesis
    unfolding wire_prefix_def pl
  proof (cases rule: list21E)
    case 1
    with v ty show "[kMagic0, kMagic1, 0x10 OR (p_type (parse d) AND 0x0F), p_flags (parse d),
        class_wire (p_cls (parse d))] @ le32 (p_seq (parse d)) @ le32 (p_cum_ack (parse d)) @
        le16 (p_adv_window (parse d)) @ le16 (ld16 (d ! 15) (d ! 16)) = take 17 d"
      by (simp add: parse_def class_wire_of_wire)
  qed
qed

lemma wire_suffix_parse:
  assumes "valid_datagram d"
  shows "wire_suffix (parse d) = drop 21 d"
proof (cases "has_sack (d ! 3)")
  case True
  with assms have "29 \<le> length d"
    by (simp add: valid_datagram_def header_len_def kBaseHeaderSize_def kSackSize_def)
  then have "le64 (p_sack (parse d)) = take 8 (drop 21 d)" using True by (simp add: parse_def)
  moreover have "drop 29 d = drop 8 (drop 21 d)" by simp
  ultimately show ?thesis using True
    by (simp add: wire_suffix_def parse_def header_len_def kBaseHeaderSize_def kSackSize_def
        del: drop_drop)
next
  case False
  then show ?thesis by (simp add: wire_suffix_def parse_def header_len_def kBaseHeaderSize_def)
qed

lemma le32_stored_crc: "21 \<le> length d \<Longrightarrow> le32 (stored_crc d) = take 4 (drop 17 d)"
  by (erule list21E) (simp add: stored_crc_def)

lemma wire_image_parse:
  assumes "valid_datagram d"
  shows "wire_image (parse d) = d"
proof -
  have "wire_crc (parse d) = stored_crc d"
    using assms wire_prefix_parse wire_suffix_parse
    by (simp add: wire_crc_def valid_datagram_def crc_input_def)
  then have "wire_image (parse d) = take 17 d @ take 4 (drop 17 d) @ drop 21 d"
    using assms wire_prefix_parse wire_suffix_parse le32_stored_crc
    by (simp add: wire_image_def valid_datagram_def)
  also have "drop 21 d = drop 4 (drop 17 d)" by simp
  finally show ?thesis by (simp only: append_take_drop_id)
qed

text \<open>What a receiver sees of an encoded packet.\<close>

definition on_wire :: "Packet \<Rightarrow> Packet" where
  "on_wire p = p\<lparr>p_version := kVersion, p_type := p_type p AND 0x0F,
     p_sack := (if has_sack (p_flags p) then p_sack p else 0)\<rparr>"

lemma wire_image_nth:
  "wire_image p ! 0 = kMagic0" "wire_image p ! Suc 0 = kMagic1"
  "wire_image p ! 2 = 0x10 OR (p_type p AND 0x0F)" "wire_image p ! 3 = p_flags p"
  "wire_image p ! 4 = class_wire (p_cls p)"
  by (simp_all add: wire_image_def wire_prefix_def)

lemma length_wire_suffix:
  "length (wire_suffix p) = (if has_sack (p_flags p) then 8 else 0) + length (p_payload p)"
  by (simp add: wire_suffix_def)

lemma wire_image_parts:
  "drop 21 (wire_image p) = wire_suffix p" "take 17 (wire_image p) = wire_prefix p"
  "stored_crc (wire_image p) = wire_crc p"
  "ld16 (wire_image p ! 15) (wire_image p ! 16) = word_of_nat (length (p_payload p))"
  by (simp_all add: wire_image_def stored_crc_def nth_append le32_def)
    (simp add: wire_prefix_def le16_def le32_def)

lemma parse_wire_image:
  assumes "encodable p"
  shows "parse (wire_image p) = on_wire p"
proof -
  have sack: "has_sack (p_flags p) \<Longrightarrow> take 8 (wire_suffix p) = le64 (p_sack p)"
    by (simp add: wire_suffix_def)
  have "drop (header_len (p_flags p)) (wire_image p) = drop (header_len (p_flags p) - 21) (wire_suffix p)"
    by (simp add: header_len_def kBaseHeaderSize_def add.commute flip: wire_image_parts(1))
  also have "\<dots> = p_payload p"
    by (simp add: header_len_def kBaseHeaderSize_def kSackSize_def wire_suffix_def)
  finally show ?thesis
    using sack
    by (simp add: parse_def wire_image_nth wire_image_parts version_of_wire type_of_wire on_wire_def
        kVersion_def) (simp add: wire_image_def wire_prefix_def le16_def le32_def)
qed

lemma valid_wire_image:
  assumes "encodable p"
  shows "valid_datagram (wire_image p)"
proof -
  have pl: "payload_len_of (wire_image p) = length (p_payload p)"
    using assms by (simp add: payload_len_of_def wire_image_parts encodable_def kMaxDatagram_def
        unsigned_of_nat take_bit_nat_eq_self)
  have len: "21 \<le> total_len p" by (simp add: total_len_def header_len_def kBaseHeaderSize_def)
  show ?thesis
    unfolding valid_datagram_def using assms pl len class_wire_le [of "p_cls p"]
    by (simp add: wire_image_nth version_of_wire wire_image_parts crc_input_def wire_crc_def
        total_len_def encodable_def kVersion_def)
qed

section \<open>Properties\<close>

lemma decode_wire_image: "encodable p \<Longrightarrow> decode (wire_image p) = Inr (on_wire p)"
  by (simp add: decode_Inr_iff valid_wire_image parse_wire_image)

lemma encodable_parse:
  assumes "valid_datagram d"
  shows "encodable (parse d)" "total_len (parse d) = length d"
proof -
  show "total_len (parse d) = length d"
    using wire_image_parse [OF assms] length_wire_image [of "parse d"] by simp
  then show "encodable (parse d)"
    using assms by (simp add: encodable_def total_len_def valid_datagram_def parse_def)
qed

text \<open>Encoding succeeds exactly for packets whose only flag is SACK-present and that fit both the
  1200-byte datagram and the caller's buffer; it then writes the declarative wire image at the start of the
  buffer, returns its size and leaves the rest alone, and otherwise returns 0 and writes nothing.\<close>

theorem encode_writes_wire_image:
  "encode p out = (if encodable p \<and> total_len p \<le> length out
     then (total_len p, wire_image p @ drop (total_len p) out) else (0, out))"
  by (rule encode_eq)

text \<open>C30: Whatever \<open>encode\<close> writes, \<open>decode\<close> reads back as the same packet (with the version the
  codec always writes, the type reduced to its nibble, and a SACK bitmap only when flagged).\<close>

theorem decode_encode:
  assumes "encode p out = (n, out')" and "n \<noteq> 0"
  shows "decode (take n out') = Inr (on_wire p)"
proof -
  from assms have "encodable p" "n = total_len p" "out' = wire_image p @ drop n out"
    by (auto simp: encode_eq split: if_splits)
  then show ?thesis by (simp add: decode_wire_image)
qed

lemma reencode: "decode d = Inr p \<Longrightarrow> length d \<le> length out \<Longrightarrow> encode p out = (length d, d @ drop (length d) out)"
  by (auto simp: decode_Inr_iff encode_eq encodable_parse wire_image_parse)

text \<open>Every accepted datagram is the unique encoding of the packet it decodes to: re-encoding
  the result into a large enough buffer reproduces the datagram byte for byte.\<close>

theorem encode_decode:
  assumes "decode d = Inr p" and "length d \<le> length out"
  shows "encode p out = (length d, d @ drop (length d) out)"
  using assms by (rule reencode)

text \<open>Decoding never reads outside the datagram, whatever the bytes are.\<close>

theorem decode_in_bounds: "decode d \<noteq> Inl OutOfBounds"
  using decode_cases [of d] by auto

text \<open>C31: Replacing any single byte of an accepted datagram by another value makes it rejected,
  whichever field the byte belongs to.\<close>

theorem decode_rejects_corrupt_byte:
  assumes "decode d = Inr p" and "i < length d" and "b \<noteq> d ! i"
  shows "\<exists>e. decode (d[i := b]) = Inl e"
proof (rule ccontr)
  let ?d = "d[i := b]"
  assume "\<nexists>e. decode ?d = Inl e"
  then obtain p' where "decode ?d = Inr p'" by (cases "decode ?d") auto
  with assms(1) have v: "valid_datagram d" "valid_datagram ?d" by (simp_all add: decode_Inr_iff)
  then have len: "21 \<le> length d" and crc: "crc32c (crc_input d) = stored_crc d"
      "crc32c (crc_input ?d) = stored_crc ?d"
    by (simp_all add: valid_datagram_def)
  consider "i < 17" | "17 \<le> i" "i < 21" | "21 \<le> i" by linarith
  then show False
  proof cases
    case 1
    then have "take 17 ?d = (take 17 d)[i := b]" "drop 21 ?d = drop 21 d" by (simp_all add: take_update_swap)
    moreover have "stored_crc ?d = stored_crc d" using 1 by (simp add: stored_crc_def)
    moreover have "take 17 d ! i \<noteq> b" "i < length (take 17 d)" using 1 assms len by simp_all
    ultimately show False
      using crc crc32c_detects_byte_update [of i "take 17 d" b "[0,0,0,0] @ drop 21 d"]
      by (simp add: crc_input_def)
  next
    case 2
    then have "crc_input ?d = crc_input d" by (simp add: crc_input_def)
    with crc have "stored_crc ?d = stored_crc d" by simp
    moreover have "i = 17 \<or> i = 18 \<or> i = 19 \<or> i = 20" using 2 by linarith
    ultimately show False using assms(3) len by (auto simp: stored_crc_def ld32_inject)
  next
    case 3
    then have "drop 21 ?d = (drop 21 d)[i - 21 := b]" "take 17 ?d = take 17 d" by (simp_all add: drop_update_swap)
    moreover have "stored_crc ?d = stored_crc d" using 3 by (simp add: stored_crc_def)
    moreover have "drop 21 d ! (i - 21) \<noteq> b" "i - 21 < length (drop 21 d)" using 3 assms len by simp_all
    ultimately show False
      using crc crc32c_detects_byte_update' [of "i - 21" "drop 21 d" b "take 17 d @ [0,0,0,0]"]
      by (simp add: crc_input_def)
  qed
qed

lemma decode_by_guards:
  "decode d =
    (if length d < 21 then Inl TooShort
     else if \<not> (d ! 0 = kMagic0 \<and> d ! 1 = kMagic1) then Inl BadMagic
     else if drop_bit 4 (d ! 2) \<noteq> kVersion then Inl BadVersion
     else if length d < header_len (d ! 3) then Inl TooShort
     else if \<not> (length d = header_len (d ! 3) + payload_len_of d \<and> length d \<le> kMaxDatagram) then Inl LengthOverrun
     else if crc32c (crc_input d) \<noteq> stored_crc d then Inl BadCrc
     else if \<not> (d ! 3 AND NOT SackPresent = 0 \<and> d ! 4 \<le> 2) then Inl Unsupported
     else Inr (parse d))"
proof (cases "21 \<le> length d \<and> d ! 0 = kMagic0 \<and> d ! 1 = kMagic1 \<and> drop_bit 4 (d ! 2) = kVersion")
  case True
  then show ?thesis
    using decode_sized [of d] decode_bad_length [of d]
    by (cases "length d = header_len (d ! 3) + payload_len_of d \<and> length d \<le> kMaxDatagram") auto
next
  case False
  then show ?thesis
    using decode_short [of d] decode_bad_magic [of d] decode_bad_version [of d]
    by (cases "21 \<le> length d"; cases "d ! 0 = kMagic0 \<and> d ! 1 = kMagic1") auto
qed

text \<open>C32: The verdict of \<open>decode\<close> on every byte string: the checks, in the source's order, and
  the packet that is read when all of them pass.\<close>

theorem decode_verdict:
  "decode d =
    (if length d < 21 then Inl TooShort
     else if \<not> (d ! 0 = kMagic0 \<and> d ! 1 = kMagic1) then Inl BadMagic
     else if drop_bit 4 (d ! 2) \<noteq> kVersion then Inl BadVersion
     else if length d < header_len (d ! 3) then Inl TooShort
     else if \<not> (length d = header_len (d ! 3) + payload_len_of d \<and> length d \<le> kMaxDatagram) then Inl LengthOverrun
     else if crc32c (crc_input d) \<noteq> stored_crc d then Inl BadCrc
     else if \<not> (d ! 3 AND NOT SackPresent = 0 \<and> d ! 4 \<le> 2) then Inl Unsupported
     else Inr (parse d))"
  by (fact decode_by_guards)

section \<open>The golden datagram\<close>

text \<open>The hand-computed vector of the repository's codec test: a DATA packet of class
  ReliableOrdered, sequence 1, window 64, payload ''hi''.\<close>

definition golden_packet :: Packet where
  "golden_packet = empty_packet\<lparr>p_version := 1, p_type := PT_Data, p_cls := ReliableOrdered, p_seq := 1,
     p_adv_window := 64, p_payload := [0x68, 0x69]\<rparr>"

definition golden_bytes :: bytes where
  "golden_bytes = [0x7A, 0x75, 0x11, 0x00, 0x02, 0x01, 0x00, 0x00, 0x00, 0x00, 0x00, 0x00, 0x00,
     0x40, 0x00, 0x02, 0x00, 0xCB, 0x4E, 0x6F, 0xC3, 0x68, 0x69]"

lemmas wire_eval [taut_eval] =
  wire_image_def wire_crc_def wire_prefix_def wire_suffix_def le16_def le32_def has_sack_def
  SackPresent_def kMagic0_def kMagic1_def empty_packet_def PT_Data_def

lemmas size_eval [taut_eval] =
  encodable_def total_len_def header_len_def kBaseHeaderSize_def kSackSize_def kMaxDatagram_def

lemma golden_wire: "wire_image golden_packet = golden_bytes"
  by (simp add: taut_eval golden_packet_def golden_bytes_def)

lemma golden_encodable: "encodable golden_packet" "total_len golden_packet = 23"
    "on_wire golden_packet = golden_packet"
  by (simp_all add: taut_eval golden_packet_def on_wire_def kVersion_def)

lemma golden_encode: "encode golden_packet (replicate 30 0) = (23, golden_bytes @ replicate 7 0)"
  by (simp add: encode_eq golden_encodable golden_wire)

lemma golden_decode: "decode golden_bytes = Inr golden_packet"
  using decode_wire_image [OF golden_encodable(1)] by (simp add: golden_wire golden_encodable(3))

theorem decode_encode_witness:
  "encode golden_packet (replicate 30 0) = (23, golden_bytes @ replicate 7 0) \<and> (23 :: nat) \<noteq> 0
   \<and> decode (take 23 (golden_bytes @ replicate 7 0)) = Inr golden_packet"
  using decode_encode [OF golden_encode] golden_encode by (simp add: golden_encodable(3))

theorem encode_decode_witness:
  "decode golden_bytes = Inr golden_packet \<and> length golden_bytes \<le> length (replicate 30 (0 :: byte))
   \<and> encode golden_packet (replicate 30 0) = (23, golden_bytes @ replicate 7 0)"
  using encode_decode [OF golden_decode, of "replicate 30 0"] golden_decode
  by (simp add: golden_bytes_def)

theorem decode_rejects_corrupt_byte_witness:
  "decode golden_bytes = Inr golden_packet \<and> 22 < length golden_bytes \<and> 0x68 \<noteq> golden_bytes ! 22
   \<and> (\<exists>e. decode (golden_bytes[22 := 0x68]) = Inl e)"
proof -
  have h: "22 < length golden_bytes" "0x68 \<noteq> golden_bytes ! 22" by (simp_all add: golden_bytes_def)
  from decode_rejects_corrupt_byte [OF golden_decode h] golden_decode h show ?thesis by blast
qed

end
