(* ===== verification/Timers.thy ===== *)
theory Timers
  imports Taut_Prelude
begin

text \<open>
  The deadline heap of \<^verbatim>\<open>src/timers.cc\<close>: a binary min-heap in an array with lazy deletion. The
  model keeps the array operations of the source. The locale \<open>timer_service\<close> states what the
  rest of the library relies on (the set of live timers, and how each operation changes it); it is
  interpreted on the heap, so the session theories reason about live timers only.
\<close>

section \<open>Model\<close>

text \<open>Timer ids come from a 64-bit counter that starts at 1; it is modelled as a natural number.\<close>

type_synonym TimerId = nat

record Entry =
  deadline :: time_point
  entry_id :: TimerId

record TimerHeap =
  heap :: "Entry list"
  cancelled :: "TimerId set"
  next_id :: TimerId

definition empty_timers :: TimerHeap where
  "empty_timers = \<lparr>heap = [], cancelled = {}, next_id = 1\<rparr>"

definition swap :: "'a list \<Rightarrow> nat \<Rightarrow> nat \<Rightarrow> 'a list" where
  "swap xs i j = xs[i := xs ! j, j := xs ! i]"

lemma length_swap [simp]: "length (swap xs i j) = length xs"
  by (simp add: swap_def)

function sift_up :: "Entry list \<Rightarrow> nat \<Rightarrow> Entry list" where
  "sift_up h i =
     (if i > 0 then
        let parent = (i - 1) div 2
        in if deadline (h ! i) < deadline (h ! parent)
           then sift_up (swap h i parent) parent
           else h
      else h)"
  by pat_completeness auto
termination
  by (relation "measure snd") auto

text \<open>One iteration of \<^verbatim>\<open>sift_down\<close>: the index of the smallest of a node and its children.\<close>

definition smallest_child :: "Entry list \<Rightarrow> nat \<Rightarrow> nat" where
  "smallest_child h i =
     (let n = length h;
          left = 2 * i + 1;
          right = 2 * i + 2;
          smallest = i;
          smallest = (if left < n \<and> deadline (h ! left) < deadline (h ! smallest) then left else smallest)
      in (if right < n \<and> deadline (h ! right) < deadline (h ! smallest) then right else smallest))"

lemma smallest_child_cases:
  "smallest_child h i = i \<or> smallest_child h i \<in> {2 * i + 1, 2 * i + 2} \<and> smallest_child h i < length h"
  by (auto simp: smallest_child_def Let_def)

function sift_down :: "Entry list \<Rightarrow> nat \<Rightarrow> Entry list" where
  "sift_down h i =
     (let smallest = smallest_child h i
      in if smallest = i then h else sift_down (swap h i smallest) smallest)"
  by pat_completeness auto
termination
proof (relation "measure (\<lambda>(h, i). length h - i)")
  fix h i smallest
  assume "smallest = smallest_child h i" "smallest \<noteq> i"
  then show "((swap h i smallest, smallest), h, i) \<in> measure (\<lambda>(h, i). length h - i)"
    using smallest_child_cases [of h i] by auto
qed simp

declare sift_up.simps [simp del] sift_down.simps [simp del]

definition remove_root :: "Entry list \<Rightarrow> Entry list" where
  "remove_root h =
     (let h = h[0 := last h];
          h = butlast h
      in if h \<noteq> [] then sift_down h 0 else h)"

lemma length_sift_down [simp]: "length (sift_down h i) = length h"
proof (induction h i rule: sift_down.induct)
  case (1 h i)
  then show ?case by (subst sift_down.simps) (simp add: Let_def)
qed

lemma length_remove_root [simp]: "length (remove_root h) = length h - 1"
  by (auto simp: remove_root_def Let_def dest: arg_cong [where f = length])

function prune_root :: "Entry list \<Rightarrow> TimerId set \<Rightarrow> Entry list \<times> TimerId set" where
  "prune_root h c =
     (if h \<noteq> [] then
        if entry_id (h ! 0) \<notin> c then (h, c)
        else prune_root (remove_root h) (c - {entry_id (h ! 0)})
      else (h, c))"
  by pat_completeness auto
termination
  by (relation "measure (\<lambda>(h, c). length h)") auto

declare prune_root.simps [simp del]

definition prune :: "TimerHeap \<Rightarrow> TimerHeap" where
  "prune t = (let (h, c) = prune_root (heap t) (cancelled t) in t\<lparr>heap := h, cancelled := c\<rparr>)"

definition schedule :: "TimerHeap \<Rightarrow> time_point \<Rightarrow> TimerId \<times> TimerHeap" where
  "schedule t d =
     (let tid = next_id t;
          h = heap t @ [\<lparr>deadline = d, entry_id = tid\<rparr>]
      in (tid, t\<lparr>next_id := tid + 1, heap := sift_up h (length h - 1)\<rparr>))"

definition cancel :: "TimerHeap \<Rightarrow> TimerId \<Rightarrow> TimerHeap" where
  "cancel t i = t\<lparr>cancelled := insert i (cancelled t)\<rparr>"

definition next_deadline :: "TimerHeap \<Rightarrow> time_point option \<times> TimerHeap" where
  "next_deadline t =
     (let t = prune t
      in if heap t = [] then (None, t) else (Some (deadline (heap t ! 0)), t))"

definition pop_due :: "TimerHeap \<Rightarrow> time_point \<Rightarrow> TimerId option \<times> TimerHeap" where
  "pop_due t now =
     (let t = prune t
      in if heap t = [] \<or> deadline (heap t ! 0) > now then (None, t)
         else let i = entry_id (heap t ! 0)
              in (Some i, t\<lparr>heap := remove_root (heap t)\<rparr>))"

definition is_empty :: "TimerHeap \<Rightarrow> bool \<times> TimerHeap" where
  "is_empty t = (let t = prune t in (heap t = [], t))"

section \<open>The array operations permute\<close>

lemma mset_swap: "i < length xs \<Longrightarrow> j < length xs \<Longrightarrow> mset (swap xs i j) = mset xs"
  by (simp add: swap_def mset_swap)

lemma nth_swap:
  "i < length xs \<Longrightarrow> j < length xs \<Longrightarrow> k < length xs \<Longrightarrow>
   swap xs i j ! k = (if k = i then xs ! j else if k = j then xs ! i else xs ! k)"
  by (auto simp: swap_def nth_list_update)

lemma mset_sift_up: "i < length h \<Longrightarrow> mset (sift_up h i) = mset h"
proof (induction h i rule: sift_up.induct)
  case (1 h i)
  show ?case
  proof (cases "0 < i \<and> deadline (h ! i) < deadline (h ! ((i - 1) div 2))")
    case True
    with 1 show ?thesis
      by (subst sift_up.simps) (simp add: Let_def mset_swap)
  next
    case False
    then show ?thesis by (subst sift_up.simps) (auto simp: Let_def)
  qed
qed

lemma mset_sift_down: "i < length h \<Longrightarrow> mset (sift_down h i) = mset h"
proof (induction h i rule: sift_down.induct)
  case (1 h i)
  have "smallest_child h i \<noteq> i \<Longrightarrow> smallest_child h i < length h"
    using smallest_child_cases [of h i] by auto
  with 1 show ?case
    by (subst sift_down.simps) (simp add: Let_def mset_swap)
qed

lemma mset_remove_root: "h \<noteq> [] \<Longrightarrow> mset (remove_root h) = mset h - {#h ! 0#}"
proof (cases h rule: rev_cases)
  case (snoc xs x)
  show ?thesis
  proof (cases xs)
    case Nil
    then show ?thesis by (simp add: snoc remove_root_def)
  next
    case (Cons y ys)
    then show ?thesis
      by (simp add: snoc remove_root_def Let_def mset_sift_down)
  qed
qed simp

section \<open>The heap order\<close>

abbreviation dl :: "Entry list \<Rightarrow> nat \<Rightarrow> time_point" where
  "dl h i \<equiv> deadline (h ! i)"

definition par :: "nat \<Rightarrow> nat" where
  "par i = (i - 1) div 2"

lemma par_less: "0 < i \<Longrightarrow> par i < i"
  by (auto simp: par_def)

lemma par_less_length: "j < length h \<Longrightarrow> par j < length h"
  by (auto simp: par_def)

lemma par_children: "par (2 * i + 1) = i" "par (2 * i + 2) = i" "par (Suc (2 * i)) = i"
    "par (Suc (Suc (2 * i))) = i"
  by (auto simp: par_def)

lemma par_cases: "0 < j \<Longrightarrow> par j = i \<Longrightarrow> j = 2 * i + 1 \<or> j = 2 * i + 2"
  by (auto simp: par_def)

lemma sift_up_par:
  "sift_up h i = (if 0 < i \<and> deadline (h ! i) < deadline (h ! par i) then sift_up (swap h i (par i)) (par i) else h)"
  by (subst sift_up.simps) (simp add: Let_def par_def)

definition is_heap :: "Entry list \<Rightarrow> bool" where
  "is_heap h \<longleftrightarrow> (\<forall>j<length h. 0 < j \<longrightarrow> dl h (par j) \<le> dl h j)"

text \<open>The order holds everywhere except between a node and its parent (while sifting up), or
  between a node and its children (while sifting down); around the hole it holds across two levels.\<close>

definition up_hole :: "Entry list \<Rightarrow> nat \<Rightarrow> bool" where
  "up_hole h i \<longleftrightarrow> (\<forall>j<length h. 0 < j \<longrightarrow> j \<noteq> i \<longrightarrow> dl h (par j) \<le> dl h j)
     \<and> (\<forall>j<length h. 0 < j \<longrightarrow> par j = i \<longrightarrow> 0 < i \<longrightarrow> dl h (par i) \<le> dl h j)"

definition down_hole :: "Entry list \<Rightarrow> nat \<Rightarrow> bool" where
  "down_hole h i \<longleftrightarrow> (\<forall>j<length h. 0 < j \<longrightarrow> par j \<noteq> i \<longrightarrow> dl h (par j) \<le> dl h j)
     \<and> (\<forall>j<length h. 0 < j \<longrightarrow> par j = i \<longrightarrow> 0 < i \<longrightarrow> dl h (par i) \<le> dl h j)"

lemma up_hole_step:
  assumes h: "up_hole h i" and i: "0 < i" "i < length h" and lt: "dl h i < dl h (par i)"
  shows "up_hole (swap h i (par i)) (par i)"
proof -
  let ?p = "par i" and ?s = "swap h i (par i)"
  have p: "?p < i" "?p < length h" using i par_less par_less_length by auto
  have nth: "k < length h \<Longrightarrow> dl ?s k = (if k = i then dl h ?p else if k = ?p then dl h i else dl h k)" for k
    using i p by (simp add: nth_swap)
  have ord: "j < length h \<Longrightarrow> 0 < j \<Longrightarrow> j \<noteq> i \<Longrightarrow> dl h (par j) \<le> dl h j" for j
    using h by (simp add: up_hole_def)
  have two: "j < length h \<Longrightarrow> 0 < j \<Longrightarrow> par j = i \<Longrightarrow> dl h ?p \<le> dl h j" for j
    using h i by (simp add: up_hole_def)
  have "dl ?s (par j) \<le> dl ?s j" if "j < length h" "0 < j" "j \<noteq> ?p" for j
    using that ord [of j] two [of j] lt p by (auto simp: nth par_less_length)
  moreover have "dl ?s (par ?p) \<le> dl ?s j" if "j < length h" "0 < j" "par j = ?p" "0 < ?p" for j
    using that ord [of ?p] ord [of j] p par_less [of ?p] by (auto simp: nth par_less_length)
  ultimately show ?thesis by (simp add: up_hole_def)
qed

lemma sift_up_heap: "up_hole h i \<Longrightarrow> i < length h \<Longrightarrow> is_heap (sift_up h i)"
proof (induction h i rule: sift_up.induct)
  case (1 h i)
  show ?case
  proof (cases "0 < i \<and> dl h i < dl h (par i)")
    case True
    then have "sift_up h i = sift_up (swap h i (par i)) (par i)"
      by (subst sift_up_par) simp
    moreover have "up_hole (swap h i (par i)) (par i)"
      using True 1(2,3) up_hole_step by blast
    moreover have "par i < length (swap h i (par i))" using 1(3) par_less_length by simp
    ultimately show ?thesis using 1(1) [OF _ refl] True by (simp add: par_def)
  next
    case False
    then have "sift_up h i = h" by (subst sift_up_par) auto
    moreover have "is_heap h" unfolding is_heap_def
    proof (intro allI impI)
      fix j assume "j < length h" "0 < j"
      then show "dl h (par j) \<le> dl h j"
        using False 1(2) by (cases "j = i") (auto simp: up_hole_def)
    qed
    ultimately show ?thesis by simp
  qed
qed

lemma up_hole_snoc: "is_heap h \<Longrightarrow> up_hole (h @ [e]) (length h)"
  by (auto simp: is_heap_def up_hole_def nth_append par_def)

lemma smallest_child_min:
  "dl h (smallest_child h i) \<le> dl h i"
  "j < length h \<Longrightarrow> 0 < j \<Longrightarrow> par j = i \<Longrightarrow> dl h (smallest_child h i) \<le> dl h j"
proof -
  show "dl h (smallest_child h i) \<le> dl h i"
    by (auto simp: smallest_child_def Let_def)
  assume "j < length h" "0 < j" "par j = i"
  then have "j = 2 * i + 1 \<or> j = 2 * i + 2" by (intro par_cases)
  with \<open>j < length h\<close> show "dl h (smallest_child h i) \<le> dl h j"
    by (auto simp: smallest_child_def Let_def)
qed

lemma down_hole_step:
  assumes h: "down_hole h i" and i: "i < length h" and c: "smallest_child h i \<noteq> i"
  defines "m \<equiv> smallest_child h i"
  shows "down_hole (swap h i m) m"
proof -
  let ?s = "swap h i m"
  have m: "m < length h" "m \<noteq> i" "0 < m" "par m = i"
    using smallest_child_cases [of h i] c unfolding m_def by (auto simp: par_children)
  have nth: "k < length h \<Longrightarrow> dl ?s k = (if k = i then dl h m else if k = m then dl h i else dl h k)" for k
    using i m by (simp add: nth_swap)
  have ord: "j < length h \<Longrightarrow> 0 < j \<Longrightarrow> par j \<noteq> i \<Longrightarrow> dl h (par j) \<le> dl h j" for j
    using h by (simp add: down_hole_def)
  have two: "0 < i \<Longrightarrow> dl h (par i) \<le> dl h m"
    using h m by (simp add: down_hole_def)
  have min: "j < length h \<Longrightarrow> 0 < j \<Longrightarrow> par j = i \<Longrightarrow> dl h m \<le> dl h j" "dl h m \<le> dl h i" for j
    unfolding m_def by (simp_all add: smallest_child_min)
  have ne: "0 < i \<Longrightarrow> par i \<noteq> i" "par m \<noteq> m" "i < m" using par_less [of i] par_less [of m] m by auto
  have "dl ?s (par j) \<le> dl ?s j" if "j < length h" "0 < j" "par j \<noteq> m" for j
    using that ord [of j] two min m ne par_less [of j] by (auto simp: nth par_less_length)
  moreover have "dl ?s (par m) \<le> dl ?s j" if "j < length h" "0 < j" "par j = m" for j
    using that ord [of j] m ne par_less [of j] by (auto simp: nth)
  ultimately show ?thesis by (simp add: down_hole_def)
qed

lemma sift_down_heap: "down_hole h i \<Longrightarrow> i < length h \<Longrightarrow> is_heap (sift_down h i)"
proof (induction h i rule: sift_down.induct)
  case (1 h i)
  show ?case
  proof (cases "smallest_child h i = i")
    case True
    then have "sift_down h i = h" by (subst sift_down.simps) (simp add: Let_def)
    moreover have "is_heap h" unfolding is_heap_def
    proof (intro allI impI)
      fix j assume "j < length h" "0 < j"
      then show "dl h (par j) \<le> dl h j"
        using 1(2) smallest_child_min(2) [of j h i] True
        by (cases "par j = i") (auto simp: down_hole_def)
    qed
    ultimately show ?thesis by simp
  next
    case False
    then have "sift_down h i = sift_down (swap h i (smallest_child h i)) (smallest_child h i)"
      by (subst sift_down.simps) (simp add: Let_def)
    moreover have "smallest_child h i < length (swap h i (smallest_child h i))"
      using smallest_child_cases [of h i] False by auto
    ultimately show ?thesis using 1(1) [OF refl False] down_hole_step [OF 1(2,3) False] by simp
  qed
qed

lemma remove_root_cons: "remove_root (y # ys @ [x]) = sift_down (x # ys) 0"
  by (simp add: remove_root_def butlast_append)

lemma down_hole_root:
  assumes "is_heap (y # ys @ [x])"
  shows "down_hole (x # ys) 0"
proof -
  have nth: "(x # ys) ! k = (y # ys @ [x]) ! k" if "0 < k" "k < length (x # ys)" for k
    using that by (cases k) (simp_all add: nth_append)
  have "dl (x # ys) (par j) \<le> dl (x # ys) j" if "j < length (x # ys)" "0 < j" "par j \<noteq> 0" for j
  proof -
    have "par j < length (x # ys)" using that par_less [of j] by simp
    then have "(x # ys) ! par j = (y # ys @ [x]) ! par j" "(x # ys) ! j = (y # ys @ [x]) ! j"
      using that nth by auto
    moreover have "dl (y # ys @ [x]) (par j) \<le> dl (y # ys @ [x]) j"
    proof -
      have "j < length (y # ys @ [x])" using that by simp
      with assms that(2) show ?thesis unfolding is_heap_def by blast
    qed
    ultimately show ?thesis by (simp only:)
  qed
  then show ?thesis by (auto simp: down_hole_def)
qed

lemma remove_root_heap:
  assumes "is_heap h" "h \<noteq> []"
  shows "is_heap (remove_root h)"
proof (cases h rule: rev_cases)
  case (snoc zs x)
  show ?thesis
  proof (cases zs)
    case Nil
    then show ?thesis by (simp add: snoc remove_root_def is_heap_def)
  next
    case (Cons y ys)
    with snoc assms(1) have "down_hole (x # ys) 0" using down_hole_root by simp
    then show ?thesis by (simp add: snoc Cons remove_root_cons sift_down_heap)
  qed
qed (use assms in simp)

lemma is_heap_root_le: "is_heap h \<Longrightarrow> j < length h \<Longrightarrow> dl h 0 \<le> dl h j"
proof (induction j rule: less_induct)
  case (less j)
  show ?case
  proof (cases "j = 0")
    case False
    then have "dl h 0 \<le> dl h (par j)" using less par_less [of j] by (meson less_trans neq0_conv)
    also have "\<dots> \<le> dl h j" using less.prems False by (simp add: is_heap_def)
    finally show ?thesis .
  qed simp
qed

section \<open>Live timers\<close>

text \<open>What the heap stands for: the identifiers and deadlines of the timers that were scheduled, have
  not fired and were not cancelled.\<close>

definition live :: "TimerHeap \<Rightarrow> (TimerId \<times> time_point) set" where
  "live t = (\<lambda>e. (entry_id e, deadline e)) ` {e \<in> set (heap t). entry_id e \<notin> cancelled t}"

definition timers_inv :: "TimerHeap \<Rightarrow> bool" where
  "timers_inv t \<longleftrightarrow> is_heap (heap t) \<and> distinct (map entry_id (heap t))
     \<and> (\<forall>e\<in>set (heap t). entry_id e < next_id t) \<and> (\<forall>i\<in>cancelled t. i < next_id t)"

lemma finite_live: "finite (live t)"
  by (simp add: live_def)

lemma set_remove_root:
  assumes "h \<noteq> []" "distinct (map entry_id h)"
  shows "set (remove_root h) = {e \<in> set h. entry_id e \<noteq> entry_id (h ! 0)}"
    and "distinct (map entry_id (remove_root h))"
proof -
  obtain x xs where h: "h = x # xs" using assms(1) by (cases h) auto
  have m: "mset (remove_root h) = mset xs" using mset_remove_root [OF assms(1)] by (simp add: h)
  then have "mset (map entry_id (remove_root h)) = mset (map entry_id xs)" by simp
  then show "distinct (map entry_id (remove_root h))"
    using assms(2) by (metis distinct.simps(2) h list.simps(9) mset_eq_imp_distinct_iff)
  have "set (remove_root h) = set xs" using m by (rule mset_eq_setD)
  then show "set (remove_root h) = {e \<in> set h. entry_id e \<noteq> entry_id (h ! 0)}"
    using assms(2) unfolding h by (auto simp: image_iff)
qed

lemma prune_root_spec:
  assumes "is_heap h" "distinct (map entry_id h)" "prune_root h c = (h', c')"
  shows "is_heap h' \<and> distinct (map entry_id h') \<and> set h' \<subseteq> set h \<and> c' \<subseteq> c
    \<and> {e \<in> set h'. entry_id e \<notin> c'} = {e \<in> set h. entry_id e \<notin> c}
    \<and> (h' \<noteq> [] \<longrightarrow> entry_id (h' ! 0) \<notin> c')"
  using assms
proof (induction h c arbitrary: h' c' rule: prune_root.induct)
  case (1 h c)
  show ?case
  proof (cases "h \<noteq> [] \<and> entry_id (h ! 0) \<in> c")
    case True
    then have eq: "prune_root (remove_root h) (c - {entry_id (h ! 0)}) = (h', c')"
      using 1(4) by (subst (asm) prune_root.simps) simp
    have "is_heap (remove_root h)" using 1(2) True by (simp add: remove_root_heap)
    note ih = 1(1) [OF _ _ this set_remove_root(2) eq, of] 
    show ?thesis using ih True 1(3) by (auto simp: set_remove_root(1))
  next
    case False
    then have "h' = h" "c' = c" using 1(4) by (auto simp: prune_root.simps [of h c] split: if_splits)
    with 1(2,3) False show ?thesis by auto
  qed
qed

lemma prune_spec:
  assumes "timers_inv t"
  shows "timers_inv (prune t)" "live (prune t) = live t"
    "heap (prune t) \<noteq> [] \<Longrightarrow> entry_id (heap (prune t) ! 0) \<notin> cancelled (prune t)"
    "next_id (prune t) = next_id t"
proof -
  obtain h c where hc: "prune_root (heap t) (cancelled t) = (h, c)" by fastforce
  then have p: "prune t = t\<lparr>heap := h, cancelled := c\<rparr>" by (simp add: prune_def)
  have inv: "is_heap (heap t)" "distinct (map entry_id (heap t))"
      "\<forall>e\<in>set (heap t). entry_id e < next_id t" "\<forall>i\<in>cancelled t. i < next_id t"
    using assms by (auto simp: timers_inv_def)
  note spec = prune_root_spec [OF inv(1,2) hc]
  then show "timers_inv (prune t)" using inv(3,4) by (auto simp: p timers_inv_def)
  show "live (prune t) = live t" using spec by (simp add: p live_def)
  show "heap (prune t) \<noteq> [] \<Longrightarrow> entry_id (heap (prune t) ! 0) \<notin> cancelled (prune t)"
    using spec by (simp add: p)
qed (simp add: prune_def split: prod.splits)

lemma live_root:
  assumes "timers_inv t" "heap t \<noteq> []" "entry_id (heap t ! 0) \<notin> cancelled t"
  shows "(entry_id (heap t ! 0), deadline (heap t ! 0)) \<in> live t"
    and "(i, d) \<in> live t \<Longrightarrow> deadline (heap t ! 0) \<le> d"
proof -
  show "(entry_id (heap t ! 0), deadline (heap t ! 0)) \<in> live t"
    using assms(2,3) by (simp add: live_def)
  assume "(i, d) \<in> live t"
  then obtain e where "e \<in> set (heap t)" "d = deadline e" by (auto simp: live_def)
  moreover have "is_heap (heap t)" using assms(1) by (simp add: timers_inv_def)
  ultimately show "deadline (heap t ! 0) \<le> d" using is_heap_root_le by (metis in_set_conv_nth)
qed

lemma pop_root:
  assumes "timers_inv t" "heap t \<noteq> []" "entry_id (heap t ! 0) \<notin> cancelled t"
  defines "t' \<equiv> t\<lparr>heap := remove_root (heap t)\<rparr>"
  shows "timers_inv t'" "live t' = {x \<in> live t. fst x \<noteq> entry_id (heap t ! 0)}"
proof -
  have inv: "is_heap (heap t)" "distinct (map entry_id (heap t))"
    using assms(1) by (auto simp: timers_inv_def)
  note r = set_remove_root [OF assms(2) inv(2)]
  show "timers_inv t'"
    using assms(1) r(2) remove_root_heap [OF inv(1) assms(2)]
    unfolding t'_def timers_inv_def by (simp add: r(1))
  have "live t' = (\<lambda>e. (entry_id e, deadline e)) `
      {e \<in> set (heap t). entry_id e \<noteq> entry_id (heap t ! 0) \<and> entry_id e \<notin> cancelled t}"
    unfolding t'_def live_def by (simp add: r(1) conj_assoc)
  also have "\<dots> = {x \<in> live t. fst x \<noteq> entry_id (heap t ! 0)}"
    unfolding live_def by (simp only: image_iff set_eq_iff mem_Collect_eq) auto
  finally show "live t' = {x \<in> live t. fst x \<noteq> entry_id (heap t ! 0)}" .
qed

lemma schedule_spec:
  assumes "timers_inv t" "schedule t d = (i, t')"
  shows "timers_inv t'" "live t' = insert (i, d) (live t)" "i = next_id t" "next_id t' = Suc i"
proof -
  let ?e = "\<lparr>deadline = d, entry_id = next_id t\<rparr>"
  let ?h = "heap t @ [?e]"
  have eq: "i = next_id t" "t' = t\<lparr>next_id := Suc i, heap := sift_up ?h (length (heap t))\<rparr>"
    using assms(2) by (auto simp: schedule_def Let_def)
  then show "i = next_id t" "next_id t' = Suc i" by simp_all
  have inv: "is_heap (heap t)" "distinct (map entry_id (heap t))"
      "\<forall>e\<in>set (heap t). entry_id e < next_id t" "\<forall>i\<in>cancelled t. i < next_id t"
    using assms(1) by (auto simp: timers_inv_def)
  have m: "mset (sift_up ?h (length (heap t))) = mset ?h" by (rule mset_sift_up) simp
  then have set: "set (sift_up ?h (length (heap t))) = insert ?e (set (heap t))"
    by (metis Un_insert_right list.set(1) list.simps(15) mset_eq_setD set_append sup_bot_right)
  have "mset (map entry_id (sift_up ?h (length (heap t)))) = mset (map entry_id ?h)" using m by simp
  moreover have "distinct (map entry_id ?h)" using inv(2,3) by auto
  ultimately have "distinct (map entry_id (sift_up ?h (length (heap t))))"
    using mset_eq_imp_distinct_iff by blast
  moreover have "is_heap (sift_up ?h (length (heap t)))"
    using inv(1) by (intro sift_up_heap up_hole_snoc) auto
  ultimately show "timers_inv t'" using inv(3,4) by (auto simp: timers_inv_def eq set less_Suc_eq)
  have "next_id t \<notin> cancelled t" using inv(4) by blast
  then have "{e \<in> insert ?e (set (heap t)). entry_id e \<notin> cancelled t}
      = insert ?e {e \<in> set (heap t). entry_id e \<notin> cancelled t}" by auto
  then show "live t' = insert (i, d) (live t)" by (simp add: live_def eq set)
qed

lemma cancel_spec:
  assumes "timers_inv t" "i < next_id t"
  shows "timers_inv (cancel t i)"
  using assms by (auto simp: timers_inv_def cancel_def)

lemma live_cancel: "live (cancel t i) = {x \<in> live t. fst x \<noteq> i}"
  unfolding live_def cancel_def
  by (simp only: image_iff set_eq_iff mem_Collect_eq TimerHeap.simps) auto

lemma next_id_cancel [simp]: "next_id (cancel t i) = next_id t"
  by (simp add: cancel_def)

lemma pop_due_Some:
  assumes "timers_inv t" "pop_due t now = (Some i, t')"
  shows "timers_inv t'" "\<exists>d. (i, d) \<in> live t \<and> d \<le> now \<and> (\<forall>(j, e) \<in> live t. d \<le> e)"
    "live t' = {x \<in> live t. fst x \<noteq> i}" "next_id t' = next_id t"
proof -
  let ?p = "prune t"
  note p = prune_spec [OF assms(1)]
  from assms(2) have ne: "heap ?p \<noteq> []" and le: "deadline (heap ?p ! 0) \<le> now"
    and i: "i = entry_id (heap ?p ! 0)" and t': "t' = ?p\<lparr>heap := remove_root (heap ?p)\<rparr>"
    unfolding pop_due_def Let_def by (simp_all split: if_split_asm)
  note r = live_root [OF p(1) ne p(3) [OF ne]] and q = pop_root [OF p(1) ne p(3) [OF ne]]
  show "timers_inv t'" unfolding t' by (rule q(1))
  show "live t' = {x \<in> live t. fst x \<noteq> i}" unfolding t' i q(2) p(2) ..
  show "next_id t' = next_id t" using p(4) by (simp add: t')
  have "(i, deadline (heap ?p ! 0)) \<in> live t" using r(1) p(2) by (simp add: i)
  moreover have "\<forall>(j, e) \<in> live t. deadline (heap ?p ! 0) \<le> e" using r(2) p(2) by auto
  ultimately show "\<exists>d. (i, d) \<in> live t \<and> d \<le> now \<and> (\<forall>(j, e) \<in> live t. d \<le> e)"
    using le by blast
qed

lemma pop_due_None:
  assumes "timers_inv t" "pop_due t now = (None, t')"
  shows "timers_inv t'" "live t' = live t" "\<forall>(j, e) \<in> live t. now < e" "next_id t' = next_id t"
proof -
  let ?p = "prune t"
  note p = prune_spec [OF assms(1)]
  from assms(2) have t': "t' = ?p" and none: "heap ?p = [] \<or> now < deadline (heap ?p ! 0)"
    unfolding pop_due_def Let_def by (simp_all split: if_split_asm)
  show "timers_inv t'" "live t' = live t" "next_id t' = next_id t" using p by (simp_all add: t')
  show "\<forall>(j, e) \<in> live t. now < e"
  proof (cases "heap ?p = []")
    case True
    then have "live ?p = {}" by (simp add: live_def)
    then show ?thesis using p(2) by simp
  next
    case False
    then show ?thesis using none live_root(2) [OF p(1) False p(3)] p(2) by fastforce
  qed
qed

section \<open>The contract of the timer service\<close>

text \<open>
  What a client may rely on. \<open>live\<close> is the set of pending timers; the invariant bounds every identifier in use by the
  next one, so a scheduled timer is new; \<open>pop_due\<close> returns an earliest live timer, if one is due.
\<close>

locale timer_service =
  fixes sched :: "'t \<Rightarrow> time_point \<Rightarrow> TimerId \<times> 't"
    and canc :: "'t \<Rightarrow> TimerId \<Rightarrow> 't"
    and pop :: "'t \<Rightarrow> time_point \<Rightarrow> TimerId option \<times> 't"
    and inv :: "'t \<Rightarrow> bool"
    and pending :: "'t \<Rightarrow> (TimerId \<times> time_point) set"
    and bound :: "'t \<Rightarrow> TimerId"
  assumes finite_pending: "finite (pending t)"
    and pending_bound: "inv t \<Longrightarrow> (i, d) \<in> pending t \<Longrightarrow> i < bound t"
    and sched_spec: "inv t \<Longrightarrow> sched t d = (i, t') \<Longrightarrow>
          inv t' \<and> pending t' = insert (i, d) (pending t) \<and> i = bound t \<and> bound t' = Suc i"
    and canc_spec: "inv t \<Longrightarrow> i < bound t \<Longrightarrow>
          inv (canc t i) \<and> pending (canc t i) = {x \<in> pending t. fst x \<noteq> i} \<and> bound (canc t i) = bound t"
    and pop_Some_spec: "inv t \<Longrightarrow> pop t now = (Some i, t') \<Longrightarrow>
          inv t' \<and> pending t' = {x \<in> pending t. fst x \<noteq> i} \<and> bound t' = bound t
          \<and> (\<exists>d. (i, d) \<in> pending t \<and> d \<le> now \<and> (\<forall>(j, e) \<in> pending t. d \<le> e))"
    and pop_None_spec: "inv t \<Longrightarrow> pop t now = (None, t') \<Longrightarrow>
          inv t' \<and> pending t' = pending t \<and> bound t' = bound t \<and> (\<forall>(j, e) \<in> pending t. now < e)"
begin

definition due :: "'t \<Rightarrow> time_point \<Rightarrow> (TimerId \<times> time_point) set" where
  "due t now = {x \<in> pending t. snd x \<le> now}"

lemma finite_due: "finite (due t now)"
  using finite_pending by (simp add: due_def)

lemma sched_inv: "inv t \<Longrightarrow> inv (snd (sched t d))"
  using sched_spec [of t d "fst (sched t d)" "snd (sched t d)"] by simp

text \<open>A timer scheduled for later does not become due: the loop that drains due timers makes progress.\<close>

lemma due_sched_later:
  assumes "inv t" "sched t d = (i, t')" "now < d"
  shows "due t' now = due t now"
  using sched_spec [OF assms(1,2)] assms(3) by (auto simp: due_def)

lemma due_canc: "inv t \<Longrightarrow> i < bound t \<Longrightarrow> due (canc t i) now \<subseteq> due t now"
  using canc_spec by (auto simp: due_def)

lemma due_pop_decreases:
  assumes "inv t" "pop t now = (Some i, t')"
  shows "due t' now \<subset> due t now"
proof -
  from pop_Some_spec [OF assms] obtain d where "(i, d) \<in> pending t" "d \<le> now"
    "pending t' = {x \<in> pending t. fst x \<noteq> i}" by blast
  then have "(i, d) \<in> due t now" "(i, d) \<notin> due t' now" "due t' now \<subseteq> due t now"
    by (auto simp: due_def)
  then show ?thesis by blast
qed

lemma card_due_pop:
  "inv t \<Longrightarrow> pop t now = (Some i, t') \<Longrightarrow> card (due t' now) < card (due t now)"
  using due_pop_decreases finite_due by (metis psubset_card_mono)

lemma due_pop_None: "inv t \<Longrightarrow> pop t now = (None, t') \<Longrightarrow> due t now = {}"
  using pop_None_spec [of t now t'] by (fastforce simp: due_def)

lemma sched_fresh: "inv t \<Longrightarrow> sched t d = (i, t') \<Longrightarrow> (i, e) \<notin> pending t"
  using sched_spec pending_bound by blast

end

interpretation th: timer_service schedule cancel pop_due timers_inv live next_id
proof (unfold_locales, goal_cases)
  case (1 t) show ?case by (rule finite_live)
next
  case (2 t i d) then show ?case by (auto simp: timers_inv_def live_def)
next
  case (3 t d i t') then show ?case using schedule_spec [OF 3] by simp
next
  case (4 t i) then show ?case by (simp add: cancel_spec live_cancel)
next
  case (5 t now i t') then show ?case using pop_due_Some [OF 5] by simp
next
  case (6 t now t') then show ?case using pop_due_None [OF 6] by simp
qed

section \<open>Properties\<close>

text \<open>C33: Every operation of the heap keeps the min-heap order, the uniqueness of the stored
  identifiers and their bound, and changes the set of live timers as documented: scheduling adds one fresh
  timer, cancelling removes exactly the named one.\<close>

theorem timer_heap_refines_live_set:
  assumes "timers_inv t" and "i < next_id t" and "schedule t d = (new, t')"
  shows "timers_inv t' \<and> live t' = insert (new, d) (live t) \<and> (\<forall>e. (new, e) \<notin> live t)
    \<and> timers_inv (cancel t i) \<and> live (cancel t i) = {x \<in> live t. fst x \<noteq> i}"
  using th.sched_spec [OF assms(1,3)] th.canc_spec [OF assms(1,2)] th.sched_fresh [OF assms(1,3)]
  by blast

theorem timer_heap_refines_live_set_witness:
  "let t = snd (schedule empty_timers 50) in
   timers_inv t \<and> 1 < next_id t \<and> live (snd (schedule t 20)) = {(1, 50), (2, 20)} \<and> live (cancel t 1) = {}"
proof -
  have e: "timers_inv empty_timers" "live empty_timers = {}"
    by (simp_all add: empty_timers_def timers_inv_def is_heap_def live_def)
  let ?t = "snd (schedule empty_timers 50)"
  have t: "schedule empty_timers 50 = (1, ?t)" "next_id ?t = 2"
    by (simp_all add: schedule_def empty_timers_def Let_def)
  have f: "fst (schedule ?t 20) = 2" using t(2) by (simp add: schedule_def Let_def)
  have inv: "timers_inv ?t" "live ?t = {(1, 50)}" using th.sched_spec [OF e(1) t(1)] e(2) by simp_all
  have one: "1 < next_id ?t" using t by simp
  have s: "schedule ?t 20 = (2, snd (schedule ?t 20))" using f by (simp add: prod_eq_iff)
  from timer_heap_refines_live_set [OF inv(1) one s] inv t f show ?thesis
    unfolding Let_def by auto
qed

text \<open>\<open>pop_due\<close> returns a live timer with the least deadline whenever some live timer is due,
  removing exactly it, and returns nothing otherwise, leaving the live timers alone.\<close>

theorem pop_due_earliest:
  assumes "timers_inv t" and "pop_due t now = (r, t')"
  shows "timers_inv t' \<and> (case r of
        Some i \<Rightarrow> (\<exists>d. (i, d) \<in> live t \<and> d \<le> now \<and> (\<forall>(j, e) \<in> live t. d \<le> e))
          \<and> live t' = {x \<in> live t. fst x \<noteq> i}
      | None \<Rightarrow> (\<forall>(j, e) \<in> live t. now < e) \<and> live t' = live t)"
  using th.pop_Some_spec [OF assms(1), of now] th.pop_None_spec [OF assms(1), of now] assms(2)
  by (cases r) auto

theorem pop_due_earliest_witness:
  "let t = snd (schedule (snd (schedule empty_timers 50)) 20) in
   timers_inv t \<and> fst (pop_due t 30) = Some 2 \<and> live (snd (pop_due t 30)) = {(1, 50)}"
proof -
  let ?t = "snd (schedule (snd (schedule empty_timers 50)) 20)"
  have e: "timers_inv empty_timers" "live empty_timers = {}" "next_id empty_timers = 1"
    by (simp_all add: empty_timers_def timers_inv_def is_heap_def live_def)
  have s1: "timers_inv (snd (schedule empty_timers 50))" "live (snd (schedule empty_timers 50)) = {(1, 50)}"
      "next_id (snd (schedule empty_timers 50)) = 2"
    using th.sched_spec [OF e(1), of 50] e by (cases "schedule empty_timers 50"; force)+
  have s2: "timers_inv ?t" "live ?t = {(2, 20), (1, 50)}"
    using th.sched_spec [OF s1(1), of 20] s1 by (cases "schedule (snd (schedule empty_timers 50)) 20"; force)+
  obtain r t' where p: "pop_due ?t 30 = (r, t')" by (cases "pop_due ?t 30")
  from pop_due_earliest [OF s2(1) p] s2 have "r = Some 2 \<and> live t' = {(1, 50)}"
    by (auto split: option.splits)
  with p s2 show ?thesis unfolding Let_def by auto
qed

text \<open>Cancelling an identifier that has not been issued yet is not the no-op its comment
  promises: the timer that later receives the identifier is dead from the start.\<close>

theorem cancel_unissued_kills_future_timer:
  assumes "schedule (cancel t (next_id t)) d = (i, t')"
  shows "i = next_id t \<and> (\<forall>e. (i, e) \<notin> live t')"
  using assms by (auto simp: schedule_def cancel_def Let_def live_def)

theorem cancel_unissued_kills_future_timer_witness:
  "\<exists>t'. schedule (cancel empty_timers (next_id empty_timers)) 50 = (1, t') \<and> (\<forall>e. (1, e) \<notin> live t')"
proof -
  let ?s = "schedule (cancel empty_timers (next_id empty_timers)) 50"
  have "?s = (1, snd ?s)" by (simp add: schedule_def cancel_def empty_timers_def Let_def)
  from this cancel_unissued_kills_future_timer [OF this] show ?thesis by auto
qed

end
