(* ===== verification/Congestion.thy ===== *)
theory Congestion
  imports Taut_Prelude
begin

text \<open>
  The congestion controller of \<^verbatim>\<open>src/congestion.cc\<close>: a fixed window, or paced AIMD (slow start,
  then one packet per window of new acknowledgements, halving at most once per flight). The lemmas give its invariant,
  the closed form of the two growth phases, the once-per-flight rule and the pacing rule.
\<close>

section \<open>Model\<close>

datatype CongestionMode = FixedWindow | PacedAimd

record CongestionControl =
  mode :: CongestionMode
  maximum :: nat
  window :: nat
  threshold :: nat
  credit :: nat
  recovery_end :: u32
  recovering :: bool
  srtt :: nanos
  next_send :: time_point

definition new_congestion :: "CongestionMode \<Rightarrow> nat \<Rightarrow> millis \<Rightarrow> CongestionControl" where
  "new_congestion m maxi initial_rtt =
     \<lparr>mode = m, maximum = max 1 maxi,
      window = (if m = FixedWindow then max 1 maxi else min 10 (max 1 maxi)),
      threshold = max 1 maxi, credit = 0, recovery_end = 0, recovering = False,
      srtt = ms (max initial_rtt 1), next_send = 0\<rparr>"

text \<open>The loop \<^verbatim>\<open>while (packets-- != 0 && window_ < maximum_)\<close> of \<^verbatim>\<open>acknowledge\<close>.\<close>

definition ack_one :: "CongestionControl \<Rightarrow> CongestionControl" where
  "ack_one c =
     (if window c < threshold c then c\<lparr>window := window c + 1\<rparr>
      else if credit c + 1 \<ge> window c then c\<lparr>window := window c + 1, credit := 0\<rparr>
      else c\<lparr>credit := credit c + 1\<rparr>)"

fun ack_loop :: "nat \<Rightarrow> CongestionControl \<Rightarrow> CongestionControl" where
  "ack_loop 0 c = c"
| "ack_loop (Suc packets) c = (if window c < maximum c then ack_loop packets (ack_one c) else c)"

definition acknowledge :: "CongestionControl \<Rightarrow> nat \<Rightarrow> CongestionControl" where
  "acknowledge c packets = (if mode c = FixedWindow then c else ack_loop packets c)"

definition loss :: "CongestionControl \<Rightarrow> u32 \<Rightarrow> u32 \<Rightarrow> CongestionControl" where
  "loss c sequence next_sequence =
     (if mode c = FixedWindow then c
      else if recovering c \<and> sequence < recovery_end c then c
      else let t = max 1 (window c div 2)
           in c\<lparr>threshold := t, window := t, credit := 0, recovery_end := next_sequence, recovering := True\<rparr>)"

definition sample_rtt :: "CongestionControl \<Rightarrow> millis \<Rightarrow> CongestionControl" where
  "sample_rtt c sample =
     (if mode c = FixedWindow then c
      else let bounded = max sample 1
           in c\<lparr>srtt := tdiv (srtt c * 7 + ms bounded) 8\<rparr>)"

definition ready :: "CongestionControl \<Rightarrow> time_point \<Rightarrow> bool" where
  "ready c now \<longleftrightarrow> mode c = FixedWindow \<or> now \<ge> next_send c"

definition sent :: "CongestionControl \<Rightarrow> time_point \<Rightarrow> CongestionControl" where
  "sent c now =
     (if mode c = FixedWindow then c
      else c\<lparr>next_send := now + tdiv (srtt c) (int (window c))\<rparr>)"

section \<open>Invariant\<close>

definition cc_inv :: "CongestionControl \<Rightarrow> bool" where
  "cc_inv c \<longleftrightarrow> 1 \<le> window c \<and> window c \<le> maximum c \<and> 1 \<le> threshold c \<and> threshold c \<le> maximum c
     \<and> credit c < window c \<and> ms 1 \<le> srtt c \<and> (mode c = FixedWindow \<longrightarrow> window c = maximum c)"

lemma cc_inv_new: "cc_inv (new_congestion m maxi r)"
  by (auto simp: cc_inv_def new_congestion_def ms_def)

lemma cc_inv_ack_one:
  "cc_inv c \<Longrightarrow> window c < maximum c \<Longrightarrow> cc_inv (ack_one c)"
  by (auto simp: cc_inv_def ack_one_def)

lemma cc_inv_ack_loop: "cc_inv c \<Longrightarrow> cc_inv (ack_loop n c)"
  by (induction n c rule: ack_loop.induct) (simp_all add: cc_inv_ack_one)

lemma cc_inv_acknowledge: "cc_inv c \<Longrightarrow> cc_inv (acknowledge c n)"
  by (simp add: acknowledge_def cc_inv_ack_loop)

lemma cc_inv_loss: "cc_inv c \<Longrightarrow> cc_inv (loss c s n)"
  by (auto simp: cc_inv_def loss_def Let_def max_def)

lemma cc_inv_sample_rtt:
  assumes "cc_inv c"
  shows "cc_inv (sample_rtt c r)"
proof -
  have "ms 1 \<le> tdiv (srtt c * 7 + ms (max r 1)) 8"
    using assms by (subst tdiv_nonneg) (auto simp: cc_inv_def ms_def max_def)
  with assms show ?thesis by (auto simp: cc_inv_def sample_rtt_def Let_def)
qed

lemma cc_inv_sent: "cc_inv c \<Longrightarrow> cc_inv (sent c t)"
  by (auto simp: cc_inv_def sent_def)

lemmas cc_inv_intros [intro] =
  cc_inv_new cc_inv_acknowledge cc_inv_loss cc_inv_sample_rtt cc_inv_sent

lemma ack_one_frame [simp]:
  "maximum (ack_one c) = maximum c" "threshold (ack_one c) = threshold c" "mode (ack_one c) = mode c"
  by (simp_all add: ack_one_def)

section \<open>Growth\<close>

text \<open>Slow start: every acknowledged packet opens the window by one, up to the threshold.\<close>

lemma ack_loop_slow_start:
  "window c + n \<le> threshold c \<Longrightarrow> threshold c \<le> maximum c \<Longrightarrow>
   ack_loop n c = c\<lparr>window := window c + n\<rparr>"
proof (induction n arbitrary: c)
  case (Suc n)
  then have "window c < maximum c" "ack_one c = c\<lparr>window := window c + 1\<rparr>"
    by (simp_all add: ack_one_def)
  with Suc show ?case by simp
qed simp

text \<open>Congestion avoidance: acknowledgements are saved up until a whole window of them has come.\<close>

lemma ack_loop_credit:
  "threshold c \<le> window c \<Longrightarrow> window c < maximum c \<Longrightarrow> credit c + n < window c \<Longrightarrow>
   ack_loop n c = c\<lparr>credit := credit c + n\<rparr>"
proof (induction n arbitrary: c)
  case (Suc n)
  then have "ack_one c = c\<lparr>credit := credit c + 1\<rparr>" by (simp add: ack_one_def)
  with Suc show ?case by simp
qed simp

lemma ack_loop_add:
  "(\<forall>k<m. window (ack_loop k c) < maximum c) \<Longrightarrow> ack_loop (m + n) c = ack_loop n (ack_loop m c)"
proof (induction m arbitrary: c)
  case (Suc m)
  from Suc.prems have "window c < maximum c" by (metis ack_loop.simps(1) zero_less_Suc)
  moreover have "\<forall>k<m. window (ack_loop k (ack_one c)) < maximum (ack_one c)"
    using Suc.prems calculation by (metis Suc_mono ack_loop.simps(2) ack_one_frame(1))
  ultimately show ?case using Suc.IH by simp
qed simp

section \<open>Properties\<close>

text \<open>The calls a session makes on its controller, in any order.\<close>

datatype cc_op = Acked nat | Lost u32 u32 | Sampled millis | Sent time_point

fun cc_apply :: "CongestionControl \<Rightarrow> cc_op \<Rightarrow> CongestionControl" where
  "cc_apply c (Acked n) = acknowledge c n"
| "cc_apply c (Lost s nx) = loss c s nx"
| "cc_apply c (Sampled r) = sample_rtt c r"
| "cc_apply c (Sent t) = sent c t"

lemma cc_inv_run: "cc_inv c \<Longrightarrow> cc_inv (foldl cc_apply c ops)"
proof (induction ops arbitrary: c)
  case (Cons a ops)
  then show ?case by (cases a) auto
qed simp

lemma ack_loop_frame [simp]: "maximum (ack_loop n c) = maximum c" "mode (ack_loop n c) = mode c"
  by (induction n c rule: ack_loop.induct) simp_all

lemma cc_apply_frame [simp]: "maximum (cc_apply c a) = maximum c" "mode (cc_apply c a) = mode c"
  by (cases a; simp add: acknowledge_def loss_def sample_rtt_def sent_def Let_def)+

lemma cc_run_frame: "maximum (foldl cc_apply c ops) = maximum c" "mode (foldl cc_apply c ops) = mode c"
  by (induction ops arbitrary: c) simp_all

text \<open>C34: Through any sequence of acknowledgements, losses, samples and sends, the congestion window
  stays between one packet and the configured maximum, and under the fixed-window policy it never moves.\<close>

theorem congestion_window_bounded:
  assumes "c = foldl cc_apply (new_congestion m maxi r) ops"
  shows "1 \<le> window c \<and> window c \<le> max 1 maxi \<and> (m = FixedWindow \<longrightarrow> window c = max 1 maxi)"
proof -
  have "cc_inv c" unfolding assms by (rule cc_inv_run [OF cc_inv_new])
  moreover have "maximum c = max 1 maxi" "mode c = m"
    unfolding assms cc_run_frame by (simp_all add: new_congestion_def)
  ultimately show ?thesis by (simp add: cc_inv_def)
qed

theorem congestion_window_bounded_witness:
  "1 \<le> window (foldl cc_apply (new_congestion PacedAimd 64 25) [Acked 3, Lost 2 9, Sampled 7])
   \<and> window (foldl cc_apply (new_congestion PacedAimd 64 25) [Acked 3, Lost 2 9, Sampled 7]) \<le> 64"
  using congestion_window_bounded [OF refl, of PacedAimd 64 25 "[Acked 3, Lost 2 9, Sampled 7]"] by simp

text \<open>Additive increase: in congestion avoidance, one full window of newly acknowledged packets
  opens the window by exactly one packet.\<close>

theorem congestion_additive_increase:
  assumes "mode c = PacedAimd" "cc_inv c" "threshold c \<le> window c" "window c < maximum c" "credit c = 0"
  shows "acknowledge c (window c) = c\<lparr>window := window c + 1\<rparr>"
proof -
  let ?k = "window c - 1"
  have pos: "window c = ?k + 1" using assms(2) by (simp add: cc_inv_def)
  have all: "ack_loop j c = c\<lparr>credit := j\<rparr>" if "j \<le> ?k" for j
    using ack_loop_credit [of c j] assms that pos by simp
  have "ack_loop (?k + 1) c = ack_loop 1 (c\<lparr>credit := ?k\<rparr>)"
    using ack_loop_add [of ?k c 1] all assms(4) by simp
  also have "\<dots> = c\<lparr>window := window c + 1\<rparr>"
    using assms pos by (simp add: ack_one_def)
  finally show ?thesis using assms(1) pos by (simp add: acknowledge_def)
qed

theorem congestion_additive_increase_witness:
  "let c = (new_congestion PacedAimd 64 25)\<lparr>window := 4, threshold := 4\<rparr> in
   cc_inv c \<and> acknowledge c 4 = c\<lparr>window := 5\<rparr>"
proof -
  let ?c = "(new_congestion PacedAimd 64 25)\<lparr>window := 4, threshold := 4\<rparr>"
  have "mode ?c = PacedAimd" "cc_inv ?c" "threshold ?c \<le> window ?c" "window ?c < maximum ?c" "credit ?c = 0"
    by (simp_all add: cc_inv_def new_congestion_def ms_def)
  from congestion_additive_increase [OF this] this(2) show ?thesis by simp
qed

text \<open>Multiplicative decrease happens once per flight: a loss halves the window (never below
  one), and every further loss of a packet sent before that moment leaves the controller unchanged.\<close>

theorem congestion_halves_once_per_flight:
  assumes "mode c = PacedAimd" "\<not> (recovering c \<and> s < recovery_end c)" "s' < nx"
  shows "window (loss c s nx) = max 1 (window c div 2) \<and> loss (loss c s nx) s' nx' = loss c s nx"
  using assms by (auto simp: loss_def Let_def)

theorem congestion_halves_once_per_flight_witness:
  "let c = new_congestion PacedAimd 64 25 in
   window (loss c 3 9) = 5 \<and> loss (loss c 3 9) 7 12 = loss c 3 9"
  using congestion_halves_once_per_flight [of "new_congestion PacedAimd 64 25" 3 7 9 12]
  by (simp add: new_congestion_def)

end
