(* ===== verification/Ieee_Double.thy ===== *)
theory Ieee_Double
  imports Complex_Main "HOL-Library.Log_Nat"
begin

text \<open>
  The C++ \<^verbatim>\<open>double\<close>: finite values are rationals, and each arithmetic operation is the exact operation followed by
  \<open>fl\<close>, rounding to nearest with ties to even on a 53-bit significand with gradual underflow at \<open>2 ^ (-1074)\<close>.
  Infinities are not modelled: the values of this program stay far below \<open>2 ^ 1024\<close>.
  The laws used elsewhere are that \<open>fl\<close> is monotone and exact on the values that have a representation.
\<close>

section \<open>Model\<close>

definition rat_exponent :: "rat \<Rightarrow> int" where
  "rat_exponent x =
     (let (p, q) = quotient_of x; k = bitlen p - bitlen q
      in if x < 2 powi k then k - 1 else k)"

definition round_half_even :: "rat \<Rightarrow> int" where
  "round_half_even x =
     (let f = \<lfloor>x\<rfloor>; r = x - of_int f
      in if r < 1 / 2 then f else if r > 1 / 2 then f + 1 else if even f then f else f + 1)"

definition ulp_exponent :: "rat \<Rightarrow> int" where
  "ulp_exponent x = max (rat_exponent x - 52) (- 1074)"

definition fl_pos :: "rat \<Rightarrow> rat" where
  "fl_pos x = of_int (round_half_even (x / 2 powi ulp_exponent x)) * 2 powi ulp_exponent x"

definition fl :: "rat \<Rightarrow> rat" where
  "fl x = (if x = 0 then 0 else if 0 < x then fl_pos x else - fl_pos (- x))"

text \<open>\<^verbatim>\<open>std::llround\<close>: halfway cases away from zero.\<close>

definition llround :: "rat \<Rightarrow> int" where
  "llround x = (if 0 \<le> x then \<lfloor>x + 1 / 2\<rfloor> else - \<lfloor>- x + 1 / 2\<rfloor>)"

section \<open>Rounding to integers\<close>

lemma round_half_even_int [simp]: "round_half_even (of_int n) = n"
  by (simp add: round_half_even_def)

lemma round_half_even_mono:
  assumes "x \<le> y"
  shows "round_half_even x \<le> round_half_even y"
proof (cases "\<lfloor>x\<rfloor> = \<lfloor>y\<rfloor>")
  case True
  then show ?thesis using assms by (auto simp: round_half_even_def Let_def)
next
  case False
  with floor_mono [OF assms] have "\<lfloor>x\<rfloor> + 1 \<le> \<lfloor>y\<rfloor>" by simp
  moreover have "round_half_even x \<le> \<lfloor>x\<rfloor> + 1" "\<lfloor>y\<rfloor> \<le> round_half_even y"
    by (auto simp: round_half_even_def Let_def)
  ultimately show ?thesis by linarith
qed

lemma llround_between: "of_int a \<le> x \<Longrightarrow> x \<le> of_int b \<Longrightarrow> a \<le> llround x \<and> llround x \<le> b"
  unfolding llround_def by (auto simp: le_floor_iff floor_le_iff, linarith+)

section \<open>The exponent of a positive rational\<close>

lemma two_powi_mono: "m \<le> n \<Longrightarrow> (2 :: rat) powi m \<le> 2 powi n"
  by (rule power_int_increasing) auto

lemma two_powi_less: "(2 :: rat) powi m < 2 powi n \<longleftrightarrow> m < n"
  by (metis not_le order.strict_iff_not power_int_strict_increasing one_less_numeral_iff semiring_norm(76)
      two_powi_mono)

lemma two_powi_pos [simp]: "0 < (2 :: rat) powi m"
  by simp

lemma two_powi_not_neg [simp]: "\<not> (2 :: rat) powi m < 0"
  by (meson less_asym two_powi_pos)

lemma bitlen_powi:
  assumes "0 < n"
  shows "2 powi (bitlen n - 1) \<le> (of_int n :: rat)" "(of_int n :: rat) < 2 powi bitlen n"
proof -
  have b: "1 \<le> bitlen n" using assms bitlen_eq_zero_iff [of n] bitlen_nonneg [of n] by linarith
  from bitlen_bounds [OF assms] have "(2 ^ nat (bitlen n - 1) :: int) \<le> n" "n < 2 ^ nat (bitlen n)" by auto
  then have "(of_int (2 ^ nat (bitlen n - 1)) :: rat) \<le> of_int n" "(of_int n :: rat) < of_int (2 ^ nat (bitlen n))"
    by (simp_all only: of_int_le_iff of_int_less_iff)
  with b show "2 powi (bitlen n - 1) \<le> (of_int n :: rat)" "(of_int n :: rat) < 2 powi bitlen n"
    by (simp_all add: power_int_def)
qed

lemma rat_exponent_bounds:
  assumes "0 < x"
  shows "2 powi rat_exponent x \<le> x" "x < 2 powi (rat_exponent x + 1)"
proof -
  obtain p q where pq: "quotient_of x = (p, q)" by fastforce
  have q: "0 < q" using quotient_of_denom_pos [OF pq] .
  have x: "x = of_int p / of_int q" using quotient_of_div [OF pq] .
  have p: "0 < p" using assms q unfolding x by (simp add: zero_less_divide_iff)
  let ?k = "bitlen p - bitlen q"
  have "2 powi (?k - 1) \<le> x"
  proof -
    have "2 powi (?k - 1) = 2 powi (bitlen p - 1) / (2 :: rat) powi bitlen q"
      by (simp flip: power_int_diff add: algebra_simps)
    also have "\<dots> \<le> of_int p / of_int q"
      using bitlen_powi [OF p] bitlen_powi [OF q] p q by (intro frac_le) auto
    finally show ?thesis by (simp add: x)
  qed
  moreover have "x < 2 powi (?k + 1)"
  proof -
    have "of_int p / of_int q < 2 powi bitlen p / (2 :: rat) powi (bitlen q - 1)"
      using bitlen_powi [OF p] bitlen_powi [OF q] p q by (intro frac_less) auto
    also have "\<dots> = 2 powi (?k + 1)"
      by (simp flip: power_int_diff add: algebra_simps)
    finally show ?thesis by (simp add: x)
  qed
  ultimately show "2 powi rat_exponent x \<le> x" "x < 2 powi (rat_exponent x + 1)"
    by (auto simp: rat_exponent_def pq Let_def)
qed

lemma rat_exponent_mono: "0 < x \<Longrightarrow> x \<le> y \<Longrightarrow> rat_exponent x \<le> rat_exponent y"
proof -
  assume "0 < x" "x \<le> y"
  then have "(2 :: rat) powi rat_exponent x < 2 powi (rat_exponent y + 1)"
    using rat_exponent_bounds [of x] rat_exponent_bounds [of y] by linarith
  then show ?thesis by (simp add: two_powi_less)
qed

section \<open>Exactness and monotonicity of fl\<close>

lemma scaled_int:
  assumes "k \<ge> e"
  shows "(of_int n * 2 powi k / 2 powi e :: rat) = of_int (n * 2 ^ nat (k - e))"
proof -
  have "(2 :: rat) powi k / 2 powi e = 2 powi (k - e)" by (simp add: power_int_diff)
  also have "\<dots> = of_int (2 ^ nat (k - e))" using assms by (simp add: power_int_def)
  finally show ?thesis by (simp flip: times_divide_eq_right)
qed

lemma fl_pos_exact:
  assumes "0 < n" "n < 2 ^ 53" "- 1074 \<le> k"
  shows "fl_pos (of_int n * 2 powi k) = of_int n * 2 powi k"
proof -
  let ?x = "of_int n * 2 powi k :: rat" and ?e = "ulp_exponent (of_int n * 2 powi k)"
  have pos: "0 < ?x" using assms by simp
  have "?e \<le> k"
  proof (rule ccontr)
    assume "\<not> ?e \<le> k"
    then have e: "?e = rat_exponent ?x - 52" "k < ?e" using assms(3) by (auto simp: ulp_exponent_def)
    have "(2 :: rat) powi (?e + 52) \<le> ?x" using rat_exponent_bounds(1) [OF pos] e by simp
    also have "?x < of_int (2 ^ 53) * 2 powi k"
      using assms(2) by (intro mult_strict_right_mono) (simp_all only: of_int_less_iff two_powi_pos)
    also have "\<dots> = 2 powi (k + 53)" by (simp add: power_int_add)
    finally show False using e by (simp add: two_powi_less)
  qed
  then have q: "?x / 2 powi ?e = of_int (n * 2 ^ nat (k - ?e))" by (rule scaled_int)
  have "fl_pos ?x = ?x / 2 powi ?e * 2 powi ?e" unfolding fl_pos_def q round_half_even_int ..
  then show ?thesis by simp
qed

lemma fl_exact:
  assumes "\<bar>n\<bar> < 2 ^ 53" "- 1074 \<le> k"
  shows "fl (of_int n * 2 powi k) = of_int n * 2 powi k"
proof (cases n "0 :: int" rule: linorder_cases)
  case less
  then show ?thesis using fl_pos_exact [of "- n" k] assms
    by (simp add: fl_def zero_less_mult_iff)
next
  case greater
  then show ?thesis using fl_pos_exact [of n k] assms by (simp add: fl_def)
qed (simp add: fl_def)

lemma fl_int: "\<bar>n\<bar> < 2 ^ 53 \<Longrightarrow> fl (of_int n) = of_int n"
  using fl_exact [of n 0] by simp

lemma fl_eighths: "\<bar>n\<bar> < 2 ^ 53 \<Longrightarrow> fl (of_int n / 8) = of_int n / 8"
  using fl_exact [of n "- 3"] by (simp add: power_int_def power3_eq_cube)

lemma fl_zero [simp]: "fl 0 = 0"
  by (simp add: fl_def)

lemma fl_pos_mono:
  assumes "0 < x" "x \<le> y"
  shows "fl_pos x \<le> fl_pos y"
proof (cases "ulp_exponent x = ulp_exponent y")
  case True
  have "x / 2 powi ulp_exponent y \<le> y / 2 powi ulp_exponent y" using assms by (simp add: divide_right_mono)
  from round_half_even_mono [OF this] True show ?thesis by (simp add: fl_pos_def)
next
  case False
  let ?ex = "ulp_exponent x" and ?ey = "ulp_exponent y" and ?Y = "rat_exponent y"
  from assms rat_exponent_mono have le: "rat_exponent x \<le> ?Y" by blast
  with False have lt: "?ex < ?ey" "?ey = ?Y - 52" by (auto simp: ulp_exponent_def)
  then have Y: "rat_exponent x + 1 \<le> ?Y" "?ex \<le> ?Y" "?ey \<le> ?Y" by (auto simp: ulp_exponent_def)
  have "x < 2 powi ?Y"
    using rat_exponent_bounds(2) [OF assms(1)] two_powi_mono [OF Y(1)] by linarith
  then have "x / 2 powi ?ex \<le> of_int 1 * 2 powi ?Y / 2 powi ?ex" by (simp add: divide_right_mono)
  then have "round_half_even (x / 2 powi ?ex) \<le> 1 * 2 ^ nat (?Y - ?ex)"
    unfolding scaled_int [OF Y(2)] by (metis round_half_even_int round_half_even_mono)
  then have "fl_pos x \<le> of_int (1 * 2 ^ nat (?Y - ?ex)) * 2 powi ?ex"
    unfolding fl_pos_def by (intro mult_right_mono) (simp_all only: of_int_le_iff two_powi_pos less_imp_le)
  also have "\<dots> = 2 powi ?Y" using scaled_int [OF Y(2), of 1] by (simp add: field_simps)
  also have "\<dots> = of_int (1 * 2 ^ nat (?Y - ?ey)) * 2 powi ?ey" using scaled_int [OF Y(3), of 1] by (simp add: field_simps)
  also have "\<dots> \<le> fl_pos y"
  proof -
    have "2 powi ?Y \<le> y" using assms rat_exponent_bounds(1) [of y] by simp
    then have "of_int 1 * 2 powi ?Y / 2 powi ?ey \<le> y / 2 powi ?ey" by (simp add: divide_right_mono)
    then have "1 * 2 ^ nat (?Y - ?ey) \<le> round_half_even (y / 2 powi ?ey)"
      unfolding scaled_int [OF Y(3)] by (metis round_half_even_int round_half_even_mono)
    then show ?thesis unfolding fl_pos_def
      by (intro mult_right_mono) (simp_all only: of_int_le_iff two_powi_pos less_imp_le)
  qed
  finally show ?thesis .
qed

lemma fl_pos_nonneg: "0 < x \<Longrightarrow> 0 \<le> fl_pos x"
  using round_half_even_mono [of 0 "x / 2 powi ulp_exponent x"] round_half_even_int [of 0]
  by (simp add: fl_pos_def)

lemma fl_mono:
  assumes "x \<le> y"
  shows "fl x \<le> fl y"
proof -
  consider "0 < x" | "x = 0" | "x < 0" "0 \<le> y" | "y < 0" using assms by linarith
  then show ?thesis
  proof cases
    case 1 then show ?thesis using assms fl_pos_mono by (simp add: fl_def)
  next
    case 2 then show ?thesis using assms fl_pos_nonneg [of y] by (simp add: fl_def)
  next
    case 3 then show ?thesis using fl_pos_nonneg [of "- x"] fl_pos_nonneg [of y]
      by (cases "y = 0") (simp_all add: fl_def)
  next
    case 4 then show ?thesis using assms fl_pos_mono [of "- y" "- x"] by (simp add: fl_def)
  qed
qed

lemma fl_nonneg: "0 \<le> x \<Longrightarrow> 0 \<le> fl x"
  using fl_mono [of 0 x] by simp

end
