(* ===== verification/Rto.thy ===== *)
theory Rto
  imports Taut_Prelude Ieee_Double
begin

text \<open>
  The retransmission-timeout estimator of \<^verbatim>\<open>src/rto.cc\<close> (RFC 6298 smoothing with a configurable floor), with
  its \<^verbatim>\<open>double\<close> arithmetic rounded at every operation. The lemmas bound the timeout and the smoothed
  round-trip time.
\<close>

section \<open>Model\<close>

definition kGranularityMs :: rat where "kGranularityMs = 1"
definition kInitialRtoMs :: rat where "kInitialRtoMs = 200"

record RttEstimator =
  has_sample :: bool
  est_srtt :: rat
  est_rttvar :: rat
  rto_floor :: millis
  rto_max :: millis

definition new_rtt :: "millis \<Rightarrow> millis \<Rightarrow> RttEstimator" where
  "new_rtt floor_ms max_ms = \<lparr>has_sample = False, est_srtt = 0, est_rttvar = 0,
     rto_floor = floor_ms, rto_max = max_ms\<rparr>"

definition rtt_sample :: "RttEstimator \<Rightarrow> millis \<Rightarrow> RttEstimator" where
  "rtt_sample e rtt =
     (let r = fl (of_int rtt)
      in if \<not> has_sample e
         then e\<lparr>est_srtt := r, est_rttvar := fl (r / 2), has_sample := True\<rparr>
         else let v = fl (fl (3 / 4 * est_rttvar e) + fl (1 / 4 * \<bar>fl (est_srtt e - r)\<bar>));
                  s = fl (fl (7 / 8 * est_srtt e) + fl (1 / 8 * r))
              in e\<lparr>est_rttvar := v, est_srtt := s\<rparr>)"

text \<open>\<^verbatim>\<open>std::clamp\<close>\<close>

definition clamp :: "rat \<Rightarrow> rat \<Rightarrow> rat \<Rightarrow> rat" where
  "clamp v lo hi = (if v < lo then lo else if hi < v then hi else v)"

definition rto :: "RttEstimator \<Rightarrow> millis" where
  "rto e =
     (let rto_ms = (if has_sample e
            then fl (est_srtt e + max kGranularityMs (fl (4 * est_rttvar e)))
            else kInitialRtoMs);
          rto_ms = clamp rto_ms (fl (of_int (rto_floor e))) (fl (of_int (rto_max e)))
      in llround rto_ms)"

section \<open>Properties\<close>

lemma rtt_sample_limits [simp]:
  "rto_floor (rtt_sample e r) = rto_floor e" "rto_max (rtt_sample e r) = rto_max e"
  by (simp_all add: rtt_sample_def Let_def)

lemma new_rtt_limits [simp]: "rto_floor (new_rtt a b) = a" "rto_max (new_rtt a b) = b"
  by (simp_all add: new_rtt_def)

definition rto_limits_ok :: "RttEstimator \<Rightarrow> bool" where
  "rto_limits_ok e \<longleftrightarrow> \<bar>rto_floor e\<bar> < 2 ^ 53 \<and> \<bar>rto_max e\<bar> < 2 ^ 53 \<and> rto_floor e \<le> rto_max e"

lemma rto_bounds:
  assumes "rto_limits_ok e"
  shows "rto_floor e \<le> rto e \<and> rto e \<le> rto_max e"
proof -
  have f: "fl (of_int (rto_floor e)) = of_int (rto_floor e)" "fl (of_int (rto_max e)) = of_int (rto_max e)"
    using assms by (auto simp: rto_limits_ok_def intro!: fl_int)
  have le: "rto_floor e \<le> rto_max e" using assms by (simp add: rto_limits_ok_def)
  show ?thesis unfolding rto_def Let_def f
    using le by (intro llround_between) (auto simp: clamp_def)
qed

text \<open>The retransmission timeout always lies between the configured floor and the cap, whatever
  samples were taken and however the floating-point operations rounded.\<close>

theorem rto_within_limits:
  assumes "e = foldl rtt_sample (new_rtt floor_ms max_ms) samples"
    and "0 \<le> floor_ms" and "floor_ms \<le> max_ms" and "max_ms < 2 ^ 53"
  shows "floor_ms \<le> rto e \<and> rto e \<le> max_ms"
proof -
  have lim: "rto_floor (foldl rtt_sample e0 samples) = rto_floor e0"
      "rto_max (foldl rtt_sample e0 samples) = rto_max e0" for e0
    by (induction samples arbitrary: e0) simp_all
  have "rto_floor e = floor_ms" "rto_max e = max_ms" unfolding assms(1) lim by simp_all
  moreover have "rto_limits_ok e" using calculation assms(2-) by (simp add: rto_limits_ok_def)
  ultimately show ?thesis using rto_bounds [of e] by simp
qed

theorem rto_within_limits_witness:
  "(25 :: int) \<le> rto (foldl rtt_sample (new_rtt 25 2000) [40, 3, 900])
   \<and> rto (foldl rtt_sample (new_rtt 25 2000) [40, 3, 900]) \<le> 2000"
  using rto_within_limits [OF refl, of 25 2000 "[40, 3, 900]"] by simp

text \<open>The smoothed estimate stays in any integer interval that contains the samples.\<close>

lemma srtt_step_between:
  assumes "has_sample e" "of_int lo \<le> est_srtt e" "est_srtt e \<le> of_int hi"
    and "lo \<le> r" "r \<le> hi" "0 \<le> lo" "hi < 2 ^ 49"
  shows "of_int lo \<le> est_srtt (rtt_sample e r) \<and> est_srtt (rtt_sample e r) \<le> of_int hi"
proof -
  have exact: "fl (7 / 8 * of_int n) = 7 / 8 * of_int n" "fl (1 / 8 * of_int n) = 1 / 8 * of_int n"
    "fl (of_int n) = of_int n" if "0 \<le> n" "n < 2 ^ 49" for n
    using that fl_eighths [of "7 * n"] fl_eighths [of n] fl_int [of n] by simp_all
  have r: "fl (of_int r) = of_int r" using assms exact(3) [of r] by simp
  let ?s = "fl (7 / 8 * est_srtt e)" and ?r = "fl (1 / 8 * of_int r)"
  have "7 / 8 * of_int lo \<le> ?s" "?s \<le> 7 / 8 * of_int hi"
    using fl_mono [of "7 / 8 * of_int lo" "7 / 8 * est_srtt e"] fl_mono [of "7 / 8 * est_srtt e" "7 / 8 * of_int hi"]
      assms exact(1) [of lo] exact(1) [of hi] by simp_all
  moreover have "1 / 8 * of_int lo \<le> ?r" "?r \<le> 1 / 8 * of_int hi"
    using fl_mono [of "1 / 8 * of_int lo" "1 / 8 * of_int r"] fl_mono [of "1 / 8 * of_int r" "1 / 8 * of_int hi"]
      assms exact(2) [of lo] exact(2) [of hi] by simp_all
  ultimately have sum: "of_int lo \<le> ?s + ?r" "?s + ?r \<le> of_int hi" by simp_all
  then have "of_int lo \<le> fl (?s + ?r)" "fl (?s + ?r) \<le> of_int hi"
    using fl_mono [OF sum(1)] fl_mono [OF sum(2)] assms exact(3) [of lo] exact(3) [of hi] by simp_all
  then show ?thesis using assms(1) by (simp add: rtt_sample_def Let_def r)
qed

text \<open>The smoothed round-trip time never leaves the range of the samples it was computed from.\<close>

theorem srtt_within_sample_range:
  assumes "samples \<noteq> []" and "\<forall>r \<in> set samples. lo \<le> r \<and> r \<le> hi" and "0 \<le> lo" and "hi < 2 ^ 49"
  shows "of_int lo \<le> est_srtt (foldl rtt_sample (new_rtt f m) samples)
    \<and> est_srtt (foldl rtt_sample (new_rtt f m) samples) \<le> of_int hi"
proof -
  have run: "of_int lo \<le> est_srtt (foldl rtt_sample e rs) \<and> est_srtt (foldl rtt_sample e rs) \<le> of_int hi"
    if "has_sample e" "of_int lo \<le> est_srtt e" "est_srtt e \<le> of_int hi" "\<forall>r \<in> set rs. lo \<le> r \<and> r \<le> hi" for e rs
    using that
  proof (induction rs arbitrary: e)
    case (Cons r rs)
    moreover have "has_sample (rtt_sample e r)" using Cons.prems(1) by (simp add: rtt_sample_def Let_def)
    ultimately show ?case using srtt_step_between [of e lo hi r] assms(3,4) by simp
  qed simp
  obtain r rs where s: "samples = r # rs" using assms(1) by (cases samples) auto
  have "fl (of_int r) = of_int r" using assms s by (intro fl_int) auto
  then have "has_sample (rtt_sample (new_rtt f m) r)" "est_srtt (rtt_sample (new_rtt f m) r) = of_int r"
    by (simp_all add: rtt_sample_def new_rtt_def Let_def)
  then show ?thesis using run [of "rtt_sample (new_rtt f m) r" rs] assms(2) by (simp add: s)
qed

theorem srtt_within_sample_range_witness:
  "of_int 3 \<le> est_srtt (foldl rtt_sample (new_rtt 25 2000) [40, 3, 900])
   \<and> est_srtt (foldl rtt_sample (new_rtt 25 2000) [40, 3, 900]) \<le> of_int 900"
  using srtt_within_sample_range [of "[40, 3, 900]" 3 900 25 2000] by simp

end
