(* ===== verification/Transport.thy ===== *)
theory Transport
  imports Taut_Prelude
begin

text \<open>
  The datagram interface of \<^verbatim>\<open>include/taut/transport.h\<close>. The abstract class \<^verbatim>\<open>UdpTransport\<close> is a record of its
  virtual functions over a state of the outside world; every call takes that state and returns the next one. The locale
  \<open>datagram_transport\<close> states what the protocol code relies on: a datagram that is received was sent earlier to
  the receiving endpoint (loss, duplication and reordering are all allowed), and the clock does not run backwards.
\<close>

section \<open>Model\<close>

record Endpoint =
  addr_be :: u32
  port_be :: u16

definition no_endpoint :: Endpoint where
  "no_endpoint = \<lparr>addr_be = 0, port_be = 0\<rparr>"

text \<open>The endpoint key used by the simulator and by the membership tables.\<close>

definition key :: "Endpoint \<Rightarrow> u64" where
  "key e = push_bit 16 (ucast (addr_be e)) OR ucast (port_be e)"

definition endpoint_of_key :: "u64 \<Rightarrow> Endpoint" where
  "endpoint_of_key k = \<lparr>addr_be = ucast (drop_bit 16 k), port_be = ucast (k AND 0xFFFF)\<rparr>"

text \<open>
  \<open>t_send to data\<close> returns the bytes accepted (0 on failure); \<open>t_recv size\<close> fills a buffer of that size and
  returns the bytes written with the source address, or nothing when no datagram is ready; \<open>t_now\<close> reads the clock.
\<close>

record 'n UdpTransport =
  t_send :: "Endpoint \<Rightarrow> bytes \<Rightarrow> 'n \<Rightarrow> nat \<times> 'n"
  t_recv :: "nat \<Rightarrow> 'n \<Rightarrow> (bytes \<times> Endpoint) option \<times> 'n"
  t_now :: "'n \<Rightarrow> time_point \<times> 'n"

section \<open>Endpoint keys\<close>

lemma endpoint_of_key_key [simp]: "endpoint_of_key (key e) = e"
proof -
  have m: "(0xFFFF :: u64) = mask 16" by (simp add: mask_numeral)
  have "(ucast (drop_bit 16 (key e)) :: u32) = addr_be e"
    by (rule bit_word_eqI) (auto simp: key_def bit_simps bit_word_length_le)
  moreover have "(ucast (key e AND mask 16) :: u16) = port_be e"
    by (rule bit_word_eqI) (auto simp: key_def bit_simps)
  ultimately show ?thesis by (simp add: endpoint_of_key_def m)
qed

lemma key_inject [simp]: "key e = key e' \<longleftrightarrow> e = e'"
  by (metis endpoint_of_key_key)

section \<open>The contract\<close>

locale datagram_transport =
  fixes T :: "'n UdpTransport"
    and me :: Endpoint
    and wire :: "'n \<Rightarrow> Endpoint \<Rightarrow> (Endpoint \<times> bytes) set"
    and clock :: "'n \<Rightarrow> time_point"
  assumes send_wire: "wire (snd (t_send T dest d n)) e \<subseteq> wire n e \<union> (if e = dest then {(me, d)} else {})"
    and send_size: "fst (t_send T dest d n) \<le> length d"
    and send_clock: "clock n \<le> clock (snd (t_send T dest d n))"
    and recv_wire: "wire (snd (t_recv T cap n)) e \<subseteq> wire n e"
    and recv_sent: "fst (t_recv T cap n) = Some (d, from) \<Longrightarrow> \<exists>d0. (from, d0) \<in> wire n me \<and> d = take cap d0"
    and recv_clock: "clock n \<le> clock (snd (t_recv T cap n))"
    and now_wire: "wire (snd (t_now T n)) e \<subseteq> wire n e"
    and now_clock: "clock n \<le> fst (t_now T n) \<and> fst (t_now T n) \<le> clock (snd (t_now T n))"
begin

text \<open>A predicate on the datagrams in flight to one endpoint, as an invariant of the calls.\<close>

definition flight_ok :: "(Endpoint \<Rightarrow> Endpoint \<Rightarrow> bytes \<Rightarrow> bool) \<Rightarrow> 'n \<Rightarrow> bool" where
  "flight_ok P n \<longleftrightarrow> (\<forall>e from d. (from, d) \<in> wire n e \<longrightarrow> P from e d)"

lemma flight_ok_send:
  assumes "flight_ok P n" "P me dest d"
  shows "flight_ok P (snd (t_send T dest d n))"
  unfolding flight_ok_def
proof (intro allI impI)
  fix e src x assume "(src, x) \<in> wire (snd (t_send T dest d n)) e"
  with send_wire [of dest d n e] have "(src, x) \<in> wire n e \<or> e = dest \<and> src = me \<and> x = d"
    by (auto split: if_splits)
  then show "P src e x" using assms unfolding flight_ok_def by blast
qed

lemma flight_ok_recv: "flight_ok P n \<Longrightarrow> flight_ok P (snd (t_recv T cap n))"
  using recv_wire unfolding flight_ok_def by blast

lemma flight_ok_now: "flight_ok P n \<Longrightarrow> flight_ok P (snd (t_now T n))"
  using now_wire unfolding flight_ok_def by blast

lemma flight_ok_received:
  assumes "flight_ok P n" "fst (t_recv T cap n) = Some (d, from)"
  shows "\<exists>d0. P from me d0 \<and> d = take cap d0"
  using recv_sent [OF assms(2)] assms(1) unfolding flight_ok_def by blast

lemma flight_ok_mono: "flight_ok P n \<Longrightarrow> (\<And>from e d. P from e d \<Longrightarrow> Q from e d) \<Longrightarrow> flight_ok Q n"
  unfolding flight_ok_def by blast

end

section \<open>Properties\<close>

text \<open>The packing of address and port into a 64-bit key is collision-free, and the endpoint can
  be recovered from its key.\<close>

theorem endpoint_key_collision_free: "(key e = key e') = (e = e') \<and> endpoint_of_key (key e) = e"
  by simp

end
