(* ===== verification/Mt19937.thy ===== *)
theory Mt19937
  imports Taut_Prelude
begin

text \<open>
  \<^verbatim>\<open>std::mt19937_64\<close>, the engine of the simulator and of the membership protocol, as the C++ standard defines it: the
  state is the last 312 words of the sequence, a draw computes the next word and tempers it.
\<close>

type_synonym mt_state = "u64 list"

definition mt_n :: nat where "mt_n = 312"
definition mt_m :: nat where "mt_m = 156"

fun mt_fill :: "nat \<Rightarrow> nat \<Rightarrow> u64 \<Rightarrow> u64 list" where
  "mt_fill 0 i prev = []"
| "mt_fill (Suc k) i prev =
     (let x = 6364136223846793005 * (prev XOR drop_bit 62 prev) + word_of_nat i
      in x # mt_fill k (Suc i) x)"

definition mt_seed :: "u64 \<Rightarrow> mt_state" where
  "mt_seed seed = seed # mt_fill (mt_n - 1) 1 seed"

definition mt_temper :: "u64 \<Rightarrow> u64" where
  "mt_temper z =
     (let z = z XOR (drop_bit 29 z AND 0x5555555555555555);
          z = z XOR (push_bit 17 z AND 0x71D67FFFEDA60000);
          z = z XOR (push_bit 37 z AND 0xFFF7EEE000000000)
      in z XOR drop_bit 43 z)"

definition mt_twist :: "u64 \<Rightarrow> u64 \<Rightarrow> u64 \<Rightarrow> u64" where
  "mt_twist oldest second mid =
     (let y = (oldest AND NOT (mask 31)) OR (second AND mask 31)
      in mid XOR drop_bit 1 y XOR (if bit y 0 then 0xB5026F5AA96619E9 else 0))"

definition mt_next :: "mt_state \<Rightarrow> u64 \<times> mt_state" where
  "mt_next xs =
     (let x = mt_twist (xs ! 0) (xs ! 1) (xs ! mt_m)
      in (mt_temper x, tl xs @ [x]))"

lemma length_mt_fill [simp]: "length (mt_fill k i p) = k"
  by (induction k i p rule: mt_fill.induct) (simp_all add: Let_def)

lemma length_mt_seed [simp]: "length (mt_seed s) = mt_n"
  by (simp add: mt_seed_def mt_n_def)

lemma length_mt_next: "xs \<noteq> [] \<Longrightarrow> length (snd (mt_next xs)) = length xs"
  by (simp add: mt_next_def Let_def)

end
