(* ===== verification/Sim_Net.thy ===== *)
theory Sim_Net
  imports Transport Mt19937 Complex_Main "HOL-Library.While_Combinator"
begin

text \<open>
  The deterministic simulator of \<^verbatim>\<open>src/sim_net.cc\<close>: impairments drawn from a seeded engine, one inbox per endpoint,
  delivery in order of arrival time and then of sequence number. It satisfies the contract of a datagram
  transport (interpretation \<open>sim\<close>), for every seed and every impairment setting.
\<close>

section \<open>Model\<close>

text \<open>Probabilities are \<^verbatim>\<open>double\<close> values, that is rationals; \<open>uniform01\<close> is exact (53 bits scaled by a power of two).\<close>

record Impairments =
  imp_loss :: rat
  imp_dup :: rat
  imp_delay :: millis
  imp_jitter :: millis

record InFlight =
  deliver_at :: time_point
  if_from :: Endpoint
  if_bytes :: bytes
  if_seqno :: nat

record SimNet =
  rng :: mt_state
  imp :: Impairments
  sim_now :: time_point
  seqctr :: nat
  endpoints :: "u64 \<rightharpoonup> Endpoint"
  inbox :: "u64 \<rightharpoonup> InFlight list"

definition new_simnet :: "u64 \<Rightarrow> Impairments \<Rightarrow> SimNet" where
  "new_simnet seed i = \<lparr>rng = mt_seed seed, imp = i, sim_now = 0, seqctr = 0,
     endpoints = Map.empty, inbox = Map.empty\<rparr>"

text \<open>\<^verbatim>\<open>unordered_map::operator[]\<close>: the stored value, or a value-initialised one that is inserted.\<close>

definition box_of :: "SimNet \<Rightarrow> u64 \<Rightarrow> InFlight list" where
  "box_of n k = (case inbox n k of None \<Rightarrow> [] | Some b \<Rightarrow> b)"

definition endpoint :: "SimNet \<Rightarrow> Endpoint \<Rightarrow> SimNet" where
  "endpoint n a =
     (if endpoints n (key a) = None
      then n\<lparr>endpoints := (endpoints n)(key a \<mapsto> a), inbox := (inbox n)(key a \<mapsto> box_of n (key a))\<rparr>
      else n)"

definition advance :: "SimNet \<Rightarrow> millis \<Rightarrow> SimNet" where
  "advance n by_ms = n\<lparr>sim_now := sim_now n + ms by_ms\<rparr>"

definition rng_next :: "SimNet \<Rightarrow> u64 \<times> SimNet" where
  "rng_next n = (let (r, g) = mt_next (rng n) in (r, n\<lparr>rng := g\<rparr>))"

definition uniform01 :: "SimNet \<Rightarrow> rat \<times> SimNet" where
  "uniform01 n = (let (r, n) = rng_next n in (of_nat (unat (drop_bit 11 r)) / 9007199254740992, n))"

text \<open>
  The rejection loop returns nothing exactly when the engine yields rejected words forever.
\<close>

definition reject_below :: "u64 \<Rightarrow> u64" where
  "reject_below bound = (NOT bound + 1) mod bound"

definition uniform_below :: "SimNet \<Rightarrow> u64 \<Rightarrow> (u64 \<times> SimNet) option" where
  "uniform_below n bound =
     map_option (\<lambda>(r, n). (r mod bound, n))
       (while_option (\<lambda>(r, n). r < reject_below bound) (\<lambda>(r, n). rng_next n) (rng_next n))"

definition draw_delay :: "SimNet \<Rightarrow> (millis \<times> SimNet) option" where
  "draw_delay n =
     (let d = imp_delay (imp n)
      in if imp_jitter (imp n) > 0
         then map_option (\<lambda>(r, n). (d + sint r, n)) (uniform_below n (word_of_int (imp_jitter (imp n))))
         else Some (d, n))"

definition enqueue :: "Endpoint \<Rightarrow> Endpoint \<Rightarrow> bytes \<Rightarrow> SimNet \<Rightarrow> millis \<Rightarrow> SimNet" where
  "enqueue source dest data n delay =
     (let pkt = \<lparr>deliver_at = sim_now n + ms delay, if_from = source, if_bytes = data, if_seqno = seqctr n\<rparr>
      in n\<lparr>inbox := (inbox n)(key dest \<mapsto> box_of n (key dest) @ [pkt]), seqctr := seqctr n + 1\<rparr>)"

definition deliver :: "Endpoint \<Rightarrow> Endpoint \<Rightarrow> bytes \<Rightarrow> SimNet \<Rightarrow> SimNet option" where
  "deliver source dest data n =
     (let (u, n) = uniform01 n
      in if u < imp_loss (imp n) then Some n
         else let n = n\<lparr>inbox := (inbox n)(key dest \<mapsto> box_of n (key dest))\<rparr>
         in case draw_delay n of None \<Rightarrow> None | Some (d, n) \<Rightarrow>
         let n = enqueue source dest data n d;
             (u, n) = uniform01 n
         in if u < imp_dup (imp n)
            then case draw_delay n of None \<Rightarrow> None | Some (d, n) \<Rightarrow> Some (enqueue source dest data n d)
            else Some n)"

text \<open>The scan for the earliest deliverable datagram: the best index so far, \<open>length box\<close> for none.\<close>

definition better :: "InFlight \<Rightarrow> InFlight \<Rightarrow> bool" where
  "better a b \<longleftrightarrow> deliver_at a < deliver_at b \<or> deliver_at a = deliver_at b \<and> if_seqno a < if_seqno b"

definition scan_step :: "InFlight list \<Rightarrow> time_point \<Rightarrow> nat \<Rightarrow> nat \<Rightarrow> nat" where
  "scan_step box now best i =
     (if deliver_at (box ! i) > now then best
      else if best = length box \<or> better (box ! i) (box ! best) then i else best)"

definition scan :: "InFlight list \<Rightarrow> time_point \<Rightarrow> nat" where
  "scan box now = foldl (scan_step box now) (length box) [0..<length box]"

text \<open>\<^verbatim>\<open>box[best] = std::move(box.back()); box.pop_back()\<close>\<close>

definition take_out :: "'a list \<Rightarrow> nat \<Rightarrow> 'a list" where
  "take_out box best = butlast (box[best := last box])"

definition receive :: "Endpoint \<Rightarrow> nat \<Rightarrow> SimNet \<Rightarrow> (bytes \<times> Endpoint) option \<times> SimNet" where
  "receive here cap n =
     (case inbox n (key here) of
        None \<Rightarrow> (None, n)
      | Some box \<Rightarrow>
          let best = scan box (sim_now n)
          in if best = length box then (None, n)
             else let pkt = box ! best
                  in (Some (take (min (length (if_bytes pkt)) cap) (if_bytes pkt), if_from pkt),
                      n\<lparr>inbox := (inbox n)(key here \<mapsto> take_out box best)\<rparr>))"

text \<open>
  \<^verbatim>\<open>SimEndpoint\<close>: the transport of one endpoint. A delay draw that never returns would block the caller; the
  transport shows it as a call that accepts nothing.
\<close>

definition sim_transport :: "Endpoint \<Rightarrow> SimNet UdpTransport" where
  "sim_transport here = \<lparr>
     t_send = (\<lambda>dest data n. case deliver here dest data n of
        None \<Rightarrow> (0, n) | Some n' \<Rightarrow> (length data, n')),
     t_recv = (\<lambda>cap n. receive here cap n),
     t_now = (\<lambda>n. (sim_now n, n))\<rparr>"

section \<open>The inboxes under the operations\<close>

definition sim_wire :: "SimNet \<Rightarrow> Endpoint \<Rightarrow> (Endpoint \<times> bytes) set" where
  "sim_wire n e = (\<lambda>p. (if_from p, if_bytes p)) ` set (box_of n (key e))"

lemma box_of_same:
  "box_of (n\<lparr>rng := g\<rparr>) k = box_of n k"
  "box_of (n\<lparr>inbox := (inbox n)(k' \<mapsto> box_of n k')\<rparr>) k = box_of n k"
  by (auto simp: box_of_def)

definition rng_only :: "SimNet \<Rightarrow> SimNet \<Rightarrow> bool" where
  "rng_only n n' \<longleftrightarrow> (\<exists>g. n' = n\<lparr>rng := g\<rparr>)"

lemma rng_only_refl [simp]: "rng_only n n"
  unfolding rng_only_def by (rule exI [of _ "rng n"]) simp

lemma rng_only_trans: "rng_only a b \<Longrightarrow> rng_only b c \<Longrightarrow> rng_only a c"
  by (auto simp: rng_only_def)

lemma rng_onlyD:
  "rng_only n n' \<Longrightarrow> box_of n' k = box_of n k \<and> sim_now n' = sim_now n \<and> imp n' = imp n \<and> seqctr n' = seqctr n
     \<and> inbox n' = inbox n \<and> endpoints n' = endpoints n"
  by (auto simp: rng_only_def box_of_def)

lemma rng_only_next: "rng_only n (snd (rng_next n))"
  by (auto simp: rng_only_def rng_next_def split: prod.splits)

lemma rng_only_uniform01: "rng_only n (snd (uniform01 n))"
  using rng_only_next [of n] by (auto simp: uniform01_def split: prod.splits)

lemma rng_only_uniform_below: "uniform_below n b = Some (r, n') \<Longrightarrow> rng_only n n'"
proof -
  assume "uniform_below n b = Some (r, n')"
  then obtain r0 where w: "while_option (\<lambda>(r, n). r < reject_below b) (\<lambda>(r, n). rng_next n) (rng_next n) = Some (r0, n')"
    by (auto simp: uniform_below_def)
  have "rng_only n (snd (r0, n'))"
    by (rule while_option_rule [OF _ w, where P = "\<lambda>s. rng_only n (snd s)"])
      (auto intro: rng_only_trans rng_only_next)
  then show ?thesis by simp
qed

lemma rng_only_draw_delay: "draw_delay n = Some (d, n') \<Longrightarrow> rng_only n n'"
  by (auto simp: draw_delay_def Let_def rng_only_uniform_below split: if_splits)

lemma box_of_enqueue:
  "box_of (enqueue s d x n dl) k = (if k = key d then box_of n k @ [\<lparr>deliver_at = sim_now n + ms dl,
     if_from = s, if_bytes = x, if_seqno = seqctr n\<rparr>] else box_of n k)"
  by (simp add: enqueue_def Let_def box_of_def)

lemma enqueue_frame [simp]:
  "sim_now (enqueue s d x n dl) = sim_now n" "imp (enqueue s d x n dl) = imp n"
  "seqctr (enqueue s d x n dl) = Suc (seqctr n)"
  by (simp_all add: enqueue_def Let_def)

text \<open>What one send can do to the inboxes: nothing, one copy, or two, each with the bytes that were sent.\<close>

lemma deliver_boxes:
  assumes "deliver src dest data n = Some n'"
  shows "\<exists>new. length new \<le> 2 \<and> (\<forall>p\<in>set new. if_from p = src \<and> if_bytes p = data)
    \<and> (\<forall>k. box_of n' k = (if k = key dest then box_of n k @ new else box_of n k)) \<and> sim_now n' = sim_now n"
proof -
  obtain u n1 where u: "uniform01 n = (u, n1)" by fastforce
  have r1: "rng_only n n1" using rng_only_uniform01 [of n] u by simp
  note d1 = rng_onlyD [OF r1]
  show ?thesis
  proof (cases "u < imp_loss (imp n1)")
    case True
    then have "n' = n1" using assms u by (simp add: deliver_def)
    then show ?thesis using d1 by (intro exI [of _ "[]"]) auto
  next
    case False
    let ?n2 = "n1\<lparr>inbox := (inbox n1)(key dest \<mapsto> box_of n1 (key dest))\<rparr>"
    obtain d n3 where dd: "draw_delay ?n2 = Some (d, n3)"
      using assms u False by (auto simp: deliver_def Let_def split: option.splits)
    let ?n4 = "enqueue src dest data n3 d"
    obtain v n5 where v: "uniform01 ?n4 = (v, n5)" by fastforce
    note d3 = rng_onlyD [OF rng_only_draw_delay [OF dd]]
    have "rng_only ?n4 n5" using rng_only_uniform01 [of ?n4] v by simp
    note d5 = rng_onlyD [OF this]
    let ?p = "\<lparr>deliver_at = sim_now n3 + ms d, if_from = src, if_bytes = data, if_seqno = seqctr n3\<rparr>"
    have b3: "box_of n3 k = box_of n k" for k
      using d3 [of k] d1 [of k] box_of_same(2) [of n1 "key dest" k] by simp
    have b5: "box_of n5 k = (if k = key dest then box_of n k @ [?p] else box_of n k)" for k
      using d5 [of k] b3 by (simp add: box_of_enqueue)
    have now5: "sim_now n5 = sim_now n" using d1 d3 d5 by simp
    show ?thesis
    proof (cases "v < imp_dup (imp n5)")
      case True
      then obtain d' n6 where d6: "draw_delay n5 = Some (d', n6)" "n' = enqueue src dest data n6 d'"
        using assms u False dd v by (auto simp: deliver_def Let_def split: option.splits)
      note e6 = rng_onlyD [OF rng_only_draw_delay [OF d6(1)]]
      let ?q = "\<lparr>deliver_at = sim_now n6 + ms d', if_from = src, if_bytes = data, if_seqno = seqctr n6\<rparr>"
      have "box_of n' k = (if k = key dest then box_of n k @ [?p, ?q] else box_of n k)" for k
        unfolding d6(2) using e6 b5 by (simp add: box_of_enqueue)
      moreover have "sim_now n' = sim_now n" unfolding d6(2) using e6 now5 by simp
      ultimately show ?thesis by (intro exI [of _ "[?p, ?q]"]) auto
    next
      case no_dup: False
      then have "n' = n5" using assms u False dd v by (simp add: deliver_def Let_def)
      then show ?thesis using b5 now5 by (intro exI [of _ "[?p]"]) auto
    qed
  qed
qed

section \<open>Reception\<close>

text \<open>The scan finds a due datagram that no other due datagram precedes.\<close>

definition is_best :: "InFlight list \<Rightarrow> time_point \<Rightarrow> nat \<Rightarrow> nat \<Rightarrow> bool" where
  "is_best box now k best \<longleftrightarrow>
     (if best = length box then \<forall>i<k. now < deliver_at (box ! i)
      else best < k \<and> deliver_at (box ! best) \<le> now
        \<and> (\<forall>i<k. deliver_at (box ! i) \<le> now \<longrightarrow> \<not> better (box ! i) (box ! best)))"

lemma better_trans: "better a b \<Longrightarrow> better b c \<Longrightarrow> better a c"
  by (auto simp: better_def)

lemma better_irrefl [simp]: "\<not> better a a"
  by (simp add: better_def)

lemma scan_step_best:
  assumes "is_best box now k best" "k < length box"
  shows "is_best box now (Suc k) (scan_step box now best k)"
proof (cases "now < deliver_at (box ! k)")
  case True
  then show ?thesis using assms by (auto simp: is_best_def scan_step_def less_Suc_eq)
next
  case due: False
  show ?thesis
  proof (cases "best = length box")
    case True
    then have none: "now < deliver_at (box ! i)" if "i < k" for i
      using assms that by (simp add: is_best_def)
    have "scan_step box now best k = k" using True due by (simp add: scan_step_def)
    then show ?thesis using due none assms(2) by (fastforce simp: is_best_def less_Suc_eq)
  next
    case False
    then have b: "best < k" "deliver_at (box ! best) \<le> now"
      "\<And>i. i < k \<Longrightarrow> deliver_at (box ! i) \<le> now \<Longrightarrow> \<not> better (box ! i) (box ! best)"
      using assms by (auto simp: is_best_def)
    show ?thesis
    proof (cases "better (box ! k) (box ! best)")
      case True
      then have "scan_step box now best k = k" using due by (simp add: scan_step_def)
      moreover have "\<not> better (box ! i) (box ! k)" if "i < k" "deliver_at (box ! i) \<le> now" for i
        using b(3) [OF that] True better_trans by blast
      ultimately show ?thesis using due assms(2) by (auto simp: is_best_def less_Suc_eq)
    next
      case no: False
      then have "scan_step box now best k = best" using due False by (simp add: scan_step_def)
      then show ?thesis using b no False by (auto simp: is_best_def less_Suc_eq)
    qed
  qed
qed

lemma scan_best: "is_best box now (length box) (scan box now)"
proof -
  have "is_best box now k (foldl (scan_step box now) (length box) [0..<k])" if "k \<le> length box" for k
    using that
  proof (induction k)
    case 0
    then show ?case by (simp add: is_best_def)
  next
    case (Suc k)
    then show ?case by (simp add: scan_step_best)
  qed
  then show ?thesis by (simp add: scan_def)
qed

lemma take_out_mset: "i < length xs \<Longrightarrow> mset (take_out xs i) = mset xs - {#xs ! i#}"
proof (cases xs rule: rev_cases)
  case (snoc ys y)
  assume i: "i < length xs"
  show ?thesis
  proof (cases "i = length ys")
    case True
    then show ?thesis by (simp add: take_out_def snoc)
  next
    case False
    with i snoc have "i < length ys" by simp
    then show ?thesis
      by (simp add: take_out_def snoc list_update_append nth_append butlast_append mset_update)
  qed
qed simp

lemma box_of_inbox_update: "box_of (n\<lparr>inbox := (inbox n)(k \<mapsto> b)\<rparr>) k' = (if k' = k then b else box_of n k')"
  by (simp add: box_of_def)

lemma receive_cases:
  obtains (none) "receive here cap n = (None, n)" "\<forall>p\<in>set (box_of n (key here)). sim_now n < deliver_at p"
  | (some) i n' where "i < length (box_of n (key here))" "n' = n\<lparr>inbox := (inbox n)(key here \<mapsto> take_out (box_of n (key here)) i)\<rparr>"
      "receive here cap n = (Some (take cap (if_bytes (box_of n (key here) ! i)), if_from (box_of n (key here) ! i)), n')"
      "deliver_at (box_of n (key here) ! i) \<le> sim_now n"
      "\<forall>p\<in>set (box_of n (key here)). deliver_at p \<le> sim_now n \<longrightarrow> \<not> better p (box_of n (key here) ! i)"
proof (cases "inbox n (key here)")
  case None
  then show ?thesis by (intro none) (simp_all add: receive_def box_of_def)
next
  case (Some box)
  then have b: "box_of n (key here) = box" by (simp add: box_of_def)
  let ?i = "scan box (sim_now n)"
  note best = scan_best [of box "sim_now n", unfolded is_best_def]
  show ?thesis
  proof (cases "?i = length box")
    case True
    then show ?thesis using best Some by (intro none) (auto simp: receive_def b in_set_conv_nth)
  next
    case False
    then have i: "?i < length box" using best by simp
    have "take (min (length x) cap) x = take cap x" for x :: bytes
      by (simp add: min_def)
    then show ?thesis
      using best False i Some by (intro some [of ?i]) (auto simp: receive_def Let_def b in_set_conv_nth)
  qed
qed

lemma sim_wire_deliver:
  assumes "deliver here dest data n = Some n'"
  shows "sim_wire n' e \<subseteq> sim_wire n e \<union> (if e = dest then {(here, data)} else {})"
  using deliver_boxes [OF assms] by (auto simp: sim_wire_def)

lemma sim_wire_receive: "sim_wire (snd (receive here cap n)) e \<subseteq> sim_wire n e"
proof (cases rule: receive_cases [of here cap n])
  case (some i n')
  have "set (take_out (box_of n (key here)) i) \<subseteq> set (box_of n (key here))"
    using take_out_mset [OF some(1)] by (metis in_diffD set_mset_mset subsetI)
  then show ?thesis unfolding some(3) by (auto simp: sim_wire_def some(2) box_of_inbox_update)
qed simp

lemma sim_receive_sent:
  assumes "fst (receive here cap n) = Some (d, src)"
  shows "\<exists>d0. (src, d0) \<in> sim_wire n here \<and> d = take cap d0"
  using assms
proof (cases rule: receive_cases [of here cap n])
  case (some i n')
  let ?p = "box_of n (key here) ! i"
  have "?p \<in> set (box_of n (key here))" using some(1) by simp
  then have "(if_from ?p, if_bytes ?p) \<in> sim_wire n here" unfolding sim_wire_def by (rule imageI)
  then show ?thesis using some(3) assms by auto
qed simp

lemma sim_now_receive [simp]: "sim_now (snd (receive here cap n)) = sim_now n"
  by (cases rule: receive_cases [of here cap n]) simp_all

lemma sim_wire_advance [simp]: "sim_wire (advance n k) e = sim_wire n e"
  by (simp add: sim_wire_def advance_def box_of_def)

lemma sim_wire_endpoint [simp]: "sim_wire (endpoint n a) e = sim_wire n e"
  by (simp add: sim_wire_def endpoint_def box_of_def)

interpretation sim: datagram_transport "sim_transport here" here sim_wire sim_now for here
proof (unfold_locales, goal_cases)
  case (1 dest d n e)
  show ?case
  proof (cases "deliver here dest d n")
    case None
    then show ?thesis by (simp add: sim_transport_def)
  next
    case (Some n')
    then show ?thesis using sim_wire_deliver [OF Some, of e] by (simp add: sim_transport_def)
  qed
next
  case (2 dest d n)
  then show ?case by (simp add: sim_transport_def split: option.splits)
next
  case (3 n dest d)
  then show ?case using deliver_boxes [of here dest d n] by (auto simp: sim_transport_def split: option.splits)
next
  case (4 cap n e)
  then show ?case using sim_wire_receive by (simp add: sim_transport_def)
next
  case (5 cap n d src)
  then show ?case using sim_receive_sent by (simp add: sim_transport_def)
next
  case (6 n cap)
  then show ?case by (simp add: sim_transport_def)
next
  case (7 n e)
  then show ?case by (simp add: sim_transport_def)
next
  case (8 n)
  then show ?case by (simp add: sim_transport_def)
qed

section \<open>Properties\<close>

text \<open>Reception is time-ordered and exact. When a datagram is due, \<open>receive\<close> returns the first bytes (up to the
  buffer size) and the source of a datagram of the inbox that is due and that no other due datagram precedes in the order
  of arrival time and then of sequence number; it removes exactly that datagram and touches no other inbox. When none is due
  it returns nothing and changes nothing.\<close>

theorem receive_earliest:
  "case receive here cap n of
     (None, n') \<Rightarrow> n' = n \<and> filter (\<lambda>p. deliver_at p \<le> sim_now n) (box_of n (key here)) = []
   | (Some (d, source), n') \<Rightarrow>
       \<exists>p. p \<in># mset (box_of n (key here)) \<and> deliver_at p \<le> sim_now n
         \<and> filter (\<lambda>q. deliver_at q \<le> sim_now n \<and> better q p) (box_of n (key here)) = []
         \<and> d = take cap (if_bytes p) \<and> source = if_from p
         \<and> mset (box_of n' (key here)) = mset (box_of n (key here)) - {#p#}
         \<and> box_of n' = (box_of n)(key here := box_of n' (key here))"
proof (cases rule: receive_cases [of here cap n])
  case none
  then show ?thesis by (auto simp: filter_empty_conv)
next
  case (some i n')
  let ?p = "box_of n (key here) ! i"
  have other: "box_of n' = (box_of n)(key here := box_of n' (key here))"
    by (auto simp: some(2) box_of_inbox_update)
  have here: "mset (box_of n' (key here)) = mset (box_of n (key here)) - {#?p#}"
    using take_out_mset [OF some(1)] by (simp add: some(2) box_of_inbox_update)
  have "?p \<in># mset (box_of n (key here))" using some(1) by simp
  moreover have "filter (\<lambda>q. deliver_at q \<le> sim_now n \<and> better q ?p) (box_of n (key here)) = []"
    using some(5) by (auto simp: filter_empty_conv)
  ultimately show ?thesis using some(3,4) other here by auto
qed

text \<open>A send through the simulator puts zero, one or two copies of exactly the bytes that were sent, with the sender's
  address, behind the destination's inbox; no other inbox and not the clock is changed.\<close>

theorem deliver_adds_copies:
  assumes "deliver source dest data n = Some n'"
  shows "\<exists>new. length new \<le> 2 \<and> map (\<lambda>p. (if_from p, if_bytes p)) new = replicate (length new) (source, data)
    \<and> box_of n' = (box_of n)(key dest := box_of n (key dest) @ new) \<and> sim_now n' = sim_now n"
proof -
  obtain new where new: "length new \<le> 2" "\<forall>p\<in>set new. if_from p = source \<and> if_bytes p = data"
    "\<forall>k. box_of n' k = (if k = key dest then box_of n k @ new else box_of n k)" "sim_now n' = sim_now n"
    using deliver_boxes [OF assms] by blast
  have "map (\<lambda>p. (if_from p, if_bytes p)) new = map (\<lambda>_. (source, data)) new" using new(2) by simp
  also have "\<dots> = replicate (length new) (source, data)" by (simp add: map_replicate_const)
  finally show ?thesis using new by (intro exI [of _ new]) (auto simp: fun_eq_iff)
qed

text \<open>A network that loses nothing, duplicates everything and has a fixed delay.\<close>

definition demo_net :: SimNet where
  "demo_net = endpoint (new_simnet 1 \<lparr>imp_loss = 0, imp_dup = 1, imp_delay = 5, imp_jitter = 0\<rparr>) \<lparr>addr_be = 1, port_be = 2\<rparr>"

lemma draw_delay_fixed: "imp_jitter (imp n) = 0 \<Longrightarrow> draw_delay n = Some (imp_delay (imp n), n)"
  by (simp add: draw_delay_def Let_def)

lemma deliver_demo: "\<exists>n'. deliver no_endpoint \<lparr>addr_be = 1, port_be = 2\<rparr> [7] demo_net = Some n'"
proof -
  let ?e = "\<lparr>addr_be = 1, port_be = 2\<rparr> :: Endpoint"
  have imp: "imp_jitter (imp demo_net) = 0"
    by (simp add: demo_net_def endpoint_def new_simnet_def)
  have keep: "imp n' = imp n" if "uniform01 n = (v, n')" for n v n'
    using rng_onlyD [OF rng_only_uniform01 [of n]] that by simp
  obtain u n1 where u: "uniform01 demo_net = (u, n1)" by fastforce
  let ?n2 = "n1\<lparr>inbox := (inbox n1)(key ?e \<mapsto> box_of n1 (key ?e))\<rparr>"
  let ?n3 = "enqueue no_endpoint ?e [7] ?n2 (imp_delay (imp n1))"
  obtain v n4 where v: "uniform01 ?n3 = (v, n4)" by fastforce
  have j: "imp_jitter (imp n1) = 0" "imp_jitter (imp n4) = 0"
    using keep [OF u] keep [OF v] imp by simp_all
  show ?thesis using u v j
    by (cases "u < imp_loss (imp n1)"; cases "v < imp_dup (imp n4)")
      (simp_all add: deliver_def draw_delay_fixed)
qed

theorem deliver_adds_copies_witness:
  "\<exists>n' new. deliver no_endpoint \<lparr>addr_be = 1, port_be = 2\<rparr> [7] demo_net = Some n' \<and> length new \<le> 2
    \<and> map (\<lambda>p. (if_from p, if_bytes p)) new = replicate (length new) (no_endpoint, [7])
    \<and> box_of n' = (box_of demo_net)(key \<lparr>addr_be = 1, port_be = 2\<rparr> :=
         box_of demo_net (key \<lparr>addr_be = 1, port_be = 2\<rparr>) @ new)"
proof -
  obtain n' where n': "deliver no_endpoint \<lparr>addr_be = 1, port_be = 2\<rparr> [7] demo_net = Some n'"
    using deliver_demo by blast
  show ?thesis using deliver_adds_copies [OF n'] n' by blast
qed

text \<open>\<open>uniform_below\<close> is in range and unbiased, and returns whenever the engine ever yields an acceptable word:
  it fails to return only if every later output is below the rejection threshold; a word it returns is below the
  bound, and the accepted engine outputs are a multiple of the bound in number, so every residue is hit equally often.\<close>

theorem uniform_below_fair:
  assumes "bound \<noteq> 0"
  shows "(case uniform_below n bound of
      None \<Rightarrow> \<forall>k. fst (((\<lambda>(r, n). rng_next n) ^^ k) (rng_next n)) < reject_below bound
    | Some (r, n') \<Rightarrow> r < bound \<and> rng_only n n')
    \<and> unat bound dvd (2 ^ 64 - unat (reject_below bound)) \<and> reject_below bound < bound"
proof -
  have pos: "0 < unat bound" using assms by (simp add: unat_gt_0)
  have lt: "r mod bound < bound" for r :: u64
    using pos by (simp add: word_less_nat_alt unat_mod)
  have "unat (reject_below bound) = 2 ^ 64 mod unat bound"
  proof -
    have b: "0 < uint bound" "uint bound < 2 ^ 64"
      using assms pos uint_bounded [of bound] by (simp_all add: word_neq_0_conv word_less_def)
    have "uint (- bound) = (- uint bound) mod 2 ^ 64" by (simp add: uint_word_ariths)
    also have "\<dots> = 2 ^ 64 - uint bound" using b by (simp add: zmod_zminus1_eq_if)
    finally have "uint (- bound) mod uint bound = 2 ^ 64 mod uint bound" by simp
    moreover have "NOT bound + 1 = - bound" by (simp add: not_eq_complement)
    ultimately have "uint (reject_below bound) = 2 ^ 64 mod uint bound"
      by (simp add: reject_below_def uint_mod)
    then have "int (unat (reject_below bound)) = int (2 ^ 64 mod unat bound)" by (simp add: zmod_int)
    then show ?thesis by (simp only: of_nat_eq_iff)
  qed
  then have "unat bound dvd (2 ^ 64 - unat (reject_below bound))" by (simp add: dvd_minus_mod)
  moreover have "reject_below bound < bound" unfolding reject_below_def by (rule lt)
  moreover have "case uniform_below n bound of
      None \<Rightarrow> \<forall>k. fst (((\<lambda>(r, n). rng_next n) ^^ k) (rng_next n)) < reject_below bound
    | Some (r, n') \<Rightarrow> r < bound \<and> rng_only n n'"
  proof (cases "uniform_below n bound")
    case None
    then show ?thesis by (auto simp: uniform_below_def while_option_def split_beta split: if_splits)
  next
    case (Some p)
    then show ?thesis using rng_only_uniform_below [of n bound] lt
      by (auto simp: uniform_below_def split: option.splits)
  qed
  ultimately show ?thesis by blast
qed

theorem uniform_below_fair_witness:
  "(6 :: u64) \<noteq> 0 \<and> unat (6 :: u64) dvd (2 ^ 64 - unat (reject_below 6)) \<and> reject_below 6 < 6"
  using uniform_below_fair [of 6 demo_net] by simp

end
