(* ===== verification/Session.thy ===== *)
theory Session
  imports Codec Timers Congestion Rto
    Transport
begin

text \<open>
  The peer session of \<^verbatim>\<open>src/session.cc\<close> and \<^verbatim>\<open>include/taut/session.h\<close>, function by function. The state
  keeps the source's grouping into a send side and a receive side. The transport is an argument \<open>T\<close>; its calls thread the state
  \<open>n\<close> of the outside world. The registered message handler is modelled by whether there is one and by the list of the calls
  made to it; a handler that calls back into the session is outside the model.
\<close>

section \<open>State\<close>

record Config =
  cfg_rto_floor :: millis
  window_pkts :: u16
  cfg_congestion :: CongestionMode
  max_recv_per_poll :: u32
  mtu_payload :: u16

definition default_config :: Config where
  "default_config = \<lparr>cfg_rto_floor = 25, window_pkts = 64, cfg_congestion = FixedWindow,
     max_recv_per_poll = 64, mtu_payload = 1200\<rparr>"

record Slot =
  sl_seq :: u32
  sl_timer :: TimerId
  sl_rto :: millis
  transmit_count :: u32
  send_time :: time_point
  datagram :: bytes
  sacked :: bool
  fast_retransmitted :: bool
  rtt_sampled :: bool

record RxItem =
  rx_cls :: Class
  rx_data :: bytes
  rx_delivered :: bool

record PendingMsg =
  pm_cls :: Class
  pm_data :: bytes

record SendSide =
  rtt :: RttEstimator
  next_seq :: u32
  next_unreliable_seq :: u32
  pending :: "PendingMsg list"
  ring :: "Slot list"
  timers :: TimerHeap
  timer_to_seq :: "TimerId \<rightharpoonup> u32"
  peer_adv_window :: u16
  congestion :: CongestionControl
  last_ack :: u32
  last_ack_seq :: u32
  ack_seq_initialized :: bool
  retransmitted_bytes :: u64
  retransmit_count :: u32
  persist_active :: bool
  persist_id :: TimerId
  persist_interval :: millis

text \<open>
  \<open>reasm\<close> is the ordered map of received sequence numbers above the gap, as its entries in key order. \<open>handler\<close> says
  whether \<^verbatim>\<open>on_message_\<close> is set, and \<open>app_log\<close> lists the calls made to it.
\<close>

record RecvSide =
  handler :: bool
  app_log :: "(Class \<times> bytes) list"
  sack_enabled :: bool
  next_ack_seq :: u32
  rcv_next :: u32
  reasm :: "(u32 \<times> RxItem) list"
  buffered_c2 :: nat
  rcv_buf :: "PendingMsg list"
  capacity :: nat
  app_ready :: bool
  delivered_count :: u32
  ur_init :: bool
  ur_base :: u32
  ur_seen :: u64

record Session =
  peer :: Endpoint
  cfg :: Config
  tx_side :: SendSide
  rx_side :: RecvSide

definition kMaxRto :: millis where "kMaxRto = 2000"
definition kPersistMin :: millis where "kPersistMin = 100"
definition kPersistMax :: millis where "kPersistMax = 1000"

definition serial_after :: "u32 \<Rightarrow> u32 \<Rightarrow> bool" where
  "serial_after candidate current =
     (let distance = candidate - current in distance \<noteq> 0 \<and> distance < 0x80000000)"

definition new_send_side :: "Config \<Rightarrow> SendSide" where
  "new_send_side c = \<lparr>rtt = new_rtt (cfg_rto_floor c) kMaxRto, next_seq = 0, next_unreliable_seq = 0, pending = [],
     ring = [], timers = empty_timers, timer_to_seq = Map.empty, peer_adv_window = window_pkts c,
     congestion = new_congestion (cfg_congestion c) (unat (window_pkts c)) (cfg_rto_floor c),
     last_ack = 0, last_ack_seq = 0, ack_seq_initialized = False, retransmitted_bytes = 0, retransmit_count = 0,
     persist_active = False, persist_id = 0, persist_interval = 100\<rparr>"

definition new_recv_side :: "Config \<Rightarrow> RecvSide" where
  "new_recv_side c = \<lparr>handler = False, app_log = [], sack_enabled = True, next_ack_seq = 1, rcv_next = 0, reasm = [],
     buffered_c2 = 0, rcv_buf = [], capacity = unat (window_pkts c), app_ready = True, delivered_count = 0,
     ur_init = False, ur_base = 0, ur_seen = 0\<rparr>"

definition new_session :: "Endpoint \<Rightarrow> Config \<Rightarrow> Session" where
  "new_session e c = \<lparr>peer = e, cfg = c, tx_side = new_send_side c, rx_side = new_recv_side c\<rparr>"

definition set_on_message :: "Session \<Rightarrow> Session" where
  "set_on_message s = s\<lparr>rx_side := (rx_side s)\<lparr>handler := True\<rparr>\<rparr>"

definition set_sack_enabled :: "bool \<Rightarrow> Session \<Rightarrow> Session" where
  "set_sack_enabled b s = s\<lparr>rx_side := (rx_side s)\<lparr>sack_enabled := b\<rparr>\<rparr>"

section \<open>Acknowledgement fields\<close>

definition rcv_occupancy :: "RecvSide \<Rightarrow> nat" where
  "rcv_occupancy r = length (rcv_buf r) + buffered_c2 r"

definition has_buffer_space :: "RecvSide \<Rightarrow> bool" where
  "has_buffer_space r \<longleftrightarrow> rcv_occupancy r < capacity r"

definition build_sack :: "RecvSide \<Rightarrow> u64" where
  "build_sack r =
     foldl (\<lambda>bitmap (sq, item).
        let i = sq - rcv_next r - 1
        in if i < 64 then bitmap OR push_bit (unat i) 1 else bitmap) 0 (reasm r)"

definition my_adv_window :: "RecvSide \<Rightarrow> u16" where
  "my_adv_window r =
     (let used = length (rcv_buf r);
          free = (if used < capacity r then capacity r - used else 0)
      in word_of_nat (min free 0xFFFF))"

definition fill_ack_fields :: "RecvSide \<Rightarrow> Packet \<Rightarrow> Packet" where
  "fill_ack_fields r p =
     (let p = p\<lparr>p_cum_ack := rcv_next r\<rparr>;
          p = p\<lparr>p_adv_window := my_adv_window r\<rparr>
      in if sack_enabled r \<and> reasm r \<noteq> []
         then p\<lparr>p_flags := p_flags p OR SackPresent, p_sack := build_sack r\<rparr>
         else p)"

definition send_ack :: "'n UdpTransport \<Rightarrow> Endpoint \<Rightarrow> RecvSide \<Rightarrow> 'n \<Rightarrow> RecvSide \<times> 'n" where
  "send_ack T dest r n =
     (let a = empty_packet\<lparr>p_type := PT_Ack, p_cls := Unreliable, p_seq := next_ack_seq r\<rparr>;
          r = r\<lparr>next_ack_seq := next_ack_seq r + 1\<rparr>;
          r = (if next_ack_seq r = 0 then r\<lparr>next_ack_seq := 1\<rparr> else r);
          a = fill_ack_fields r a;
          (k, out) = encode a (replicate (kBaseHeaderSize + kSackSize) 0)
      in if k > 0 then (r, snd (t_send T dest (take k out) n)) else (r, n))"

definition send_probe :: "'n UdpTransport \<Rightarrow> Endpoint \<Rightarrow> RecvSide \<Rightarrow> 'n \<Rightarrow> 'n" where
  "send_probe T dest r n =
     (let p = empty_packet\<lparr>p_type := PT_ProbeWindow, p_cls := Unreliable\<rparr>;
          p = fill_ack_fields r p;
          (k, out) = encode p (replicate (kBaseHeaderSize + kSackSize) 0)
      in if k > 0 then snd (t_send T dest (take k out) n) else n)"

section \<open>Send path\<close>

definition effective_window :: "u16 \<Rightarrow> SendSide \<Rightarrow> nat" where
  "effective_window wp s = min (min (unat wp) (unat (peer_adv_window s))) (window (congestion s))"

text \<open>One iteration of the loop of \<^verbatim>\<open>pump\<close>, after the window and pacing checks.\<close>

definition pump_one :: "'n UdpTransport \<Rightarrow> Endpoint \<Rightarrow> RecvSide \<Rightarrow> PendingMsg \<Rightarrow> SendSide \<Rightarrow> 'n \<Rightarrow> SendSide \<times> 'n" where
  "pump_one T dest r msg s n =
     (let sq = next_seq s;
          s = s\<lparr>next_seq := sq + 1\<rparr>;
          p = empty_packet\<lparr>p_type := PT_Data, p_cls := pm_cls msg, p_seq := sq\<rparr>;
          p = fill_ack_fields r p;
          p = p\<lparr>p_payload := pm_data msg\<rparr>;
          (k, out) = encode p (replicate kMaxDatagram 0)
      in if k = 0 then (s, n)
         else let dg = take k out;
                  (_, n) = t_send T dest dg n;
                  (t, n) = t_now T n;
                  s = s\<lparr>congestion := sent (congestion s) t\<rparr>;
                  (now, n) = t_now T n;
                  rto_ms = rto (rtt s);
                  (tid, th) = schedule (timers s) (now + ms rto_ms)
              in (s\<lparr>timers := th,
                    timer_to_seq := (timer_to_seq s)(tid \<mapsto> sq),
                    ring := ring s @ [\<lparr>sl_seq = sq, sl_timer = tid, sl_rto = rto_ms, transmit_count = 1,
                      send_time = now, datagram = dg, sacked = False, fast_retransmitted = False,
                      rtt_sampled = False\<rparr>]\<rparr>, n))"

lemma pending_pump_one [simp]: "pending (fst (pump_one T dest r msg s n)) = pending s"
  by (auto simp: pump_one_def Let_def split: prod.splits)

function pump :: "'n UdpTransport \<Rightarrow> Endpoint \<Rightarrow> u16 \<Rightarrow> RecvSide \<Rightarrow> SendSide \<Rightarrow> 'n \<Rightarrow> SendSide \<times> 'n" where
  "pump T dest wp r s n =
     (case pending s of
        [] \<Rightarrow> (s, n)
      | msg # rest \<Rightarrow>
          if length (ring s) < effective_window wp s then
            let (t, n) = t_now T n
            in if \<not> ready (congestion s) t then (s, n)
               else let (s, n) = pump_one T dest r msg (s\<lparr>pending := rest\<rparr>) n
                    in pump T dest wp r s n
          else (s, n))"
  by pat_completeness auto
termination
proof (relation "measure (\<lambda>(T, dest, wp, r, s, n). length (pending s))", goal_cases)
  case (2 T dest wp r s n msg rest tn t n' x s' n'')
  have "pending (fst (s', n'')) = rest"
    unfolding 2(7) 2(6) using pending_pump_one [of T dest r msg "s\<lparr>pending := rest\<rparr>" n'] by simp
  then show ?case using 2(1) by simp
qed simp

declare pump.simps [simp del]

definition maybe_arm_persist :: "'n UdpTransport \<Rightarrow> SendSide \<Rightarrow> 'n \<Rightarrow> SendSide \<times> 'n" where
  "maybe_arm_persist T s n =
     (let need = (pending s \<noteq> [] \<and> peer_adv_window s = 0 \<and> ring s = [])
      in if need \<and> \<not> persist_active s then
           let (now, n) = t_now T n;
               (tid, th) = schedule (timers s) (now + ms (persist_interval s))
           in (s\<lparr>timers := th, persist_id := tid, persist_active := True\<rparr>, n)
         else if \<not> need \<and> persist_active s then
           (s\<lparr>timers := cancel (timers s) (persist_id s), persist_active := False, persist_interval := kPersistMin\<rparr>, n)
         else (s, n))"

definition pump_and_arm :: "'n UdpTransport \<Rightarrow> Session \<Rightarrow> 'n \<Rightarrow> Session \<times> 'n" where
  "pump_and_arm T s n =
     (let (tx, n) = pump T (peer s) (window_pkts (cfg s)) (rx_side s) (tx_side s) n;
          (tx, n) = maybe_arm_persist T tx n
      in (s\<lparr>tx_side := tx\<rparr>, n))"

definition send :: "'n UdpTransport \<Rightarrow> Class \<Rightarrow> bytes \<Rightarrow> Session \<Rightarrow> 'n \<Rightarrow> bool \<times> Session \<times> 'n" where
  "send T cls payload s n =
     (if length payload > unat (mtu_payload (cfg s)) \<or> length payload > kMaxDatagram - kBaseHeaderSize - kSackSize
      then (False, s, n)
      else if cls = Unreliable then
        let tx = tx_side s;
            p = empty_packet\<lparr>p_type := PT_Data, p_cls := Unreliable, p_seq := next_unreliable_seq tx\<rparr>;
            s = s\<lparr>tx_side := tx\<lparr>next_unreliable_seq := next_unreliable_seq tx + 1\<rparr>\<rparr>;
            p = fill_ack_fields (rx_side s) p;
            p = p\<lparr>p_payload := payload\<rparr>;
            (k, out) = encode p (replicate kMaxDatagram 0)
        in if k = 0 then (False, s, n)
           else (True, s, snd (t_send T (peer s) (take k out) n))
      else if length (pending (tx_side s)) \<ge> unat (window_pkts (cfg s)) then (False, s, n)
      else let tx = tx_side s;
               s = s\<lparr>tx_side := tx\<lparr>pending := pending tx @ [\<lparr>pm_cls = cls, pm_data = payload\<rparr>]\<rparr>\<rparr>;
               (s, n) = pump_and_arm T s n
           in (True, s, n))"

section \<open>Acknowledgement processing\<close>

text \<open>The loop of \<^verbatim>\<open>process_cum_ack\<close> over the front of the ring: newly acknowledged packets and the last RTT sample.\<close>

fun cum_ack_loop :: "u32 \<Rightarrow> time_point \<Rightarrow> Slot list \<Rightarrow> SendSide \<Rightarrow> nat \<Rightarrow> millis option \<Rightarrow> SendSide \<times> nat \<times> millis option" where
  "cum_ack_loop ca now [] s acked sample = (s\<lparr>ring := []\<rparr>, acked, sample)"
| "cum_ack_loop ca now (sl # rest) s acked sample =
     (if sl_seq sl < ca then
        cum_ack_loop ca now rest
          (s\<lparr>timers := cancel (timers s) (sl_timer sl), timer_to_seq := (timer_to_seq s)(sl_timer sl := None)\<rparr>)
          (if \<not> sacked sl then acked + 1 else acked)
          (if transmit_count sl = 1 \<and> \<not> rtt_sampled sl then Some (to_ms (now - send_time sl)) else sample)
      else (s\<lparr>ring := sl # rest\<rparr>, acked, sample))"

definition process_cum_ack :: "'n UdpTransport \<Rightarrow> u32 \<Rightarrow> SendSide \<Rightarrow> 'n \<Rightarrow> SendSide \<times> 'n" where
  "process_cum_ack T cum_ack s n =
     (let (now, n) = t_now T n;
          (s, acked, sample) = cum_ack_loop cum_ack now (ring s) s 0 None;
          s = (case sample of None \<Rightarrow> s
               | Some m \<Rightarrow> s\<lparr>rtt := rtt_sample (rtt s) m, congestion := sample_rtt (congestion s) m\<rparr>);
          s = (if acked \<noteq> 0 then s\<lparr>congestion := acknowledge (congestion s) acked\<rparr> else s)
      in (s, n))"

definition retransmit :: "'n UdpTransport \<Rightarrow> Endpoint \<Rightarrow> Slot \<Rightarrow> SendSide \<Rightarrow> 'n \<Rightarrow> Slot \<times> SendSide \<times> 'n" where
  "retransmit T dest sl s n =
     (if sacked sl then (sl, s, n)
      else let (k, n) = t_send T dest (datagram sl) n;
               s = s\<lparr>retransmitted_bytes := retransmitted_bytes s + word_of_nat k\<rparr>;
               s = s\<lparr>congestion := loss (congestion s) (sl_seq sl) (next_seq s)\<rparr>;
               sl = sl\<lparr>transmit_count := transmit_count sl + 1\<rparr>;
               s = s\<lparr>retransmit_count := retransmit_count s + 1\<rparr>;
               sl = sl\<lparr>sl_rto := min (sl_rto sl * 2) kMaxRto\<rparr>;
               (now, n) = t_now T n;
               (tid, th) = schedule (timers s) (now + ms (sl_rto sl))
           in (sl\<lparr>sl_timer := tid\<rparr>,
               s\<lparr>timers := th, timer_to_seq := (timer_to_seq s)(tid \<mapsto> sl_seq sl)\<rparr>, n))"

definition fast_retransmit :: "'n UdpTransport \<Rightarrow> Endpoint \<Rightarrow> Slot \<Rightarrow> SendSide \<Rightarrow> 'n \<Rightarrow> Slot \<times> SendSide \<times> 'n" where
  "fast_retransmit T dest sl s n =
     (let (k, n) = t_send T dest (datagram sl) n;
          s = s\<lparr>retransmitted_bytes := retransmitted_bytes s + word_of_nat k\<rparr>;
          sl = sl\<lparr>transmit_count := transmit_count sl + 1\<rparr>;
          s = s\<lparr>retransmit_count := retransmit_count s + 1\<rparr>;
          sl = sl\<lparr>fast_retransmitted := True\<rparr>;
          s = s\<lparr>timers := cancel (timers s) (sl_timer sl), timer_to_seq := (timer_to_seq s)(sl_timer sl := None)\<rparr>;
          (now, n) = t_now T n;
          (tid, th) = schedule (timers s) (now + ms (sl_rto sl))
      in (sl\<lparr>sl_timer := tid\<rparr>,
          s\<lparr>timers := th, timer_to_seq := (timer_to_seq s)(tid \<mapsto> sl_seq sl)\<rparr>, n))"

text \<open>The two loops of \<^verbatim>\<open>process_sack\<close>: marking, and the backward walk that fast-retransmits.\<close>

definition sack_mark :: "u32 \<Rightarrow> u64 \<Rightarrow> time_point \<Rightarrow> Slot \<Rightarrow> SendSide \<Rightarrow> nat \<Rightarrow> Slot \<times> SendSide \<times> nat" where
  "sack_mark ca bitmap now sl s acked =
     (if sl_seq sl \<le> ca \<or> sacked sl then (sl, s, acked)
      else let i = sl_seq sl - ca - 1
           in if i < 64 \<and> drop_bit (unat i) bitmap AND 1 \<noteq> 0 then
                let sl = sl\<lparr>sacked := True\<rparr>;
                    s = s\<lparr>timers := cancel (timers s) (sl_timer sl),
                          timer_to_seq := (timer_to_seq s)(sl_timer sl := None)\<rparr>
                in if transmit_count sl = 1 \<and> \<not> rtt_sampled sl then
                     let sample = to_ms (now - send_time sl)
                     in (sl\<lparr>rtt_sampled := True\<rparr>,
                         s\<lparr>rtt := rtt_sample (rtt s) sample, congestion := sample_rtt (congestion s) sample\<rparr>,
                         acked + 1)
                   else (sl, s, acked + 1)
              else (sl, s, acked))"

fun sack_mark_loop :: "u32 \<Rightarrow> u64 \<Rightarrow> time_point \<Rightarrow> Slot list \<Rightarrow> SendSide \<Rightarrow> nat \<Rightarrow> Slot list \<times> SendSide \<times> nat" where
  "sack_mark_loop ca bitmap now [] s acked = ([], s, acked)"
| "sack_mark_loop ca bitmap now (sl # rest) s acked =
     (let (sl, s, acked) = sack_mark ca bitmap now sl s acked;
          (rest, s, acked) = sack_mark_loop ca bitmap now rest s acked
      in (sl # rest, s, acked))"

fun fast_loop :: "'n UdpTransport \<Rightarrow> Endpoint \<Rightarrow> nat \<Rightarrow> Slot list \<Rightarrow> SendSide \<Rightarrow> 'n \<Rightarrow> Slot list \<times> SendSide \<times> 'n" where
  "fast_loop T dest sacked_above [] s n = ([], s, n)"
| "fast_loop T dest sacked_above (sl # rest) s n =
     (if sacked sl then
        let (rest, s, n) = fast_loop T dest (sacked_above + 1) rest s n in (sl # rest, s, n)
      else if sacked_above \<ge> 3 \<and> \<not> fast_retransmitted sl then
        let s = s\<lparr>congestion := loss (congestion s) (sl_seq sl) (next_seq s)\<rparr>;
            (sl, s, n) = fast_retransmit T dest sl s n;
            (rest, s, n) = fast_loop T dest sacked_above rest s n
        in (sl # rest, s, n)
      else
        let (rest, s, n) = fast_loop T dest sacked_above rest s n in (sl # rest, s, n))"

definition process_sack :: "'n UdpTransport \<Rightarrow> Endpoint \<Rightarrow> u32 \<Rightarrow> u64 \<Rightarrow> SendSide \<Rightarrow> 'n \<Rightarrow> SendSide \<times> 'n" where
  "process_sack T dest cum_ack bitmap s n =
     (let (now, n) = t_now T n;
          (slots, s, acked) = sack_mark_loop cum_ack bitmap now (ring s) s 0;
          s = s\<lparr>congestion := acknowledge (congestion s) acked\<rparr>;
          (slots, s, n) = fast_loop T dest 0 (rev slots) s n
      in (s\<lparr>ring := rev slots\<rparr>, n))"

definition process_window_update :: "Packet \<Rightarrow> SendSide \<Rightarrow> SendSide" where
  "process_window_update p s =
     (if p_cum_ack p < last_ack s then s
      else if p_cum_ack p > last_ack s then
        let s = s\<lparr>peer_adv_window := p_adv_window p, last_ack := p_cum_ack p\<rparr>
        in if p_type p = PT_Ack \<and> p_seq p \<noteq> 0
           then s\<lparr>last_ack_seq := p_seq p, ack_seq_initialized := True\<rparr> else s
      else if p_type p = PT_Ack then
        if p_seq p = 0 then
          if \<not> ack_seq_initialized s then s\<lparr>peer_adv_window := p_adv_window p\<rparr> else s
        else if \<not> ack_seq_initialized s \<or> serial_after (p_seq p) (last_ack_seq s) then
          s\<lparr>peer_adv_window := p_adv_window p, last_ack_seq := p_seq p, ack_seq_initialized := True\<rparr>
        else s
      else s)"

section \<open>Receive path\<close>

definition emit_to_app :: "Class \<Rightarrow> bytes \<Rightarrow> RecvSide \<Rightarrow> RecvSide" where
  "emit_to_app cls payload r =
     (let r = (if handler r then r\<lparr>app_log := app_log r @ [(cls, payload)]\<rparr> else r)
      in r\<lparr>delivered_count := delivered_count r + 1\<rparr>)"

definition handle_unreliable :: "Packet \<Rightarrow> RecvSide \<Rightarrow> RecvSide" where
  "handle_unreliable p r =
     (let s = p_seq p;
          r = (if \<not> ur_init r then r\<lparr>ur_init := True, ur_base := s, ur_seen := 0\<rparr> else r)
      in if s < ur_base r then r
         else let r = (if s - ur_base r \<ge> 64 then
                         let shift = s - ur_base r - 63
                         in r\<lparr>ur_seen := (if shift \<ge> 64 then 0 else drop_bit (unat shift) (ur_seen r)),
                              ur_base := ur_base r + shift\<rparr>
                       else r);
                  i = s - ur_base r
              in if drop_bit (unat i) (ur_seen r) AND 1 \<noteq> 0 then r
                 else let r = r\<lparr>ur_seen := ur_seen r OR push_bit (unat i) 1\<rparr>
                      in if app_ready r then emit_to_app Unreliable (p_payload p) r else r)"

definition deliver_reliable :: "Class \<Rightarrow> bytes \<Rightarrow> RecvSide \<Rightarrow> bool \<times> RecvSide" where
  "deliver_reliable cls payload r =
     (if app_ready r then (True, emit_to_app cls payload r)
      else if \<not> has_buffer_space r then (False, r)
      else (True, r\<lparr>rcv_buf := rcv_buf r @ [\<lparr>pm_cls = cls, pm_data = payload\<rparr>]\<rparr>))"

text \<open>The map operations on \<open>reasm\<close>: \<^verbatim>\<open>emplace\<close> of a new key and \<^verbatim>\<open>erase\<close>.\<close>

definition map_emplace :: "u32 \<Rightarrow> RxItem \<Rightarrow> (u32 \<times> RxItem) list \<Rightarrow> (u32 \<times> RxItem) list" where
  "map_emplace k v m = (if map_of m k = None then insort_key fst (k, v) m else m)"

definition map_erase :: "u32 \<Rightarrow> (u32 \<times> RxItem) list \<Rightarrow> (u32 \<times> RxItem) list" where
  "map_erase k m = filter (\<lambda>e. fst e \<noteq> k) m"

lemma map_erase_shorter: "map_of m k = Some v \<Longrightarrow> length (map_erase k m) < length m"
  using map_of_SomeD [of m k v] by (auto simp: map_erase_def intro!: length_filter_less)

text \<open>One iteration of \<^verbatim>\<open>flush_reassembled\<close>: the item at the gap is delivered or queued, and erased.\<close>

definition flush_one :: "RxItem \<Rightarrow> RecvSide \<Rightarrow> RecvSide" where
  "flush_one e r =
     (let r = (if \<not> rx_delivered e then
                 let r = (if app_ready r then emit_to_app (rx_cls e) (rx_data e) r
                          else r\<lparr>rcv_buf := rcv_buf r @ [\<lparr>pm_cls = rx_cls e, pm_data = rx_data e\<rparr>]\<rparr>)
                 in r\<lparr>buffered_c2 := buffered_c2 r - 1\<rparr>
               else r)
      in r\<lparr>reasm := map_erase (rcv_next r) (reasm r), rcv_next := rcv_next r + 1\<rparr>)"

lemma reasm_flush_one [simp]: "reasm (flush_one e r) = map_erase (rcv_next r) (reasm r)"
  by (simp add: flush_one_def Let_def emit_to_app_def)

function flush_reassembled :: "RecvSide \<Rightarrow> RecvSide" where
  "flush_reassembled r =
     (case map_of (reasm r) (rcv_next r) of
        None \<Rightarrow> r
      | Some e \<Rightarrow> flush_reassembled (flush_one e r))"
  by pat_completeness auto
termination
  by (relation "measure (\<lambda>r. length (reasm r))") (simp_all add: map_erase_shorter)

declare flush_reassembled.simps [simp del]

text \<open>\<^verbatim>\<open>handle_reliable\<close> before its final \<^verbatim>\<open>send_ack()\<close>.\<close>

definition accept_reliable :: "Packet \<Rightarrow> RecvSide \<Rightarrow> RecvSide" where
  "accept_reliable p r =
     (let s = p_seq p
      in if s < rcv_next r then r
         else if s = rcv_next r then
           let (ok, r) = deliver_reliable (p_cls p) (p_payload p) r
           in if ok then flush_reassembled (r\<lparr>rcv_next := rcv_next r + 1\<rparr>) else r
         else if map_of (reasm r) s = None \<and> has_buffer_space r then
           if p_cls p = ReliableUnordered then
             let r = (if app_ready r then emit_to_app (p_cls p) (p_payload p) r
                      else r\<lparr>rcv_buf := rcv_buf r @ [\<lparr>pm_cls = p_cls p, pm_data = p_payload p\<rparr>]\<rparr>)
             in r\<lparr>reasm := map_emplace s \<lparr>rx_cls = p_cls p, rx_data = [], rx_delivered = True\<rparr> (reasm r)\<rparr>
           else
             r\<lparr>reasm := map_emplace s \<lparr>rx_cls = p_cls p, rx_data = p_payload p, rx_delivered = False\<rparr> (reasm r),
               buffered_c2 := buffered_c2 r + 1\<rparr>
         else r)"

definition handle_reliable :: "'n UdpTransport \<Rightarrow> Endpoint \<Rightarrow> Packet \<Rightarrow> RecvSide \<Rightarrow> 'n \<Rightarrow> RecvSide \<times> 'n" where
  "handle_reliable T dest p r n = send_ack T dest (accept_reliable p r) n"

definition handle_data :: "'n UdpTransport \<Rightarrow> Endpoint \<Rightarrow> Packet \<Rightarrow> RecvSide \<Rightarrow> 'n \<Rightarrow> RecvSide \<times> 'n" where
  "handle_data T dest p r n =
     (if p_cls p = Unreliable then (handle_unreliable p r, n) else handle_reliable T dest p r n)"

fun drain :: "PendingMsg list \<Rightarrow> RecvSide \<Rightarrow> RecvSide" where
  "drain [] r = r"
| "drain (m # rest) r = drain rest (emit_to_app (pm_cls m) (pm_data m) (r\<lparr>rcv_buf := rest\<rparr>))"

definition set_receiving :: "'n UdpTransport \<Rightarrow> bool \<Rightarrow> Session \<Rightarrow> 'n \<Rightarrow> Session \<times> 'n" where
  "set_receiving T receiving s n =
     (let r = (rx_side s)\<lparr>app_ready := receiving\<rparr>
      in if receiving then
           let (r, n) = send_ack T (peer s) (drain (rcv_buf r) r) n in (s\<lparr>rx_side := r\<rparr>, n)
         else (s\<lparr>rx_side := r\<rparr>, n))"

section \<open>poll and tick\<close>

definition process_packet :: "'n UdpTransport \<Rightarrow> Packet \<Rightarrow> Session \<Rightarrow> 'n \<Rightarrow> Session \<times> 'n" where
  "process_packet T p s n =
     (let tx = process_window_update p (tx_side s);
          (tx, n) = process_cum_ack T (p_cum_ack p) tx n;
          (tx, n) = (if has_sack (p_flags p) then process_sack T (peer s) (p_cum_ack p) (p_sack p) tx n else (tx, n));
          (rx, n) = (if p_type p = PT_Data then handle_data T (peer s) p (rx_side s) n
                     else if p_type p = PT_ProbeWindow then send_ack T (peer s) (rx_side s) n
                     else (rx_side s, n))
      in (s\<lparr>tx_side := tx, rx_side := rx\<rparr>, n))"

definition on_datagram :: "'n UdpTransport \<Rightarrow> bytes \<Rightarrow> Endpoint \<Rightarrow> Session \<Rightarrow> 'n \<Rightarrow> Session \<times> 'n" where
  "on_datagram T d source s n =
     (if source \<noteq> peer s then (s, n)
      else case decode d of Inl _ \<Rightarrow> (s, n) | Inr p \<Rightarrow> process_packet T p s n)"

text \<open>The drain loop; the first argument is the number of datagrams it may still read.\<close>

fun poll_loop :: "'n UdpTransport \<Rightarrow> nat \<Rightarrow> Session \<Rightarrow> 'n \<Rightarrow> bool \<times> Session \<times> 'n" where
  "poll_loop T 0 s n = (True, s, n)"
| "poll_loop T (Suc k) s n =
     (case t_recv T kMaxDatagram n of
        (None, n) \<Rightarrow> (False, s, n)
      | (Some (d, source), n) \<Rightarrow>
          let (s, n) = on_datagram T d source s n in poll_loop T k s n)"

definition poll :: "'n UdpTransport \<Rightarrow> Session \<Rightarrow> 'n \<Rightarrow> bool \<times> Session \<times> 'n" where
  "poll T s n =
     (let (hit_bound, s, n) = poll_loop T (unat (max_recv_per_poll (cfg s))) s n;
          (s, n) = pump_and_arm T s n
      in (hit_bound, s, n))"

text \<open>The search of \<^verbatim>\<open>tick\<close> for the slot of an expired timer.\<close>

fun retransmit_seq :: "'n UdpTransport \<Rightarrow> Endpoint \<Rightarrow> u32 \<Rightarrow> Slot list \<Rightarrow> SendSide \<Rightarrow> 'n \<Rightarrow> Slot list \<times> SendSide \<times> 'n" where
  "retransmit_seq T dest sq [] s n = ([], s, n)"
| "retransmit_seq T dest sq (sl # rest) s n =
     (if sl_seq sl = sq then let (sl, s, n) = retransmit T dest sl s n in (sl # rest, s, n)
      else let (rest, s, n) = retransmit_seq T dest sq rest s n in (sl # rest, s, n))"

definition timer_fired :: "'n UdpTransport \<Rightarrow> Endpoint \<Rightarrow> RecvSide \<Rightarrow> TimerId \<Rightarrow> SendSide \<Rightarrow> 'n \<Rightarrow> SendSide \<times> 'n" where
  "timer_fired T dest r tid s n =
     (if persist_active s \<and> tid = persist_id s then
        let n = send_probe T dest r n;
            s = s\<lparr>persist_interval := min (persist_interval s * 2) kPersistMax\<rparr>;
            (now, n) = t_now T n;
            (pid, th) = schedule (timers s) (now + ms (persist_interval s))
        in (s\<lparr>timers := th, persist_id := pid\<rparr>, n)
      else case timer_to_seq s tid of
        None \<Rightarrow> (s, n)
      | Some sq \<Rightarrow>
          let s = s\<lparr>timer_to_seq := (timer_to_seq s)(tid := None)\<rparr>;
              (slots, s, n) = retransmit_seq T dest sq (ring s) s n
          in (s\<lparr>ring := slots\<rparr>, n))"

partial_function (option) tick_loop ::
  "'n UdpTransport \<Rightarrow> Endpoint \<Rightarrow> RecvSide \<Rightarrow> time_point \<Rightarrow> SendSide \<Rightarrow> 'n \<Rightarrow> (SendSide \<times> 'n) option" where
  "tick_loop T dest r now s n =
     (case pop_due (timers s) now of
        (None, th) \<Rightarrow> Some (s\<lparr>timers := th\<rparr>, n)
      | (Some tid, th) \<Rightarrow>
          (case timer_fired T dest r tid (s\<lparr>timers := th\<rparr>) n of
             (s, n) \<Rightarrow> tick_loop T dest r now s n))"

definition tick :: "'n UdpTransport \<Rightarrow> Session \<Rightarrow> 'n \<Rightarrow> (Session \<times> 'n) option" where
  "tick T s n =
     (let (now, n) = t_now T n
      in case tick_loop T (peer s) (rx_side s) now (tx_side s) n of
           None \<Rightarrow> None
         | Some (tx, n) \<Rightarrow> Some (pump_and_arm T (s\<lparr>tx_side := tx\<rparr>) n))"

end
