(* ===== verification/Session_Receiver.thy ===== *)
theory Session_Receiver
  imports Session
begin

text \<open>
  The receive side of a session. The structural invariant \<open>rx_inv\<close> bounds the buffers and ties the counters to the
  reassembly map; \<open>rx_content\<close> relates what was handed to the application to the list of messages the peer accepted for
  sending. Both are kept by every operation of the receive path, and \<open>plain_rx\<close> confines
  the unreliable messages to a given set. The last part characterises the acknowledgement fields.
\<close>

section \<open>Structure\<close>

definition rx_keys :: "RecvSide \<Rightarrow> u32 list" where
  "rx_keys r = map fst (reasm r)"

definition held :: "(u32 \<times> RxItem) list \<Rightarrow> (u32 \<times> RxItem) list" where
  "held m = filter (\<lambda>e. \<not> rx_delivered (snd e)) m"

definition rx_struct :: "RecvSide \<Rightarrow> bool" where
  "rx_struct r \<longleftrightarrow> sorted (rx_keys r) \<and> distinct (rx_keys r) \<and> buffered_c2 r = length (held (reasm r))
     \<and> rcv_occupancy r \<le> capacity r \<and> (app_ready r \<longrightarrow> rcv_buf r = [])"

definition rx_inv :: "RecvSide \<Rightarrow> bool" where
  "rx_inv r \<longleftrightarrow> rx_struct r \<and> (\<forall>k\<in>set (rx_keys r). rcv_next r < k)"

lemma emit_to_app_frame [simp]:
  "reasm (emit_to_app c d r) = reasm r" "rcv_buf (emit_to_app c d r) = rcv_buf r"
  "rcv_next (emit_to_app c d r) = rcv_next r" "buffered_c2 (emit_to_app c d r) = buffered_c2 r"
  "capacity (emit_to_app c d r) = capacity r" "app_ready (emit_to_app c d r) = app_ready r"
  "handler (emit_to_app c d r) = handler r" "sack_enabled (emit_to_app c d r) = sack_enabled r"
  "next_ack_seq (emit_to_app c d r) = next_ack_seq r" "ur_init (emit_to_app c d r) = ur_init r"
  "ur_base (emit_to_app c d r) = ur_base r" "ur_seen (emit_to_app c d r) = ur_seen r"
  by (simp_all add: emit_to_app_def Let_def)

lemma app_log_emit: "handler r \<Longrightarrow> app_log (emit_to_app c d r) = app_log r @ [(c, d)]"
  by (simp add: emit_to_app_def Let_def)

lemma emit_to_app_inv [simp]:
  "rx_struct (emit_to_app c d r) = rx_struct r" "rx_keys (emit_to_app c d r) = rx_keys r"
  "rx_inv (emit_to_app c d r) = rx_inv r"
  by (simp_all add: rx_struct_def rx_inv_def rx_keys_def rcv_occupancy_def)

lemma keys_emplace:
  "map_of m k = None \<Longrightarrow> map fst (map_emplace k v m) = insort k (map fst m)"
proof -
  assume "map_of m k = None"
  moreover have "map fst (insort_key fst (k, v) m) = insort k (map fst m)" by (induction m) auto
  ultimately show ?thesis by (simp add: map_emplace_def)
qed

lemma set_emplace: "map_of m k = None \<Longrightarrow> set (map_emplace k v m) = insert (k, v) (set m)"
  by (simp add: map_emplace_def set_insort_key)

lemma mset_emplace: "map_of m k = None \<Longrightarrow> mset (map_emplace k v m) = add_mset (k, v) (mset m)"
  by (simp add: map_emplace_def)

lemma keys_erase: "map fst (map_erase k m) = filter (\<lambda>x. x \<noteq> k) (map fst m)"
  by (simp add: map_erase_def filter_map o_def)

lemma mset_erase:
  assumes "map_of m k = Some v" "distinct (map fst m)"
  shows "mset m = add_mset (k, v) (mset (map_erase k m))"
  using assms
proof (induction m)
  case (Cons e m)
  show ?case
  proof (cases "fst e = k")
    case True
    then have "k \<notin> fst ` set m" using Cons.prems(2) by auto
    then have "map_erase k m = m" by (auto simp: map_erase_def filter_id_conv)
    then show ?thesis using True Cons.prems by (cases e) (simp add: map_erase_def)
  next
    case False
    then show ?thesis using Cons by (cases e) (simp add: map_erase_def)
  qed
qed simp

lemma length_held: "length (held m) = size (filter_mset (\<lambda>e. \<not> rx_delivered (snd e)) (mset m))"
  by (simp add: held_def flip: mset_filter size_mset)

lemma rx_struct_occupancy: "rx_struct r \<Longrightarrow> length (rcv_buf r) \<le> capacity r"
  by (simp add: rx_struct_def rcv_occupancy_def)

lemma flush_one_frame [simp]:
  "rcv_next (flush_one e r) = rcv_next r + 1" "capacity (flush_one e r) = capacity r"
  "app_ready (flush_one e r) = app_ready r" "handler (flush_one e r) = handler r"
  by (simp_all add: flush_one_def Let_def)

lemma rx_struct_flush_one:
  assumes "rx_struct r" "map_of (reasm r) (rcv_next r) = Some e"
  shows "rx_struct (flush_one e r)"
proof -
  let ?m = "map_erase (rcv_next r) (reasm r)"
  have keys: "sorted (map fst (reasm r))" "distinct (map fst (reasm r))"
    using assms by (simp_all add: rx_struct_def rx_keys_def)
  have "mset (reasm r) = add_mset (rcv_next r, e) (mset ?m)" by (rule mset_erase [OF assms(2) keys(2)])
  then have "length (held (reasm r)) = length (held ?m) + (if rx_delivered e then 0 else 1)"
    by (simp add: length_held)
  moreover have "sorted (map fst ?m)" "distinct (map fst ?m)"
    using keys by (simp_all add: keys_erase sorted_filter [where f = "\<lambda>x. x", simplified])
  ultimately show ?thesis
    using assms(1) by (auto simp: rx_struct_def rx_keys_def flush_one_def Let_def rcv_occupancy_def)
qed

lemma flush_keys_above:
  assumes "\<forall>k\<in>set (rx_keys r). rcv_next r \<le> k"
  shows "\<forall>k\<in>set (rx_keys (flush_one e r)). rcv_next (flush_one e r) \<le> k"
proof
  fix k assume "k \<in> set (rx_keys (flush_one e r))"
  then have "k \<in> set (rx_keys r)" "k \<noteq> rcv_next r" by (auto simp: rx_keys_def keys_erase)
  with assms have "rcv_next r < k" by force
  then show "rcv_next (flush_one e r) \<le> k" by (simp add: inc_le)
qed

lemma rx_inv_flush:
  assumes "rx_struct r" "\<forall>k\<in>set (rx_keys r). rcv_next r \<le> k"
  shows "rx_inv (flush_reassembled r)"
  using assms
proof (induction r rule: flush_reassembled.induct)
  case (1 r)
  show ?case
  proof (cases "map_of (reasm r) (rcv_next r)")
    case None
    then have "rcv_next r \<notin> set (rx_keys r)" by (simp add: rx_keys_def map_of_eq_None_iff)
    then have "\<forall>k\<in>set (rx_keys r). rcv_next r < k" using 1(3) by (metis order_le_imp_less_or_eq)
    then show ?thesis using 1(2) None by (simp add: flush_reassembled.simps [of r] rx_inv_def)
  next
    case (Some e)
    then show ?thesis
      using 1(1) [OF Some rx_struct_flush_one [OF 1(2) Some] flush_keys_above [OF 1(3)]]
      by (simp add: flush_reassembled.simps [of r])
  qed
qed

lemma rx_inv_after_delivery:
  assumes "rx_inv r"
  shows "\<forall>k\<in>set (rx_keys r). rcv_next r + 1 \<le> k"
  using assms by (auto simp: rx_inv_def inc_le)

lemma rx_struct_rcv_next [simp]: "rx_struct (r\<lparr>rcv_next := x\<rparr>) = rx_struct r"
  by (simp add: rx_struct_def rx_keys_def rcv_occupancy_def)

text \<open>The branches of \<open>accept_reliable\<close>.\<close>

definition queue_or_emit :: "Class \<Rightarrow> bytes \<Rightarrow> RecvSide \<Rightarrow> RecvSide" where
  "queue_or_emit c d r = (if app_ready r then emit_to_app c d r
     else r\<lparr>rcv_buf := rcv_buf r @ [\<lparr>pm_cls = c, pm_data = d\<rparr>]\<rparr>)"

lemma accept_old: "p_seq p < rcv_next r \<Longrightarrow> accept_reliable p r = r"
  by (simp add: accept_reliable_def)

lemma accept_next:
  "p_seq p = rcv_next r \<Longrightarrow> accept_reliable p r =
     (if app_ready r \<or> has_buffer_space r
      then flush_reassembled ((queue_or_emit (p_cls p) (p_payload p) r)\<lparr>rcv_next := rcv_next r + 1\<rparr>) else r)"
  by (simp add: accept_reliable_def deliver_reliable_def queue_or_emit_def)

lemma accept_drop:
  "rcv_next r < p_seq p \<Longrightarrow> \<not> (map_of (reasm r) (p_seq p) = None \<and> has_buffer_space r) \<Longrightarrow> accept_reliable p r = r"
  unfolding accept_reliable_def Let_def by (simp only: if_False order_less_not_sym less_irrefl split: if_split) auto

lemma accept_unordered:
  "rcv_next r < p_seq p \<Longrightarrow> map_of (reasm r) (p_seq p) = None \<Longrightarrow> has_buffer_space r \<Longrightarrow>
   p_cls p = ReliableUnordered \<Longrightarrow> accept_reliable p r =
     (queue_or_emit (p_cls p) (p_payload p) r)\<lparr>reasm :=
        map_emplace (p_seq p) \<lparr>rx_cls = p_cls p, rx_data = [], rx_delivered = True\<rparr> (reasm r)\<rparr>"
  by (simp add: accept_reliable_def Let_def queue_or_emit_def)

lemma accept_ordered:
  "rcv_next r < p_seq p \<Longrightarrow> map_of (reasm r) (p_seq p) = None \<Longrightarrow> has_buffer_space r \<Longrightarrow>
   p_cls p \<noteq> ReliableUnordered \<Longrightarrow> accept_reliable p r =
     r\<lparr>reasm := map_emplace (p_seq p) \<lparr>rx_cls = p_cls p, rx_data = p_payload p, rx_delivered = False\<rparr> (reasm r),
       buffered_c2 := buffered_c2 r + 1\<rparr>"
  by (simp add: accept_reliable_def Let_def)

lemma accept_cases:
  obtains (same) "accept_reliable p r = r"
  | (in_order) "p_seq p = rcv_next r" "app_ready r \<or> has_buffer_space r"
  | (unordered) "rcv_next r < p_seq p" "map_of (reasm r) (p_seq p) = None" "has_buffer_space r" "p_cls p = ReliableUnordered"
  | (ordered) "rcv_next r < p_seq p" "map_of (reasm r) (p_seq p) = None" "has_buffer_space r" "p_cls p \<noteq> ReliableUnordered"
  by (metis accept_old accept_next accept_drop linorder_less_linear)

lemma queue_or_emit_frame [simp]:
  "reasm (queue_or_emit c d r) = reasm r" "rcv_next (queue_or_emit c d r) = rcv_next r"
  "buffered_c2 (queue_or_emit c d r) = buffered_c2 r" "capacity (queue_or_emit c d r) = capacity r"
  "app_ready (queue_or_emit c d r) = app_ready r" "handler (queue_or_emit c d r) = handler r"
  "rx_keys (queue_or_emit c d r) = rx_keys r"
  by (simp_all add: queue_or_emit_def rx_keys_def)

lemma rx_struct_queue_or_emit:
  "rx_struct r \<Longrightarrow> app_ready r \<or> has_buffer_space r \<Longrightarrow> rx_struct (queue_or_emit c d r)"
  by (auto simp: queue_or_emit_def rx_struct_def rx_keys_def rcv_occupancy_def has_buffer_space_def)

lemma length_held_emplace:
  "map_of m k = None \<Longrightarrow> length (held (map_emplace k v m)) = length (held m) + (if rx_delivered v then 0 else 1)"
  by (simp add: length_held mset_emplace)

lemma keys_emplace_inv:
  assumes "sorted (map fst m)" "distinct (map fst m)" "\<forall>k\<in>fst ` set m. x < k" "map_of m k = None" "x < k"
  shows "sorted (map fst (map_emplace k v m)) \<and> distinct (map fst (map_emplace k v m))
    \<and> (\<forall>k\<in>fst ` set (map_emplace k v m). x < k)"
proof -
  have "k \<notin> set (map fst m)" using assms(4) by (simp add: map_of_eq_None_iff)
  then show ?thesis using assms
    by (simp add: keys_emplace set_emplace sorted_insort distinct_insort)
qed

lemma rx_inv_emplace:
  assumes "rx_inv r" "map_of (reasm r) k = None" "rcv_next r < k" "rx_delivered v \<or> has_buffer_space r"
  shows "rx_inv (r\<lparr>reasm := map_emplace k v (reasm r), buffered_c2 := buffered_c2 r + (if rx_delivered v then 0 else 1)\<rparr>)"
proof -
  have "sorted (map fst (reasm r))" "distinct (map fst (reasm r))" "\<forall>k\<in>fst ` set (reasm r). rcv_next r < k"
    using assms(1) by (simp_all add: rx_inv_def rx_struct_def rx_keys_def)
  note keys = keys_emplace_inv [OF this assms(2,3), of v]
  have "rcv_occupancy r + (if rx_delivered v then 0 else 1) \<le> capacity r"
    using assms(1,4) by (auto simp: rx_inv_def rx_struct_def has_buffer_space_def)
  then show ?thesis
    using assms(1) keys length_held_emplace [OF assms(2), of v]
    unfolding rx_inv_def rx_struct_def rx_keys_def rcv_occupancy_def
    by (simp del: ball_simps(9)) linarith?
qed

lemma rx_inv_queue_or_emit: "rx_inv r \<Longrightarrow> app_ready r \<or> has_buffer_space r \<Longrightarrow> rx_inv (queue_or_emit c d r)"
  by (simp add: rx_inv_def rx_struct_queue_or_emit)

lemma rx_inv_accept:
  assumes "rx_inv r"
  shows "rx_inv (accept_reliable p r)"
proof (cases rule: accept_cases [of p r])
  case same
  then show ?thesis using assms by simp
next
  case in_order
  let ?r = "(queue_or_emit (p_cls p) (p_payload p) r)\<lparr>rcv_next := rcv_next r + 1\<rparr>"
  have "rx_struct ?r" using assms in_order by (simp add: rx_inv_def rx_struct_queue_or_emit)
  moreover have "\<forall>k\<in>set (rx_keys ?r). rcv_next ?r \<le> k"
    using rx_inv_after_delivery [OF assms] by (simp add: rx_keys_def)
  ultimately show ?thesis using in_order rx_inv_flush [of ?r] by (simp add: accept_next)
next
  case unordered
  let ?q = "queue_or_emit (p_cls p) (p_payload p) r"
  have "rx_inv ?q" using assms unordered by (simp add: rx_inv_queue_or_emit)
  from rx_inv_emplace [OF this, of "p_seq p" "\<lparr>rx_cls = p_cls p, rx_data = [], rx_delivered = True\<rparr>"] unordered
  have "rx_inv (?q\<lparr>reasm := map_emplace (p_seq p) \<lparr>rx_cls = p_cls p, rx_data = [], rx_delivered = True\<rparr> (reasm r),
      buffered_c2 := buffered_c2 ?q\<rparr>)" by simp
  moreover have "(?q\<lparr>reasm := m, buffered_c2 := buffered_c2 ?q\<rparr>) = ?q\<lparr>reasm := m\<rparr>" for m
    by (rule RecvSide.equality) simp_all
  ultimately show ?thesis unfolding accept_unordered [OF unordered] by (simp only:)
next
  case ordered
  from rx_inv_emplace [OF assms, of "p_seq p" "\<lparr>rx_cls = p_cls p, rx_data = p_payload p, rx_delivered = False\<rparr>"] ordered
  show ?thesis by (simp add: accept_ordered)
qed

text \<open>Updates that do not concern the reassembly state.\<close>

lemma rx_inv_other [simp]:
  "rx_inv (r\<lparr>next_ack_seq := a\<rparr>) = rx_inv r" "rx_inv (r\<lparr>handler := h\<rparr>) = rx_inv r"
  "rx_inv (r\<lparr>sack_enabled := h\<rparr>) = rx_inv r" "rx_inv (r\<lparr>ur_init := h\<rparr>) = rx_inv r"
  "rx_inv (r\<lparr>ur_base := a\<rparr>) = rx_inv r" "rx_inv (r\<lparr>ur_seen := b\<rparr>) = rx_inv r"
  by (simp_all add: rx_inv_def rx_struct_def rx_keys_def rcv_occupancy_def)

lemma send_ack_frame:
  obtains a where "fst (send_ack T dest r n) = r\<lparr>next_ack_seq := a\<rparr>"
proof -
  have "\<exists>a. fst (send_ack T dest r n) = r\<lparr>next_ack_seq := a\<rparr>"
    by (auto simp: send_ack_def Let_def split: prod.splits)
  then show ?thesis using that by blast
qed

lemma rx_inv_send_ack [simp]: "rx_inv (fst (send_ack T dest r n)) = rx_inv r"
  by (rule send_ack_frame [of T dest r n]) simp

definition ur_erase :: "RecvSide \<Rightarrow> RecvSide" where
  "ur_erase r = r\<lparr>ur_init := False, ur_base := 0, ur_seen := 0\<rparr>"

lemma handle_unreliable_frame:
  "ur_erase (handle_unreliable p r) = ur_erase r
   \<or> app_ready r \<and> ur_erase (handle_unreliable p r) = ur_erase (emit_to_app Unreliable (p_payload p) r)"
  by (simp add: handle_unreliable_def Let_def ur_erase_def emit_to_app_def)

lemma handle_unreliable_keeps [simp]:
  "handler (handle_unreliable p r) = handler r" "rcv_next (handle_unreliable p r) = rcv_next r"
  "reasm (handle_unreliable p r) = reasm r"
  by (simp_all add: handle_unreliable_def Let_def)

lemma rx_inv_ur_erase [simp]: "rx_inv (ur_erase r) = rx_inv r"
  by (simp add: ur_erase_def)

lemma rx_inv_handle_unreliable: "rx_inv r \<Longrightarrow> rx_inv (handle_unreliable p r)"
  using handle_unreliable_frame [of p r] by (metis rx_inv_ur_erase emit_to_app_inv(3))

lemma drain_frame [simp]:
  "reasm (drain q r) = reasm r" "rcv_next (drain q r) = rcv_next r" "buffered_c2 (drain q r) = buffered_c2 r"
  "capacity (drain q r) = capacity r" "app_ready (drain q r) = app_ready r" "handler (drain q r) = handler r"
  "rcv_buf (drain q r) = (if q = [] then rcv_buf r else [])"
  by (induction q r rule: drain.induct) auto

lemma app_log_drain:
  "handler r \<Longrightarrow> app_log (drain q r) = app_log r @ map (\<lambda>m. (pm_cls m, pm_data m)) q"
  by (induction q r rule: drain.induct) (auto simp: app_log_emit)

lemma rx_inv_drain:
  "rx_inv r \<Longrightarrow> rx_inv (drain (rcv_buf r) (r\<lparr>app_ready := True\<rparr>))"
  by (auto simp: rx_inv_def rx_struct_def rx_keys_def rcv_occupancy_def)

lemma rx_inv_pause: "rx_inv r \<Longrightarrow> rx_inv (r\<lparr>app_ready := False\<rparr>)"
  by (simp add: rx_inv_def rx_struct_def rx_keys_def rcv_occupancy_def)

lemma rx_inv_set_receiving: "rx_inv (rx_side s) \<Longrightarrow> rx_inv (rx_side (fst (set_receiving T b s n)))"
  using rx_inv_send_ack [of T "peer s" "drain (rcv_buf (rx_side s)) ((rx_side s)\<lparr>app_ready := True\<rparr>)" n]
    rx_inv_drain [of "rx_side s"] rx_inv_pause [of "rx_side s"]
  by (simp add: set_receiving_def Let_def split_beta)

lemma rx_inv_new: "rx_inv (new_recv_side c)"
  by (simp add: new_recv_side_def rx_inv_def rx_struct_def rx_keys_def rcv_occupancy_def held_def)

lemma rx_inv_handle_data: "rx_inv r \<Longrightarrow> rx_inv (fst (handle_data T dest p r n))"
  by (simp add: handle_data_def handle_reliable_def rx_inv_handle_unreliable rx_inv_accept)

section \<open>Content\<close>

text \<open>
  \<open>acc\<close> is the list of the reliable messages that the peer accepted for sending, in order; message \<open>i\<close> travels under
  sequence number \<open>i\<close>. The stream is what the application was handed, followed by what waits for it.
\<close>

type_synonym message = "Class \<times> bytes"

abbreviation msg_of :: "PendingMsg \<Rightarrow> message" where
  "msg_of m \<equiv> (pm_cls m, pm_data m)"

definition stream :: "RecvSide \<Rightarrow> message list" where
  "stream r = app_log r @ map msg_of (rcv_buf r)"

definition of_class :: "Class \<Rightarrow> message list \<Rightarrow> message list" where
  "of_class c xs = filter (\<lambda>m. fst m = c) xs"

definition early :: "message list \<Rightarrow> (u32 \<times> RxItem) list \<Rightarrow> message multiset" where
  "early acc m = mset (map (\<lambda>e. acc ! unat (fst e)) (filter (\<lambda>e. rx_delivered (snd e)) m))"

definition item_ok :: "message list \<Rightarrow> u32 \<times> RxItem \<Rightarrow> bool" where
  "item_ok acc e \<longleftrightarrow> unat (fst e) < length acc \<and> rx_cls (snd e) = fst (acc ! unat (fst e))
     \<and> (rx_delivered (snd e) \<longleftrightarrow> rx_cls (snd e) = ReliableUnordered)
     \<and> (\<not> rx_delivered (snd e) \<longrightarrow> rx_data (snd e) = snd (acc ! unat (fst e)))"

definition rx_content :: "message list \<Rightarrow> RecvSide \<Rightarrow> bool" where
  "rx_content acc r \<longleftrightarrow> handler r \<and> unat (rcv_next r) \<le> length acc \<and> list_all (item_ok acc) (reasm r)
     \<and> of_class ReliableOrdered (stream r) = of_class ReliableOrdered (take (unat (rcv_next r)) acc)
     \<and> mset (of_class ReliableUnordered (stream r)) =
         mset (of_class ReliableUnordered (take (unat (rcv_next r)) acc)) + early acc (reasm r)"

definition reliable_list :: "message list \<Rightarrow> bool" where
  "reliable_list acc \<longleftrightarrow> length acc < 2 ^ 32 \<and> Unreliable \<notin> fst ` set acc"

definition data_ok :: "message list \<Rightarrow> Packet \<Rightarrow> bool" where
  "data_ok acc p \<longleftrightarrow> unat (p_seq p) < length acc \<and> acc ! unat (p_seq p) = (p_cls p, p_payload p)"

lemma of_class_append [simp]: "of_class c (xs @ ys) = of_class c xs @ of_class c ys"
  by (simp add: of_class_def)

lemma of_class_single: "of_class c [m] = (if fst m = c then [m] else [])"
  by (simp add: of_class_def)

lemma unat_inc:
  assumes "unat w < N" "N < 2 ^ 32"
  shows "unat (w + 1 :: u32) = Suc (unat w)"
proof -
  have "unat w + 1 < 2 ^ 32" using assms by linarith
  then show ?thesis by (subst unat_word_ariths) simp
qed

lemma early_mset: "early acc m = image_mset (\<lambda>e. acc ! unat (fst e)) (filter_mset (\<lambda>e. rx_delivered (snd e)) (mset m))"
  by (simp add: early_def)

lemma stream_queue_or_emit:
  "handler r \<Longrightarrow> rx_struct r \<Longrightarrow> stream (queue_or_emit c d r) = stream r @ [(c, d)]"
  by (auto simp: stream_def queue_or_emit_def app_log_emit rx_struct_def)

lemma flush_one_alt:
  "flush_one e r = (let r = (if \<not> rx_delivered e then (queue_or_emit (rx_cls e) (rx_data e) r)\<lparr>buffered_c2 := buffered_c2 r - 1\<rparr> else r)
     in r\<lparr>reasm := map_erase (rcv_next r) (reasm r), rcv_next := rcv_next r + 1\<rparr>)"
  by (simp add: flush_one_def queue_or_emit_def Let_def)

lemma stream_flush_one:
  "handler r \<Longrightarrow> rx_struct r \<Longrightarrow>
   stream (flush_one e r) = stream r @ (if rx_delivered e then [] else [(rx_cls e, rx_data e)])"
  using stream_queue_or_emit [of r "rx_cls e" "rx_data e"] by (simp add: flush_one_alt Let_def stream_def)

text \<open>Message \<open>k\<close> joins the acknowledged prefix.\<close>

lemma take_inc:
  assumes "reliable_list acc" "unat w < length acc"
  shows "take (unat (w + 1)) acc = take (unat (w :: u32)) acc @ [acc ! unat w]"
  using assms unat_inc [of w "length acc"] by (simp add: reliable_list_def take_Suc_conv_app_nth)

lemma reliable_class:
  "reliable_list acc \<Longrightarrow> k < length acc \<Longrightarrow> fst (acc ! k) \<noteq> Unreliable"
  by (metis reliable_list_def imageI nth_mem)

lemma content_flush_one:
  assumes "rx_content acc r" "rx_struct r" "reliable_list acc" "map_of (reasm r) (rcv_next r) = Some e"
  shows "rx_content acc (flush_one e r)"
proof -
  let ?k = "rcv_next r" and ?m = "map_erase (rcv_next r) (reasm r)"
  have c: "handler r" "list_all (item_ok acc) (reasm r)"
    using assms(1) by (simp_all add: rx_content_def)
  have "(?k, e) \<in> set (reasm r)" by (rule map_of_SomeD [OF assms(4)])
  with c(2) have "item_ok acc (?k, e)" by (auto simp: list_all_iff)
  then have item: "unat ?k < length acc" "rx_cls e = fst (acc ! unat ?k)" "rx_delivered e \<longleftrightarrow> rx_cls e = ReliableUnordered"
      "\<not> rx_delivered e \<Longrightarrow> rx_data e = snd (acc ! unat ?k)"
    by (simp_all add: item_ok_def)
  have inc: "unat (?k + 1) \<le> length acc" using unat_inc [of ?k "length acc"] item(1) assms(3) by (simp add: reliable_list_def)
  have early: "early acc (reasm r) = (if rx_delivered e then add_mset (acc ! unat ?k) (early acc ?m) else early acc ?m)"
    using mset_erase [OF assms(4)] assms(2) by (simp add: early_mset rx_struct_def rx_keys_def)
  have items: "list_all (item_ok acc) ?m" using c(2) by (auto simp: list_all_iff map_erase_def)
  show ?thesis
  proof (cases "rx_delivered e")
    case True
    then show ?thesis
      using assms(1) item early items inc stream_flush_one [OF c(1) assms(2), of e]
      by (simp add: rx_content_def take_inc [OF assms(3) item(1)] of_class_single)
  next
    case False
    then have "rx_cls e = ReliableOrdered" "acc ! unat ?k = (rx_cls e, rx_data e)"
      using item reliable_class [OF assms(3) item(1)] by (cases "rx_cls e"; simp add: prod_eq_iff)+
    then show ?thesis
      using False assms(1) early items inc stream_flush_one [OF c(1) assms(2), of e]
      by (simp add: rx_content_def take_inc [OF assms(3) item(1)] of_class_single)
  qed
qed

lemma content_flush:
  assumes "rx_content acc r" "rx_struct r" "reliable_list acc"
  shows "rx_content acc (flush_reassembled r)"
  using assms
proof (induction r rule: flush_reassembled.induct)
  case (1 r)
  show ?case
  proof (cases "map_of (reasm r) (rcv_next r)")
    case None
    then show ?thesis using 1 by (simp add: flush_reassembled.simps [of r])
  next
    case (Some e)
    show ?thesis
      using 1(1) [OF Some content_flush_one [OF 1(2-4) Some] rx_struct_flush_one [OF 1(3) Some] 1(4)] Some
      by (simp add: flush_reassembled.simps [of r])
  qed
qed

lemma early_emplace:
  "map_of m k = None \<Longrightarrow> early acc (map_emplace k v m) =
     (if rx_delivered v then add_mset (acc ! unat k) (early acc m) else early acc m)"
  by (simp add: early_mset mset_emplace)

lemma items_emplace:
  "map_of m k = None \<Longrightarrow> list_all (item_ok acc) (map_emplace k v m) \<longleftrightarrow> item_ok acc (k, v) \<and> list_all (item_ok acc) m"
  by (auto simp: list_all_iff set_emplace)

lemma content_in_order:
  assumes "rx_content acc r" "rx_inv r" "reliable_list acc" "data_ok acc p" "p_seq p = rcv_next r"
    "app_ready r \<or> has_buffer_space r"
  shows "rx_content acc ((queue_or_emit (p_cls p) (p_payload p) r)\<lparr>rcv_next := rcv_next r + 1\<rparr>)"
proof -
  let ?r = "(queue_or_emit (p_cls p) (p_payload p) r)\<lparr>rcv_next := rcv_next r + 1\<rparr>"
  have st: "rx_struct r" and h: "handler r" using assms by (simp_all add: rx_inv_def rx_content_def)
  have k: "unat (rcv_next r) < length acc" "acc ! unat (rcv_next r) = (p_cls p, p_payload p)"
    using assms(4,5) by (simp_all add: data_ok_def)
  have cls: "p_cls p = ReliableUnordered \<or> p_cls p = ReliableOrdered"
    using reliable_class [OF assms(3) k(1)] k(2) by (cases "p_cls p") simp_all
  have "unat (rcv_next r + 1) \<le> length acc"
    using unat_inc [of "rcv_next r" "length acc"] k(1) assms(3) by (simp add: reliable_list_def)
  moreover have "stream ?r = stream r @ [(p_cls p, p_payload p)]"
    using stream_queue_or_emit [OF h st, of "p_cls p" "p_payload p"] by (simp add: stream_def)
  ultimately show ?thesis
    using assms(1) take_inc [OF assms(3) k(1)] cls k(2)
    by (auto simp: rx_content_def of_class_single)
qed

lemma content_accept:
  assumes "rx_content acc r" "rx_inv r" "reliable_list acc" "data_ok acc p"
  shows "rx_content acc (accept_reliable p r)"
proof -
  let ?k = "p_seq p"
  have st: "rx_struct r" and h: "handler r" using assms by (simp_all add: rx_inv_def rx_content_def)
  have k: "unat ?k < length acc" "acc ! unat ?k = (p_cls p, p_payload p)" using assms(4) by (simp_all add: data_ok_def)
  have cls: "p_cls p = ReliableUnordered \<or> p_cls p = ReliableOrdered"
    using reliable_class [OF assms(3) k(1)] k(2) by (cases "p_cls p") simp_all
  note str = stream_queue_or_emit [OF h st, of "p_cls p" "p_payload p"]
  show ?thesis
  proof (cases rule: accept_cases [of p r])
    case same
    then show ?thesis using assms(1) by simp
  next
    case in_order
    let ?r = "(queue_or_emit (p_cls p) (p_payload p) r)\<lparr>rcv_next := rcv_next r + 1\<rparr>"
    have "rx_content acc ?r" by (rule content_in_order [OF assms in_order])
    moreover have "rx_struct ?r" using st in_order by (simp add: rx_struct_queue_or_emit)
    ultimately show ?thesis using content_flush [OF _ _ assms(3)] in_order by (simp add: accept_next)
  next
    case unordered
    then show ?thesis
      using assms(1) str k by (simp add: accept_unordered rx_content_def early_emplace items_emplace)
        (simp add: stream_def item_ok_def of_class_single)
  next
    case ordered
    then show ?thesis
      using assms(1) k cls by (simp add: accept_ordered rx_content_def early_emplace items_emplace)
        (simp add: stream_def item_ok_def)
  qed
qed

lemma content_cong:
  "rx_content acc r \<Longrightarrow> handler r' = handler r \<Longrightarrow> rcv_next r' = rcv_next r \<Longrightarrow> reasm r' = reasm r \<Longrightarrow>
   of_class ReliableOrdered (stream r') = of_class ReliableOrdered (stream r) \<Longrightarrow>
   of_class ReliableUnordered (stream r') = of_class ReliableUnordered (stream r) \<Longrightarrow> rx_content acc r'"
  by (simp add: rx_content_def)

lemma content_send_ack [simp]: "rx_content acc (fst (send_ack T dest r n)) = rx_content acc r"
  by (rule send_ack_frame [of T dest r n]) (simp add: rx_content_def stream_def)

lemma content_ur_erase [simp]: "rx_content acc (ur_erase r) = rx_content acc r"
  by (simp add: rx_content_def stream_def ur_erase_def)

lemma content_emit_unreliable: "rx_content acc r \<Longrightarrow> rx_content acc (emit_to_app Unreliable d r)"
  by (erule content_cong) (auto simp: stream_def emit_to_app_def Let_def of_class_single)

lemma content_handle_unreliable: "rx_content acc r \<Longrightarrow> rx_content acc (handle_unreliable p r)"
  using handle_unreliable_frame [of p r] by (metis content_ur_erase content_emit_unreliable)

lemma content_drain: "rx_content acc r \<Longrightarrow> rx_content acc (drain (rcv_buf r) (r\<lparr>app_ready := b\<rparr>))"
proof -
  assume c: "rx_content acc r"
  then have "stream (drain (rcv_buf r) (r\<lparr>app_ready := b\<rparr>)) = stream r"
    by (simp add: stream_def app_log_drain rx_content_def)
  then show ?thesis using c by (simp add: rx_content_def)
qed

lemma content_pause: "rx_content acc r \<Longrightarrow> rx_content acc (r\<lparr>app_ready := b\<rparr>)"
  by (erule content_cong) (simp_all add: stream_def)

lemma content_set_receiving:
  "rx_content acc (rx_side s) \<Longrightarrow> rx_content acc (rx_side (fst (set_receiving T b s n)))"
  by (simp add: set_receiving_def Let_def split_beta content_drain content_pause)

text \<open>More messages accepted by the peer do not disturb what was received.\<close>

lemma item_ok_append: "item_ok acc e \<Longrightarrow> item_ok (acc @ xs) e"
  by (auto simp: item_ok_def nth_append)

lemma content_append: "rx_content acc r \<Longrightarrow> rx_content (acc @ xs) r"
proof -
  assume c: "rx_content acc r"
  then have items: "list_all (item_ok acc) (reasm r)" by (simp add: rx_content_def)
  then have "map (\<lambda>e. (acc @ xs) ! unat (fst e)) (filter (\<lambda>e. rx_delivered (snd e)) (reasm r))
      = map (\<lambda>e. acc ! unat (fst e)) (filter (\<lambda>e. rx_delivered (snd e)) (reasm r))"
    by (auto simp: list_all_iff item_ok_def nth_append)
  then have "early (acc @ xs) (reasm r) = early acc (reasm r)" by (simp only: early_def)
  then show ?thesis using c items by (auto simp: rx_content_def list_all_iff item_ok_append)
qed

lemma content_new: "handler r \<Longrightarrow> rcv_next r = 0 \<Longrightarrow> reasm r = [] \<Longrightarrow> stream r = [] \<Longrightarrow> rx_content [] r"
  by (simp add: rx_content_def early_def)

section \<open>What acknowledgements say\<close>

text \<open>The unreliable messages in the stream: they come from the set \<open>V\<close>.\<close>

definition plain_rx :: "bytes set \<Rightarrow> RecvSide \<Rightarrow> bool" where
  "plain_rx V r \<longleftrightarrow> (\<forall>d. (Unreliable, d) \<in> set (stream r) \<longrightarrow> d \<in> V)"

lemma plain_queue_or_emit:
  "plain_rx V r \<Longrightarrow> handler r \<Longrightarrow> rx_struct r \<Longrightarrow> (c = Unreliable \<Longrightarrow> d \<in> V) \<Longrightarrow> plain_rx V (queue_or_emit c d r)"
  by (auto simp: plain_rx_def stream_queue_or_emit)

lemma plain_rcv_next [simp]: "plain_rx V (r\<lparr>rcv_next := k\<rparr>) = plain_rx V r" "plain_rx V (r\<lparr>reasm := m\<rparr>) = plain_rx V r"
  "plain_rx V (r\<lparr>buffered_c2 := k'\<rparr>) = plain_rx V r"
  by (simp_all add: plain_rx_def stream_def)

lemma plain_flush_one:
  assumes "plain_rx V r" "rx_content acc r" "rx_struct r" "reliable_list acc" "map_of (reasm r) (rcv_next r) = Some e"
  shows "plain_rx V (flush_one e r)"
proof -
  have "item_ok acc (rcv_next r, e)" using assms(2) map_of_SomeD [OF assms(5)] by (auto simp: rx_content_def list_all_iff)
  then have "rx_cls e \<noteq> Unreliable" using reliable_class [OF assms(4), of "unat (rcv_next r)"] by (simp add: item_ok_def)
  moreover have "handler r" using assms(2) by (simp add: rx_content_def)
  ultimately show ?thesis using assms(1,3) plain_queue_or_emit [of V r "rx_cls e" "rx_data e"] by (simp add: flush_one_alt)
qed

lemma plain_flush:
  assumes "plain_rx V r" "rx_content acc r" "rx_struct r" "reliable_list acc"
  shows "plain_rx V (flush_reassembled r)"
  using assms
proof (induction r rule: flush_reassembled.induct)
  case (1 r)
  show ?case
  proof (cases "map_of (reasm r) (rcv_next r)")
    case None
    then show ?thesis using 1(2) by (simp add: flush_reassembled.simps [of r])
  next
    case (Some e)
    show ?thesis
      using 1(1) [OF Some plain_flush_one [OF 1(2-5) Some] content_flush_one [OF 1(3-5) Some] rx_struct_flush_one [OF 1(4) Some] 1(5)] Some
      by (simp add: flush_reassembled.simps [of r])
  qed
qed

lemma plain_accept:
  assumes "plain_rx V r" "rx_content acc r" "rx_inv r" "reliable_list acc" "data_ok acc p"
  shows "plain_rx V (accept_reliable p r)"
proof -
  have st: "rx_struct r" and h: "handler r" using assms by (simp_all add: rx_inv_def rx_content_def)
  have "p_cls p \<noteq> Unreliable" using reliable_class [OF assms(4)] assms(5) by (fastforce simp: data_ok_def)
  then have q: "plain_rx V (queue_or_emit (p_cls p) (p_payload p) r)" using plain_queue_or_emit [OF assms(1) h st] by blast
  show ?thesis
  proof (cases rule: accept_cases [of p r])
    case in_order
    let ?r = "(queue_or_emit (p_cls p) (p_payload p) r)\<lparr>rcv_next := rcv_next r + 1\<rparr>"
    have "rx_struct ?r" using st in_order by (simp add: rx_struct_queue_or_emit)
    from plain_flush [OF _ content_in_order [OF assms(2-5) in_order] this assms(4), of V] q show ?thesis
      using in_order by (simp add: accept_next)
  qed (use assms(1) q in \<open>simp_all add: accept_unordered accept_ordered\<close>)
qed

lemma plain_handle_unreliable:
  assumes "plain_rx V r" "p_payload p \<in> V"
  shows "plain_rx V (handle_unreliable p r)"
proof -
  have e: "plain_rx V (ur_erase x) = plain_rx V x" for x by (simp add: plain_rx_def stream_def ur_erase_def)
  have "plain_rx V (emit_to_app Unreliable (p_payload p) r)"
    using assms by (auto simp: plain_rx_def stream_def emit_to_app_def Let_def)
  then show ?thesis using handle_unreliable_frame [of p r] assms(1) e by metis
qed

lemma plain_send_ack [simp]: "plain_rx V (fst (send_ack T dest r n)) = plain_rx V r"
  by (rule send_ack_frame [of T dest r n]) (simp add: plain_rx_def stream_def)

lemma plain_set_receiving:
  assumes "handler (rx_side s)"
  shows "plain_rx V (rx_side (fst (set_receiving T b s n))) = plain_rx V (rx_side s)"
proof -
  have "stream (drain (rcv_buf (rx_side s)) ((rx_side s)\<lparr>app_ready := True\<rparr>)) = stream (rx_side s)"
    using assms by (simp add: stream_def app_log_drain)
  then show ?thesis by (simp add: set_receiving_def Let_def split_beta) (simp add: plain_rx_def stream_def)
qed

definition received :: "RecvSide \<Rightarrow> u32 set" where
  "received r = {k. k < rcv_next r} \<union> set (rx_keys r)"

definition ack_ok :: "u32 set \<Rightarrow> Packet \<Rightarrow> bool" where
  "ack_ok R p \<longleftrightarrow> (\<forall>k. k < p_cum_ack p \<longrightarrow> k \<in> R) \<and>
     (has_sack (p_flags p) \<longrightarrow> (\<forall>k. p_cum_ack p < k \<and> k - p_cum_ack p - 1 < 64
        \<and> bit (p_sack p) (unat (k - p_cum_ack p - 1)) \<longrightarrow> k \<in> R))"

lemma ack_ok_mono: "ack_ok R p \<Longrightarrow> R \<subseteq> R' \<Longrightarrow> ack_ok R' p"
  by (auto simp: ack_ok_def)

lemma bit_build_sack_aux:
  "bit (foldl (\<lambda>bitmap (sq, item). let i = sq - b - 1 in if i < 64 then bitmap OR push_bit (unat i) 1 else bitmap) (a :: u64) m) j
   \<longleftrightarrow> bit a j \<or> j < 64 \<and> (\<exists>k\<in>fst ` set m. unat (k - b - 1 :: u32) = j)"
proof (induction m arbitrary: a)
  case (Cons e m)
  obtain k v where e: "e = (k, v)" by fastforce
  have lt: "k - b - 1 < 64 \<longleftrightarrow> unat (k - b - 1) < 64" by (simp add: word_less_nat_alt)
  show ?case unfolding e foldl_Cons Cons.IH
    by (auto simp: Let_def lt bit_simps bit_1_iff)
qed simp

lemma bit_build_sack:
  "bit (build_sack r) j \<longleftrightarrow> j < 64 \<and> (\<exists>k\<in>set (rx_keys r). unat (k - rcv_next r - 1) = j)"
  unfolding build_sack_def bit_build_sack_aux by (simp add: rx_keys_def)

lemma fill_ack_fields_same [simp]:
  "p_type (fill_ack_fields r p) = p_type p" "p_cls (fill_ack_fields r p) = p_cls p"
  "p_seq (fill_ack_fields r p) = p_seq p" "p_payload (fill_ack_fields r p) = p_payload p"
  "p_cum_ack (fill_ack_fields r p) = rcv_next r" "p_adv_window (fill_ack_fields r p) = my_adv_window r"
  by (simp_all add: fill_ack_fields_def Let_def)

lemma fill_ack_fields_sack:
  "has_sack (p_flags (fill_ack_fields r p)) \<Longrightarrow> \<not> has_sack (p_flags p) \<Longrightarrow> p_sack (fill_ack_fields r p) = build_sack r"
  by (auto simp: fill_ack_fields_def Let_def split: if_splits)

lemma ack_ok_fill:
  assumes "\<not> has_sack (p_flags p)"
  shows "ack_ok (received r) (fill_ack_fields r p)"
proof -
  have "k \<in> set (rx_keys r)" if "k - rcv_next r - 1 < 64" "bit (build_sack r) (unat (k - rcv_next r - 1))" for k
  proof -
    from that(2) obtain k' where "k' \<in> set (rx_keys r)" "unat (k' - rcv_next r - 1) = unat (k - rcv_next r - 1)"
      by (auto simp: bit_build_sack)
    then show ?thesis by (simp flip: word_unat_eq_iff)
  qed
  then show ?thesis using fill_ack_fields_sack [OF _ assms] by (auto simp: ack_ok_def received_def)
qed

text \<open>What was received stays received.\<close>

lemma received_cong: "rcv_next r' = rcv_next r \<Longrightarrow> reasm r' = reasm r \<Longrightarrow> received r' = received r"
  by (simp add: received_def rx_keys_def)

lemma word_less_inc: "w + 1 \<noteq> 0 \<Longrightarrow> k < w + 1 \<longleftrightarrow> k \<le> (w :: 'a::len word)"
  using unatSuc [of w] by (simp add: add.commute word_less_nat_alt word_le_nat_alt less_Suc_eq_le)

lemma received_flush_one:
  assumes "map_of (reasm r) (rcv_next r) = Some e" "rcv_next r + 1 \<noteq> 0"
  shows "received (flush_one e r) = received r"
proof -
  have gap: "rcv_next r \<in> set (rx_keys r)"
    using assms(1) map_of_eq_None_iff [of "reasm r" "rcv_next r"] by (simp add: rx_keys_def)
  have below: "{k. k < rcv_next r + 1} = insert (rcv_next r) {k. k < rcv_next r}"
    unfolding word_less_inc [OF assms(2)] by (auto simp: order_le_less)
  have keys: "set (rx_keys (flush_one e r)) = set (rx_keys r) - {rcv_next r}"
    unfolding rx_keys_def reasm_flush_one keys_erase by (simp only: set_filter) blast
  have "insert x A \<union> (B - {x}) = A \<union> B" if "x \<in> B" for x :: u32 and A B
    using that by blast
  then show ?thesis unfolding received_def flush_one_frame(1) below keys using gap by simp
qed

lemma content_room:
  assumes "rx_content acc r" "reliable_list acc" "unat (rcv_next r) < length acc"
  shows "rcv_next r + 1 \<noteq> 0"
proof -
  have "unat (rcv_next r + 1) = Suc (unat (rcv_next r))"
    using assms unat_inc [of "rcv_next r" "length acc"] by (simp add: reliable_list_def)
  then show ?thesis by auto
qed

lemma received_flush:
  assumes "rx_content acc r" "rx_struct r" "reliable_list acc" "\<forall>k\<in>set (rx_keys r). rcv_next r \<le> k"
  shows "received (flush_reassembled r) = received r"
  using assms
proof (induction r rule: flush_reassembled.induct)
  case (1 r)
  show ?case
  proof (cases "map_of (reasm r) (rcv_next r)")
    case (Some e)
    have "(rcv_next r, e) \<in> set (reasm r)" by (rule map_of_SomeD [OF Some])
    then have "unat (rcv_next r) < length acc"
      using 1(2) by (auto simp: rx_content_def list_all_iff item_ok_def)
    note eq = received_flush_one [OF Some content_room [OF 1(2) 1(4) this]]
    show ?thesis
      using 1(1) [OF Some content_flush_one [OF 1(2-4) Some] rx_struct_flush_one [OF 1(3) Some] 1(4)
          flush_keys_above [OF 1(5)]] Some eq
      by (simp add: flush_reassembled.simps [of r])
  qed (simp add: flush_reassembled.simps [of r])
qed

lemma received_accept:
  assumes "rx_content acc r" "rx_inv r" "reliable_list acc" "data_ok acc p"
  shows "received r \<subseteq> received (accept_reliable p r)"
proof (cases rule: accept_cases [of p r])
  case same
  then show ?thesis by simp
next
  case in_order
  let ?q = "queue_or_emit (p_cls p) (p_payload p) r"
  let ?r = "?q\<lparr>rcv_next := rcv_next r + 1\<rparr>"
  have k: "unat (rcv_next r) < length acc" "acc ! unat (rcv_next r) = (p_cls p, p_payload p)"
    using assms(4) in_order by (simp_all add: data_ok_def)
  have st: "rx_struct ?r" using assms(2) in_order by (simp add: rx_inv_def rx_struct_queue_or_emit)
  have "\<forall>k\<in>set (rx_keys ?r). rcv_next ?r \<le> k"
    using rx_inv_after_delivery [OF assms(2)] by (simp add: rx_keys_def)
  moreover have "rx_content acc ?r" by (rule content_in_order [OF assms in_order])
  ultimately have "received (flush_reassembled ?r) = received ?r" using received_flush st assms(3) by blast
  moreover have "received r \<subseteq> received ?r"
    using content_room [OF assms(1,3) k(1)]
    by (auto simp: received_def rx_keys_def word_less_inc)
  ultimately show ?thesis using in_order by (simp add: accept_next)
next
  case unordered
  then show ?thesis by (auto simp: accept_unordered received_def rx_keys_def set_emplace)
next
  case ordered
  then show ?thesis by (auto simp: accept_ordered received_def rx_keys_def set_emplace)
qed

lemma received_send_ack [simp]: "received (fst (send_ack T dest r n)) = received r"
  by (rule send_ack_frame [of T dest r n]) (simp add: received_def rx_keys_def)

lemma received_handle_unreliable [simp]: "received (handle_unreliable p r) = received r"
  by (rule received_cong) simp_all

lemma received_set_receiving [simp]: "received (rx_side (fst (set_receiving T b s n))) = received (rx_side s)"
  by (simp add: set_receiving_def Let_def split_beta) (simp add: received_def rx_keys_def)

section \<open>Properties\<close>

text \<open>The SACK bitmap is exact: bit \<open>j\<close> is set if and only if the packet with sequence number
  \<^verbatim>\<open>rcv_next + 1 + j\<close> is held above the gap, for the 64 sequence numbers that the bitmap can describe.\<close>

theorem sack_bitmap_exact:
  "bit (build_sack r) j = (j < 64 \<and> rcv_next r + 1 + word_of_nat j \<in> fst ` set (reasm r))"
proof (cases "j < 64")
  case True
  have "unat (k - rcv_next r - 1) = j \<longleftrightarrow> k = rcv_next r + 1 + word_of_nat j" for k
  proof
    assume "unat (k - rcv_next r - 1) = j"
    then have "word_of_nat (unat (k - rcv_next r - 1)) = (word_of_nat j :: u32)" by simp
    then have "k - rcv_next r - 1 = word_of_nat j" by simp
    then show "k = rcv_next r + 1 + word_of_nat j" by (simp add: algebra_simps)
  next
    assume "k = rcv_next r + 1 + word_of_nat j"
    then show "unat (k - rcv_next r - 1) = j" using True by (simp add: unsigned_of_nat take_bit_nat_eq_self)
  qed
  then show ?thesis using True by (auto simp: bit_build_sack rx_keys_def)
qed (simp add: bit_build_sack)

end
