(* ===== verification/Session_Sender.thy ===== *)
theory Session_Sender
  imports Session_Receiver
begin

text \<open>
  The send side of a session. \<open>timed\<close> is the invariant of the retransmission timers: every packet in flight that the peer has not
  selectively acknowledged owns exactly one live timer. \<open>tx_inv\<close> also ties the queue and the ring to the list of accepted
  messages: nothing accepted is forgotten before the peer has it. The operations that call the transport are treated in the context
  of the transport's contract.
\<close>

section \<open>Frames\<close>

text \<open>What a datagram of this session may claim: its reliable payload is the accepted message of its number, and its
  acknowledgement fields name only packets that this side has received (\<open>R\<close>). A \<open>fair\<close> datagram may also carry an unreliable
  payload, from the set \<open>U\<close>; the datagrams of the reliable machinery are \<open>good\<close> and carry none.\<close>

definition fair :: "bytes set \<Rightarrow> message list \<Rightarrow> u32 set \<Rightarrow> bytes \<Rightarrow> bool" where
  "fair U acc R d \<longleftrightarrow> length d \<le> kMaxDatagram \<and>
     (case decode d of Inl _ \<Rightarrow> True
      | Inr p \<Rightarrow> ack_ok R p \<and> (p_type p = PT_Data \<longrightarrow> (if p_cls p = Unreliable then p_payload p \<in> U else data_ok acc p)))"

abbreviation good :: "message list \<Rightarrow> u32 set \<Rightarrow> bytes \<Rightarrow> bool" where
  "good \<equiv> fair {}"

lemma data_ok_append: "data_ok acc p \<Longrightarrow> data_ok (acc @ xs) p"
  by (auto simp: data_ok_def nth_append)

lemma fair_mono: "fair U acc R d \<Longrightarrow> U \<subseteq> U' \<Longrightarrow> R \<subseteq> R' \<Longrightarrow> fair U' (acc @ xs) R' d"
  by (auto simp: fair_def data_ok_append dest: ack_ok_mono split: sum.splits)

lemma good_mono: "good acc R d \<Longrightarrow> R \<subseteq> R' \<Longrightarrow> good (acc @ xs) R' d"
  by (rule fair_mono) simp_all

lemma good_fair: "good acc R d \<Longrightarrow> fair U acc R d"
  using fair_mono [of "{}" acc R d U R "[]"] by simp

lemma fill_flags: "p_flags (fill_ack_fields r p) = p_flags p \<or> p_flags (fill_ack_fields r p) = p_flags p OR SackPresent"
  by (simp add: fill_ack_fields_def Let_def)

lemma encodable_frame:
  assumes "p_flags p = 0" "length d \<le> kMaxDatagram - kBaseHeaderSize - kSackSize"
  shows "encodable ((fill_ack_fields r p)\<lparr>p_payload := d\<rparr>)"
    "total_len ((fill_ack_fields r p)\<lparr>p_payload := d\<rparr>) \<le> kBaseHeaderSize + kSackSize + length d"
  using fill_flags [of r p] assms
  by (auto simp: encodable_def total_len_def header_len_def kMaxDatagram_def kBaseHeaderSize_def kSackSize_def
      SackPresent_def)

lemma ack_ok_cong:
  "ack_ok R p \<Longrightarrow> p_cum_ack p' = p_cum_ack p \<Longrightarrow> p_flags p' = p_flags p \<Longrightarrow>
   (has_sack (p_flags p) \<Longrightarrow> p_sack p' = p_sack p) \<Longrightarrow> ack_ok R p'"
  by (auto simp: ack_ok_def)

lemma encode_frame:
  assumes "encodable p" "total_len p \<le> m"
  shows "fst (encode p (replicate m 0)) > 0" "take (fst (encode p (replicate m 0))) (snd (encode p (replicate m 0))) = wire_image p"
proof -
  have "0 < total_len p" by (simp add: total_len_def header_len_def kBaseHeaderSize_def)
  then show "fst (encode p (replicate m 0)) > 0"
    "take (fst (encode p (replicate m 0))) (snd (encode p (replicate m 0))) = wire_image p"
    using assms by (simp_all add: encode_eq)
qed

lemma fair_wire_image:
  assumes "encodable p" "ack_ok R p" "p_type p AND 0x0F = PT_Data \<longrightarrow> (if p_cls p = Unreliable then p_payload p \<in> U else data_ok acc p)"
  shows "fair U acc R (wire_image p)"
proof -
  have "ack_ok R (on_wire p)" by (rule ack_ok_cong [OF assms(2)]) (simp_all add: on_wire_def)
  moreover have "length (wire_image p) \<le> kMaxDatagram" using assms(1) by (simp add: encodable_def total_len_def)
  ultimately show ?thesis using assms(1,3) decode_wire_image [OF assms(1)]
    by (auto simp: fair_def on_wire_def data_ok_def)
qed

lemma ack_ok_frame: "p_flags p = 0 \<Longrightarrow> ack_ok (received r) ((fill_ack_fields r p)\<lparr>p_payload := d\<rparr>)"
  using ack_ok_fill [of p r] by (simp add: has_sack_def ack_ok_def)

text \<open>The frames the session builds: always encodable, and fair.\<close>

lemma frame_built:
  assumes "p_flags p = 0" "length d \<le> kMaxDatagram - kBaseHeaderSize - kSackSize" "kBaseHeaderSize + kSackSize + length d \<le> m"
    and "p_type p AND 0x0F = PT_Data \<longrightarrow>
      (if p_cls p = Unreliable then d \<in> U else unat (p_seq p) < length acc \<and> acc ! unat (p_seq p) = (p_cls p, d))"
  obtains f where "fst (encode ((fill_ack_fields r p)\<lparr>p_payload := d\<rparr>) (replicate m 0)) > 0"
    "take (fst (encode ((fill_ack_fields r p)\<lparr>p_payload := d\<rparr>) (replicate m 0)))
       (snd (encode ((fill_ack_fields r p)\<lparr>p_payload := d\<rparr>) (replicate m 0))) = f"
    "fair U acc (received r) f" "decode f = Inr (on_wire ((fill_ack_fields r p)\<lparr>p_payload := d\<rparr>))"
proof -
  let ?p = "(fill_ack_fields r p)\<lparr>p_payload := d\<rparr>"
  note e = encodable_frame [OF assms(1,2), of r]
  have "total_len ?p \<le> m" using e(2) assms(3) by linarith
  note enc = encode_frame [OF e(1) this]
  have "fair U acc (received r) (wire_image ?p)"
    using assms(4) by (intro fair_wire_image [OF e(1) ack_ok_frame [OF assms(1)]]) (simp add: data_ok_def)
  then show ?thesis using that enc decode_wire_image [OF e(1)] by blast
qed

section \<open>Timers\<close>

definition slot_timed :: "SendSide \<Rightarrow> Slot \<Rightarrow> bool" where
  "slot_timed s sl \<longleftrightarrow> sl_timer sl < next_id (timers s) \<and> 1 \<le> sl_rto sl
     \<and> (\<not> sacked sl \<longrightarrow> timer_to_seq s (sl_timer sl) = Some (sl_seq sl) \<and> sl_timer sl \<in> fst ` live (timers s))"

definition persist_ok :: "Slot set \<Rightarrow> SendSide \<Rightarrow> bool" where
  "persist_ok S s \<longleftrightarrow> 1 \<le> persist_interval s \<and> (persist_active s \<longrightarrow> persist_id s < next_id (timers s)
     \<and> persist_id s \<in> fst ` live (timers s) \<and> persist_id s \<notin> sl_timer ` S)"

definition rtt_ok :: "SendSide \<Rightarrow> bool" where
  "rtt_ok s \<longleftrightarrow> 1 \<le> rto_floor (rtt s) \<and> rto_limits_ok (rtt s)"

definition timed :: "Slot set \<Rightarrow> SendSide \<Rightarrow> bool" where
  "timed S s \<longleftrightarrow> timers_inv (timers s) \<and> (\<forall>sl\<in>S. slot_timed s sl) \<and> inj_on sl_seq S \<and> inj_on sl_timer S
     \<and> (\<forall>t q. timer_to_seq s t = Some q \<longrightarrow> (\<exists>sl\<in>S. \<not> sacked sl \<and> sl_timer sl = t \<and> sl_seq sl = q))
     \<and> persist_ok S s \<and> rtt_ok s"

lemma rtt_ok_cong:
  "rto_floor (rtt s') = rto_floor (rtt s) \<Longrightarrow> rto_max (rtt s') = rto_max (rtt s) \<Longrightarrow> rtt_ok s' = rtt_ok s"
  by (simp only: rtt_ok_def rto_limits_ok_def)

lemma timed_cong:
  "timed S s \<Longrightarrow> timers s' = timers s \<Longrightarrow> timer_to_seq s' = timer_to_seq s \<Longrightarrow> persist_active s' = persist_active s \<Longrightarrow>
   persist_id s' = persist_id s \<Longrightarrow> persist_interval s' = persist_interval s \<Longrightarrow> rto_floor (rtt s') = rto_floor (rtt s) \<Longrightarrow>
   rto_max (rtt s') = rto_max (rtt s) \<Longrightarrow> timed S s'"
  using rtt_ok_cong [of s' s] by (simp add: timed_def slot_timed_def persist_ok_def)

lemma timed_other [simp]:
  "timed S (s\<lparr>ring := l\<rparr>) = timed S s" "timed S (s\<lparr>next_seq := a\<rparr>) = timed S s"
  "timed S (s\<lparr>pending := q\<rparr>) = timed S s" "timed S (s\<lparr>congestion := c\<rparr>) = timed S s"
  "timed S (s\<lparr>peer_adv_window := b\<rparr>) = timed S s" "timed S (s\<lparr>last_ack := a\<rparr>) = timed S s"
  "timed S (s\<lparr>last_ack_seq := a\<rparr>) = timed S s" "timed S (s\<lparr>ack_seq_initialized := d\<rparr>) = timed S s"
  "timed S (s\<lparr>retransmitted_bytes := e\<rparr>) = timed S s" "timed S (s\<lparr>retransmit_count := a\<rparr>) = timed S s"
  "timed S (s\<lparr>next_unreliable_seq := a\<rparr>) = timed S s"
  by (simp_all add: timed_def slot_timed_def persist_ok_def rtt_ok_def)

definition forget :: "TimerId \<Rightarrow> SendSide \<Rightarrow> SendSide" where
  "forget t s = s\<lparr>timers := cancel (timers s) t, timer_to_seq := (timer_to_seq s)(t := None)\<rparr>"

text \<open>A slot leaves the table when its timer is removed, by cancellation or because it fired.\<close>

lemma timed_remove:
  assumes t: "timed (insert sl S) s" and new: "sl_seq sl \<notin> sl_seq ` S"
    and th: "timers_inv th" "live th = {x \<in> live (timers s). fst x \<noteq> sl_timer sl}" "next_id th = next_id (timers s)"
  shows "timed S (s\<lparr>timers := th, timer_to_seq := (timer_to_seq s)(sl_timer sl := None)\<rparr>)"
proof -
  have "sl \<notin> S" using new by blast
  then have other: "sl_timer x \<noteq> sl_timer sl" if "x \<in> S" for x
  proof -
    have "sl_timer sl \<notin> sl_timer ` S" using t \<open>sl \<notin> S\<close> by (simp add: timed_def)
    then show ?thesis using that by (metis imageI)
  qed
  have keep: "i \<in> fst ` live th \<longleftrightarrow> i \<in> fst ` live (timers s)" if "i \<noteq> sl_timer sl" for i
    using that by (auto simp: th(2))
  have "\<exists>x\<in>S. \<not> sacked x \<and> sl_timer x = i \<and> sl_seq x = q" if "i \<noteq> sl_timer sl" "timer_to_seq s i = Some q" for i q
    using t that by (auto simp: timed_def)
  moreover have "slot_timed (s\<lparr>timers := th, timer_to_seq := (timer_to_seq s)(sl_timer sl := None)\<rparr>) x" if "x \<in> S" for x
    using t that other [OF that] keep [OF other [OF that]] by (auto simp: timed_def slot_timed_def th(3))
  moreover have "persist_ok S (s\<lparr>timers := th, timer_to_seq := (timer_to_seq s)(sl_timer sl := None)\<rparr>)"
    using t keep [of "persist_id s"] by (auto simp: timed_def persist_ok_def th(3))
  ultimately show ?thesis using t th(1) by (auto simp: timed_def rtt_ok_def)
qed

lemma timed_forget:
  assumes "timed (insert sl S) s" "sl_seq sl \<notin> sl_seq ` S"
  shows "timed S (forget (sl_timer sl) s)"
proof -
  have "timers_inv (timers s)" "sl_timer sl < next_id (timers s)"
    using assms(1) by (simp_all add: timed_def slot_timed_def)
  from th.canc_spec [OF this] show ?thesis
    unfolding forget_def by (intro timed_remove [OF assms]) simp_all
qed

lemma timed_fired:
  assumes "timed (insert sl S) s" "sl_seq sl \<notin> sl_seq ` S" "pop_due (timers s) now = (Some (sl_timer sl), th)"
  shows "timed S (s\<lparr>timers := th, timer_to_seq := (timer_to_seq s)(sl_timer sl := None)\<rparr>)"
proof -
  have "timers_inv (timers s)" using assms(1) by (simp add: timed_def)
  from th.pop_Some_spec [OF this assms(3)] show ?thesis
    by (intro timed_remove [OF assms(1,2)]) simp_all
qed

text \<open>A slot enters the table selectively acknowledged, or with a timer of its own.\<close>

lemma timed_add_sacked:
  assumes "timed S s" "sacked sl" "sl_seq sl \<notin> sl_seq ` S" "sl_timer sl \<notin> sl_timer ` S"
    "sl_timer sl < next_id (timers s)" "1 \<le> sl_rto sl" "persist_active s \<longrightarrow> persist_id s \<noteq> sl_timer sl"
  shows "timed (insert sl S) s"
  using assms unfolding timed_def persist_ok_def by (auto simp: slot_timed_def)

lemma timed_add_armed:
  assumes t: "timed S s" and sch: "schedule (timers s) d = (sl_timer sl, th)" and new: "sl_seq sl \<notin> sl_seq ` S"
    and "1 \<le> sl_rto sl" "\<not> sacked sl"
  shows "timed (insert sl S) (s\<lparr>timers := th, timer_to_seq := (timer_to_seq s)(sl_timer sl \<mapsto> sl_seq sl)\<rparr>)"
proof -
  have inv: "timers_inv (timers s)" using t by (simp add: timed_def)
  note sp = th.sched_spec [OF inv sch]
  have old: "sl_timer x < sl_timer sl" if "x \<in> S" for x
    using t that sp by (auto simp: timed_def slot_timed_def)
  have "slot_timed (s\<lparr>timers := th, timer_to_seq := (timer_to_seq s)(sl_timer sl \<mapsto> sl_seq sl)\<rparr>) x" if "x \<in> insert sl S" for x
    using t that old [of x] sp assms(4) by (fastforce simp: timed_def slot_timed_def)
  moreover have "persist_ok (insert sl S) (s\<lparr>timers := th, timer_to_seq := (timer_to_seq s)(sl_timer sl \<mapsto> sl_seq sl)\<rparr>)"
    using t sp by (auto simp: timed_def persist_ok_def)
  moreover have "inj_on sl_timer (insert sl S)"
    using t old by (fastforce simp: timed_def)
  ultimately show ?thesis using t sp new assms(5) by (auto simp: timed_def rtt_ok_def)
qed

section \<open>The invariant of the send side\<close>

definition slot_good :: "message list \<Rightarrow> u32 set \<Rightarrow> Slot \<Rightarrow> bool" where
  "slot_good acc R sl \<longleftrightarrow> good acc R (datagram sl) \<and>
     (\<exists>p. decode (datagram sl) = Inr p \<and> p_type p = PT_Data \<and> p_cls p \<noteq> Unreliable \<and> p_seq p = sl_seq sl)"

definition contiguous :: "nat \<Rightarrow> Slot list \<Rightarrow> bool" where
  "contiguous N slots \<longleftrightarrow> length slots \<le> N \<and> map (\<lambda>sl. unat (sl_seq sl)) slots = [N - length slots..<N]"

text \<open>
  \<open>acc\<close>: the reliable messages accepted so far; \<open>Rp\<close>: the sequence numbers the peer has received; \<open>Rs\<close>: those this side
  has received (its datagrams acknowledge them); \<open>w\<close>: the configured window.
\<close>

definition ring_ok :: "message list \<Rightarrow> u32 set \<Rightarrow> u32 set \<Rightarrow> nat \<Rightarrow> Slot list \<Rightarrow> bool" where
  "ring_ok acc Rp Rs N slots \<longleftrightarrow> contiguous N slots
     \<and> (\<forall>sl\<in>set slots. slot_good acc Rs sl \<and> (sacked sl \<longrightarrow> sl_seq sl \<in> Rp))
     \<and> (\<forall>k. unat k + length slots < N \<longrightarrow> k \<in> Rp)"

definition tx_inv :: "nat \<Rightarrow> message list \<Rightarrow> u32 set \<Rightarrow> u32 set \<Rightarrow> SendSide \<Rightarrow> bool" where
  "tx_inv w acc Rp Rs s \<longleftrightarrow> timed (set (ring s)) s \<and> ring_ok acc Rp Rs (unat (next_seq s)) (ring s)
     \<and> unat (next_seq s) \<le> length acc \<and> map msg_of (pending s) = drop (unat (next_seq s)) acc
     \<and> length (ring s) \<le> w \<and> length (pending s) \<le> w \<and> cc_inv (congestion s)"

lemma contiguous_distinct: "contiguous N slots \<Longrightarrow> distinct (map sl_seq slots)"
proof -
  assume "contiguous N slots"
  then have "distinct (map unat (map sl_seq slots))" by (simp add: contiguous_def o_def)
  then show ?thesis by (simp only: distinct_map [of unat])
qed

lemma contiguous_nth: "contiguous N slots \<Longrightarrow> i < length slots \<Longrightarrow> unat (sl_seq (slots ! i)) = N - length slots + i"
proof -
  assume c: "contiguous N slots" and i: "i < length slots"
  have "map (\<lambda>sl. unat (sl_seq sl)) slots ! i = [N - length slots..<N] ! i" using c by (simp add: contiguous_def)
  moreover have "N - length slots + i < N" using c i by (auto simp: contiguous_def)
  ultimately show ?thesis using i by simp
qed

lemma contiguous_drop: "contiguous N slots \<Longrightarrow> j \<le> length slots \<Longrightarrow> contiguous N (drop j slots)"
proof -
  assume c: "contiguous N slots" and j: "j \<le> length slots"
  have "map (\<lambda>sl. unat (sl_seq sl)) (drop j slots) = drop j [N - length slots..<N]"
    using c by (simp add: contiguous_def flip: drop_map)
  moreover have "length (drop j slots) \<le> N" using c by (auto simp: contiguous_def)
  ultimately show ?thesis using c j by (simp add: contiguous_def)
qed

lemma ring_ok_mono:
  "ring_ok acc Rp Rs N slots \<Longrightarrow> Rp \<subseteq> Rp' \<Longrightarrow> Rs \<subseteq> Rs' \<Longrightarrow> ring_ok (acc @ xs) Rp' Rs' N slots"
  unfolding ring_ok_def slot_good_def using good_mono by blast

lemma tx_inv_mono: "tx_inv w acc Rp Rs s \<Longrightarrow> Rp \<subseteq> Rp' \<Longrightarrow> Rs \<subseteq> Rs' \<Longrightarrow> tx_inv w acc Rp' Rs' s"
  using ring_ok_mono [of acc Rp Rs "unat (next_seq s)" "ring s" Rp' Rs' "[]"] by (simp add: tx_inv_def)

section \<open>Cumulative acknowledgements\<close>

lemma cum_ack_loop_frame:
  "cum_ack_loop ca now l s a m = (s', a', m') \<Longrightarrow>
   \<exists>th f. s' = s\<lparr>timers := th, timer_to_seq := f, ring := dropWhile (\<lambda>sl. sl_seq sl < ca) l\<rparr>"
proof (induction l arbitrary: s a m)
  case Nil
  then show ?case by (intro exI [of _ "timers s"] exI [of _ "timer_to_seq s"]) simp
next
  case (Cons sl l)
  show ?case
  proof (cases "sl_seq sl < ca")
    case True
    then show ?thesis using Cons.prems Cons.IH by fastforce
  next
    case False
    then show ?thesis using Cons.prems by (intro exI [of _ "timers s"] exI [of _ "timer_to_seq s"]) simp
  qed
qed

lemma cum_ack_loop_timed:
  "cum_ack_loop ca now l s a m = (s', a', m') \<Longrightarrow> timed (set l) s \<Longrightarrow> distinct (map sl_seq l) \<Longrightarrow>
   timed (set (ring s')) s'"
proof (induction l arbitrary: s a m)
  case (Cons sl l)
  show ?case
  proof (cases "sl_seq sl < ca")
    case True
    have "timed (set l) (forget (sl_timer sl) s)" using Cons.prems by (intro timed_forget) auto
    then show ?thesis using Cons.prems True Cons.IH by (fastforce simp: forget_def)
  next
    case False
    then show ?thesis using Cons.prems by auto
  qed
qed auto

lemma ring_ok_acked:
  assumes "ring_ok acc Rp Rs N slots" "\<forall>k. k < ca \<longrightarrow> k \<in> Rp"
  shows "ring_ok acc Rp Rs N (dropWhile (\<lambda>sl. sl_seq sl < ca) slots)"
proof -
  let ?l = "dropWhile (\<lambda>sl. sl_seq sl < ca) slots" and ?t = "takeWhile (\<lambda>sl. sl_seq sl < ca) slots"
  have l: "?l = drop (length ?t) slots" "length ?t \<le> length slots"
    by (simp_all add: dropWhile_eq_drop length_takeWhile_le)
  have c: "contiguous N slots" using assms(1) by (simp add: ring_ok_def)
  have "k \<in> Rp" if "unat k + length ?l < N" for k
  proof (cases "unat k + length slots < N")
    case True
    then show ?thesis using assms(1) by (simp add: ring_ok_def)
  next
    case False
    let ?i = "unat k - (N - length slots)"
    have i: "?i < length ?t" using False that l c by (auto simp: contiguous_def)
    then have "unat (sl_seq (slots ! ?i)) = unat k"
      using contiguous_nth [OF c, of ?i] False l(2) c by (simp add: contiguous_def)
    then have "k = sl_seq (?t ! ?i)" using i by (simp add: takeWhile_nth word_unat_eq_iff)
    moreover have "?t ! ?i \<in> set ?t" using i by (rule nth_mem)
    ultimately have "k < ca" using set_takeWhileD by fastforce
    then show ?thesis using assms(2) by simp
  qed
  then show ?thesis
    using assms(1) contiguous_drop [OF c l(2)] set_dropWhileD [of _ _ slots]
    unfolding ring_ok_def l(1) [symmetric] by blast
qed

lemma length_dropWhile_ring: "length (dropWhile P slots) \<le> length slots"
  by (rule length_dropWhile_le)

lemma tx_inv_cum_ack:
  assumes inv: "tx_inv w acc Rp Rs s" and ack: "\<forall>k. k < ca \<longrightarrow> k \<in> Rp"
  shows "tx_inv w acc Rp Rs (fst (process_cum_ack T ca s n))"
proof -
  obtain now n' where now: "t_now T n = (now, n')" by fastforce
  obtain s' a m where lp: "cum_ack_loop ca now (ring s) s 0 None = (s', a, m)" by (metis prod_cases3)
  obtain th f where s': "s' = s\<lparr>timers := th, timer_to_seq := f, ring := dropWhile (\<lambda>sl. sl_seq sl < ca) (ring s)\<rparr>"
    using cum_ack_loop_frame [OF lp] by blast
  have ro: "ring_ok acc Rp Rs (unat (next_seq s)) (ring s)" using inv by (simp add: tx_inv_def)
  have "timed (set (ring s')) s'"
    using cum_ack_loop_timed [OF lp] inv ro contiguous_distinct by (auto simp: tx_inv_def ring_ok_def)
  moreover have "ring_ok acc Rp Rs (unat (next_seq s)) (ring s')" using ring_ok_acked [OF ro ack] by (simp add: s')
  moreover have "length (ring s') \<le> w"
    using inv length_dropWhile_ring [of "\<lambda>sl. sl_seq sl < ca" "ring s"] by (simp add: s' tx_inv_def)
  ultimately have inv': "tx_inv w acc Rp Rs s'" using inv by (simp add: tx_inv_def s')
  let ?u = "case m of None \<Rightarrow> s' | Some m \<Rightarrow> s'\<lparr>rtt := rtt_sample (rtt s') m, congestion := sample_rtt (congestion s') m\<rparr>"
  have u: "tx_inv w acc Rp Rs ?u"
    using inv' cc_inv_sample_rtt by (auto simp: tx_inv_def split: option.split elim!: timed_cong)
  then have "tx_inv w acc Rp Rs (?u\<lparr>congestion := acknowledge (congestion ?u) a\<rparr>)"
    using cc_inv_acknowledge by (auto simp: tx_inv_def elim!: timed_cong)
  then show ?thesis using u by (simp add: process_cum_ack_def now lp Let_def)
qed

lemma tx_inv_other [simp]:
  "tx_inv w acc Rp Rs (s\<lparr>peer_adv_window := b\<rparr>) = tx_inv w acc Rp Rs s"
  "tx_inv w acc Rp Rs (s\<lparr>last_ack := a\<rparr>) = tx_inv w acc Rp Rs s"
  "tx_inv w acc Rp Rs (s\<lparr>last_ack_seq := a\<rparr>) = tx_inv w acc Rp Rs s"
  "tx_inv w acc Rp Rs (s\<lparr>ack_seq_initialized := d\<rparr>) = tx_inv w acc Rp Rs s"
  "tx_inv w acc Rp Rs (s\<lparr>next_unreliable_seq := a\<rparr>) = tx_inv w acc Rp Rs s"
  by (simp_all add: tx_inv_def)

lemma tx_inv_window_update [simp]: "tx_inv w acc Rp Rs (process_window_update p s) = tx_inv w acc Rp Rs s"
  by (simp add: process_window_update_def Let_def)

section \<open>Selective acknowledgements\<close>

text \<open>What the loops may change in a slot.\<close>

definition same_packet :: "Slot \<Rightarrow> Slot \<Rightarrow> bool" where
  "same_packet a b \<longleftrightarrow> sl_seq b = sl_seq a \<and> datagram b = datagram a"

lemma same_packet_refl [simp]: "same_packet a a"
  by (simp add: same_packet_def)

definition same_slot :: "Slot \<Rightarrow> Slot \<Rightarrow> bool" where
  "same_slot a b \<longleftrightarrow> same_packet a b \<and> sacked b = sacked a"

lemma same_slot_refl [simp]: "same_slot a a"
  by (simp add: same_slot_def)

lemma same_slots_packets: "list_all2 same_slot xs ys \<Longrightarrow> list_all2 same_packet xs ys"
  by (erule list_all2_mono) (simp add: same_slot_def)

lemma same_slots_sacked:
  "list_all2 same_slot xs ys \<Longrightarrow> \<forall>sl\<in>set xs. sacked sl \<longrightarrow> sl_seq sl \<in> R \<Longrightarrow> \<forall>sl\<in>set ys. sacked sl \<longrightarrow> sl_seq sl \<in> R"
  by (induction rule: list_all2_induct) (auto simp: same_slot_def same_packet_def)

lemma same_packet_lists:
  "list_all2 same_packet xs ys \<Longrightarrow> map sl_seq ys = map sl_seq xs \<and> map datagram ys = map datagram xs \<and> length ys = length xs"
  by (induction rule: list_all2_induct) (auto simp: same_packet_def)

lemma ring_ok_same:
  assumes "ring_ok acc Rp Rs N slots" "list_all2 same_packet slots slots'"
    and "\<forall>sl\<in>set slots'. sacked sl \<longrightarrow> sl_seq sl \<in> Rp"
  shows "ring_ok acc Rp Rs N slots'"
proof -
  have len: "length slots' = length slots" using assms(2) by (simp add: list_all2_lengthD)
  have "map sl_seq slots' = map sl_seq slots" using same_packet_lists [OF assms(2)] by simp
  then have "map unat (map sl_seq slots') = map unat (map sl_seq slots)" by simp
  then have "contiguous N slots'" using assms(1) len by (simp add: ring_ok_def contiguous_def o_def)
  moreover have "slot_good acc Rs sl'" if mem: "sl' \<in> set slots'" for sl'
  proof -
    obtain i where "i < length slots'" "slots' ! i = sl'" using mem by (auto simp: in_set_conv_nth)
    then have "same_packet (slots ! i) sl'" "slots ! i \<in> set slots"
      using assms(2) len by (auto simp: list_all2_conv_all_nth)
    then show ?thesis using assms(1) by (simp add: ring_ok_def same_packet_def slot_good_def)
  qed
  ultimately show ?thesis using assms(1,3) len by (simp add: ring_ok_def)
qed

text \<open>The slots selected by a bitmap are received when the bitmap is honest.\<close>

definition sack_honest :: "u32 set \<Rightarrow> u32 \<Rightarrow> u64 \<Rightarrow> bool" where
  "sack_honest R ca bitmap \<longleftrightarrow>
     (\<forall>k. ca < k \<and> k - ca - 1 < 64 \<and> bit bitmap (unat (k - ca - 1)) \<longrightarrow> k \<in> R)"

lemma bit_test: "drop_bit n (v :: u64) AND 1 \<noteq> 0 \<longleftrightarrow> bit v n"
  by (simp add: bit_iff_and_drop_bit_eq_1 and_one_eq mod_2_eq_odd)

lemma sack_mark_eq:
  "sack_mark ca bitmap now sl s a =
     (if \<not> (ca < sl_seq sl \<and> \<not> sacked sl \<and> sl_seq sl - ca - 1 < 64 \<and> bit bitmap (unat (sl_seq sl - ca - 1)))
      then (sl, s, a)
      else if transmit_count sl = 1 \<and> \<not> rtt_sampled sl
      then (sl\<lparr>sacked := True, rtt_sampled := True\<rparr>,
            (forget (sl_timer sl) s)\<lparr>rtt := rtt_sample (rtt s) (to_ms (now - send_time sl)),
              congestion := sample_rtt (congestion s) (to_ms (now - send_time sl))\<rparr>, a + 1)
      else (sl\<lparr>sacked := True\<rparr>, forget (sl_timer sl) s, a + 1))"
proof (cases "sl_seq sl \<le> ca")
  case True
  then have "\<not> ca < sl_seq sl" by simp
  then show ?thesis using True unfolding sack_mark_def by simp
next
  case False
  then have "ca < sl_seq sl" by simp
  then show ?thesis using False by (simp add: sack_mark_def Let_def bit_test forget_def)
qed

lemma sack_mark_cases:
  assumes "sack_mark ca bitmap now sl s a = (sl', s', a')" "sack_honest Rp ca bitmap"
  obtains (same) "sl' = sl" "s' = s" "a' = a"
  | (marked) r c where "\<not> sacked sl" "sl_seq sl \<in> Rp" "sacked sl'" "same_packet sl sl'" "sl_timer sl' = sl_timer sl"
      "sl_rto sl' = sl_rto sl" "s' = (forget (sl_timer sl) s)\<lparr>rtt := r, congestion := c\<rparr>"
      "rto_floor r = rto_floor (rtt s)" "rto_max r = rto_max (rtt s)" "cc_inv (congestion s) \<longrightarrow> cc_inv c"
proof (cases "ca < sl_seq sl \<and> \<not> sacked sl \<and> sl_seq sl - ca - 1 < 64 \<and> bit bitmap (unat (sl_seq sl - ca - 1))")
  case False
  then show ?thesis using assms(1) same unfolding sack_mark_eq by simp
next
  case True
  then have R: "sl_seq sl \<in> Rp" using assms(2) by (simp add: sack_honest_def)
  show ?thesis
  proof (cases "transmit_count sl = 1 \<and> \<not> rtt_sampled sl")
    case t: True
    have "sl' = sl\<lparr>sacked := True, rtt_sampled := True\<rparr>"
      "s' = (forget (sl_timer sl) s)\<lparr>rtt := rtt_sample (rtt s) (to_ms (now - send_time sl)),
              congestion := sample_rtt (congestion s) (to_ms (now - send_time sl))\<rparr>"
      using assms(1) True t unfolding sack_mark_eq by simp_all
    then show ?thesis using True R cc_inv_sample_rtt
      by (intro marked [of "sample_rtt (congestion s) (to_ms (now - send_time sl))" "rtt_sample (rtt s) (to_ms (now - send_time sl))"])
        (simp_all add: same_packet_def)
  next
    case f: False
    have "sl' = sl\<lparr>sacked := True\<rparr>"
      "s' = (forget (sl_timer sl) s)\<lparr>rtt := rtt s, congestion := congestion s\<rparr>"
      using assms(1) True f unfolding sack_mark_eq by (auto simp: forget_def)
    then show ?thesis using True R by (intro marked [of "congestion s" "rtt s"]) (simp_all add: same_packet_def)
  qed
qed

definition tx_keep :: "SendSide \<Rightarrow> SendSide \<Rightarrow> bool" where
  "tx_keep s s' \<longleftrightarrow> next_seq s' = next_seq s \<and> pending s' = pending s \<and> ring s' = ring s"

lemma tx_keep_refl [simp]: "tx_keep s s"
  by (simp add: tx_keep_def)

lemma tx_keep_trans: "tx_keep a b \<Longrightarrow> tx_keep b c \<Longrightarrow> tx_keep a c"
  by (simp add: tx_keep_def)

text \<open>Slots already treated (\<open>A\<close>) stay as they are while the rest of the ring is marked.\<close>

lemma timed_sacked:
  assumes "timed (insert sl S) s" "sl_seq sl \<notin> sl_seq ` S" "sl_seq sl' = sl_seq sl" "sacked sl'" "sl_timer sl' = sl_timer sl"
    "sl_rto sl' = sl_rto sl"
  shows "timed (insert sl' S) (forget (sl_timer sl) s)"
proof -
  have S: "sl \<notin> S" using assms(2) by blast
  have o: "slot_timed s sl" "inj_on sl_timer (insert sl S)" "persist_ok (insert sl S) s" "timers_inv (timers s)"
    using assms(1) by (simp_all add: timed_def)
  have t: "sl_timer sl < next_id (timers s)" using o(1) by (simp add: slot_timed_def)
  have "sl_timer sl \<notin> sl_timer ` S" using o(2) S by simp
  moreover have "next_id (timers (forget (sl_timer sl) s)) = next_id (timers s)"
    using th.canc_spec [OF o(4) t] by (simp add: forget_def)
  moreover have "persist_active (forget (sl_timer sl) s) \<longrightarrow> persist_id (forget (sl_timer sl) s) \<noteq> sl_timer sl'"
    using o(3) assms(5) by (simp add: persist_ok_def forget_def)
  ultimately show ?thesis
    using timed_forget [OF assms(1,2)] assms o(1) t
    by (intro timed_add_sacked) (simp_all add: slot_timed_def)
qed

lemma sack_mark_loop_inv:
  assumes "sack_mark_loop ca bitmap now slots s a = (slots', s', a')" "sack_honest Rp ca bitmap"
    "timed (A \<union> set slots) s" "distinct (map sl_seq slots)" "sl_seq ` A \<inter> sl_seq ` set slots = {}" "cc_inv (congestion s)"
    "\<forall>sl\<in>set slots. sacked sl \<longrightarrow> sl_seq sl \<in> Rp"
  shows "timed (A \<union> set slots') s' \<and> list_all2 same_packet slots slots' \<and> (\<forall>sl\<in>set slots'. sacked sl \<longrightarrow> sl_seq sl \<in> Rp)
    \<and> cc_inv (congestion s') \<and> tx_keep s s'"
  using assms
proof (induction slots arbitrary: s a A slots' s' a')
  case Nil
  then show ?case by simp
next
  case (Cons sl rest)
  obtain sl1 s1 a1 where m: "sack_mark ca bitmap now sl s a = (sl1, s1, a1)" by (metis prod_cases3)
  obtain rest' where l: "sack_mark_loop ca bitmap now rest s1 a1 = (rest', s', a')" "slots' = sl1 # rest'"
    using Cons.prems(1) m by (auto split: prod.splits)
  let ?S = "A \<union> set rest"
  have S: "A \<union> set (sl # rest) = insert sl ?S" "sl_seq sl \<notin> sl_seq ` ?S"
    using Cons.prems(4,5) by auto
  have step: "timed (insert sl1 ?S) s1 \<and> same_packet sl sl1 \<and> (sacked sl1 \<longrightarrow> sl_seq sl1 \<in> Rp) \<and> cc_inv (congestion s1)
    \<and> tx_keep s s1"
  proof (rule sack_mark_cases [OF m Cons.prems(2)])
    assume "sl1 = sl" "s1 = s"
    then show ?thesis using Cons.prems S
      by (simp add: same_packet_def)
  next
    fix r c
    assume c: "sl_seq sl \<in> Rp" "sacked sl1" "same_packet sl sl1" "sl_timer sl1 = sl_timer sl" "sl_rto sl1 = sl_rto sl"
      "s1 = (forget (sl_timer sl) s)\<lparr>rtt := r, congestion := c\<rparr>" "rto_floor r = rto_floor (rtt s)"
      "rto_max r = rto_max (rtt s)" "cc_inv (congestion s) \<longrightarrow> cc_inv c"
    have "timed (insert sl1 ?S) (forget (sl_timer sl) s)"
      using Cons.prems(3) S c by (intro timed_sacked) (simp_all add: same_packet_def)
    then have "timed (insert sl1 ?S) s1"
      by (rule timed_cong) (simp_all add: c(6-8), simp add: forget_def c(7), simp add: forget_def c(8))
    then show ?thesis using c Cons.prems(6) by (simp add: same_packet_def forget_def tx_keep_def)
  qed
  have "timed (insert sl1 A \<union> set rest) s1" using step by simp
  moreover have "sl_seq ` insert sl1 A \<inter> sl_seq ` set rest = {}"
    using step Cons.prems(4,5) by (auto simp: same_packet_def)
  ultimately have "timed (insert sl1 A \<union> set rest') s' \<and> list_all2 same_packet rest rest'
    \<and> (\<forall>sl\<in>set rest'. sacked sl \<longrightarrow> sl_seq sl \<in> Rp) \<and> cc_inv (congestion s')
    \<and> tx_keep s1 s'"
    using Cons.IH [OF l(1) Cons.prems(2), of "insert sl1 A"] Cons.prems(4,7) step by simp
  then show ?case using step l(2) tx_keep_trans by auto
qed

section \<open>Operations that use the transport\<close>

text \<open>The timers due at an instant, for the termination of \<^verbatim>\<open>tick\<close>.\<close>

definition due_now :: "SendSide \<Rightarrow> time_point \<Rightarrow> (TimerId \<times> time_point) set" where
  "due_now s now = {x \<in> live (timers s). snd x \<le> now}"

lemma due_now_arm:
  assumes "timers_inv (timers s)" "schedule (timers s) d = (i, th)" "now < d" "timers s' = th"
  shows "due_now s' now = due_now s now"
  using th.sched_spec [OF assms(1,2)] assms(3,4) by (auto simp: due_now_def)

context datagram_transport
begin

definition evolves :: "(Endpoint \<Rightarrow> Endpoint \<Rightarrow> bytes \<Rightarrow> bool) \<Rightarrow> 'n \<Rightarrow> 'n \<Rightarrow> bool" where
  "evolves P n n' \<longleftrightarrow> (flight_ok P n \<longrightarrow> flight_ok P n') \<and> clock n \<le> clock n'"

lemma evolves_refl [simp]: "evolves P n n"
  by (simp add: evolves_def)

lemma evolves_trans: "evolves P a b \<Longrightarrow> evolves P b c \<Longrightarrow> evolves P a c"
  by (auto simp: evolves_def)

lemma evolves_send: "P me dest d \<Longrightarrow> t_send T dest d n = (k, n') \<Longrightarrow> evolves P n n'"
  using flight_ok_send [of P n dest d] send_clock [of n dest d] by (simp add: evolves_def)

lemma evolves_now: "t_now T n = (t, n') \<Longrightarrow> evolves P n n'"
  using flight_ok_now [of P n] now_clock [of n] by (simp add: evolves_def)

lemma evolves_recv: "t_recv T cap n = (x, n') \<Longrightarrow> evolves P n n'"
  using flight_ok_recv [of P n cap] recv_clock [of n cap] by (simp add: evolves_def)

lemma now_between: "t_now T n = (t, n') \<Longrightarrow> clock n \<le> t \<and> t \<le> clock n'"
  using now_clock [of n] by simp

lemma fast_retransmit_inv:
  assumes f: "fast_retransmit T dest sl s n = (sl', s', n')" and t: "timed (insert sl S) s"
    and new: "sl_seq sl \<notin> sl_seq ` S" and "\<not> sacked sl" "P me dest (datagram sl)"
  shows "timed (insert sl' S) s' \<and> same_packet sl sl' \<and> \<not> sacked sl' \<and> tx_keep s s' \<and> congestion s' = congestion s
    \<and> evolves P n n'"
proof -
  obtain k n1 where s1: "t_send T dest (datagram sl) n = (k, n1)" by fastforce
  obtain now n2 where s2: "t_now T n1 = (now, n2)" by fastforce
  let ?f = "forget (sl_timer sl) s"
  obtain tid th where sch: "schedule (timers ?f) (now + ms (sl_rto sl)) = (tid, th)" by fastforce
  have e: "evolves P n n2" using evolves_send [where P = P, OF assms(5) s1] evolves_now [OF s2] by (rule evolves_trans)
  have sl': "sl' = sl\<lparr>transmit_count := transmit_count sl + 1, fast_retransmitted := True, sl_timer := tid\<rparr>" "n' = n2"
    and s': "s' = s\<lparr>retransmitted_bytes := retransmitted_bytes s + word_of_nat k, retransmit_count := retransmit_count s + 1,
       timers := th, timer_to_seq := (timer_to_seq ?f)(tid \<mapsto> sl_seq sl)\<rparr>"
    using f s1 s2 sch by (simp_all add: fast_retransmit_def Let_def forget_def)
  have "1 \<le> sl_rto sl" using t by (simp add: timed_def slot_timed_def)
  then have "timed (insert sl' S) (?f\<lparr>timers := th, timer_to_seq := (timer_to_seq ?f)(sl_timer sl' \<mapsto> sl_seq sl')\<rparr>)"
    using timed_forget [OF t new] sch new assms(4) by (intro timed_add_armed) (simp_all add: sl')
  then have "timed (insert sl' S) s'" by (rule timed_cong) (simp_all add: sl' s' forget_def)
  then show ?thesis using e assms(4) by (simp add: sl' s' same_packet_def tx_keep_def)
qed

lemma fast_loop_inv:
  assumes "fast_loop T dest m slots s n = (slots', s', n')" "timed (A \<union> set slots) s" "distinct (map sl_seq slots)"
    "sl_seq ` A \<inter> sl_seq ` set slots = {}" "cc_inv (congestion s)" "\<forall>sl\<in>set slots. P me dest (datagram sl)"
  shows "timed (A \<union> set slots') s' \<and> list_all2 same_slot slots slots'
    \<and> cc_inv (congestion s') \<and> tx_keep s s' \<and> evolves P n n'"
  using assms
proof (induction slots arbitrary: m s n A slots' s' n')
  case (Cons sl rest)
  let ?S = "A \<union> set rest"
  have S: "A \<union> set (sl # rest) = insert sl ?S" "sl_seq sl \<notin> sl_seq ` ?S" using Cons.prems(3,4) by auto
  have rest: "timed (insert sl1 A \<union> set rest') s2 \<and> list_all2 same_slot rest rest'
      \<and> cc_inv (congestion s2) \<and> tx_keep s1 s2 \<and> evolves P n1 n2"
    if "fast_loop T dest m1 rest s1 n1 = (rest', s2, n2)" "timed (insert sl1 ?S) s1" "cc_inv (congestion s1)"
      "same_packet sl sl1" for m1 s1 n1 sl1 rest' s2 n2
    using that Cons.prems by (intro Cons.IH [OF that(1)]) (auto simp: same_packet_def)
  consider (sacked) "sacked sl" | (fast) "\<not> sacked sl" "m \<ge> 3" "\<not> fast_retransmitted sl"
    | (skip) "\<not> sacked sl" "\<not> (m \<ge> 3 \<and> \<not> fast_retransmitted sl)" by blast
  then show ?case
  proof cases
    case sacked
    then obtain rest' where l: "fast_loop T dest (m + 1) rest s n = (rest', s', n')" "slots' = sl # rest'"
      using Cons.prems(1) by (auto split: prod.splits)
    show ?thesis using rest [OF l(1), of sl] Cons.prems(2,5) S l(2) by simp
  next
    case skip
    then obtain rest' where l: "fast_loop T dest m rest s n = (rest', s', n')" "slots' = sl # rest'"
      using Cons.prems(1) by (auto split: prod.splits if_splits)
    show ?thesis using rest [OF l(1), of sl] Cons.prems(2,5) S l(2) by simp
  next
    case fast
    let ?s = "s\<lparr>congestion := loss (congestion s) (sl_seq sl) (next_seq s)\<rparr>"
    obtain sl1 s1 n1 where f: "fast_retransmit T dest sl ?s n = (sl1, s1, n1)" by (metis prod_cases3)
    obtain rest' where l: "fast_loop T dest m rest s1 n1 = (rest', s', n')" "slots' = sl1 # rest'"
      using Cons.prems(1) fast f by (auto split: prod.splits)
    have i: "timed (insert sl1 ?S) s1 \<and> same_packet sl sl1 \<and> \<not> sacked sl1 \<and> tx_keep ?s s1 \<and> congestion s1 = congestion ?s
      \<and> evolves P n n1"
      using Cons.prems(2,6) S fast by (intro fast_retransmit_inv [OF f]) simp_all
    then have "cc_inv (congestion s1)" "same_slot sl sl1" using Cons.prems(5) fast by (simp_all add: cc_inv_loss same_slot_def)
    then show ?thesis using rest [OF l(1), of sl1] i l(2)
      by (auto simp: tx_keep_def intro: evolves_trans)
  qed
qed simp

lemma tx_inv_process_sack:
  assumes ps: "process_sack T dest ca bitmap s n = (s', n')" and inv: "tx_inv w acc Rp Rs s"
    and h: "sack_honest Rp ca bitmap" and ok: "\<And>d. good acc Rs d \<Longrightarrow> P me dest d"
  shows "tx_inv w acc Rp Rs s' \<and> evolves P n n'"
proof -
  obtain now n1 where now: "t_now T n = (now, n1)" by fastforce
  obtain sl1 s1 a where m: "sack_mark_loop ca bitmap now (ring s) s 0 = (sl1, s1, a)" by (metis prod_cases3)
  let ?s1 = "s1\<lparr>congestion := acknowledge (congestion s1) a\<rparr>"
  obtain sl2 s2 n2 where f: "fast_loop T dest 0 (rev sl1) ?s1 n1 = (sl2, s2, n2)" by (metis prod_cases3)
  have ro: "ring_ok acc Rp Rs (unat (next_seq s)) (ring s)" using inv by (simp add: tx_inv_def)
  have d: "distinct (map sl_seq (ring s))" using ro contiguous_distinct [of "unat (next_seq s)"] by (auto simp: ring_ok_def)
  have i1: "timed (set sl1) s1 \<and> list_all2 same_packet (ring s) sl1 \<and> (\<forall>sl\<in>set sl1. sacked sl \<longrightarrow> sl_seq sl \<in> Rp)
    \<and> cc_inv (congestion s1) \<and> tx_keep s s1"
    using sack_mark_loop_inv [OF m h, of "{}"] inv d ro by (simp add: tx_inv_def ring_ok_def)
  then have r1: "ring_ok acc Rp Rs (unat (next_seq s)) sl1" using ring_ok_same [OF ro] by blast
  have d1: "distinct (map sl_seq (rev sl1))" using d same_packet_lists [of "ring s" sl1] i1 by (simp add: rev_map [symmetric])
  have i2: "timed (set sl2) s2 \<and> list_all2 same_slot (rev sl1) sl2
    \<and> cc_inv (congestion s2) \<and> tx_keep ?s1 s2 \<and> evolves P n1 n2"
    using fast_loop_inv [OF f, where A = "{}" and P = P] i1 d1 r1 ok by (simp add: cc_inv_acknowledge ring_ok_def slot_good_def)
  have same: "list_all2 same_slot sl1 (rev sl2)" using i2 list_all2_rev [of same_slot "rev sl1" sl2] by simp
  then have r2: "ring_ok acc Rp Rs (unat (next_seq s)) (rev sl2)"
    using ring_ok_same [OF r1 same_slots_packets [OF same]] same_slots_sacked [OF same] i1 by blast
  have len: "length sl2 = length (ring s)" using i1 i2 by (metis list_all2_lengthD length_rev)
  have "s' = s2\<lparr>ring := rev sl2\<rparr>" "n' = n2" using ps now m f by (simp_all add: process_sack_def Let_def)
  then show ?thesis
    using r2 i1 i2 inv len evolves_trans [OF evolves_now [OF now]] by (simp add: tx_inv_def tx_keep_def)
qed

end

text \<open>A new packet joins the ring.\<close>

definition small :: "message list \<Rightarrow> bool" where
  "small acc \<longleftrightarrow> list_all (\<lambda>m. length (snd m) \<le> kMaxDatagram - kBaseHeaderSize - kSackSize) acc"

lemma contiguous_append:
  assumes "contiguous N slots" "unat (sl_seq sl) = N"
  shows "contiguous (Suc N) (slots @ [sl])"
proof -
  have "N - length slots \<le> N" by simp
  then have "[N - length slots..<Suc N] = [N - length slots..<N] @ [N]" by (rule upt_Suc_append)
  then show ?thesis using assms by (simp add: contiguous_def)
qed

lemma contiguous_below: "contiguous N slots \<Longrightarrow> sl \<in> set slots \<Longrightarrow> unat (sl_seq sl) < N"
  using contiguous_nth [of N slots] by (fastforce simp: in_set_conv_nth contiguous_def)

lemma ring_ok_append:
  assumes "ring_ok acc Rp Rs N slots" "unat (sl_seq sl) = N" "slot_good acc Rs sl" "\<not> sacked sl"
  shows "ring_ok acc Rp Rs (Suc N) (slots @ [sl])"
  using assms contiguous_append [of N slots sl] by (auto simp: ring_ok_def)

lemma PT_Data_nibble: "PT_Data AND 0x0F = PT_Data"
  by (simp add: PT_Data_def)

lemma rtt_ok_rto: "rtt_ok s \<Longrightarrow> 1 \<le> rto (rtt s)"
  using rto_bounds [of "rtt s"] by (auto simp: rtt_ok_def)

lemma next_message:
  assumes "map msg_of (msg # rest) = drop N acc"
  shows "N < length acc \<and> acc ! N = msg_of msg \<and> map msg_of rest = drop (Suc N) acc"
proof -
  have "drop N acc \<noteq> []" using assms by (metis list.simps(9) list.distinct(1))
  then have N: "N < length acc" by simp
  then have "drop N acc = acc ! N # drop (Suc N) acc" by (rule Cons_nth_drop_Suc [symmetric])
  then show ?thesis using N assms by simp
qed

context datagram_transport
begin

lemma pump_one_inv:
  assumes p: "pump_one T dest r msg (s\<lparr>pending := rest\<rparr>) n = (s', n')" and inv: "tx_inv w acc Rp (received r) s"
    and q: "pending s = msg # rest" and room: "length (ring s) < w"
    and acc: "reliable_list acc" "small acc" and ok: "\<And>d. good acc (received r) d \<Longrightarrow> P me dest d"
  shows "tx_inv w acc Rp (received r) s' \<and> evolves P n n' \<and> pending s' = rest \<and> unat (next_seq s') = Suc (unat (next_seq s))
    \<and> length (ring s') = Suc (length (ring s)) \<and> peer_adv_window s' = peer_adv_window s"
proof -
  let ?N = "unat (next_seq s)"
  have m: "?N < length acc" "acc ! ?N = msg_of msg" "map msg_of rest = drop (Suc ?N) acc"
    using next_message [of msg rest ?N acc] inv q by (simp_all add: tx_inv_def)
  have N': "unat (next_seq s + 1) = Suc ?N" using unat_inc [OF m(1)] acc(1) by (simp add: reliable_list_def)
  have cls: "pm_cls msg \<noteq> Unreliable" using reliable_class [OF acc(1) m(1)] m(2) by simp
  have len: "length (pm_data msg) \<le> kMaxDatagram - kBaseHeaderSize - kSackSize"
    using acc(2) m nth_mem [OF m(1)] by (auto simp: small_def list_all_iff)
  let ?p = "empty_packet\<lparr>p_type := PT_Data, p_cls := pm_cls msg, p_seq := next_seq s\<rparr>"
  let ?e = "encode ((fill_ack_fields r ?p)\<lparr>p_payload := pm_data msg\<rparr>) (replicate kMaxDatagram 0)"
  obtain f where f: "fst ?e > 0" "take (fst ?e) (snd ?e) = f" "good acc (received r) f"
      "decode f = Inr (on_wire ((fill_ack_fields r ?p)\<lparr>p_payload := pm_data msg\<rparr>))"
    using frame_built [of ?p "pm_data msg" kMaxDatagram "{}" acc r] len m cls
    by (auto simp: empty_packet_def kMaxDatagram_def kBaseHeaderSize_def kSackSize_def)
  obtain k n1 where s1: "t_send T dest f n = (k, n1)" by fastforce
  obtain t n2 where s2: "t_now T n1 = (t, n2)" by fastforce
  obtain now n3 where s3: "t_now T n2 = (now, n3)" by fastforce
  obtain tid th where sch: "schedule (timers s) (now + ms (rto (rtt s))) = (tid, th)" by fastforce
  let ?sl = "\<lparr>sl_seq = next_seq s, sl_timer = tid, sl_rto = rto (rtt s), transmit_count = 1,
     send_time = now, datagram = f, sacked = False, fast_retransmitted = False, rtt_sampled = False\<rparr>"
  have s': "s' = s\<lparr>pending := rest, next_seq := next_seq s + 1, congestion := sent (congestion s) t, timers := th,
      timer_to_seq := (timer_to_seq s)(tid \<mapsto> next_seq s), ring := ring s @ [?sl]\<rparr>" "n' = n3"
    using p f s1 s2 s3 sch by (simp_all add: pump_one_def Let_def split_beta)
  have ro: "ring_ok acc Rp (received r) ?N (ring s)" and t: "timed (set (ring s)) s" using inv by (simp_all add: tx_inv_def)
  have good: "slot_good acc (received r) ?sl"
    using f cls by (simp add: slot_good_def on_wire_def PT_Data_nibble)
  have "next_seq s \<notin> sl_seq ` set (ring s)" using ro contiguous_below by (fastforce simp: ring_ok_def)
  then have "timed (insert ?sl (set (ring s))) (s\<lparr>timers := th, timer_to_seq := (timer_to_seq s)(sl_timer ?sl \<mapsto> sl_seq ?sl)\<rparr>)"
    using t sch rtt_ok_rto [of s] by (intro timed_add_armed) (simp_all add: timed_def)
  then have "timed (set (ring s')) s'" by (auto simp: s' elim!: timed_cong)
  moreover have "ring_ok acc Rp (received r) (Suc ?N) (ring s')" using ring_ok_append [OF ro _ good] by (simp add: s')
  moreover have "evolves P n n'"
    using evolves_send [where P = P, OF ok [OF f(3)] s1] evolves_now [OF s2] evolves_now [OF s3] s'(2) by (metis evolves_trans)
  ultimately show ?thesis using inv m q room N' by (simp add: tx_inv_def s' cc_inv_sent)
qed

text \<open>The loop of \<^verbatim>\<open>pump\<close> stops only when the queue is empty, a window is full, or pacing forbids sending.\<close>

definition pump_stopped :: "u16 \<Rightarrow> SendSide \<Rightarrow> 'n \<Rightarrow> 'n \<Rightarrow> bool" where
  "pump_stopped wp s n n' \<longleftrightarrow> pending s = [] \<or> effective_window wp s \<le> length (ring s)
     \<or> (\<exists>t. clock n \<le> t \<and> t \<le> clock n' \<and> \<not> ready (congestion s) t)"

lemma pump_stopped_mono: "pump_stopped wp s n1 n' \<Longrightarrow> clock n \<le> clock n1 \<Longrightarrow> pump_stopped wp s n n'"
  unfolding pump_stopped_def using order_trans by blast

lemma pump_cases:
  assumes "pump T dest wp r s n = (s', n')"
  obtains (stop) "s' = s" "evolves P n n'" "pump_stopped wp s n n'"
  | (more) msg rest n1 s1 n2 where "pending s = msg # rest" "length (ring s) < effective_window wp s" "evolves P n n1"
      "pump_one T dest r msg (s\<lparr>pending := rest\<rparr>) n1 = (s1, n2)" "pump T dest wp r s1 n2 = (s', n')"
proof (cases "pending s")
  case Nil
  then have "s' = s" "n' = n" using assms by (subst (asm) pump.simps; simp)+
  then show ?thesis using Nil by (intro stop) (simp_all add: pump_stopped_def)
next
  case (Cons msg rest)
  obtain t n1 where now: "t_now T n = (t, n1)" by fastforce
  note e = evolves_now [OF now, of P] and t = now_between [OF now]
  consider (full) "\<not> length (ring s) < effective_window wp s"
    | (paced) "length (ring s) < effective_window wp s" "\<not> ready (congestion s) t"
    | (go) "length (ring s) < effective_window wp s" "ready (congestion s) t" by blast
  then show ?thesis
  proof cases
    case full
    then have "s' = s" "n' = n" using assms Cons by (subst (asm) pump.simps; simp)+
    then show ?thesis using full by (intro stop) (simp_all add: pump_stopped_def)
  next
    case paced
    then have "s' = s" "n' = n1" using assms Cons now by (subst (asm) pump.simps; simp)+
    then show ?thesis using paced e t by (intro stop) (auto simp: pump_stopped_def)
  next
    case go
    obtain s1 n2 where p1: "pump_one T dest r msg (s\<lparr>pending := rest\<rparr>) n1 = (s1, n2)" by fastforce
    have "pump T dest wp r s1 n2 = (s', n')" using assms Cons now go p1 by (subst (asm) pump.simps) simp
    then show ?thesis by (rule more [OF Cons go(1) e p1])
  qed
qed

lemma pump_inv:
  assumes "pump T dest wp r s n = (s', n')" "tx_inv (unat wp) acc Rp (received r) s" "reliable_list acc" "small acc"
    "\<And>d. good acc (received r) d \<Longrightarrow> P me dest d"
  shows "tx_inv (unat wp) acc Rp (received r) s' \<and> evolves P n n' \<and> peer_adv_window s' = peer_adv_window s
    \<and> pump_stopped wp s' n n' \<and> length (ring s) \<le> length (ring s')"
  using assms(1,2)
proof (induction "length (pending s)" arbitrary: s n rule: less_induct)
  case less
  show ?case
  proof (rule pump_cases [OF less.prems(1), of P])
    fix msg rest n1 s1 n2
    assume m: "pending s = msg # rest" "length (ring s) < effective_window wp s" "evolves P n n1"
      "pump_one T dest r msg (s\<lparr>pending := rest\<rparr>) n1 = (s1, n2)" "pump T dest wp r s1 n2 = (s', n')"
    have "length (ring s) < unat wp" using m(2) by (auto simp: effective_window_def)
    note i = pump_one_inv [where P = P, OF m(4) less.prems(2) m(1) this assms(3-5)]
    have j: "tx_inv (unat wp) acc Rp (received r) s' \<and> evolves P n2 n' \<and> peer_adv_window s' = peer_adv_window s1
      \<and> pump_stopped wp s' n2 n' \<and> length (ring s1) \<le> length (ring s')"
      using i m(1) by (intro less.hyps [OF _ m(5)]) simp_all
    have e: "evolves P n n2" using evolves_trans [OF m(3)] i by blast
    moreover have "pump_stopped wp s' n n'" using j e pump_stopped_mono by (auto simp: evolves_def)
    moreover have "evolves P n n'" using evolves_trans [OF e] j by blast
    ultimately show ?thesis using i j by simp
  qed (use less.prems in simp)
qed

end

end
