(* ===== verification/Session_Ticks.thy ===== *)
theory Session_Ticks
  imports Session_Sender
begin

text \<open>
  The timer-driven operations of a session: the zero-window persist timer and the retransmission loop of \<^verbatim>\<open>tick\<close>.
  The loop terminates because every timer it re-arms lies beyond the instant at which it started.
\<close>

section \<open>The persist timer\<close>

definition persist_needed :: "SendSide \<Rightarrow> bool" where
  "persist_needed s \<longleftrightarrow> pending s \<noteq> [] \<and> peer_adv_window s = 0 \<and> ring s = []"

text \<open>(Re-)arming the persist timer when the previous one is not live, and disarming it.\<close>

lemma timed_persist_arm:
  assumes t: "timed S (s\<lparr>persist_active := False\<rparr>)" and sch: "schedule (timers s) d = (tid, th)" and "1 \<le> pv"
  shows "timed S (s\<lparr>timers := th, persist_id := tid, persist_active := True, persist_interval := pv\<rparr>)"
proof -
  have inv: "timers_inv (timers s)" using t by (simp add: timed_def)
  note sp = th.sched_spec [OF inv sch]
  have "slot_timed s sl" if "sl \<in> S" for sl using t that by (simp add: timed_def slot_timed_def)
  then have sl: "sl_timer sl < tid" "slot_timed (s\<lparr>timers := th, persist_id := tid, persist_active := True, persist_interval := pv\<rparr>) sl"
    if "sl \<in> S" for sl
    using that sp by (fastforce simp: slot_timed_def)+
  then have "persist_ok S (s\<lparr>timers := th, persist_id := tid, persist_active := True, persist_interval := pv\<rparr>)"
    using sp assms(3) by (fastforce simp: persist_ok_def)
  then show ?thesis using t sp sl by (simp add: timed_def rtt_ok_def)
qed

lemma timed_persist_off: "timed S s \<Longrightarrow> 1 \<le> pv \<Longrightarrow> timed S (s\<lparr>persist_active := False, persist_interval := pv\<rparr>)"
  by (simp add: timed_def slot_timed_def persist_ok_def rtt_ok_def)

text \<open>The timers that carry a retransmission survive the removal of any other one.\<close>

lemma timed_remove_other:
  assumes t: "timed S s" and th: "timers_inv th" "live th = {x \<in> live (timers s). fst x \<noteq> i}" "next_id th = next_id (timers s)"
    and i: "timer_to_seq s i = None" "\<not> persist_active s \<or> persist_id s \<noteq> i"
  shows "timed S (s\<lparr>timers := th\<rparr>)"
proof -
  have keep: "j \<in> fst ` live th \<longleftrightarrow> j \<in> fst ` live (timers s)" if "j \<noteq> i" for j
    using that by (auto simp: th(2))
  have "slot_timed (s\<lparr>timers := th\<rparr>) sl" if "sl \<in> S" for sl
  proof -
    have st: "slot_timed s sl" using t that by (simp add: timed_def)
    then have "\<not> sacked sl \<longrightarrow> sl_timer sl \<noteq> i" using i(1) by (auto simp: slot_timed_def)
    then show ?thesis using st keep [of "sl_timer sl"] by (auto simp: slot_timed_def th(3))
  qed
  moreover have "persist_ok S (s\<lparr>timers := th\<rparr>)"
    using t i(2) keep [of "persist_id s"] by (auto simp: timed_def persist_ok_def th(3))
  ultimately show ?thesis using t th(1) by (simp add: timed_def rtt_ok_def)
qed

lemma persist_id_unmapped: "timed S s \<Longrightarrow> persist_active s \<Longrightarrow> timer_to_seq s (persist_id s) = None"
  by (cases "timer_to_seq s (persist_id s)") (fastforce simp: timed_def persist_ok_def)+

lemma timed_persist_cancel:
  assumes t: "timed S s" "persist_active s" and th: "timers_inv th" "next_id th = next_id (timers s)"
    "live th = {x \<in> live (timers s). fst x \<noteq> persist_id s}"
  shows "timed S (s\<lparr>timers := th, persist_active := False\<rparr>)"
proof -
  have "timed S ((s\<lparr>persist_active := False\<rparr>)\<lparr>timers := th\<rparr>)"
  proof (rule timed_remove_other)
    show "timed S (s\<lparr>persist_active := False\<rparr>)"
      using timed_persist_off [OF t(1), of "persist_interval s"] t(1) by (simp add: timed_def persist_ok_def)
    show "timer_to_seq (s\<lparr>persist_active := False\<rparr>) (persist_id s) = None" using persist_id_unmapped [OF t] by simp
  qed (simp_all add: th)
  then show ?thesis by (rule timed_cong) simp_all
qed

lemma tx_inv_timed:
  "tx_inv w acc Rp Rs s \<Longrightarrow> timed (set (ring s)) s' \<Longrightarrow> ring s' = ring s \<Longrightarrow> next_seq s' = next_seq s \<Longrightarrow>
   pending s' = pending s \<Longrightarrow> congestion s' = congestion s \<Longrightarrow> tx_inv w acc Rp Rs s'"
  by (simp add: tx_inv_def)

context datagram_transport
begin

lemma arm_persist_inv:
  assumes m: "maybe_arm_persist T s n = (s', n')" and inv: "tx_inv w acc Rp Rs s"
  shows "tx_inv w acc Rp Rs s' \<and> evolves P n n' \<and> (persist_active s' \<longleftrightarrow> persist_needed s')
    \<and> ring s' = ring s \<and> pending s' = pending s \<and> peer_adv_window s' = peer_adv_window s \<and> congestion s' = congestion s"
proof -
  have t: "timed (set (ring s)) s" and pv: "1 \<le> persist_interval s" using inv by (auto simp: tx_inv_def timed_def persist_ok_def)
  consider (arm) "persist_needed s" "\<not> persist_active s" | (off) "\<not> persist_needed s" "persist_active s"
    | (same) "persist_needed s = persist_active s" by blast
  then show ?thesis
  proof cases
    case arm
    obtain now n1 where now: "t_now T n = (now, n1)" by fastforce
    obtain tid th where sch: "schedule (timers s) (now + ms (persist_interval s)) = (tid, th)" by fastforce
    have s': "s' = s\<lparr>timers := th, persist_id := tid, persist_active := True\<rparr>" "n' = n1"
      using m arm now sch by (simp_all add: maybe_arm_persist_def persist_needed_def Let_def)
    have "timed (set (ring s)) (s\<lparr>persist_active := False\<rparr>)"
      using timed_persist_off [OF t pv] arm(2) by simp
    from timed_persist_arm [OF this sch pv] have "timed (set (ring s)) s'" by (rule timed_cong) (simp_all add: s')
    with inv have "tx_inv w acc Rp Rs s'" by (rule tx_inv_timed) (simp_all add: s')
    then show ?thesis using arm evolves_now [OF now, of P] by (simp add: s' persist_needed_def)
  next
    case off
    have pid: "persist_id s < next_id (timers s)" "timers_inv (timers s)" using t off(2) by (simp_all add: timed_def persist_ok_def)
    note c = th.canc_spec [OF pid(2,1)]
    have s': "s' = s\<lparr>timers := cancel (timers s) (persist_id s), persist_active := False, persist_interval := kPersistMin\<rparr>" "n' = n"
      using m off by (simp_all add: maybe_arm_persist_def persist_needed_def Let_def split: if_splits)
    have "timed (set (ring s)) (s\<lparr>timers := cancel (timers s) (persist_id s), persist_active := False\<rparr>)"
      using c by (intro timed_persist_cancel [OF t off(2)]) simp_all
    then have "timed (set (ring s)) s'"
      using timed_persist_off [of "set (ring s)" _ kPersistMin] by (fastforce simp: s' kPersistMin_def)
    with inv have "tx_inv w acc Rp Rs s'" by (rule tx_inv_timed) (simp_all add: s')
    then show ?thesis using off by (simp add: s' persist_needed_def)
  next
    case same
    then have "s' = s" "n' = n" using m by (auto simp: maybe_arm_persist_def persist_needed_def Let_def split: if_splits)
    then show ?thesis using inv same by simp
  qed
qed

end

section \<open>Expired timers\<close>

lemma retransmit_seq_found:
  assumes "sq \<notin> sl_seq ` set xs" "sl_seq sl = sq"
  shows "retransmit_seq T dest sq (xs @ sl # ys) s n =
    (let (sl', s', n') = retransmit T dest sl s n in (xs @ sl' # ys, s', n'))"
  using assms by (induction xs) (auto split: prod.splits)

lemma double_rto: "1 \<le> r \<Longrightarrow> 1 \<le> min (r * 2) kMaxRto" "1 \<le> r \<Longrightarrow> 1 \<le> min (r * 2) kPersistMax"
  by (simp_all add: kMaxRto_def kPersistMax_def)

lemma ms_pos: "1 \<le> r \<Longrightarrow> 0 < ms r"
  by (simp add: ms_def)

context datagram_transport
begin

lemma retransmit_inv:
  assumes f: "retransmit T dest sl s n = (sl', s', n')" and t: "timed S s" and new: "sl_seq sl \<notin> sl_seq ` S"
    and sl: "\<not> sacked sl" "1 \<le> sl_rto sl" "P me dest (datagram sl)" "cc_inv (congestion s)" and now0: "now0 \<le> clock n"
  shows "timed (insert sl' S) s' \<and> same_slot sl sl' \<and> tx_keep s s' \<and> cc_inv (congestion s') \<and> evolves P n n'
    \<and> due_now s' now0 = due_now s now0 \<and> peer_adv_window s' = peer_adv_window s"
proof -
  obtain k n1 where s1: "t_send T dest (datagram sl) n = (k, n1)" by fastforce
  obtain now n2 where s2: "t_now T n1 = (now, n2)" by fastforce
  let ?rto = "min (sl_rto sl * 2) kMaxRto"
  obtain tid th where sch: "schedule (timers s) (now + ms ?rto) = (tid, th)" by fastforce
  note e1 = evolves_send [where P = P, OF sl(3) s1]
  have e: "evolves P n n2" using e1 evolves_now [OF s2] by (rule evolves_trans)
  have sl': "sl' = sl\<lparr>transmit_count := transmit_count sl + 1, sl_rto := ?rto, sl_timer := tid\<rparr>" "n' = n2"
    and s': "s' = s\<lparr>retransmitted_bytes := retransmitted_bytes s + word_of_nat k,
       congestion := loss (congestion s) (sl_seq sl) (next_seq s), retransmit_count := retransmit_count s + 1,
       timers := th, timer_to_seq := (timer_to_seq s)(tid \<mapsto> sl_seq sl)\<rparr>"
    using f s1 s2 sch sl(1) by (simp_all add: retransmit_def Let_def)
  have "timed (insert sl' S) (s\<lparr>timers := th, timer_to_seq := (timer_to_seq s)(sl_timer sl' \<mapsto> sl_seq sl')\<rparr>)"
    using t sch new sl double_rto by (intro timed_add_armed) (simp_all add: sl')
  then have "timed (insert sl' S) s'" by (rule timed_cong) (simp_all add: sl' s')
  moreover have "now0 < now + ms ?rto"
    using now0 e1 now_between [OF s2] ms_pos [OF double_rto(1) [OF sl(2)]] by (auto simp: evolves_def)
  then have "due_now s' now0 = due_now s now0"
    using t sch by (intro due_now_arm) (auto simp: timed_def s')
  ultimately show ?thesis using e sl by (simp add: sl' s' same_slot_def same_packet_def tx_keep_def cc_inv_loss)
qed

lemma send_probe_inv:
  assumes "\<And>d. good acc (received r) d \<Longrightarrow> P me dest d"
  shows "evolves P n (send_probe T dest r n)"
proof -
  let ?p = "empty_packet\<lparr>p_type := PT_ProbeWindow, p_cls := Unreliable\<rparr>"
  have z: "(fill_ack_fields r ?p)\<lparr>p_payload := []\<rparr> = fill_ack_fields r ?p"
    by (rule Packet.equality) (simp_all add: empty_packet_def)
  obtain f where f: "take (fst (encode (fill_ack_fields r ?p) (replicate (kBaseHeaderSize + kSackSize) 0)))
       (snd (encode (fill_ack_fields r ?p) (replicate (kBaseHeaderSize + kSackSize) 0))) = f" "good acc (received r) f"
    using frame_built [of ?p "[]" "kBaseHeaderSize + kSackSize" "{}" acc r]
    unfolding z by (auto simp: empty_packet_def PT_ProbeWindow_def PT_Data_def)
  obtain k n1 where s1: "t_send T dest f n = (k, n1)" by fastforce
  have "send_probe T dest r n = n1 \<or> send_probe T dest r n = n"
    using f(1) s1 by (simp add: send_probe_def Let_def split_beta)
  then show ?thesis using evolves_send [where P = P, OF assms [OF f(2)] s1] by auto
qed

text \<open>Popping a due timer leaves fewer due timers.\<close>

lemma card_due_now:
  assumes "timers_inv (timers s)" "pop_due (timers s) now0 = (Some tid, th)" "due_now s' now0 = due_now (s\<lparr>timers := th\<rparr>) now0"
  shows "card (due_now s' now0) < card (due_now s now0)"
  using th.card_due_pop [OF assms(1,2)] assms(3) by (simp add: due_now_def th.due_def)

lemma ring_ok_replace:
  assumes "ring_ok acc Rp Rs N (xs @ sl # ys)" "same_slot sl sl'"
  shows "ring_ok acc Rp Rs N (xs @ sl' # ys)"
proof -
  have l: "list_all2 same_slot (xs @ sl # ys) (xs @ sl' # ys)"
    using assms(2) by (intro list_all2_appendI list_all2_refl) (auto intro: list_all2_refl)
  moreover have "\<forall>sl\<in>set (xs @ sl # ys). sacked sl \<longrightarrow> sl_seq sl \<in> Rp" using assms(1) by (simp add: ring_ok_def)
  ultimately show ?thesis using ring_ok_same [OF assms(1) same_slots_packets [OF l]] same_slots_sacked [OF l] by blast
qed

lemma slot_expired:
  assumes inv: "tx_inv w acc Rp (received r) s" and pop: "pop_due (timers s) now0 = (Some tid, th)"
    and sq: "timer_to_seq s tid = Some sq" and np: "\<not> (persist_active s \<and> tid = persist_id s)"
    and f: "timer_fired T dest r tid (s\<lparr>timers := th\<rparr>) n = (s', n')"
    and ok: "\<And>d. good acc (received r) d \<Longrightarrow> P me dest d" and now0: "now0 \<le> clock n"
  shows "tx_inv w acc Rp (received r) s' \<and> evolves P n n' \<and> due_now s' now0 = due_now (s\<lparr>timers := th\<rparr>) now0
    \<and> peer_adv_window s' = peer_adv_window s"
proof -
  have t: "timed (set (ring s)) s" and ro: "ring_ok acc Rp (received r) (unat (next_seq s)) (ring s)"
    using inv by (simp_all add: tx_inv_def)
  obtain sl where sl: "sl \<in> set (ring s)" "\<not> sacked sl" "sl_timer sl = tid" "sl_seq sl = sq"
    using t sq unfolding timed_def by blast
  then obtain xs ys where l: "ring s = xs @ sl # ys" by (meson split_list)
  have d: "distinct (map sl_seq (ring s))" using ro contiguous_distinct [of "unat (next_seq s)"] by (auto simp: ring_ok_def)
  then have new: "sq \<notin> sl_seq ` set xs" "sl_seq sl \<notin> sl_seq ` (set xs \<union> set ys)" using l sl(4) by auto
  let ?s = "s\<lparr>timers := th, timer_to_seq := (timer_to_seq s)(tid := None)\<rparr>"
  have t1: "timed (set xs \<union> set ys) ?s"
    using timed_fired [of sl "set xs \<union> set ys" s now0 th] t pop sl(3) l new(2) by simp
  obtain sl' s1 n1 where rt: "retransmit T dest sl ?s n = (sl', s1, n1)" by (metis prod_cases3)
  have "slot_timed s sl" "slot_good acc (received r) sl" using t ro sl(1) by (simp_all add: timed_def ring_ok_def)
  then have "1 \<le> sl_rto sl" "P me dest (datagram sl)" using ok by (simp_all add: slot_timed_def slot_good_def)
  then have i: "timed (insert sl' (set xs \<union> set ys)) s1 \<and> same_slot sl sl' \<and> tx_keep ?s s1 \<and> cc_inv (congestion s1) \<and> evolves P n n1
      \<and> due_now s1 now0 = due_now ?s now0 \<and> peer_adv_window s1 = peer_adv_window ?s"
    using inv sl by (intro retransmit_inv [OF rt t1 new(2) _ _ _ _ now0]) (simp_all add: tx_inv_def)
  have s': "s' = s1\<lparr>ring := xs @ sl' # ys\<rparr>" "n' = n1"
    using f np sq rt retransmit_seq_found [OF new(1) sl(4), of T dest ys ?s n] l
    by (auto simp: timer_fired_def Let_def)
  have "ring_ok acc Rp (received r) (unat (next_seq s)) (ring s')" using ring_ok_replace [of acc Rp _ _ xs sl ys sl'] ro l i by (simp add: s')
  moreover have "timed (set (ring s')) s'" using i by (simp add: s')
  moreover have "due_now s' now0 = due_now (s\<lparr>timers := th\<rparr>) now0" using i by (simp add: s' due_now_def)
  ultimately show ?thesis using inv i l by (simp add: tx_inv_def tx_keep_def s')
qed

lemma timer_fired_inv:
  assumes inv: "tx_inv w acc Rp (received r) s" and pop: "pop_due (timers s) now0 = (Some tid, th)"
    and f: "timer_fired T dest r tid (s\<lparr>timers := th\<rparr>) n = (s', n')"
    and ok: "\<And>d. good acc (received r) d \<Longrightarrow> P me dest d" and now0: "now0 \<le> clock n"
  shows "tx_inv w acc Rp (received r) s' \<and> evolves P n n' \<and> due_now s' now0 = due_now (s\<lparr>timers := th\<rparr>) now0
    \<and> peer_adv_window s' = peer_adv_window s"
proof -
  have t: "timed (set (ring s)) s" and ti: "timers_inv (timers s)" using inv by (auto simp: tx_inv_def timed_def)
  note sp = th.pop_Some_spec [OF ti pop]
  consider (persist) "persist_active s" "tid = persist_id s"
    | (slot) sq where "\<not> (persist_active s \<and> tid = persist_id s)" "timer_to_seq s tid = Some sq"
    | (stale) "\<not> (persist_active s \<and> tid = persist_id s)" "timer_to_seq s tid = None" by fastforce
  then show ?thesis
  proof cases
    case slot
    then show ?thesis using slot_expired [where P = P, OF inv pop slot(2,1) f ok now0] by blast
  next
    case stale
    then have "s' = s\<lparr>timers := th\<rparr>" "n' = n" using f by (auto simp: timer_fired_def)
    moreover have "timed (set (ring s)) (s\<lparr>timers := th\<rparr>)"
      using sp stale by (intro timed_remove_other [OF t]) auto
    ultimately show ?thesis using tx_inv_timed [OF inv] by simp
  next
    case persist
    let ?n = "send_probe T dest r n" and ?pv = "min (persist_interval s * 2) kPersistMax"
    obtain now n1 where now: "t_now T ?n = (now, n1)" by fastforce
    obtain pid th' where sch: "schedule th (now + ms ?pv) = (pid, th')" by fastforce
    have s': "s' = s\<lparr>timers := th', persist_interval := ?pv, persist_id := pid\<rparr>" "n' = n1"
      using f persist now sch by (auto simp: timer_fired_def Let_def)
    have pv: "1 \<le> ?pv" using t by (intro double_rto(2)) (simp add: timed_def persist_ok_def)
    have off: "timed (set (ring s)) (s\<lparr>timers := th, persist_active := False\<rparr>)"
      using sp persist by (intro timed_persist_cancel [OF t persist(1)]) auto
    have "timed (set (ring s)) ((s\<lparr>timers := th\<rparr>)\<lparr>timers := th', persist_id := pid, persist_active := True, persist_interval := ?pv\<rparr>)"
      using timed_persist_arm [of "set (ring s)" "s\<lparr>timers := th\<rparr>"] off sch pv by simp
    then have "timed (set (ring s)) s'" by (rule timed_cong) (simp_all add: s' persist(1))
    with inv have "tx_inv w acc Rp (received r) s'" by (rule tx_inv_timed) (simp_all add: s')
    moreover have e: "evolves P n ?n" by (rule send_probe_inv [where P = P, OF ok])
    moreover have "evolves P ?n n'" using evolves_now [OF now] s'(2) by simp
    moreover have "now0 < now + ms ?pv"
      using now0 e now_between [OF now] ms_pos [OF pv] by (auto simp: evolves_def)
    then have "due_now s' now0 = due_now (s\<lparr>timers := th\<rparr>) now0"
      using sp sch by (intro due_now_arm) (auto simp: s')
    ultimately show ?thesis using evolves_trans by (auto simp: s')
  qed
qed

text \<open>The loop of \<^verbatim>\<open>tick\<close> returns, for every number of due timers.\<close>

lemma tick_loop_inv:
  assumes "tx_inv w acc Rp (received r) s" "now0 \<le> clock n" "\<And>d. good acc (received r) d \<Longrightarrow> P me dest d"
  shows "\<exists>s' n'. tick_loop T dest r now0 s n = Some (s', n') \<and> tx_inv w acc Rp (received r) s' \<and> evolves P n n'
    \<and> due_now s' now0 = {} \<and> peer_adv_window s' = peer_adv_window s"
  using assms(1,2)
proof (induction "card (due_now s now0)" arbitrary: s n rule: less_induct)
  case less
  have t: "timed (set (ring s)) s" and ti: "timers_inv (timers s)" using less.prems by (auto simp: tx_inv_def timed_def)
  obtain o1 th where pop: "pop_due (timers s) now0 = (o1, th)" by fastforce
  show ?case
  proof (cases o1)
    case None
    note sp = th.pop_None_spec [OF ti pop [unfolded None]]
    have "timed (set (ring s)) (s\<lparr>timers := th\<rparr>)"
      using t sp by (simp add: timed_def slot_timed_def persist_ok_def rtt_ok_def)
    then have "tx_inv w acc Rp (received r) (s\<lparr>timers := th\<rparr>)" by (intro tx_inv_timed [OF less.prems(1)]) simp_all
    moreover have "due_now (s\<lparr>timers := th\<rparr>) now0 = {}" using sp by (auto simp: due_now_def)
    ultimately show ?thesis using pop None by (simp add: tick_loop.simps [of T dest r now0 s n])
  next
    case (Some tid)
    obtain s1 n1 where f: "timer_fired T dest r tid (s\<lparr>timers := th\<rparr>) n = (s1, n1)" by fastforce
    note i = timer_fired_inv [where P = P, OF less.prems(1) pop [unfolded Some] f assms(3) less.prems(2)]
    have c: "card (due_now s1 now0) < card (due_now s now0)" using card_due_now [OF ti pop [unfolded Some]] i by blast
    have "now0 \<le> clock n1" using less.prems(2) i by (auto simp: evolves_def)
    with less.hyps [OF c] i obtain s' n' where "tick_loop T dest r now0 s1 n1 = Some (s', n')" "tx_inv w acc Rp (received r) s'"
      "evolves P n1 n'" "due_now s' now0 = {}" "peer_adv_window s' = peer_adv_window s1" by blast
    then show ?thesis using pop Some f i evolves_trans by (fastforce simp: tick_loop.simps [of T dest r now0 s n])
  qed
qed

end

end
