(* ===== verification/Session_Steps.thy ===== *)
theory Session_Steps
  imports Session_Ticks
begin

text \<open>
  The public operations of a session and the invariant of a whole session. \<open>side_step\<close> is the step relation of one endpoint: what its
  application and its event loop can do, with the list of accepted reliable messages as a ghost; its parameter \<open>U\<close> is the set its unreliable messages come from.
\<close>

section \<open>The session invariant\<close>

text \<open>\<open>out\<close>: reliable messages accepted here; \<open>inc\<close>: those accepted by the peer; \<open>Rp\<close>: what the peer has received;
  \<open>V\<close>: where the peer's unreliable messages come from.\<close>

definition sess_inv :: "bytes set \<Rightarrow> message list \<Rightarrow> message list \<Rightarrow> u32 set \<Rightarrow> Session \<Rightarrow> bool" where
  "sess_inv V out inc Rp s \<longleftrightarrow> tx_inv (unat (window_pkts (cfg s))) out Rp (received (rx_side s)) (tx_side s)
     \<and> rx_inv (rx_side s) \<and> rx_content inc (rx_side s) \<and> plain_rx V (rx_side s)
     \<and> reliable_list out \<and> small out \<and> reliable_list inc
     \<and> capacity (rx_side s) = unat (window_pkts (cfg s))"

inductive side_step :: "bytes set \<Rightarrow> 'n UdpTransport \<Rightarrow> Session \<times> 'n \<times> message list \<Rightarrow> Session \<times> 'n \<times> message list \<Rightarrow> bool" for U T where
  send: "c = Unreliable \<longrightarrow> d \<in> U \<Longrightarrow> send T c d s n = (accepted, s', n') \<Longrightarrow>
    side_step U T (s, n, out) (s', n', out @ (if accepted \<and> c \<noteq> Unreliable then [(c, d)] else []))"
| poll: "poll T s n = (bounded, s', n') \<Longrightarrow> side_step U T (s, n, out) (s', n', out)"
| tick: "tick T s n = Some (s', n') \<Longrightarrow> side_step U T (s, n, out) (s', n', out)"
| set_receiving: "set_receiving T b s n = (s', n') \<Longrightarrow> side_step U T (s, n, out) (s', n', out)"
| set_sack_enabled: "side_step U T (s, n, out) (set_sack_enabled b s, n, out)"

lemma sess_inv_other:
  assumes "sess_inv V out inc Rp s" "Rp \<subseteq> Rp'" "reliable_list (inc @ xs)"
  shows "sess_inv V out (inc @ xs) Rp' s"
  using assms content_append tx_inv_mono [of _ out Rp _ _ Rp'] by (auto simp: sess_inv_def)

lemma capacity_keeps [simp]:
  "capacity (handle_unreliable p r) = capacity r" "capacity (flush_reassembled r) = capacity r"
  "capacity (accept_reliable p r) = capacity r" "capacity (fst (send_ack T dest r n)) = capacity r"
proof -
  show "capacity (handle_unreliable p r) = capacity r" by (simp add: handle_unreliable_def Let_def)
  show f: "capacity (flush_reassembled r) = capacity r" for r
  proof (induction r rule: flush_reassembled.induct)
    case (1 r)
    then show ?case by (simp add: flush_reassembled.simps [of r] split: option.split)
  qed
  show "capacity (accept_reliable p r) = capacity r"
    by (rule accept_cases [of p r]) (simp_all add: accept_next accept_unordered accept_ordered f)
  show "capacity (fst (send_ack T dest r n)) = capacity r" by (rule send_ack_frame [of T dest r n]) simp
qed

context datagram_transport
begin

text \<open>What an operation may do to the outside world: it sends only datagrams that are good for the state it ends in.\<close>

definition effect :: "bytes set \<Rightarrow> message list \<Rightarrow> Session \<Rightarrow> 'n \<Rightarrow> Session \<Rightarrow> 'n \<Rightarrow> bool" where
  "effect U out s n s' n' \<longleftrightarrow> received (rx_side s) \<subseteq> received (rx_side s') \<and> peer s' = peer s \<and> cfg s' = cfg s
     \<and> (\<forall>P. (\<forall>d. fair U out (received (rx_side s')) d \<longrightarrow> P me (peer s) d) \<longrightarrow> evolves P n n')"

lemma effectI:
  assumes "\<And>P. \<forall>d. good out (received (rx_side s')) d \<longrightarrow> P me (peer s) d \<Longrightarrow> evolves P n n'"
    and "received (rx_side s) \<subseteq> received (rx_side s')" "peer s' = peer s" "cfg s' = cfg s"
  shows "effect U out s n s' n'"
  using assms good_fair unfolding effect_def by blast

lemma effect_refl [simp]: "effect U out s n s n"
  by (simp add: effect_def)

lemma fair_mono_R: "fair U out R d \<Longrightarrow> R \<subseteq> R' \<Longrightarrow> fair U out R' d"
  using fair_mono [of U out R d U R' "[]"] by simp

lemma effect_trans:
  assumes "effect U out s n s1 n1" "effect U out s1 n1 s' n'"
  shows "effect U out s n s' n'"
proof -
  have "evolves P n n'" if ok: "\<forall>d. fair U out (received (rx_side s')) d \<longrightarrow> P me (peer s) d" for P
  proof -
    have "evolves P n n1" using assms ok fair_mono_R unfolding effect_def by blast
    moreover have "evolves P n1 n'" using assms ok unfolding effect_def by simp
    ultimately show ?thesis by (rule evolves_trans)
  qed
  then show ?thesis using assms unfolding effect_def by auto
qed

lemma effect_evolves:
  "effect U out s n s' n' \<Longrightarrow> \<forall>d. fair U out (received (rx_side s')) d \<longrightarrow> P me (peer s) d \<Longrightarrow> evolves P n n'"
  by (simp add: effect_def)

lemma send_ack_evolves:
  assumes "send_ack T dest r n = (r', n')" "\<And>d. good out (received r) d \<Longrightarrow> P me dest d"
  shows "evolves P n n'"
proof -
  define r1 where "r1 = (let q = r\<lparr>next_ack_seq := next_ack_seq r + 1\<rparr> in if next_ack_seq q = 0 then q\<lparr>next_ack_seq := 1\<rparr> else q)"
  have R: "received r1 = received r" by (simp add: r1_def Let_def received_def rx_keys_def)
  let ?p = "empty_packet\<lparr>p_type := PT_Ack, p_cls := Unreliable, p_seq := next_ack_seq r\<rparr>"
  have z: "(fill_ack_fields r1 ?p)\<lparr>p_payload := []\<rparr> = fill_ack_fields r1 ?p"
    by (rule Packet.equality) (simp_all add: empty_packet_def)
  obtain f where f: "take (fst (encode (fill_ack_fields r1 ?p) (replicate (kBaseHeaderSize + kSackSize) 0)))
       (snd (encode (fill_ack_fields r1 ?p) (replicate (kBaseHeaderSize + kSackSize) 0))) = f" "good out (received r1) f"
    using frame_built [of ?p "[]" "kBaseHeaderSize + kSackSize" "{}" out r1]
    unfolding z by (auto simp: empty_packet_def PT_Ack_def PT_Data_def)
  obtain k n1 where s1: "t_send T dest f n = (k, n1)" by fastforce
  have "n' = n1 \<or> n' = n"
    using f(1) s1 assms(1) unfolding r1_def Let_def send_ack_def by (auto simp: split_beta split: if_splits)
  moreover have "P me dest f" using assms(2) f(2) R by simp
  ultimately show ?thesis using evolves_send [where P = P, OF _ s1] by auto
qed

lemma pump_and_arm_inv:
  assumes p: "pump_and_arm T s n = (s', n')" and inv: "sess_inv V out inc Rp s"
  shows "sess_inv V out inc Rp s' \<and> effect U out s n s' n' \<and> rx_side s' = rx_side s
    \<and> (persist_active (tx_side s') \<longleftrightarrow> persist_needed (tx_side s'))"
proof -
  obtain tx1 n1 where p1: "pump T (peer s) (window_pkts (cfg s)) (rx_side s) (tx_side s) n = (tx1, n1)" by fastforce
  obtain tx2 n2 where p2: "maybe_arm_persist T tx1 n1 = (tx2, n2)" by fastforce
  have s': "s' = s\<lparr>tx_side := tx2\<rparr>" "n' = n2" using p p1 p2 by (simp_all add: pump_and_arm_def)
  have t: "tx_inv (unat (window_pkts (cfg s))) out Rp (received (rx_side s)) (tx_side s)" "reliable_list out" "small out"
    using inv by (simp_all add: sess_inv_def)
  note i1 = pump_inv [OF p1 t]
  have a1: "tx_inv (unat (window_pkts (cfg s))) out Rp (received (rx_side s)) tx1" using i1 [of "\<lambda>_ _ _. True"] by simp
  have ev: "evolves P n n2" if "\<forall>d. good out (received (rx_side s)) d \<longrightarrow> P me (peer s) d" for P
    using i1 [of P] that arm_persist_inv [OF p2 a1, of P] evolves_trans by blast
  have "effect U out s n s' n'" by (rule effectI) (simp_all add: s' ev)
  then show ?thesis using arm_persist_inv [OF p2 a1, of "\<lambda>_ _ _. True"] inv by (simp add: s' sess_inv_def)
qed

section \<open>The operations\<close>

lemma send_inv:
  assumes p: "send T c d s n = (ok, s', n')" and inv: "sess_inv V out inc Rp s" 
    and allowed: "c = Unreliable \<longrightarrow> d \<in> U" and bound: "length (out @ (if ok \<and> c \<noteq> Unreliable then [(c, d)] else [])) < 2 ^ 32"
  shows "let out' = out @ (if ok \<and> c \<noteq> Unreliable then [(c, d)] else [])
    in sess_inv V out' inc Rp s' \<and> effect U out' s n s' n'"
proof -
  consider (refused) "ok = False" "s' = s" "n' = n"
    | (unreliable) "c = Unreliable" "length d \<le> kMaxDatagram - kBaseHeaderSize - kSackSize"
    | (reliable) "c \<noteq> Unreliable" "length d \<le> kMaxDatagram - kBaseHeaderSize - kSackSize"
        "length (pending (tx_side s)) < unat (window_pkts (cfg s))"
        "pump_and_arm T (s\<lparr>tx_side := (tx_side s)\<lparr>pending := pending (tx_side s) @ [\<lparr>pm_cls = c, pm_data = d\<rparr>]\<rparr>\<rparr>) n = (s', n')" "ok"
    using p by (auto simp: send_def Let_def not_less split: if_splits prod.splits)
  then show ?thesis
  proof cases
    case refused
    then show ?thesis using inv by simp
  next
    case unreliable
    let ?p = "empty_packet\<lparr>p_type := PT_Data, p_cls := Unreliable, p_seq := next_unreliable_seq (tx_side s)\<rparr>"
    let ?e = "encode ((fill_ack_fields (rx_side s) ?p)\<lparr>p_payload := d\<rparr>) (replicate kMaxDatagram 0)"
    let ?s = "s\<lparr>tx_side := (tx_side s)\<lparr>next_unreliable_seq := next_unreliable_seq (tx_side s) + 1\<rparr>\<rparr>"
    obtain f where f: "fst ?e > 0" "take (fst ?e) (snd ?e) = f" "fair U out (received (rx_side s)) f"
      using frame_built [of ?p d kMaxDatagram U out "rx_side s"] unreliable allowed
      by (auto simp: empty_packet_def kMaxDatagram_def kBaseHeaderSize_def kSackSize_def)
    obtain k n1 where s1: "t_send T (peer s) f n = (k, n1)" by fastforce
    have "s' = s \<and> n' = n \<or> s' = ?s \<and> n' = n1"
      using p unreliable f(1,2) s1 by (auto simp: send_def Let_def split_beta split: if_splits)
    then show ?thesis
    proof
      assume "s' = ?s \<and> n' = n1"
      moreover have "effect U out s n ?s n1"
        using evolves_send [OF _ s1] f(3) by (auto simp: effect_def)
      ultimately show ?thesis using inv unreliable(1) by (simp add: sess_inv_def)
    qed (use inv unreliable(1) in simp)
  next
    case reliable
    let ?out = "out @ [(c, d)]" and ?q = "pending (tx_side s) @ [\<lparr>pm_cls = c, pm_data = d\<rparr>]"
    let ?s = "s\<lparr>tx_side := (tx_side s)\<lparr>pending := ?q\<rparr>\<rparr>"
    have t: "tx_inv (unat (window_pkts (cfg s))) out Rp (received (rx_side s)) (tx_side s)" using inv by (simp add: sess_inv_def)
    have "ring_ok ?out Rp (received (rx_side s)) (unat (next_seq (tx_side s))) (ring (tx_side s))"
      using t ring_ok_mono [of out Rp "received (rx_side s)" _ _ Rp "received (rx_side s)" "[(c, d)]"] by (simp add: tx_inv_def)
    then have "tx_inv (unat (window_pkts (cfg s))) ?out Rp (received (rx_side s)) ((tx_side s)\<lparr>pending := ?q\<rparr>)"
      using t reliable(3) by (simp add: tx_inv_def)
    moreover have "reliable_list ?out" "small ?out"
      using inv reliable bound by (simp_all add: sess_inv_def reliable_list_def small_def)
    ultimately have "sess_inv V ?out inc Rp ?s" using inv by (simp add: sess_inv_def)
    from pump_and_arm_inv [OF reliable(4) this] show ?thesis using reliable by (simp add: effect_def)
  qed
qed

lemma set_receiving_inv:
  assumes p: "set_receiving T b s n = (s', n')" and inv: "sess_inv V out inc Rp s"
  shows "sess_inv V out inc Rp s' \<and> effect U out s n s' n'"
proof -
  let ?r = "drain (rcv_buf (rx_side s)) ((rx_side s)\<lparr>app_ready := True\<rparr>)"
  obtain r1 n1 where a: "send_ack T (peer s) ?r n = (r1, n1)" by fastforce
  have s': "fst (set_receiving T b s n) = s'" using p by simp
  have R: "received (rx_side s') = received (rx_side s)" using received_set_receiving [of T b s n] s' by simp
  have same: "peer s' = peer s" "cfg s' = cfg s" "tx_side s' = tx_side s" "capacity (rx_side s') = capacity (rx_side s)"
    using p capacity_keeps(4) [of T "peer s" ?r n]
    by (auto simp: set_receiving_def Let_def split_beta split: if_splits)
  have R1: "received ?r = received (rx_side s)" by (rule received_cong) simp_all
  have ev: "evolves P n n'" if "\<forall>d. good out (received (rx_side s)) d \<longrightarrow> P me (peer s) d" for P
    using p a send_ack_evolves [OF a, of out P] that R1 by (auto simp: set_receiving_def Let_def split: if_splits)
  have h: "handler (rx_side s)" using inv by (simp add: sess_inv_def rx_content_def)
  have "effect U out s n s' n'" by (rule effectI) (simp_all add: ev R same)
  moreover have "rx_inv (rx_side s')" "rx_content inc (rx_side s')" "plain_rx V (rx_side s')"
    using inv plain_set_receiving [of s V T b n, OF h] rx_inv_set_receiving [of s T b n] content_set_receiving [of inc s T b n] s' by (simp_all add: sess_inv_def)
  ultimately show ?thesis using inv R same by (simp add: sess_inv_def)
qed

lemma handle_data_inv:
  assumes h: "handle_data T dest p r n = (r', n')" and "rx_inv r" "rx_content inc r" "reliable_list inc"
    and pl: "plain_rx V r" and d: "if p_cls p = Unreliable then p_payload p \<in> V else data_ok inc p"
  shows "rx_inv r' \<and> rx_content inc r' \<and> plain_rx V r' \<and> received r \<subseteq> received r' \<and> capacity r' = capacity r
    \<and> (\<forall>P. (\<forall>d. good out (received r') d \<longrightarrow> P me dest d) \<longrightarrow> evolves P n n')"
proof (cases "p_cls p = Unreliable")
  case True
  then show ?thesis using assms by (auto simp: handle_data_def rx_inv_handle_unreliable content_handle_unreliable plain_handle_unreliable)
next
  case False
  let ?r = "accept_reliable p r"
  have a: "send_ack T dest ?r n = (r', n')" using h False by (simp add: handle_data_def handle_reliable_def)
  then have r': "fst (send_ack T dest ?r n) = r'" by simp
  have "rx_inv r'" "rx_content inc r'" "plain_rx V r'" "received r' = received ?r" "capacity r' = capacity r"
    using rx_inv_send_ack [of T dest ?r n] content_send_ack [of inc T dest ?r n] received_send_ack [of T dest ?r n]
      capacity_keeps(4) [of T dest ?r n] rx_inv_accept [OF assms(2)] content_accept [OF assms(3,2,4)] plain_accept [OF pl assms(3,2,4)] plain_send_ack [of V T dest ?r n] d False r' by simp_all
  then show ?thesis using received_accept [OF assms(3,2,4)] d False send_ack_evolves [OF a, of out] by auto
qed

lemma process_cum_ack_world: "snd (process_cum_ack T ca s n) = snd (t_now T n)"
  by (simp add: process_cum_ack_def Let_def split_beta)

lemma receive_dispatch_inv:
  assumes h: "(if p_type p = PT_Data then handle_data T dest p r n
      else if p_type p = PT_ProbeWindow then send_ack T dest r n else (r, n)) = (r', n')"
    and r: "rx_inv r" "rx_content inc r" "reliable_list inc" "plain_rx V r"
    and data: "p_type p = PT_Data \<longrightarrow> (if p_cls p = Unreliable then p_payload p \<in> V else data_ok inc p)"
  shows "rx_inv r' \<and> rx_content inc r' \<and> plain_rx V r' \<and> received r \<subseteq> received r' \<and> capacity r' = capacity r
    \<and> (\<forall>P. (\<forall>d. good out (received r') d \<longrightarrow> P me dest d) \<longrightarrow> evolves P n n')"
proof -
  consider (d) "p_type p = PT_Data" | (probe) "p_type p \<noteq> PT_Data" "p_type p = PT_ProbeWindow" | (other) "r' = r" "n' = n"
    using h by (auto split: if_splits)
  then show ?thesis
  proof cases
    case d
    then have "handle_data T dest p r n = (r', n')" using h by simp
    from handle_data_inv [OF this r, of out] d data show ?thesis by blast
  next
    case probe
    then have a: "send_ack T dest r n = (r', n')" using h by simp
    then have rx: "fst (send_ack T dest r n) = r'" by simp
    have "received r' = received r" "rx_inv r'" "rx_content inc r'" "plain_rx V r'" "capacity r' = capacity r"
      using r received_send_ack [of T dest r n] rx_inv_send_ack [of T dest r n]
        content_send_ack [of inc T dest r n] plain_send_ack [of V T dest r n] capacity_keeps(4) [of T dest r n]
      unfolding rx by simp_all
    then show ?thesis using send_ack_evolves [OF a, of out] by auto
  next
    case other
    then show ?thesis using r by simp
  qed
qed

lemma process_packet_inv:
  assumes p: "process_packet T p s n = (s', n')" and inv: "sess_inv V out inc Rp s"
    and ack: "ack_ok Rp p" and data: "p_type p = PT_Data \<longrightarrow> (if p_cls p = Unreliable then p_payload p \<in> V else data_ok inc p)"
  shows "sess_inv V out inc Rp s' \<and> effect U out s n s' n'"
proof -
  let ?w = "unat (window_pkts (cfg s))" and ?R = "received (rx_side s)"
  obtain tx1 n1 where c: "process_cum_ack T (p_cum_ack p) (process_window_update p (tx_side s)) n = (tx1, n1)" by fastforce
  obtain tx2 n2 where k: "(if has_sack (p_flags p) then process_sack T (peer s) (p_cum_ack p) (p_sack p) tx1 n1 else (tx1, n1)) = (tx2, n2)"
    by fastforce
  obtain rx n3 where h: "(if p_type p = PT_Data then handle_data T (peer s) p (rx_side s) n2
      else if p_type p = PT_ProbeWindow then send_ack T (peer s) (rx_side s) n2 else (rx_side s, n2)) = (rx, n3)" by fastforce
  have s': "s' = s\<lparr>tx_side := tx2, rx_side := rx\<rparr>" "n' = n3" using p c k h by (simp_all add: process_packet_def)
  have t1: "tx_inv ?w out Rp ?R tx1"
    using tx_inv_cum_ack [of ?w out Rp ?R "process_window_update p (tx_side s)" "p_cum_ack p" T n] inv ack c
    by (simp add: sess_inv_def ack_ok_def)
  have "n1 = snd (t_now T n)" using process_cum_ack_world [of _ _ n] c by (metis snd_conv)
  then have e1: "evolves P n n1" for P using evolves_now [of n "fst (t_now T n)" n1 P] by simp
  have honest: "has_sack (p_flags p) \<Longrightarrow> sack_honest Rp (p_cum_ack p) (p_sack p)" using ack by (simp add: ack_ok_def sack_honest_def)
  have t2: "tx_inv ?w out Rp ?R tx2 \<and> evolves P n1 n2" if "\<forall>d. good out ?R d \<longrightarrow> P me (peer s) d" for P
  proof (cases "has_sack (p_flags p)")
    case True
    then have "process_sack T (peer s) (p_cum_ack p) (p_sack p) tx1 n1 = (tx2, n2)" using k by simp
    from tx_inv_process_sack [OF this t1 honest [OF True], of P] that show ?thesis by blast
  qed (use k t1 in simp)
  have r: "rx_inv (rx_side s)" "rx_content inc (rx_side s)" "reliable_list inc" "plain_rx V (rx_side s)" using inv by (simp_all add: sess_inv_def)
  note r3 = receive_dispatch_inv [OF h r data, of out]
  have "evolves P n n3" if ok: "\<forall>d. good out (received rx) d \<longrightarrow> P me (peer s) d" for P
  proof -
    have "\<forall>d. good out ?R d \<longrightarrow> P me (peer s) d" using ok r3 fair_mono_R by blast
    then have "evolves P n1 n2" using t2 by blast
    moreover have "evolves P n2 n3" using r3 ok by blast
    ultimately show ?thesis using e1 [of P] evolves_trans by blast
  qed
  moreover have "tx_inv ?w out Rp (received rx) tx2" using t2 [of "\<lambda>_ _ _. True"] r3 tx_inv_mono by blast
  ultimately show ?thesis using inv r3 effectI [of out s' s n n' U] by (simp add: s' sess_inv_def)
qed

text \<open>The datagrams on their way here from the peer are good.\<close>

definition incoming :: "bytes set \<Rightarrow> message list \<Rightarrow> u32 set \<Rightarrow> Endpoint \<Rightarrow> Endpoint \<Rightarrow> Endpoint \<Rightarrow> bytes \<Rightarrow> bool" where
  "incoming V inc Rp e x y d \<longleftrightarrow> x = e \<and> y = me \<longrightarrow> fair V inc Rp d"

lemma incoming_effect:
  assumes "effect U out s n s' n'" "peer s \<noteq> me" "flight_ok (incoming V inc Rp (peer s)) n"
  shows "flight_ok (incoming V inc Rp (peer s')) n'"
proof -
  have "\<forall>d. fair U out (received (rx_side s')) d \<longrightarrow> incoming V inc Rp (peer s) me (peer s) d" using assms(2) by (simp add: incoming_def)
  then have "evolves (incoming V inc Rp (peer s)) n n'" by (rule effect_evolves [OF assms(1)])
  then show ?thesis using assms(1,3) by (simp add: evolves_def effect_def)
qed

lemma on_datagram_inv:
  assumes p: "on_datagram T d source s n = (s', n')" and inv: "sess_inv V out inc Rp s" and g: "source = peer s \<longrightarrow> fair V inc Rp d"
  shows "sess_inv V out inc Rp s' \<and> effect U out s n s' n'"
proof (cases "source = peer s \<and> (\<exists>p. decode d = Inr p)")
  case True
  then obtain p where d: "decode d = Inr p" by blast
  then have "process_packet T p s n = (s', n')" using assms(1) True by (simp add: on_datagram_def)
  moreover have "ack_ok Rp p" "p_type p = PT_Data \<longrightarrow> (if p_cls p = Unreliable then p_payload p \<in> V else data_ok inc p)"
    using g True d by (simp_all add: fair_def)
  ultimately show ?thesis using process_packet_inv inv by blast
next
  case False
  then have "s' = s" "n' = n" using p by (auto simp: on_datagram_def split: if_splits sum.splits)
  then show ?thesis using inv by simp
qed

lemma poll_loop_inv:
  assumes "poll_loop T k s n = (b, s', n')" "sess_inv V out inc Rp s" "peer s \<noteq> me" "flight_ok (incoming V inc Rp (peer s)) n"
  shows "sess_inv V out inc Rp s' \<and> effect U out s n s' n'"
  using assms
proof (induction k arbitrary: s n)
  case (Suc k)
  obtain x n1 where r: "t_recv T kMaxDatagram n = (x, n1)" by fastforce
  have ef: "effect U out s n s n1" using evolves_recv [OF r] by (simp add: effect_def)
  note fl = incoming_effect [OF ef Suc.prems(3,4)]
  show ?case
  proof (cases x)
    case None
    then show ?thesis using Suc.prems(1,2) r ef by simp
  next
    case (Some dx)
    obtain d source where dx: "dx = (d, source)" by fastforce
    have g: "fair V inc Rp d" if src: "source = peer s"
    proof -
      obtain d0 where d0: "incoming V inc Rp (peer s) source me d0" "d = take kMaxDatagram d0"
        using flight_ok_received [OF Suc.prems(4), of kMaxDatagram d source] r Some dx by auto
      then have "fair V inc Rp d0" using src by (simp add: incoming_def)
      then show ?thesis using d0(2) by (simp add: fair_def)
    qed
    obtain s1 n2 where o: "on_datagram T d source s n1 = (s1, n2)" by fastforce
    have i: "sess_inv V out inc Rp s1 \<and> effect U out s n1 s1 n2" using on_datagram_inv [OF o Suc.prems(2)] g by blast
    have rec: "poll_loop T k s1 n2 = (b, s', n')" using Suc.prems(1) r Some dx o by simp
    have "peer s1 = peer s" using i by (simp add: effect_def)
    then have "sess_inv V out inc Rp s' \<and> effect U out s1 n2 s' n'"
      using Suc.IH [OF rec] i Suc.prems(3) incoming_effect [of U out s n1 s1 n2 V inc Rp] fl by simp
    then show ?thesis using ef i effect_trans by blast
  qed
qed auto

lemma poll_inv:
  assumes p: "poll T s n = (b, s', n')" and inv: "sess_inv V out inc Rp s" "peer s \<noteq> me" "flight_ok (incoming V inc Rp (peer s)) n"
  shows "sess_inv V out inc Rp s' \<and> effect U out s n s' n' \<and> (persist_active (tx_side s') \<longleftrightarrow> persist_needed (tx_side s'))"
proof -
  obtain b1 s1 n1 where l: "poll_loop T (unat (max_recv_per_poll (cfg s))) s n = (b1, s1, n1)" by (metis prod_cases3)
  note i = poll_loop_inv [OF l inv]
  have a: "pump_and_arm T s1 n1 = (s', n')" using p l by (auto simp: poll_def split: prod.splits)
  note j = pump_and_arm_inv [OF a conjunct1 [OF i]]
  then show ?thesis using effect_trans i by blast
qed

text \<open>\<^verbatim>\<open>tick\<close> returns, from every state that satisfies the invariant.\<close>

lemma tick_inv:
  assumes inv: "sess_inv V out inc Rp s"
  shows "\<exists>s' n'. tick T s n = Some (s', n') \<and> sess_inv V out inc Rp s' \<and> effect U out s n s' n'
    \<and> (persist_active (tx_side s') \<longleftrightarrow> persist_needed (tx_side s'))"
proof -
  obtain now n1 where now: "t_now T n = (now, n1)" by fastforce
  have le: "now \<le> clock n1" using now_between [OF now] by simp
  have t: "tx_inv (unat (window_pkts (cfg s))) out Rp (received (rx_side s)) (tx_side s)" using inv by (simp add: sess_inv_def)
  note loop = tick_loop_inv [OF t le, where dest = "peer s"]
  obtain tx n2 where l: "tick_loop T (peer s) (rx_side s) now (tx_side s) n1 = Some (tx, n2)"
    "tx_inv (unat (window_pkts (cfg s))) out Rp (received (rx_side s)) tx"
    using loop [of "\<lambda>_ _ _. True"] by auto
  have ev: "evolves P n1 n2" if "\<forall>d. good out (received (rx_side s)) d \<longrightarrow> P me (peer s) d" for P
    using loop [of P] that l(1) by auto
  let ?s = "s\<lparr>tx_side := tx\<rparr>"
  have "effect U out s n1 ?s n2" by (rule effectI) (simp_all add: ev)
  moreover have "effect U out s n s n1" using evolves_now [OF now] by (simp add: effect_def)
  ultimately have e: "effect U out s n ?s n2" using effect_trans by blast
  obtain s' n' where a: "pump_and_arm T ?s n2 = (s', n')" by fastforce
  have "sess_inv V out inc Rp ?s" using inv l(2) by (simp add: sess_inv_def)
  note j = pump_and_arm_inv [OF a this]
  have "tick T s n = Some (s', n')" using now l(1) a by (simp add: tick_def)
  then show ?thesis using j effect_trans [OF e] by blast
qed

lemma set_sack_enabled_inv: "sess_inv V out inc Rp s \<Longrightarrow> sess_inv V out inc Rp (set_sack_enabled b s) \<and> effect U out s n (set_sack_enabled b s) n"
  by (auto simp: sess_inv_def effect_def set_sack_enabled_def rx_content_def plain_rx_def stream_def received_def rx_keys_def)

lemma side_step_inv:
  assumes st: "side_step U T (s, n, out) (s', n', out')" and inv: "sess_inv V out inc Rp s" "peer s \<noteq> me"
    "flight_ok (incoming V inc Rp (peer s)) n" and bound: "length out' < 2 ^ 32"
  shows "\<exists>xs. out' = out @ xs \<and> sess_inv V out' inc Rp s' \<and> effect U out' s n s' n'"
  using st
proof (cases rule: side_step.cases)
  case (send c d accepted)
  let ?xs = "if accepted \<and> c \<noteq> Unreliable then [(c, d)] else []"
  have out': "out' = out @ ?xs" using send by simp
  have "length (out @ ?xs) < 2 ^ 32" using bound out' by simp
  from send_inv [OF send(3) inv(1) send(2) this] show ?thesis using out' by (auto simp: Let_def)
next
  case (poll bounded)
  then show ?thesis using poll_inv [OF poll(2) inv] by auto
next
  case tick
  then show ?thesis using tick_inv [OF inv(1), of n U] by auto
next
  case (set_receiving b)
  then show ?thesis using set_receiving_inv [OF set_receiving(2) inv(1)] by auto
next
  case (set_sack_enabled b)
  then show ?thesis using set_sack_enabled_inv [OF inv(1), of b U n] by auto
qed

end

end
