(* ===== verification/Session_Dedup.thy ===== *)
theory Session_Dedup
  imports Session_Receiver
begin

text \<open>
  The duplicate filter of the unreliable class: a 64-bit sliding bitmap (\<^verbatim>\<open>handle_unreliable\<close>). It is related to the plain
  list of the sequence numbers processed so far, which gives an exact characterisation of the packets that are delivered.
\<close>

text \<open>\<open>qs\<close> lists the sequence numbers already processed, oldest first.\<close>

definition ur_fresh :: "u32 list \<Rightarrow> u32 \<Rightarrow> bool" where
  "ur_fresh qs s \<longleftrightarrow> qs = [] \<or> s \<notin> set qs \<and> hd qs \<le> s \<and> list_all (\<lambda>q. unat q \<le> unat s + 63) qs"

definition ur_window :: "u32 list \<Rightarrow> RecvSide \<Rightarrow> bool" where
  "ur_window qs r \<longleftrightarrow> (ur_init r \<longleftrightarrow> qs \<noteq> []) \<and> (qs \<noteq> [] \<longrightarrow>
     (\<forall>q\<in>set qs. unat q \<le> unat (ur_base r) + 63) \<and> hd qs \<le> ur_base r
     \<and> (ur_base r = hd qs \<or> (\<exists>q\<in>set qs. unat q = unat (ur_base r) + 63))
     \<and> (\<forall>i<64. bit (ur_seen r) i \<longleftrightarrow> (\<exists>q\<in>set qs. unat q = unat (ur_base r) + i)))"

text \<open>The bitmap with its base, as the source computes them, for a packet that is not below the base.\<close>

definition slide :: "u32 \<Rightarrow> u32 \<Rightarrow> u64 \<Rightarrow> u32 \<times> u64" where
  "slide s b u = (if s - b \<ge> 64 then (s - 63, if s - b - 63 \<ge> 64 then 0 else drop_bit (unat (s - b - 63)) u) else (b, u))"

lemma handle_unreliable_alt:
  "handle_unreliable p r =
     (let s = p_seq p;
          b = (if ur_init r then ur_base r else s);
          u = (if ur_init r then ur_seen r else 0);
          (b', u') = slide s b u
      in if s < b then r\<lparr>ur_init := True, ur_base := b, ur_seen := u\<rparr>
         else if bit u' (unat (s - b')) then r\<lparr>ur_init := True, ur_base := b', ur_seen := u'\<rparr>
         else let r = r\<lparr>ur_init := True, ur_base := b', ur_seen := u' OR push_bit (unat (s - b')) 1\<rparr>
              in if app_ready r then emit_to_app Unreliable (p_payload p) r else r)"
  by (cases r) (auto simp: handle_unreliable_def slide_def Let_def bit_iff_and_drop_bit_eq_1 and_one_eq mod_2_eq_odd
      split: if_splits)

lemma slide_range:
  assumes "b \<le> s" "slide s b u = (b', u')"
  shows "b' \<le> s \<and> unat s \<le> unat b' + 63 \<and> b \<le> b' \<and> (b' = b \<or> unat s = unat b' + 63)"
proof (cases "s - b \<ge> 64")
  case True
  then have d: "64 \<le> unat s - unat b" using unat_sub [OF assms(1)] by (simp add: word_le_nat_alt)
  then have "63 \<le> s" by (simp add: word_le_nat_alt)
  then have "unat (s - 63) = unat s - 63" using unat_sub [of 63 s] by simp
  then show ?thesis using assms True d by (auto simp: slide_def word_le_nat_alt)
next
  case False
  then have "unat s - unat b < 64" using unat_sub [OF assms(1)] by (simp add: not_le word_less_nat_alt)
  then show ?thesis using assms False by (auto simp: slide_def)
qed

lemma slide_bits:
  assumes "b \<le> s" "slide s b u = (b', u')" "i < 64"
    and old: "\<And>j. j < 64 \<Longrightarrow> bit u j \<longleftrightarrow> unat b + j \<in> Q" "\<And>q. q \<in> Q \<Longrightarrow> q \<le> unat b + 63"
  shows "bit u' i \<longleftrightarrow> unat b' + i \<in> Q"
proof (cases "s - b \<ge> 64")
  case True
  then have d: "64 \<le> unat s - unat b" using unat_sub [OF assms(1)] by (simp add: word_le_nat_alt)
  have k: "unat (s - b - 63) = unat s - unat b - 63"
    using unat_sub [of 63 "s - b"] unat_sub [OF assms(1)] d by (simp add: word_le_nat_alt)
  have "63 \<le> s" using d by (simp add: word_le_nat_alt)
  then have b': "unat b' = unat b + (unat s - unat b - 63)"
    using unat_sub [of 63 s] assms(2) True d by (simp add: slide_def)
  show ?thesis
  proof (cases "s - b - 63 \<ge> 64")
    case far: True
    then have "u' = 0" using assms(2) True by (simp add: slide_def)
    moreover have "unat b' + i \<notin> Q" using old(2) [of "unat b' + i"] far k b' by (auto simp: word_le_nat_alt)
    ultimately show ?thesis by simp
  next
    case near: False
    then have u': "u' = drop_bit (unat s - unat b - 63) u" using assms(2) True k by (simp add: slide_def)
    show ?thesis
    proof (cases "unat s - unat b - 63 + i < 64")
      case True
      then show ?thesis using old(1) [OF True] b' by (simp add: u' bit_simps ac_simps)
    next
      case False
      then have "unat b' + i \<notin> Q" using old(2) [of "unat b' + i"] b' by auto
      then show ?thesis using False by (simp add: u' bit_simps bit_word_length_le)
    qed
  qed
next
  case False
  then show ?thesis using assms by (simp add: slide_def)
qed

lemma ur_fresh_base:
  assumes "ur_window qs r" "qs \<noteq> []"
  shows "ur_fresh qs s \<longleftrightarrow> s \<notin> set qs \<and> ur_base r \<le> s"
proof -
  let ?b = "ur_base r"
  have w: "\<forall>q\<in>set qs. unat q \<le> unat ?b + 63" "hd qs \<le> ?b"
      "?b = hd qs \<or> (\<exists>q\<in>set qs. unat q = unat ?b + 63)"
    using assms by (simp_all add: ur_window_def)
  have "hd qs \<le> s \<and> list_all (\<lambda>q. unat q \<le> unat s + 63) qs \<longleftrightarrow> ?b \<le> s"
  proof
    assume a: "hd qs \<le> s \<and> list_all (\<lambda>q. unat q \<le> unat s + 63) qs"
    from w(3) show "?b \<le> s"
    proof
      assume "\<exists>q\<in>set qs. unat q = unat ?b + 63"
      then show ?thesis using a by (fastforce simp: list_all_iff word_le_nat_alt)
    qed (use a in simp)
  next
    assume "?b \<le> s"
    then show "hd qs \<le> s \<and> list_all (\<lambda>q. unat q \<le> unat s + 63) qs"
      using w by (fastforce simp: list_all_iff word_le_nat_alt)
  qed
  then show ?thesis using assms(2) by (auto simp: ur_fresh_def)
qed

text \<open>The state of the filter before the sliding step, on which the two cases of initialisation agree.\<close>

lemma ur_window_base:
  assumes "ur_window qs r" "b = (if ur_init r then ur_base r else s)" "u = (if ur_init r then ur_seen r else 0)"
  shows "(\<forall>q\<in>set qs. unat q \<le> unat b + 63) \<and> (\<forall>j<64. bit u j \<longleftrightarrow> unat b + j \<in> unat ` set qs)
    \<and> hd (qs @ [s]) \<le> b \<and> (b = hd (qs @ [s]) \<or> (\<exists>q\<in>set qs. unat q = unat b + 63))
    \<and> (ur_fresh qs s \<longleftrightarrow> b \<le> s \<and> s \<notin> set qs)"
proof (cases "qs = []")
  case True
  then show ?thesis using assms by (simp add: ur_window_def ur_fresh_def)
next
  case False
  have f: "ur_fresh qs s \<longleftrightarrow> b \<le> s \<and> s \<notin> set qs"
    using ur_fresh_base [OF assms(1) False, of s] assms False by (auto simp: ur_window_def)
  have "(\<exists>q\<in>set qs. unat q = unat b + j) \<longleftrightarrow> unat b + j \<in> unat ` set qs" for j by force
  then show ?thesis using assms(1) False f unfolding assms(2,3) ur_window_def by simp
qed

lemma ur_windowI:
  assumes "ur_init r" "\<forall>q\<in>set qs. unat q \<le> unat (ur_base r) + 63" "hd qs \<le> ur_base r" "qs \<noteq> []"
    "ur_base r = hd qs \<or> (\<exists>q\<in>set qs. unat q = unat (ur_base r) + 63)"
    "\<And>i. i < 64 \<Longrightarrow> bit (ur_seen r) i \<longleftrightarrow> unat (ur_base r) + i \<in> unat ` set qs"
  shows "ur_window qs r"
  unfolding ur_window_def using assms by (auto simp: image_iff) metis+

lemma ur_step:
  assumes w: "ur_window qs r" and h: "handler r"
  shows "ur_window (qs @ [p_seq p]) (handle_unreliable p r)
    \<and> app_log (handle_unreliable p r) = app_log r @ (if app_ready r \<and> ur_fresh qs (p_seq p) then [(Unreliable, p_payload p)] else [])"
proof -
  define s where "s = p_seq p"
  define b where "b = (if ur_init r then ur_base r else s)"
  define u where "u = (if ur_init r then ur_seen r else 0)"
  obtain b' u' where sl: "slide s b u = (b', u')" by fastforce
  note base = ur_window_base [OF w b_def u_def]
  note alt = handle_unreliable_alt [of p r, folded s_def, unfolded Let_def, folded b_def u_def, unfolded sl prod.case]
  show ?thesis
  proof (cases "s < b")
    case True
    have "ur_window (qs @ [s]) (r\<lparr>ur_init := True, ur_base := b, ur_seen := u\<rparr>)"
      using base True by (intro ur_windowI) (auto simp: word_less_nat_alt)
    then show ?thesis using base True alt by (auto simp: s_def)
  next
    case False
    then have le: "b \<le> s" by simp
    note range = slide_range [OF le sl]
    have bits: "bit u' i \<longleftrightarrow> unat b' + i \<in> unat ` set qs" if "i < 64" for i
      using slide_bits [OF le sl that, of "unat ` set qs"] base by auto
    have pos: "unat (s - b') = unat s - unat b'" "unat s - unat b' < 64" "unat b' + (unat s - unat b') = unat s"
      using range unat_sub [of b' s] by (auto simp: word_le_nat_alt)
    have seen: "bit u' (unat (s - b')) \<longleftrightarrow> s \<in> set qs"
      unfolding pos(1) bits [OF pos(2)] pos(3) by (auto simp: image_iff simp flip: word_unat_eq_iff)
    have fresh: "ur_fresh qs s \<longleftrightarrow> s \<notin> set qs" using base le by blast
    have top: "\<forall>q\<in>set (qs @ [s]). unat q \<le> unat b' + 63" "hd (qs @ [s]) \<le> b'"
      "b' = hd (qs @ [s]) \<or> (\<exists>q\<in>set (qs @ [s]). unat q = unat b' + 63)"
      using base range by (auto simp: word_le_nat_alt)
    show ?thesis
    proof (cases "s \<in> set qs")
      case True
      have "ur_window (qs @ [s]) (r\<lparr>ur_init := True, ur_base := b', ur_seen := u'\<rparr>)"
        using top bits True by (intro ur_windowI) (auto simp: image_iff)
      then show ?thesis using alt seen fresh True False by (simp add: s_def)
    next
      case new: False
      let ?u = "u' OR push_bit (unat (s - b')) 1"
      have "bit ?u i \<longleftrightarrow> unat b' + i \<in> unat ` set (qs @ [s])" if "i < 64" for i
        using bits [OF that] that pos by (auto simp: bit_simps bit_1_iff)
      then have "ur_window (qs @ [s]) (r\<lparr>ur_init := True, ur_base := b', ur_seen := ?u\<rparr>)"
        using top by (intro ur_windowI) auto
      then show ?thesis using alt seen fresh new False h
        by (simp add: s_def app_log_emit) (simp add: ur_window_def)
    qed
  qed
qed

section \<open>Properties\<close>

text \<open>A run of the filter over incoming packets, with the application's readiness at each.\<close>

fun ur_run :: "(bool \<times> Packet) list \<Rightarrow> RecvSide \<Rightarrow> RecvSide" where
  "ur_run [] r = r"
| "ur_run ((b, p) # xs) r = ur_run xs (handle_unreliable p (r\<lparr>app_ready := b\<rparr>))"

lemma ur_run_window:
  "ur_window qs r \<Longrightarrow> handler r \<Longrightarrow>
   ur_window (qs @ map (p_seq \<circ> snd) xs) (ur_run xs r) \<and> handler (ur_run xs r)"
proof (induction xs r arbitrary: qs rule: ur_run.induct)
  case (2 b p xs r)
  let ?r = "handle_unreliable p (r\<lparr>app_ready := b\<rparr>)"
  have w: "ur_window qs (r\<lparr>app_ready := b\<rparr>)" using 2(2) by (simp add: ur_window_def)
  then have "ur_window (qs @ [p_seq p]) ?r" using ur_step [of qs "r\<lparr>app_ready := b\<rparr>" p] 2(3) by simp
  moreover have "handler ?r" using 2(3) by simp
  ultimately show ?case using 2(1) [of "qs @ [p_seq p]"] by simp
qed simp

text \<open>C7: The duplicate filter of the unreliable class is exact. After any history of packets, a packet is handed to the
  application, once and unchanged, if and only if the application is ready, its sequence number was not processed before, is not
  below the first one ever processed, and is at most 63 behind the newest one.\<close>

theorem unreliable_at_most_once:
  "let r = ur_run xs ((new_recv_side c)\<lparr>handler := True\<rparr>) in
   app_log (handle_unreliable p (r\<lparr>app_ready := b\<rparr>)) =
     app_log r @ (if b \<and> ur_fresh (map (p_seq \<circ> snd) xs) (p_seq p) then [(Unreliable, p_payload p)] else [])"
proof -
  let ?init = "(new_recv_side c)\<lparr>handler := True\<rparr>" and ?r = "ur_run xs ((new_recv_side c)\<lparr>handler := True\<rparr>)"
  have "ur_window [] ?init" by (simp add: ur_window_def new_recv_side_def)
  then have "ur_window (map (p_seq \<circ> snd) xs) ?r" "handler ?r" using ur_run_window [of "[]" ?init xs] by simp_all
  then have "ur_window (map (p_seq \<circ> snd) xs) (?r\<lparr>app_ready := b\<rparr>)" "handler (?r\<lparr>app_ready := b\<rparr>)"
    by (simp_all add: ur_window_def)
  from ur_step [OF this, of p] show ?thesis by (simp add: Let_def)
qed

end
