(* ===== verification/Session_Delivery.thy ===== *)
theory Session_Delivery
  imports Session_Steps Session_Dedup Sim_Net
    "HOL-Library.Sublist"
begin

text \<open>
  Two sessions talking to each other over a datagram service. The locale \<open>session_pair\<close> proves the joint invariant once for every
  service that satisfies the transport contract; it is interpreted on the simulator, for all seeds, impairments, endpoints and
  configurations, and the end-to-end properties are stated there.
\<close>

section \<open>The two-party system\<close>

record 'n Pair =
  pa :: Session
  pb :: Session
  net :: 'n
  acc_a :: "message list"
  acc_b :: "message list"

text \<open>
  A step of either endpoint, or of the environment. Sequence numbers are 32 bits wide and are never reused by the source, so the runs
  considered accept fewer than \<open>2 ^ 32\<close> reliable messages per direction.
\<close>

inductive pair_step :: "bytes set \<Rightarrow> bytes set \<Rightarrow> 'n UdpTransport \<Rightarrow> 'n UdpTransport \<Rightarrow> ('n \<Rightarrow> 'n \<Rightarrow> bool) \<Rightarrow> 'n Pair \<Rightarrow> 'n Pair \<Rightarrow> bool" for UA UB TA TB env where
  side_a: "side_step UA TA (pa y, net y, acc_a y) (s', n', out') \<Longrightarrow> length out' < 2 ^ 32 \<Longrightarrow>
    pair_step UA UB TA TB env y (y\<lparr>pa := s', net := n', acc_a := out'\<rparr>)"
| side_b: "side_step UB TB (pb y, net y, acc_b y) (s', n', out') \<Longrightarrow> length out' < 2 ^ 32 \<Longrightarrow>
    pair_step UA UB TA TB env y (y\<lparr>pb := s', net := n', acc_b := out'\<rparr>)"
| outside: "env (net y) n' \<Longrightarrow> pair_step UA UB TA TB env y (y\<lparr>net := n'\<rparr>)"

inductive pair_reach :: "bytes set \<Rightarrow> bytes set \<Rightarrow> 'n UdpTransport \<Rightarrow> 'n UdpTransport \<Rightarrow> ('n \<Rightarrow> 'n \<Rightarrow> bool) \<Rightarrow> 'n Pair \<Rightarrow> 'n Pair \<Rightarrow> bool" for UA UB TA TB env y0 where
  start: "pair_reach UA UB TA TB env y0 y0"
| step: "pair_reach UA UB TA TB env y0 y \<Longrightarrow> pair_step UA UB TA TB env y y' \<Longrightarrow> pair_reach UA UB TA TB env y0 y'"

definition start_pair :: "Endpoint \<Rightarrow> Endpoint \<Rightarrow> Config \<Rightarrow> Config \<Rightarrow> 'n \<Rightarrow> 'n Pair" where
  "start_pair ea eb ca cb n = \<lparr>pa = set_on_message (new_session eb ca), pb = set_on_message (new_session ea cb),
     net = n, acc_a = [], acc_b = []\<rparr>"

definition config_ok :: "Config \<Rightarrow> bool" where
  "config_ok c \<longleftrightarrow> 1 \<le> cfg_rto_floor c \<and> cfg_rto_floor c \<le> kMaxRto"

definition link :: "bytes set \<Rightarrow> bytes set \<Rightarrow> Endpoint \<Rightarrow> Endpoint \<Rightarrow> message list \<Rightarrow> u32 set \<Rightarrow> message list \<Rightarrow> u32 set \<Rightarrow> Endpoint \<Rightarrow> Endpoint \<Rightarrow> bytes \<Rightarrow> bool" where
  "link U1 U2 e1 e2 acc1 R1 acc2 R2 x z d \<longleftrightarrow> (x = e1 \<and> z = e2 \<longrightarrow> fair U1 acc1 R1 d) \<and> (x = e2 \<and> z = e1 \<longrightarrow> fair U2 acc2 R2 d)"

lemma link_sym: "link U1 U2 e1 e2 a1 R1 a2 R2 = link U2 U1 e2 e1 a2 R2 a1 R1"
  by (auto simp: link_def fun_eq_iff)

lemma sess_inv_new:
  assumes "config_ok c"
  shows "sess_inv V [] [] Rp (set_on_message (new_session e c))"
proof -
  have t: "timers_inv empty_timers" by (simp add: empty_timers_def timers_inv_def is_heap_def)
  have "rtt_ok (new_send_side c)"
    using assms by (simp add: rtt_ok_def new_send_side_def config_ok_def rto_limits_ok_def kMaxRto_def)
  then have "timed {} (new_send_side c)"
    using t by (simp add: timed_def persist_ok_def new_send_side_def)
  moreover have "ring_ok [] Rp R 0 []" for R by (simp add: ring_ok_def contiguous_def)
  ultimately have "tx_inv (unat (window_pkts c)) [] Rp R (new_send_side c)" for R
    by (simp add: tx_inv_def) (simp add: new_send_side_def cc_inv_new)
  moreover have "rx_content [] ((new_recv_side c)\<lparr>handler := True\<rparr>)"
    by (rule content_new) (simp_all add: new_recv_side_def stream_def)
  ultimately show ?thesis
    by (simp add: sess_inv_def set_on_message_def new_session_def rx_inv_new reliable_list_def small_def)
      (simp add: new_recv_side_def plain_rx_def stream_def)
qed

text \<open>One endpoint moves; the other one's invariant follows the growth of what was accepted and received.\<close>

context datagram_transport
begin

lemma half_step:
  assumes st: "side_step U T (s, n, out) (s', n', out')" and bound: "length out' < 2 ^ 32" and ne: "peer s \<noteq> me"
    and inv: "sess_inv V out inc (received (rx_side q)) s" "sess_inv U inc out (received (rx_side s)) q"
    and fl: "flight_ok (link U V me (peer s) out (received (rx_side s)) inc (received (rx_side q))) n"
  shows "sess_inv V out' inc (received (rx_side q)) s' \<and> sess_inv U inc out' (received (rx_side s')) q \<and> peer s' = peer s
    \<and> flight_ok (link U V me (peer s) out' (received (rx_side s')) inc (received (rx_side q))) n'"
proof -
  let ?L = "link U V me (peer s) out' (received (rx_side s')) inc (received (rx_side q))"
  have "flight_ok (incoming V inc (received (rx_side q)) (peer s)) n"
    using fl by (rule flight_ok_mono) (simp add: link_def incoming_def)
  from side_step_inv [OF st inv(1) ne this bound] obtain xs where
    x: "out' = out @ xs" "sess_inv V out' inc (received (rx_side q)) s'" "effect U out' s n s' n'" by blast
  have R: "received (rx_side s) \<subseteq> received (rx_side s')" "peer s' = peer s" using x(3) by (simp_all add: effect_def)
  have "\<forall>d. fair U out' (received (rx_side s')) d \<longrightarrow> ?L me (peer s) d" using ne by (simp add: link_def)
  then have "evolves ?L n n'" by (rule effect_evolves [OF x(3)])
  moreover have "flight_ok ?L n"
    using fl by (rule flight_ok_mono) (use fair_mono [OF _ order_refl R(1)] x(1) in \<open>auto simp: link_def\<close>)
  ultimately have "flight_ok ?L n'" by (simp add: evolves_def)
  moreover have "reliable_list (out @ xs)" using x(1,2) by (simp add: sess_inv_def)
  then have "sess_inv U inc (out @ xs) (received (rx_side s')) q" by (rule sess_inv_other [OF inv(2) R(1)])
  ultimately show ?thesis using x R by simp
qed

end

locale session_pair = a: datagram_transport TA ea wire clock + b: datagram_transport TB eb wire clock
  for TA :: "'n UdpTransport" and TB and ea eb and wire :: "'n \<Rightarrow> Endpoint \<Rightarrow> (Endpoint \<times> bytes) set" and clock +
  fixes env :: "'n \<Rightarrow> 'n \<Rightarrow> bool"
  assumes env_wire: "env n n' \<Longrightarrow> x = ea \<or> x = eb \<Longrightarrow> (x, d) \<in> wire n' e \<Longrightarrow> (x, d) \<in> wire n e"
begin

definition pair_inv :: "bytes set \<Rightarrow> bytes set \<Rightarrow> 'n Pair \<Rightarrow> bool" where
  "pair_inv UA UB y \<longleftrightarrow> sess_inv UB (acc_a y) (acc_b y) (received (rx_side (pb y))) (pa y)
     \<and> sess_inv UA (acc_b y) (acc_a y) (received (rx_side (pa y))) (pb y) \<and> peer (pa y) = eb \<and> peer (pb y) = ea
     \<and> a.flight_ok (link UA UB ea eb (acc_a y) (received (rx_side (pa y))) (acc_b y) (received (rx_side (pb y)))) (net y)"

lemma pair_inv_step:
  assumes "pair_step UA UB TA TB env y y'" "pair_inv UA UB y" "ea \<noteq> eb"
  shows "pair_inv UA UB y'"
  using assms(1)
proof cases
  case (side_a s' n' out')
  then show ?thesis
    using a.half_step [OF side_a(2,3), of UB "acc_b y" "pb y"] assms(2,3) by (auto simp: pair_inv_def)
next
  case (side_b s' n' out')
  then show ?thesis
    using b.half_step [OF side_b(2,3), of UA "acc_a y" "pa y"] assms(2,3)
      link_sym [of UA UB ea eb] by (auto simp: pair_inv_def)
next
  case (outside n')
  have "a.flight_ok (link UA UB ea eb (acc_a y) (received (rx_side (pa y))) (acc_b y) (received (rx_side (pb y)))) n'"
    using assms(2) env_wire [OF outside(2)] unfolding pair_inv_def a.flight_ok_def link_def by blast
  then show ?thesis using outside assms(2) by (simp add: pair_inv_def)
qed

lemma pair_tick:
  assumes "pair_inv UA UB y"
  shows "\<exists>s' n'. tick TA (pa y) (net y) = Some (s', n') \<and> persist_active (tx_side s') = persist_needed (tx_side s')"
  using a.tick_inv [of UB "acc_a y" "acc_b y" _ "pa y" "net y"] assms unfolding pair_inv_def by blast

lemma pair_inv_start:
  assumes "config_ok ca" "config_ok cb" "\<And>e d. (ea, d) \<notin> wire n e" "\<And>e d. (eb, d) \<notin> wire n e"
  shows "pair_inv UA UB (start_pair ea eb ca cb n)"
  using sess_inv_new [OF assms(1)] sess_inv_new [OF assms(2)] assms(3,4)
  by (auto simp: pair_inv_def start_pair_def a.flight_ok_def link_def set_on_message_def new_session_def)

lemma pair_inv_reach:
  assumes "pair_reach UA UB TA TB env y0 y" "pair_inv UA UB y0" "ea \<noteq> eb"
  shows "pair_inv UA UB y"
  using assms(1) by induction (use assms(2,3) pair_inv_step in blast)+

end

section \<open>Over the simulator\<close>

text \<open>The environment: time passes, and any other endpoint sends or receives whatever it likes.\<close>

definition sim_env :: "Endpoint \<Rightarrow> Endpoint \<Rightarrow> SimNet \<Rightarrow> SimNet \<Rightarrow> bool" where
  "sim_env ea eb n n' \<longleftrightarrow> (\<exists>k. n' = advance n k)
     \<or> (\<exists>e dest d. e \<noteq> ea \<and> e \<noteq> eb \<and> deliver e dest d n = Some n')
     \<or> (\<exists>e cap. n' = snd (receive e cap n))"

lemma sim_env_wire:
  assumes "sim_env ea eb n n'" "x = ea \<or> x = eb" "(x, d) \<in> sim_wire n' e"
  shows "(x, d) \<in> sim_wire n e"
  using assms(1)
proof (unfold sim_env_def, elim disjE exE conjE)
  fix k assume "n' = advance n k"
  then show ?thesis using assms(3) by simp
next
  fix e' dest d' assume "e' \<noteq> ea" "e' \<noteq> eb" "deliver e' dest d' n = Some n'"
  then show ?thesis using sim_wire_deliver [of e' dest d' n n' e] assms(2,3) by (auto split: if_splits)
next
  fix e' cap assume "n' = snd (receive e' cap n)"
  then show ?thesis using sim_wire_receive [of e' cap n e] assms(3) by auto
qed

interpretation pair: session_pair "sim_transport ea" "sim_transport eb" ea eb sim_wire sim_now "sim_env ea eb" for ea eb
  by unfold_locales (rule sim_env_wire)

text \<open>
  Runs over the simulator. \<open>sim_run_with UA UB\<close> restricts the unreliable messages the two sides send to given sets;
  \<open>sim_run\<close> does not.
\<close>

definition sim_run_with ::
    "bytes set \<Rightarrow> bytes set \<Rightarrow> Endpoint \<Rightarrow> Endpoint \<Rightarrow> Config \<Rightarrow> Config \<Rightarrow> u64 \<Rightarrow> Impairments \<Rightarrow> SimNet Pair \<Rightarrow> bool" where
  "sim_run_with UA UB ea eb ca cb seed i y \<longleftrightarrow> pair_reach UA UB (sim_transport ea) (sim_transport eb) (sim_env ea eb)
     (start_pair ea eb ca cb (new_simnet seed i)) y"

definition sim_run :: "Endpoint \<Rightarrow> Endpoint \<Rightarrow> Config \<Rightarrow> Config \<Rightarrow> u64 \<Rightarrow> Impairments \<Rightarrow> SimNet Pair \<Rightarrow> bool" where
  "sim_run = sim_run_with UNIV UNIV"

lemma sim_run_with_inv:
  assumes "sim_run_with UA UB ea eb ca cb seed i y" "ea \<noteq> eb" "config_ok ca" "config_ok cb"
  shows "pair.pair_inv ea eb UA UB y"
proof -
  have "pair.pair_inv ea eb UA UB (start_pair ea eb ca cb (new_simnet seed i))"
    by (rule pair.pair_inv_start [OF assms(3,4)]) (simp_all add: sim_wire_def box_of_def new_simnet_def)
  from pair.pair_inv_reach [OF assms(1) [unfolded sim_run_with_def] this assms(2)] show ?thesis .
qed

lemmas sim_run_inv = sim_run_with_inv [of UNIV UNIV, folded sim_run_def]

lemma sim_run_with_sess:
  assumes "sim_run_with UA UB ea eb ca cb seed i y" "ea \<noteq> eb" "config_ok ca" "config_ok cb"
  shows "sess_inv UB (acc_a y) (acc_b y) (received (rx_side (pb y))) (pa y)
    \<and> sess_inv UA (acc_b y) (acc_a y) (received (rx_side (pa y))) (pb y)"
  using sim_run_with_inv [OF assms] by (simp add: pair.pair_inv_def)

lemmas sim_run_sess = sim_run_with_sess [of UNIV UNIV, folded sim_run_def]

lemma prefix_of_class: "prefix xs ys \<Longrightarrow> prefix (of_class c xs) (of_class c ys)"
  by (auto simp: prefix_def)

lemma nth_mset_drop:
  assumes "distinct js" "\<forall>j\<in>set js. k \<le> j \<and> j < length xs"
  shows "mset (map ((!) xs) js) \<subseteq># mset (drop k xs)"
proof -
  have "mset js = mset_set (set js)" using assms(1) by (simp add: mset_set_set)
  also have "\<dots> \<subseteq># mset_set {k..<length xs}" using assms(2) by (intro subset_imp_msubset_mset_set) auto
  also have "\<dots> = mset [k..<length xs]" by (simp add: mset_set_set)
  finally have "image_mset ((!) xs) (mset js) \<subseteq># image_mset ((!) xs) (mset [k..<length xs])" by (rule image_mset_subseteq_mono)
  moreover have "drop k xs = map ((!) xs) [k..<length xs]"
    by (rule nth_equalityI) simp_all
  ultimately show ?thesis by simp
qed

lemma app_log_stream: "prefix (of_class c (app_log r)) (of_class c (stream r))"
  by (simp add: stream_def)

lemma ordered_prefix:
  assumes "rx_content acc r"
  shows "prefix (of_class ReliableOrdered (app_log r)) (of_class ReliableOrdered acc)"
proof -
  have "prefix (of_class ReliableOrdered (take (unat (rcv_next r)) acc)) (of_class ReliableOrdered acc)"
    by (rule prefix_of_class) (rule take_is_prefix)
  then show ?thesis using assms app_log_stream [of ReliableOrdered r] prefix_order.trans
    by (metis rx_content_def)
qed

lemma early_subset:
  assumes "rx_content acc r" "rx_inv r"
  shows "early acc (reasm r) \<subseteq># mset (of_class ReliableUnordered (drop (unat (rcv_next r)) acc))"
proof -
  let ?d = "filter (\<lambda>e. rx_delivered (snd e)) (reasm r)" and ?k = "unat (rcv_next r)"
  let ?js = "map (\<lambda>e. unat (fst e)) ?d"
  have items: "item_ok acc e" if "e \<in> set (reasm r)" for e
    using assms(1) that by (auto simp: rx_content_def list_all_iff)
  have "distinct (map fst ?d)"
    using assms(2) distinct_map_filter [of fst "reasm r"] by (simp add: rx_inv_def rx_struct_def rx_keys_def)
  then have "distinct (map unat (map fst ?d))"
    by (subst distinct_map) (auto intro!: inj_onI simp: word_unat_eq_iff)
  then have "distinct ?js" by (simp add: o_def)
  moreover have "\<forall>j\<in>set ?js. ?k \<le> j \<and> j < length acc"
  proof
    fix j assume "j \<in> set ?js"
    then obtain e where e: "e \<in> set (reasm r)" "j = unat (fst e)" by auto
    then have "rcv_next r < fst e" using assms(2) by (simp add: rx_inv_def rx_keys_def)
    then show "?k \<le> j \<and> j < length acc" using items [OF e(1)] e(2) by (simp add: item_ok_def word_less_nat_alt)
  qed
  ultimately have "mset (map ((!) acc) ?js) \<subseteq># mset (drop ?k acc)" by (rule nth_mset_drop)
  then have "early acc (reasm r) \<subseteq># mset (drop ?k acc)" by (simp add: early_def o_def)
  then have "filter_mset (\<lambda>m. fst m = ReliableUnordered) (early acc (reasm r)) \<subseteq># mset (of_class ReliableUnordered (drop ?k acc))"
    using multiset_filter_mono [of "early acc (reasm r)"] by (simp add: of_class_def)
  moreover have "filter_mset (\<lambda>m. fst m = ReliableUnordered) (early acc (reasm r)) = early acc (reasm r)"
    using items by (auto simp: filter_mset_eq_conv early_def item_ok_def)
  ultimately show ?thesis by simp
qed

lemma unordered_subset:
  assumes "rx_content acc r" "rx_inv r"
  shows "mset (of_class ReliableUnordered (app_log r)) \<subseteq># mset (of_class ReliableUnordered acc)"
proof -
  let ?k = "unat (rcv_next r)"
  have "mset (of_class ReliableUnordered (app_log r)) \<subseteq># mset (of_class ReliableUnordered (stream r))" by (simp add: stream_def)
  also have "\<dots> = mset (of_class ReliableUnordered (take ?k acc)) + early acc (reasm r)" using assms(1) by (simp add: rx_content_def)
  also have "\<dots> \<subseteq># mset (of_class ReliableUnordered (take ?k acc)) + mset (of_class ReliableUnordered (drop ?k acc))"
    using early_subset [OF assms] by simp
  also have "\<dots> = mset (of_class ReliableUnordered (take ?k acc @ drop ?k acc))" by (simp only: of_class_append mset_append)
  finally show ?thesis by simp
qed

lemma unreliable_sent:
  assumes "sess_inv U out inc Rp s" "(Unreliable, d) \<in> set (app_log (rx_side s))"
  shows "d \<in> U"
  using assms by (auto simp: sess_inv_def plain_rx_def stream_def)

text \<open>Where an accepted message can be.\<close>

definition in_flight_copy :: "SendSide \<Rightarrow> nat \<Rightarrow> message \<Rightarrow> bool" where
  "in_flight_copy s i m \<longleftrightarrow> (\<exists>sl\<in>set (ring s). unat (sl_seq sl) = i \<and> \<not> sacked sl \<and> sl_timer sl \<in> fst ` live (timers s)
     \<and> (\<exists>p. decode (datagram sl) = Inr p \<and> p_seq p = sl_seq sl \<and> (p_cls p, p_payload p) = m))"

definition queued :: "SendSide \<Rightarrow> nat \<Rightarrow> message \<Rightarrow> bool" where
  "queued s i m \<longleftrightarrow> unat (next_seq s) \<le> i \<and> i - unat (next_seq s) < length (pending s)
     \<and> msg_of (pending s ! (i - unat (next_seq s))) = m"

lemma accepted_somewhere:
  assumes "sess_inv V out inc Rp s" "i < length out"
  shows "queued (tx_side s) i (out ! i) \<or> in_flight_copy (tx_side s) i (out ! i) \<or> word_of_nat i \<in> Rp"
proof -
  let ?tx = "tx_side s" and ?N = "unat (next_seq (tx_side s))"
  have t: "tx_inv (unat (window_pkts (cfg s))) out Rp (received (rx_side s)) ?tx" and b: "length out < 2 ^ 32"
    using assms(1) by (simp_all add: sess_inv_def reliable_list_def)
  then have ro: "ring_ok out Rp (received (rx_side s)) ?N (ring ?tx)" by (simp add: tx_inv_def)
  show ?thesis
  proof (cases "i < ?N")
    case False
    have p: "map msg_of (pending ?tx) = drop ?N out" using t by (simp add: tx_inv_def)
    then have len: "length (pending ?tx) = length out - ?N" by (metis length_drop length_map)
    have "msg_of (pending ?tx ! (i - ?N)) = map msg_of (pending ?tx) ! (i - ?N)" using len False assms(2) by simp
    also have "\<dots> = out ! i" unfolding p using False assms(2) by simp
    finally have "msg_of (pending ?tx ! (i - ?N)) = out ! i" .
    moreover have "i - ?N < length out - ?N" using False assms(2) by (simp add: diff_less_mono)
    ultimately have "queued ?tx i (out ! i)" using False len by (simp add: queued_def)
    then show ?thesis ..
  next
    case True
    have ui: "unat (word_of_nat i :: u32) = i" using b assms(2) by (simp add: unsigned_of_nat take_bit_nat_eq_self)
    show ?thesis
    proof (cases "i + length (ring ?tx) < ?N")
      case True
      then show ?thesis using ro ui by (simp add: ring_ok_def)
    next
      case False
      let ?sl = "ring ?tx ! (i - (?N - length (ring ?tx)))"
      have c: "contiguous ?N (ring ?tx)" using ro by (simp add: ring_ok_def)
      have j: "i - (?N - length (ring ?tx)) < length (ring ?tx)" using True False c by (auto simp: contiguous_def)
      have sq: "unat (sl_seq ?sl) = i" using contiguous_nth [OF c j] False by simp
      have mem: "?sl \<in> set (ring ?tx)" using j by simp
      then have g: "slot_good out (received (rx_side s)) ?sl" "sacked ?sl \<longrightarrow> sl_seq ?sl \<in> Rp" "slot_timed ?tx ?sl"
        using ro t by (simp_all add: ring_ok_def tx_inv_def timed_def)
      show ?thesis
      proof (cases "sacked ?sl")
        case True
        moreover have "sl_seq ?sl = word_of_nat i" using sq ui by (simp add: word_unat_eq_iff)
        ultimately show ?thesis using g(2) by simp
      next
        case False
        then have "sl_timer ?sl \<in> fst ` live (timers ?tx)" using g(3) by (simp add: slot_timed_def)
        moreover have "\<exists>p. decode (datagram ?sl) = Inr p \<and> p_seq p = sl_seq ?sl \<and> (p_cls p, p_payload p) = out ! i"
          using g(1) sq by (auto simp: slot_good_def fair_def data_ok_def)
        ultimately show ?thesis using mem sq False unfolding in_flight_copy_def by blast
      qed
    qed
  qed
qed

section \<open>Properties\<close>

text \<open>C1: In-order, exactly-once delivery of the ordered class, end to end. In every run of two sessions over the simulator, with any
  loss, duplication, delay, reordering, third parties and interleaving of sends, polls, ticks and pauses, the ordered messages handed to
  the receiving application are a prefix of the ordered messages accepted by the sender, in the same order, each once.\<close>

theorem ordered_delivery_in_order:
  assumes "sim_run ea eb ca cb seed i y" "ea \<noteq> eb" "config_ok ca" "config_ok cb"
  shows "prefix (of_class ReliableOrdered (app_log (rx_side (pb y)))) (of_class ReliableOrdered (acc_a y))"
  using ordered_prefix [of "acc_a y" "rx_side (pb y)"] sim_run_sess [OF assms] by (simp add: sess_inv_def)

text \<open>C3: At-most-once delivery of the unordered reliable class, end to end: as multisets, the messages of that class handed to the
  receiving application are among those accepted by the sender; none is invented, altered or delivered twice.\<close>

theorem unordered_delivery_at_most_once:
  assumes "sim_run ea eb ca cb seed i y" "ea \<noteq> eb" "config_ok ca" "config_ok cb"
  shows "mset (of_class ReliableUnordered (app_log (rx_side (pb y)))) \<subseteq># mset (of_class ReliableUnordered (acc_a y))"
  using unordered_subset [of "acc_a y" "rx_side (pb y)"] sim_run_sess [OF assms] by (simp add: sess_inv_def)

text \<open>C2: Nothing accepted is lost. At every moment of every run, each reliable message for which \<open>send\<close> returned true is still
  queued, or is in flight as a stored datagram that decodes to it and whose retransmission timer is live, or has been received by the
  peer.\<close>

theorem accepted_message_never_lost:
  assumes "sim_run ea eb ca cb seed i y" "ea \<noteq> eb" "config_ok ca" "config_ok cb" "k < length (acc_a y)"
  shows "queued (tx_side (pa y)) k (acc_a y ! k) \<or> in_flight_copy (tx_side (pa y)) k (acc_a y ! k)
    \<or> word_of_nat k \<in> received (rx_side (pb y))"
  using accepted_somewhere [OF conjunct1 [OF sim_run_sess [OF assms(1-4)]] assms(5)] .

text \<open>C5: Every buffer of a session is bounded by the configured window: packets in flight, queued messages, and the receive buffer
  including the payloads held for reassembly (no overflow). The receive buffer is empty while the application is consuming.\<close>

theorem session_buffers_bounded:
  assumes "sim_run ea eb ca cb seed i y" "ea \<noteq> eb" "config_ok ca" "config_ok cb"
  shows "length (ring (tx_side (pa y))) \<le> unat (window_pkts (cfg (pa y))) \<and> length (pending (tx_side (pa y))) \<le> unat (window_pkts (cfg (pa y)))
    \<and> rcv_occupancy (rx_side (pb y)) \<le> unat (window_pkts (cfg (pb y)))
    \<and> (if app_ready (rx_side (pb y)) then rcv_buf (rx_side (pb y)) = [] else True)"
  using sim_run_sess [OF assms] by (auto simp: sess_inv_def tx_inv_def rx_inv_def rx_struct_def)

text \<open>C4: \<^verbatim>\<open>tick\<close> always returns: from every reachable state its loop over the expired timers ends. Afterwards the persist timer is
  armed exactly when the zero-window deadlock threatens (messages queued, the peer's window closed, nothing in flight).\<close>

theorem tick_returns:
  assumes "sim_run ea eb ca cb seed i y" "ea \<noteq> eb" "config_ok ca" "config_ok cb"
  shows "\<exists>s' n'. tick (sim_transport ea) (pa y) (net y) = Some (s', n') \<and> persist_active (tx_side s') = persist_needed (tx_side s')"
  by (rule pair.pair_tick [OF sim_run_inv [OF assms]])

section \<open>A run\<close>

abbreviation host :: "u32 \<Rightarrow> Endpoint" where
  "host a \<equiv> \<lparr>addr_be = a, port_be = 9\<rparr>"

abbreviation lossy :: Impairments where
  "lossy \<equiv> \<lparr>imp_loss = 1 / 10, imp_dup = 1 / 20, imp_delay = 15, imp_jitter = 10\<rparr>"

abbreviation demo_run :: "SimNet Pair \<Rightarrow> bool" where
  "demo_run \<equiv> sim_run (host 1) (host 2) default_config default_config 7 lossy"

lemma default_config_ok: "config_ok default_config"
  by (simp add: config_ok_def default_config_def kMaxRto_def)

lemma hosts_differ: "host 1 \<noteq> host 2"
  by simp

lemma send_accepts:
  assumes "c \<noteq> Unreliable" "length d \<le> unat (mtu_payload (cfg s))" "length d \<le> 1171"
    "length (pending (tx_side s)) < unat (window_pkts (cfg s))"
  shows "fst (send T c d s n)"
  using assms by (auto simp: send_def Let_def kMaxDatagram_def kBaseHeaderSize_def kSackSize_def split: prod.split)

lemma first_send:
  "\<exists>y. pair_reach UA UB TA TB env (start_pair ea eb default_config default_config n) y \<and> acc_a y = [(ReliableOrdered, [42])]"
proof -
  let ?y = "start_pair ea eb default_config default_config n"
  obtain ok s' n' where s: "send TA ReliableOrdered [42] (pa ?y) (net ?y) = (ok, s', n')"
    by (metis prod_cases3)
  have "ok" using send_accepts [of ReliableOrdered "[42]" "pa ?y" TA "net ?y"] s
    by (simp add: start_pair_def set_on_message_def new_session_def default_config_def new_send_side_def)
  then have "side_step UA TA (pa ?y, net ?y, acc_a ?y) (s', n', [(ReliableOrdered, [42])])"
    using side_step.send [OF _ s, of UA "acc_a ?y"] by (simp add: start_pair_def)
  then have "pair_step UA UB TA TB env ?y (?y\<lparr>pa := s', net := n', acc_a := [(ReliableOrdered, [42])]\<rparr>)"
    by (rule pair_step.side_a) simp
  then have "pair_reach UA UB TA TB env ?y (?y\<lparr>pa := s', net := n', acc_a := [(ReliableOrdered, [42])]\<rparr>)"
    by (rule pair_reach.step [OF pair_reach.start])
  moreover have "acc_a (?y\<lparr>pa := s', net := n', acc_a := [(ReliableOrdered, [42])]\<rparr>) = [(ReliableOrdered, [42])]" by simp
  ultimately show ?thesis by blast
qed

lemma demo_send: "\<exists>y. demo_run y \<and> acc_a y = [(ReliableOrdered, [42])]"
  unfolding sim_run_def sim_run_with_def by (rule first_send)

theorem ordered_delivery_in_order_witness:
  "\<exists>y. demo_run y \<and> host 1 \<noteq> host 2 \<and> config_ok default_config \<and> acc_a y = [(ReliableOrdered, [42])]
     \<and> prefix (of_class ReliableOrdered (app_log (rx_side (pb y)))) [(ReliableOrdered, [42])]"
proof -
  obtain y where y: "demo_run y" "acc_a y = [(ReliableOrdered, [42])]" using demo_send by blast
  from ordered_delivery_in_order [OF y(1) hosts_differ default_config_ok default_config_ok] y
  show ?thesis using default_config_ok by (intro exI [of _ y]) (simp add: of_class_def)
qed

theorem unordered_delivery_at_most_once_witness:
  "\<exists>y. demo_run y \<and> host 1 \<noteq> host 2 \<and> config_ok default_config \<and> acc_a y = [(ReliableOrdered, [42])]
     \<and> mset (of_class ReliableUnordered (app_log (rx_side (pb y)))) = {#}"
proof -
  obtain y where y: "demo_run y" "acc_a y = [(ReliableOrdered, [42])]" using demo_send by blast
  from unordered_delivery_at_most_once [OF y(1) hosts_differ default_config_ok default_config_ok] y
  show ?thesis using default_config_ok by (intro exI [of _ y]) (simp add: of_class_def)
qed

theorem accepted_message_never_lost_witness:
  "\<exists>y. demo_run y \<and> host 1 \<noteq> host 2 \<and> config_ok default_config \<and> 0 < length (acc_a y)
     \<and> (queued (tx_side (pa y)) 0 (ReliableOrdered, [42]) \<or> in_flight_copy (tx_side (pa y)) 0 (ReliableOrdered, [42])
        \<or> 0 \<in> received (rx_side (pb y)))"
proof -
  obtain y where y: "demo_run y" "acc_a y = [(ReliableOrdered, [42])]" using demo_send by blast
  have "0 < length (acc_a y)" using y(2) by simp
  from accepted_message_never_lost [OF y(1) hosts_differ default_config_ok default_config_ok this] y
  show ?thesis using default_config_ok by (intro exI [of _ y]) simp
qed

theorem session_buffers_bounded_witness:
  "\<exists>y. demo_run y \<and> host 1 \<noteq> host 2 \<and> config_ok default_config
     \<and> length (ring (tx_side (pa y))) \<le> unat (window_pkts (cfg (pa y)))"
proof -
  obtain y where y: "demo_run y" "acc_a y = [(ReliableOrdered, [42])]" using demo_send by blast
  from session_buffers_bounded [OF y(1) hosts_differ default_config_ok default_config_ok] y
  show ?thesis using default_config_ok by (intro exI [of _ y]) simp
qed

theorem tick_returns_witness:
  "\<exists>y s' n'. demo_run y \<and> host 1 \<noteq> host 2 \<and> config_ok default_config
     \<and> tick (sim_transport (host 1)) (pa y) (net y) = Some (s', n')"
proof -
  obtain y where y: "demo_run y" "acc_a y = [(ReliableOrdered, [42])]" using demo_send by blast
  from tick_returns [OF y(1) hosts_differ default_config_ok default_config_ok] y
  show ?thesis using default_config_ok by auto
qed

end
