(* ===== verification/Session_Rules.thy ===== *)
theory Session_Rules
  imports Session_Receiver Session_Sender
begin

text \<open>
  Rules of the send side that concern single operations: the ordering of window updates, Karn's rule for round-trip samples, and the
  condition for a fast retransmission.
\<close>

section \<open>Generations of acknowledgements\<close>

text \<open>The number that a peer's \<open>g\<close>-th standalone acknowledgement carries: 32 bits, counted from 1, with 0 left out when it wraps.\<close>

definition ack_gen :: "nat \<Rightarrow> u32" where
  "ack_gen g = word_of_nat (g mod (2 ^ 32 - 1) + 1)"

lemma unat_ack_gen: "unat (ack_gen g) = g mod (2 ^ 32 - 1) + 1"
proof -
  have "g mod (2 ^ 32 - 1) < 2 ^ 32 - 1" by (rule mod_less_divisor) simp
  then show ?thesis by (simp add: ack_gen_def unsigned_of_nat take_bit_nat_eq_self del: of_nat_Suc of_nat_add)
qed

lemma ack_gen_nonzero [simp]: "ack_gen g \<noteq> 0"
  using unat_ack_gen [of g] by auto

text \<open>This is how \<^verbatim>\<open>send_ack\<close> numbers them.\<close>

lemma ack_gen_first: "next_ack_seq (new_recv_side c) = ack_gen 0"
  by (simp add: new_recv_side_def ack_gen_def)

lemma ack_gen_Suc: "ack_gen (Suc g) = (if ack_gen g + 1 = 0 then 1 else ack_gen g + 1)"
proof (cases "Suc (g mod (2 ^ 32 - 1)) = 2 ^ 32 - 1")
  case True
  then have "ack_gen g + 1 = 0" "ack_gen (Suc g) = 1" by (simp_all add: ack_gen_def mod_Suc)
  then show ?thesis by simp
next
  case False
  have "g mod (2 ^ 32 - 1) < 2 ^ 32 - 1" by (rule mod_less_divisor) simp
  then have "g mod (2 ^ 32 - 1) + 2 < 2 ^ 32" using False by simp
  then have u: "unat (ack_gen g + 1) = g mod (2 ^ 32 - 1) + 2"
    by (simp add: unat_word_ariths unat_ack_gen)
  then have "ack_gen g + 1 \<noteq> 0" by auto
  moreover have "ack_gen (Suc g) = ack_gen g + 1"
    using False by (intro word_unat_eq_iff [THEN iffD2]) (simp add: u unat_ack_gen mod_Suc)
  ultimately show ?thesis by simp
qed

lemma ack_gen_send_ack:
  assumes "next_ack_seq r = ack_gen g"
  shows "next_ack_seq (fst (send_ack T dest r n)) = ack_gen (Suc g)"
  using assms by (simp add: send_ack_def Let_def ack_gen_Suc split: prod.split)

lemma mod_add_small: "d < N \<Longrightarrow> (m + d) mod N = (if m mod N + d < N then m mod N + d else m mod N + d - N)"
  for m d N :: nat
proof -
  assume "d < N"
  then have "m mod N + d - N < N" using mod_less_divisor [of N m] by linarith
  moreover have "(m + d) mod N = (m mod N + d) mod N" by (simp add: mod_add_left_eq)
  ultimately show ?thesis by (cases "m mod N + d < N") (simp_all add: le_mod_geq)
qed

text \<open>Within half the range the circular comparison tells which of two acknowledgements is the newer one, also across the wrap.\<close>

lemma serial_ack_gen:
  assumes "g < m + (2 ^ 31 - 1)" "m < g + (2 ^ 31 - 1)"
  shows "serial_after (ack_gen g) (ack_gen m) \<longleftrightarrow> m < g"
proof -
  define N :: nat where "N = 2 ^ 32 - 1"
  let ?d = "ack_gen g - ack_gen m"
  have N: "N = 4294967295" by (simp add: N_def)
  have near: "g < m + 2147483647" "m < g + 2147483647" using assms by simp_all
  have u: "unat (ack_gen k) = k mod N + 1" for k by (simp add: unat_ack_gen N_def)
  have lt: "k mod N < N" for k by (rule mod_less_divisor) (simp add: N_def)
  have d: "unat ?d = (if m mod N \<le> g mod N then g mod N - m mod N else 4294967296 - (m mod N - g mod N))"
    using lt [of m] lt [of g] N by (simp add: unat_sub_if' u)
  have sa: "serial_after (ack_gen g) (ack_gen m) \<longleftrightarrow> unat ?d \<noteq> 0 \<and> unat ?d < 2147483648"
    by (simp add: serial_after_def Let_def word_less_nat_alt unat_eq_0)
  show ?thesis
  proof (cases "m \<le> g")
    case True
    have md: "g mod N = (if m mod N + (g - m) < N then m mod N + (g - m) else m mod N + (g - m) - N)"
      using mod_add_small [of "g - m" N m] True near N by simp
    show ?thesis
    proof (cases "m mod N + (g - m) < N")
      case True
      then have "unat ?d = g - m" using d md by simp
      then show ?thesis unfolding sa using near by linarith
    next
      case False
      then have "unat ?d = g - m + 1" "g \<noteq> m" using d md lt [of m] N near by auto
      then show ?thesis unfolding sa using near True by linarith
    qed
  next
    case False
    have md: "m mod N = (if g mod N + (m - g) < N then g mod N + (m - g) else g mod N + (m - g) - N)"
      using mod_add_small [of "m - g" N g] False near N by simp
    have "2147483648 \<le> unat ?d"
    proof (cases "g mod N + (m - g) < N")
      case True
      then show ?thesis using d md near False by (simp split: if_splits)
    next
      case ge: False
      then have "m mod N \<le> g mod N" "g mod N - m mod N = N - (m - g)" using md near N False lt [of g] by auto
      then show ?thesis using d near N by simp
    qed
    then show ?thesis unfolding sa using False by linarith
  qed
qed

lemma serial_generation:
  assumes "g < 2 ^ 31 - 1" "m < 2 ^ 31 - 1"
  shows "serial_after (word_of_nat (Suc g)) (word_of_nat (Suc m)) \<longleftrightarrow> m < g"
  using serial_ack_gen [of g m] assms by (simp add: ack_gen_def del: of_nat_Suc)

section \<open>Window updates\<close>

text \<open>
  What the sender hears from its peer after some point: standalone acknowledgements, named by their generation, and other packets that
  carry the same fields. \<open>acks\<close> are the peer's standalone acknowledgements; their cumulative part never decreases from one generation to
  the next.
\<close>

datatype heard = Standalone nat | Other Packet

definition numbered_acks :: "(nat \<Rightarrow> Packet) \<Rightarrow> bool" where
  "numbered_acks acks \<longleftrightarrow> (\<forall>g. p_type (acks g) = PT_Ack \<and> p_seq (acks g) = ack_gen g)
     \<and> (\<forall>g h. g \<le> h \<longrightarrow> p_cum_ack (acks g) \<le> p_cum_ack (acks h))"

fun heard_packet :: "(nat \<Rightarrow> Packet) \<Rightarrow> heard \<Rightarrow> Packet" where
  "heard_packet acks (Standalone g) = acks g"
| "heard_packet acks (Other p) = p"

fun generations :: "heard list \<Rightarrow> nat list" where
  "generations [] = []"
| "generations (Standalone g # hs) = g # generations hs"
| "generations (Other p # hs) = generations hs"

text \<open>The highest cumulative acknowledgement, and the standalone acknowledgements newer than \<open>b\<close> that carry it.\<close>

definition top_ack :: "(nat \<Rightarrow> Packet) \<Rightarrow> SendSide \<Rightarrow> heard list \<Rightarrow> u32" where
  "top_ack acks s hs = foldl (\<lambda>c h. max c (p_cum_ack (heard_packet acks h))) (last_ack s) hs"

definition decisive :: "(nat \<Rightarrow> Packet) \<Rightarrow> nat \<Rightarrow> SendSide \<Rightarrow> heard list \<Rightarrow> nat list" where
  "decisive acks b s hs =
     filter (\<lambda>g. (ack_seq_initialized s \<longrightarrow> b < g) \<and> p_cum_ack (acks g) = top_ack acks s hs) (generations hs)"

text \<open>
  The sender stands at generation \<open>b\<close> when the newest acknowledgement that it applied, if any, is that one. All acknowledgements under way
  are within half the range of the generation counter of each other.
\<close>

definition stands_at :: "(nat \<Rightarrow> Packet) \<Rightarrow> nat \<Rightarrow> SendSide \<Rightarrow> bool" where
  "stands_at acks b s \<longleftrightarrow> (ack_seq_initialized s \<longrightarrow> last_ack_seq s = ack_gen b \<and> p_cum_ack (acks b) \<le> last_ack s)"

definition half_range :: "nat \<Rightarrow> heard list \<Rightarrow> bool" where
  "half_range b hs \<longleftrightarrow> (\<forall>g\<in>set (b # generations hs). \<forall>h\<in>set (b # generations hs). g < h + (2 ^ 31 - 1))"

definition updates :: "(nat \<Rightarrow> Packet) \<Rightarrow> SendSide \<Rightarrow> heard list \<Rightarrow> SendSide" where
  "updates acks s hs = foldl (\<lambda>s h. process_window_update (heard_packet acks h) s) s hs"

lemma top_ack_snoc: "top_ack acks s (hs @ [h]) = max (top_ack acks s hs) (p_cum_ack (heard_packet acks h))"
  by (simp add: top_ack_def)

lemma top_ack_ge: "last_ack s \<le> top_ack acks s hs"
  by (induction hs rule: rev_induct) (auto simp: top_ack_snoc le_max_iff_disj, simp add: top_ack_def)

lemma top_ack_bound: "h \<in> set hs \<Longrightarrow> p_cum_ack (heard_packet acks h) \<le> top_ack acks s hs"
  by (induction hs rule: rev_induct) (auto simp: top_ack_snoc le_max_iff_disj)

lemma generations_append [simp]: "generations (xs @ ys) = generations xs @ generations ys"
  by (induction xs rule: generations.induct) simp_all

lemma generations_heard: "g \<in> set (generations hs) \<longleftrightarrow> Standalone g \<in> set hs"
  by (induction hs rule: generations.induct) auto

lemma generation_bound: "g \<in> set (generations hs) \<Longrightarrow> p_cum_ack (acks g) \<le> top_ack acks s hs"
  using top_ack_bound [of "Standalone g"] by (simp add: generations_heard)

text \<open>The first packet heard with the highest cumulative acknowledgement, when that has moved.\<close>

definition first_at :: "(nat \<Rightarrow> Packet) \<Rightarrow> SendSide \<Rightarrow> heard list \<Rightarrow> Packet" where
  "first_at acks s hs = hd (filter (\<lambda>p. p_cum_ack p = top_ack acks s hs) (map (heard_packet acks) hs))"

lemma top_ack_attained: "last_ack s < top_ack acks s hs \<Longrightarrow> \<exists>h\<in>set hs. p_cum_ack (heard_packet acks h) = top_ack acks s hs"
  by (induction hs rule: rev_induct) (auto simp: top_ack_snoc max_def top_ack_def split: if_splits)

lemma first_at_snoc:
  assumes "last_ack s < top_ack acks s (hs @ [h])"
  shows "first_at acks s (hs @ [h]) =
    (if top_ack acks s hs < p_cum_ack (heard_packet acks h) then heard_packet acks h else first_at acks s hs)"
proof (cases "top_ack acks s hs < p_cum_ack (heard_packet acks h)")
  case True
  then have "filter (\<lambda>p. p_cum_ack p = p_cum_ack (heard_packet acks h)) (map (heard_packet acks) hs) = []"
    using top_ack_bound [of _ hs acks s] by (force simp: filter_empty_conv)
  then show ?thesis using True by (simp add: first_at_def top_ack_snoc max_def del: filter_map)
next
  case False
  then have t: "top_ack acks s (hs @ [h]) = top_ack acks s hs" by (simp add: top_ack_snoc max_def)
  have "filter (\<lambda>p. p_cum_ack p = top_ack acks s hs) (map (heard_packet acks) hs) \<noteq> []"
    using top_ack_attained [of s acks hs] assms t by (auto simp: filter_empty_conv)
  then show ?thesis using False t by (simp add: first_at_def hd_append)
qed

text \<open>What the sender's fields say after it has heard \<open>hs\<close>, starting from \<open>s0\<close>.\<close>

definition window_undecided :: "(nat \<Rightarrow> Packet) \<Rightarrow> nat \<Rightarrow> SendSide \<Rightarrow> heard list \<Rightarrow> SendSide \<Rightarrow> bool" where
  "window_undecided acks b s0 hs s \<longleftrightarrow>
     (ack_seq_initialized s0 \<longrightarrow> ack_seq_initialized s)
     \<and> (ack_seq_initialized s \<longrightarrow> (\<exists>m\<in>set (b # generations hs). last_ack_seq s = ack_gen m
          \<and> (m = b \<and> ack_seq_initialized s0 \<or> (ack_seq_initialized s0 \<longrightarrow> b < m) \<and> p_cum_ack (acks m) < top_ack acks s0 hs)))
     \<and> peer_adv_window s = (if last_ack s0 < top_ack acks s0 hs then p_adv_window (first_at acks s0 hs) else peer_adv_window s0)"

definition window_decided :: "(nat \<Rightarrow> Packet) \<Rightarrow> nat \<Rightarrow> SendSide \<Rightarrow> bool" where
  "window_decided acks g s \<longleftrightarrow> ack_seq_initialized s \<and> last_ack_seq s = ack_gen g \<and> peer_adv_window s = p_adv_window (acks g)"

definition window_inv :: "(nat \<Rightarrow> Packet) \<Rightarrow> nat \<Rightarrow> SendSide \<Rightarrow> heard list \<Rightarrow> SendSide \<Rightarrow> bool" where
  "window_inv acks b s0 hs s \<longleftrightarrow> last_ack s = top_ack acks s0 hs \<and>
     (if decisive acks b s0 hs = [] then window_undecided acks b s0 hs s else window_decided acks (Max (set (decisive acks b s0 hs))) s)"

lemma decisiveD:
  assumes "g \<in> set (decisive acks b s0 hs)"
  shows "g \<in> set (generations hs)" "ack_seq_initialized s0 \<Longrightarrow> b < g" "p_cum_ack (acks g) = top_ack acks s0 hs"
  using assms by (auto simp: decisive_def)

lemma Max_decisive: "decisive acks b s0 hs \<noteq> [] \<Longrightarrow> Max (set (decisive acks b s0 hs)) \<in> set (decisive acks b s0 hs)"
  by (rule Max_in) simp_all

text \<open>A packet whose cumulative acknowledgement is behind changes nothing.\<close>

lemma window_stale:
  assumes "window_inv acks b s0 hs s" "p_cum_ack (heard_packet acks h) < top_ack acks s0 hs"
  shows "window_inv acks b s0 (hs @ [h]) (process_window_update (heard_packet acks h) s)"
proof -
  have t: "top_ack acks s0 (hs @ [h]) = top_ack acks s0 hs" using assms(2) by (simp add: top_ack_snoc max.absorb1 less_imp_le)
  have d: "decisive acks b s0 (hs @ [h]) = decisive acks b s0 hs" unfolding decisive_def t using assms(2) by (cases h) auto
  have s: "process_window_update (heard_packet acks h) s = s" using assms by (simp add: process_window_update_def window_inv_def)
  have f: "last_ack s0 < top_ack acks s0 hs \<Longrightarrow> first_at acks s0 (hs @ [h]) = first_at acks s0 hs"
    using first_at_snoc [of s0 acks hs h] assms(2) by (simp add: t)
  show ?thesis using assms(1) unfolding window_inv_def d t s window_undecided_def by (auto simp: f)
qed

text \<open>One that moves it forward decides the window, and sets the generation when it is a standalone acknowledgement.\<close>

lemma window_advance:
  assumes "numbered_acks acks" "stands_at acks b s0" "\<And>p. h = Other p \<Longrightarrow> p_type p \<noteq> PT_Ack" "window_inv acks b s0 hs s"
    and adv: "top_ack acks s0 hs < p_cum_ack (heard_packet acks h)"
  shows "window_inv acks b s0 (hs @ [h]) (process_window_update (heard_packet acks h) s)"
proof -
  let ?p = "heard_packet acks h" let ?c = "p_cum_ack ?p"
  have t: "top_ack acks s0 (hs @ [h]) = ?c" using adv by (simp add: top_ack_snoc max.absorb2 less_imp_le)
  have la: "last_ack s = top_ack acks s0 hs" using assms(4) by (simp add: window_inv_def)
  have c0: "last_ack s0 < ?c" using top_ack_ge adv by (rule le_less_trans)
  have old: "p_cum_ack (acks g) < ?c" if "g \<in> set (generations hs)" for g
    using generation_bound [OF that, of acks s0] adv by (rule le_less_trans)
  have none: "filter (\<lambda>g. (ack_seq_initialized s0 \<longrightarrow> b < g) \<and> p_cum_ack (acks g) = ?c) (generations hs) = []"
    using old by (fastforce simp: filter_empty_conv)
  show ?thesis
  proof (cases h)
    case (Standalone g)
    have nw: "b < g" if "ack_seq_initialized s0"
    proof (rule ccontr)
      assume "\<not> b < g"
      then have "p_cum_ack (acks g) \<le> p_cum_ack (acks b)" using assms(1) by (simp add: numbered_acks_def)
      also have "\<dots> \<le> last_ack s0" using assms(2) that by (simp add: stands_at_def)
      finally show False using c0 Standalone by simp
    qed
    have "decisive acks b s0 (hs @ [h]) = [g]" unfolding decisive_def t using none nw Standalone by simp
    moreover have "p_type (acks g) = PT_Ack" "p_seq (acks g) = ack_gen g" using assms(1) by (simp_all add: numbered_acks_def)
    moreover have "\<not> p_cum_ack (acks g) < top_ack acks s0 hs" using adv Standalone by (simp add: not_less less_imp_le)
    ultimately show ?thesis using adv t la Standalone
      by (simp add: window_inv_def window_decided_def process_window_update_def Let_def)
  next
    case (Other p)
    have d: "decisive acks b s0 (hs @ [h]) = []" unfolding decisive_def t using none Other by simp
    have s: "process_window_update ?p s = s\<lparr>peer_adv_window := p_adv_window p, last_ack := p_cum_ack p\<rparr>"
      using adv la assms(3) [OF Other] Other by (auto simp: process_window_update_def)
    have f: "first_at acks s0 (hs @ [h]) = p" using first_at_snoc [of s0 acks hs h] adv c0 t Other by simp
    have m: "(ack_seq_initialized s0 \<longrightarrow> ack_seq_initialized s) \<and>
      (ack_seq_initialized s \<longrightarrow> (\<exists>m\<in>set (b # generations hs). last_ack_seq s = ack_gen m
          \<and> (m = b \<and> ack_seq_initialized s0 \<or> (ack_seq_initialized s0 \<longrightarrow> b < m) \<and> p_cum_ack (acks m) < ?c)))"
    proof (cases "decisive acks b s0 hs = []")
      case True
      then have "window_undecided acks b s0 hs s" using assms(4) by (simp add: window_inv_def)
      then show ?thesis using adv unfolding window_undecided_def by (meson less_trans)
    next
      case False
      then have "window_decided acks (Max (set (decisive acks b s0 hs))) s" using assms(4) by (simp add: window_inv_def)
      then show ?thesis using decisiveD [OF Max_decisive [OF False]] old by (auto simp: window_decided_def)
    qed
    show ?thesis using m c0 unfolding window_inv_def d window_undecided_def s t f by (auto simp: Other)
  qed
qed

text \<open>Among packets with the same cumulative acknowledgement only a newer generation counts.\<close>

lemma window_level:
  assumes "numbered_acks acks" "\<And>p. h = Other p \<Longrightarrow> p_type p \<noteq> PT_Ack" "half_range b (hs @ [h])" "window_inv acks b s0 hs s"
    and level: "p_cum_ack (heard_packet acks h) = top_ack acks s0 hs"
  shows "window_inv acks b s0 (hs @ [h]) (process_window_update (heard_packet acks h) s)"
proof -
  have t: "top_ack acks s0 (hs @ [h]) = top_ack acks s0 hs" using level by (simp add: top_ack_snoc)
  have la: "last_ack s = top_ack acks s0 hs" using assms(4) by (simp add: window_inv_def)
  have f: "last_ack s0 < top_ack acks s0 hs \<Longrightarrow> first_at acks s0 (hs @ [h]) = first_at acks s0 hs"
    using first_at_snoc [of s0 acks hs h] level by (simp add: t)
  show ?thesis
  proof (cases h)
    case (Other p)
    have d: "decisive acks b s0 (hs @ [h]) = decisive acks b s0 hs" unfolding decisive_def t using Other by simp
    have s: "process_window_update (heard_packet acks h) s = s"
      using assms(2) [OF Other] level la Other by (simp add: process_window_update_def)
    show ?thesis using assms(4) unfolding window_inv_def d t s window_undecided_def by (auto simp: f)
  next
    case (Standalone g)
    have pk: "p_type (acks g) = PT_Ack" "p_seq (acks g) = ack_gen g" "p_cum_ack (acks g) = top_ack acks s0 hs"
      using assms(1) level Standalone by (simp_all add: numbered_acks_def)
    have sa: "serial_after (ack_gen g) (ack_gen m) \<longleftrightarrow> m < g" if "m \<in> set (b # generations hs)" for m
      using assms(3) that Standalone by (intro serial_ack_gen) (auto simp: half_range_def)
    have d: "decisive acks b s0 (hs @ [h]) = decisive acks b s0 hs @ (if ack_seq_initialized s0 \<longrightarrow> b < g then [g] else [])"
      unfolding decisive_def t using pk Standalone by simp
    have upd: "process_window_update (acks g) s =
      (if \<not> ack_seq_initialized s \<or> serial_after (ack_gen g) (last_ack_seq s)
       then s\<lparr>peer_adv_window := p_adv_window (acks g), last_ack_seq := ack_gen g, ack_seq_initialized := True\<rparr> else s)"
      using pk la by (simp add: process_window_update_def)
    show ?thesis
    proof (cases "decisive acks b s0 hs = []")
      case True
      then have u: "window_undecided acks b s0 hs s" using assms(4) by (simp add: window_inv_def)
      show ?thesis
      proof (cases "\<not> ack_seq_initialized s \<or> serial_after (ack_gen g) (last_ack_seq s)")
        case acc: True
        have "ack_seq_initialized s0 \<longrightarrow> b < g"
        proof
          assume i0: "ack_seq_initialized s0"
          then have "ack_seq_initialized s" using u by (simp add: window_undecided_def)
          then obtain m where "m \<in> set (b # generations hs)" "last_ack_seq s = ack_gen m" "m = b \<or> b < m"
            using u i0 unfolding window_undecided_def by blast
          then show "b < g" using acc sa [of m] \<open>ack_seq_initialized s\<close> by auto
        qed
        then show ?thesis using acc upd d True la t Standalone by (simp add: window_inv_def window_decided_def)
      next
        case rej: False
        then obtain m where m: "m \<in> set (b # generations hs)" "last_ack_seq s = ack_gen m"
          "m = b \<and> ack_seq_initialized s0 \<or> p_cum_ack (acks m) < top_ack acks s0 hs"
          using u unfolding window_undecided_def by blast
        then have "g \<le> m" using rej sa [of m] by simp
        then have "p_cum_ack (acks g) \<le> p_cum_ack (acks m)" using assms(1) by (simp add: numbered_acks_def)
        then have "m = b" "ack_seq_initialized s0" using m(3) pk(3) by auto
        then have dd: "decisive acks b s0 (hs @ [h]) = []" using d True \<open>g \<le> m\<close> by simp
        have "window_undecided acks b s0 (hs @ [h]) s" using u unfolding window_undecided_def t by (auto simp: f)
        then show ?thesis using rej upd la t dd Standalone by (simp add: window_inv_def)
      qed
    next
      case False
      define m where "m = Max (set (decisive acks b s0 hs))"
      have w: "window_decided acks m s" using assms(4) False by (simp add: window_inv_def m_def)
      note D = decisiveD [OF Max_decisive [OF False], folded m_def]
      have q: "serial_after (ack_gen g) (last_ack_seq s) \<longleftrightarrow> m < g" using w sa [of m] D(1) by (simp add: window_decided_def)
      have mx: "Max (set (decisive acks b s0 (hs @ [h]))) = max m g"
      proof (cases "ack_seq_initialized s0 \<longrightarrow> b < g")
        case True
        then show ?thesis using False by (simp add: d m_def max.commute)
      next
        case ng: False
        then have "g < m" using D(2) by force
        then show ?thesis using ng by (simp add: d max.absorb1 flip: m_def)
      qed
      have "window_decided acks (max m g) (process_window_update (acks g) s)"
        using w q by (cases "m < g") (simp_all add: upd window_decided_def)
      moreover have "decisive acks b s0 (hs @ [h]) \<noteq> []" using False d by simp
      moreover have "last_ack (process_window_update (acks g) s) = last_ack s" by (simp add: upd)
      ultimately show ?thesis unfolding window_inv_def t mx by (simp add: la Standalone)
    qed
  qed
qed

lemma half_range_snoc: "half_range b (hs @ [h]) \<Longrightarrow> half_range b hs"
  by (simp add: half_range_def)

lemma window_updates:
  assumes "numbered_acks acks" "stands_at acks b s0" "\<And>p. Other p \<in> set hs \<Longrightarrow> p_type p \<noteq> PT_Ack" "half_range b hs"
  shows "window_inv acks b s0 hs (updates acks s0 hs)"
  using assms(3,4)
proof (induction hs rule: rev_induct)
  case Nil
  show ?case using assms(2) by (auto simp: window_inv_def decisive_def window_undecided_def top_ack_def updates_def stands_at_def)
next
  case (snoc h hs)
  have inv: "window_inv acks b s0 hs (updates acks s0 hs)" using snoc half_range_snoc by simp
  have u: "updates acks s0 (hs @ [h]) = process_window_update (heard_packet acks h) (updates acks s0 hs)" by (simp add: updates_def)
  have o: "\<And>p. h = Other p \<Longrightarrow> p_type p \<noteq> PT_Ack" using snoc.prems(1) by simp
  consider "p_cum_ack (heard_packet acks h) < top_ack acks s0 hs" | "top_ack acks s0 hs < p_cum_ack (heard_packet acks h)"
    | "p_cum_ack (heard_packet acks h) = top_ack acks s0 hs" by (rule linorder_cases)
  then show ?case unfolding u
    by cases (rule window_stale [OF inv], assumption, rule window_advance [OF assms(1,2) o inv], assumption+,
      rule window_level [OF assms(1) o snoc.prems(2) inv], assumption+)
qed

section \<open>Karn's rule\<close>

text \<open>A slot may give a round-trip sample when it was transmitted exactly once and has not given one yet.\<close>

definition unambiguous :: "Slot \<Rightarrow> bool" where
  "unambiguous sl \<longleftrightarrow> transmit_count sl = 1 \<and> \<not> rtt_sampled sl"

definition round_trip :: "time_point \<Rightarrow> Slot \<Rightarrow> millis" where
  "round_trip now sl = to_ms (now - send_time sl)"

text \<open>The slots that a selective acknowledgement newly covers.\<close>

definition newly_sacked :: "u32 \<Rightarrow> u64 \<Rightarrow> Slot \<Rightarrow> bool" where
  "newly_sacked ca bitmap sl \<longleftrightarrow>
     ca < sl_seq sl \<and> \<not> sacked sl \<and> sl_seq sl - ca - 1 < 64 \<and> bit bitmap (unat (sl_seq sl - ca - 1))"

lemma cum_ack_loop_sample:
  assumes "cum_ack_loop ca now l s a m = (s', a', m')"
  shows "rtt s' = rtt s \<and> m' = (case filter unambiguous (takeWhile (\<lambda>sl. sl_seq sl < ca) l) of
    [] \<Rightarrow> m | sl # sls \<Rightarrow> Some (round_trip now (last (sl # sls))))"
  using assms
proof (induction l arbitrary: s a m)
  case (Cons sl l)
  show ?case
  proof (cases "sl_seq sl < ca")
    case True
    from Cons.IH [OF Cons.prems(1) [unfolded cum_ack_loop.simps if_P [OF True]]] True show ?thesis
      by (auto simp: unambiguous_def round_trip_def split: list.splits)
  next
    case False
    then show ?thesis using Cons.prems by auto
  qed
qed auto

lemma process_cum_ack_rtt:
  "rtt (fst (process_cum_ack T ca s n)) =
    (case filter unambiguous (takeWhile (\<lambda>sl. sl_seq sl < ca) (ring s)) of
       [] \<Rightarrow> rtt s | sl # sls \<Rightarrow> rtt_sample (rtt s) (round_trip (fst (t_now T n)) (last (sl # sls))))"
proof -
  obtain now n1 where n: "t_now T n = (now, n1)" by fastforce
  obtain s1 a m where l: "cum_ack_loop ca now (ring s) s 0 None = (s1, a, m)" by (metis prod_cases3)
  show ?thesis using cum_ack_loop_sample [OF l] n l
    by (auto simp: process_cum_ack_def split: list.splits)
qed

definition mark_slot :: "u32 \<Rightarrow> u64 \<Rightarrow> Slot \<Rightarrow> Slot" where
  "mark_slot ca bitmap sl =
     (if newly_sacked ca bitmap sl then sl\<lparr>sacked := True, rtt_sampled := rtt_sampled sl \<or> unambiguous sl\<rparr> else sl)"

lemma sack_mark_loop_eq:
  assumes "sack_mark_loop ca bitmap now slots s a = (slots', s', a')"
  shows "slots' = map (mark_slot ca bitmap) slots
    \<and> rtt s' = foldl (\<lambda>r sl. rtt_sample r (round_trip now sl)) (rtt s) (filter (\<lambda>sl. newly_sacked ca bitmap sl \<and> unambiguous sl) slots)
    \<and> retransmit_count s' = retransmit_count s"
  using assms
proof (induction slots arbitrary: s a slots')
  case (Cons sl slots)
  obtain sl1 s1 a1 where m: "sack_mark ca bitmap now sl s a = (sl1, s1, a1)" by (metis prod_cases3)
  obtain rest where r: "sack_mark_loop ca bitmap now slots s1 a1 = (rest, s', a')" "slots' = sl1 # rest"
    using Cons.prems m by (auto split: prod.splits)
  have "sl1 = mark_slot ca bitmap sl \<and> retransmit_count s1 = retransmit_count s
    \<and> rtt s1 = (if newly_sacked ca bitmap sl \<and> unambiguous sl then rtt_sample (rtt s) (round_trip now sl) else rtt s)"
    using m unfolding sack_mark_eq
    by (cases sl) (auto simp: mark_slot_def newly_sacked_def unambiguous_def round_trip_def forget_def split: if_splits)
  then show ?case using Cons.IH [OF r(1)] r(2) by auto
qed simp

section \<open>Fast retransmission\<close>

text \<open>
  The indices of the slots due for a fast retransmission in a ring, once the selective acknowledgement is marked: neither acknowledged nor
  fast-retransmitted before, with at least three selectively acknowledged slots above.
\<close>

definition fast_due :: "u32 \<Rightarrow> u64 \<Rightarrow> Slot list \<Rightarrow> nat list" where
  "fast_due ca bitmap slots =
     filter (\<lambda>i. \<not> sacked (slots ! i) \<and> \<not> newly_sacked ca bitmap (slots ! i) \<and> \<not> fast_retransmitted (slots ! i)
        \<and> 3 \<le> length (filter (\<lambda>sl. sacked sl \<or> newly_sacked ca bitmap sl) (drop (Suc i) slots))) [0..<length slots]"

text \<open>Walking down from the newest slot, \<open>k\<close> selectively acknowledged slots have been passed.\<close>

definition walk_due :: "nat \<Rightarrow> Slot list \<Rightarrow> nat list" where
  "walk_due k l = filter (\<lambda>i. \<not> sacked (l ! i) \<and> \<not> fast_retransmitted (l ! i) \<and> 3 \<le> k + length (filter sacked (take i l))) [0..<length l]"

text \<open>Handing a slot's datagram to the transport, and reading the clock for the new timer.\<close>

definition resend :: "'n UdpTransport \<Rightarrow> Endpoint \<Rightarrow> 'n \<Rightarrow> Slot \<Rightarrow> 'n" where
  "resend T dest n sl = snd (t_now T (snd (t_send T dest (datagram sl) n)))"

text \<open>What a retransmission may change of a slot: only its timer besides the two fields named.\<close>

definition resent_slot :: "bool \<Rightarrow> Slot \<Rightarrow> Slot \<Rightarrow> bool" where
  "resent_slot d sl sl' \<longleftrightarrow> sl' = (if d then sl\<lparr>sl_timer := sl_timer sl', fast_retransmitted := True, transmit_count := transmit_count sl + 1\<rparr> else sl)"

lemma resent_fields:
  assumes "resent_slot d sl sl'"
  shows "sl_seq sl' = sl_seq sl" "sl_rto sl' = sl_rto sl" "send_time sl' = send_time sl" "datagram sl' = datagram sl" "sacked sl' = sacked sl"
    "rtt_sampled sl' = rtt_sampled sl" "fast_retransmitted sl' \<longleftrightarrow> fast_retransmitted sl \<or> d"
    "transmit_count sl' = transmit_count sl + (if d then 1 else 0)"
  using assms by (cases sl; cases sl'; auto simp: resent_slot_def split: if_splits)+

lemma mark_fields:
  "sl_seq (mark_slot ca bitmap sl) = sl_seq sl" "sl_rto (mark_slot ca bitmap sl) = sl_rto sl" "send_time (mark_slot ca bitmap sl) = send_time sl"
  "datagram (mark_slot ca bitmap sl) = datagram sl" "sacked (mark_slot ca bitmap sl) \<longleftrightarrow> sacked sl \<or> newly_sacked ca bitmap sl"
  "rtt_sampled (mark_slot ca bitmap sl) \<longleftrightarrow> rtt_sampled sl \<or> newly_sacked ca bitmap sl \<and> unambiguous sl"
  "fast_retransmitted (mark_slot ca bitmap sl) = fast_retransmitted sl" "transmit_count (mark_slot ca bitmap sl) = transmit_count sl"
  by (auto simp: mark_slot_def)

lemma walk_due_Cons:
  "walk_due k (sl # l) = (if \<not> sacked sl \<and> \<not> fast_retransmitted sl \<and> 3 \<le> k then [0] else [])
     @ map Suc (walk_due (if sacked sl then k + 1 else k) l)"
proof -
  have "[0..<length (sl # l)] = 0 # map Suc [0..<length l]" by (simp add: map_Suc_upt upt_conv_Cons del: upt_Suc)
  then show ?thesis by (simp add: walk_due_def filter_map comp_def)
qed

lemma fast_loop_eq:
  assumes "fast_loop T dest k l s n = (l', s', n')"
  shows "length l' = length l \<and> (\<forall>i<length l. resent_slot (i \<in> set (walk_due k l)) (l ! i) (l' ! i))
    \<and> n' = foldl (resend T dest) n (map ((!) l) (walk_due k l))
    \<and> rtt s' = rtt s \<and> retransmit_count s' = retransmit_count s + word_of_nat (length (walk_due k l))"
  using assms
proof (induction l arbitrary: k s n l')
  case Nil
  then show ?case by (simp add: walk_due_def)
next
  case (Cons sl l)
  let ?d = "\<not> sacked sl \<and> \<not> fast_retransmitted sl \<and> 3 \<le> k" and ?k = "if sacked sl then k + 1 else k"
  obtain sl1 s1 n1 rest where r: "fast_loop T dest ?k l s1 n1 = (rest, s', n')" "l' = sl1 # rest"
    and 1: "resent_slot ?d sl sl1" "n1 = (if ?d then resend T dest n sl else n)" "rtt s1 = rtt s"
      "retransmit_count s1 = retransmit_count s + (if ?d then 1 else 0)"
  proof (cases ?d)
    case True
    let ?s = "s\<lparr>congestion := loss (congestion s) (sl_seq sl) (next_seq s)\<rparr>"
    obtain sl1 s1 n1 where f: "fast_retransmit T dest sl ?s n = (sl1, s1, n1)" by (metis prod_cases3)
    have e: "resent_slot True sl sl1" "n1 = resend T dest n sl" "rtt s1 = rtt s" "retransmit_count s1 = retransmit_count s + 1"
      using f by (auto simp: fast_retransmit_def resent_slot_def resend_def Let_def split: prod.splits)
    obtain rest where "fast_loop T dest k l s1 n1 = (rest, s', n')" "l' = sl1 # rest"
      using Cons.prems f True by (auto split: prod.splits)
    then show ?thesis using that [of s1 n1 rest sl1] e True by simp
  next
    case False
    then obtain rest where "fast_loop T dest ?k l s n = (rest, s', n')" "l' = sl # rest"
      using Cons.prems by (auto split: prod.splits if_splits)
    then show ?thesis using that [of s n rest sl] False by (simp add: resent_slot_def)
  qed
  note IH = Cons.IH [OF r(1)]
  have "resent_slot (i \<in> set (walk_due k (sl # l))) ((sl # l) ! i) (l' ! i)" if "i < length (sl # l)" for i
    using that IH 1(1) r(2) by (cases i) (auto simp: walk_due_Cons image_iff)
  moreover have "n' = foldl (resend T dest) n (map ((!) (sl # l)) (walk_due k (sl # l)))"
    using IH 1(2) by (simp add: walk_due_Cons comp_def)
  ultimately show ?case using IH 1(3,4) r(2) by (simp add: walk_due_Cons)
qed

lemma rev_upt_flip: "rev (map (\<lambda>i. n - 1 - i) [0..<n]) = [0..<n]"
  by (rule nth_equalityI) (auto simp: rev_nth)

lemma fast_due_marked:
  "fast_due ca bitmap slots =
     filter (\<lambda>i. let R = map (mark_slot ca bitmap) slots in \<not> sacked (R ! i) \<and> \<not> fast_retransmitted (R ! i) \<and>
       3 \<le> length (filter sacked (drop (Suc i) R))) [0..<length slots]"
  unfolding fast_due_def by (rule filter_cong) (auto simp: mark_fields drop_map filter_map comp_def)

lemma walk_due_rev:
  assumes "R = map (mark_slot ca bitmap) slots"
  shows "walk_due 0 (rev R) = rev (map (\<lambda>i. length slots - 1 - i) (fast_due ca bitmap slots))"
proof -
  let ?n = "length slots" and ?f = "\<lambda>i. length slots - 1 - i"
  have n: "length R = ?n" using assms by simp
  have "walk_due 0 (rev R) = filter (\<lambda>i. \<not> sacked (rev R ! i) \<and> \<not> fast_retransmitted (rev R ! i) \<and>
      3 \<le> length (filter sacked (take i (rev R)))) (rev (map ?f [0..<?n]))"
    unfolding rev_upt_flip by (simp add: walk_due_def n)
  also have "\<dots> = rev (map ?f (filter (\<lambda>i. \<not> sacked (rev R ! ?f i) \<and> \<not> fast_retransmitted (rev R ! ?f i) \<and>
      3 \<le> length (filter sacked (take (?f i) (rev R)))) [0..<?n]))"
    by (simp add: filter_map comp_def flip: rev_filter)
  also have "filter (\<lambda>i. \<not> sacked (rev R ! ?f i) \<and> \<not> fast_retransmitted (rev R ! ?f i) \<and>
      3 \<le> length (filter sacked (take (?f i) (rev R)))) [0..<?n] = fast_due ca bitmap slots"
    unfolding fast_due_marked assms [symmetric] Let_def
    by (rule filter_cong) (auto simp: rev_nth n take_rev simp flip: rev_filter)
  finally show ?thesis .
qed

text \<open>The whole of \<^verbatim>\<open>process_sack\<close>.\<close>

lemma process_sack_eq:
  assumes "process_sack T dest ca bitmap s n = (s', n')"
  shows "length (ring s') = length (ring s)"
    and "i < length (ring s) \<Longrightarrow> resent_slot (i \<in> set (fast_due ca bitmap (ring s))) (mark_slot ca bitmap (ring s ! i)) (ring s' ! i)"
    and "n' = foldl (resend T dest) (snd (t_now T n)) (map ((!) (ring s)) (rev (fast_due ca bitmap (ring s))))"
    and "rtt s' = foldl (\<lambda>r sl. rtt_sample r (round_trip (fst (t_now T n)) sl)) (rtt s)
      (filter (\<lambda>sl. newly_sacked ca bitmap sl \<and> unambiguous sl) (ring s))"
    and "retransmit_count s' = retransmit_count s + word_of_nat (length (fast_due ca bitmap (ring s)))"
proof -
  let ?R = "map (mark_slot ca bitmap) (ring s)" and ?D = "fast_due ca bitmap (ring s)"
  obtain now n1 where n: "t_now T n = (now, n1)" by fastforce
  obtain R s1 a where m: "sack_mark_loop ca bitmap now (ring s) s 0 = (R, s1, a)" by (metis prod_cases3)
  let ?s1 = "s1\<lparr>congestion := acknowledge (congestion s1) a\<rparr>"
  obtain l' s2 n2 where f: "fast_loop T dest 0 (rev R) ?s1 n1 = (l', s2, n2)" by (metis prod_cases3)
  have e: "s' = s2\<lparr>ring := rev l'\<rparr>" "n' = n2" using assms n m f by (simp_all add: process_sack_def)
  note M = sack_mark_loop_eq [OF m] and F = fast_loop_eq [OF f]
  have R: "R = ?R" using M by simp
  note W = walk_due_rev [OF R]
  show len: "length (ring s') = length (ring s)" using F e R by simp
  have dat: "resend T dest k (mark_slot ca bitmap sl) = resend T dest k sl" for k sl by (simp add: resend_def mark_slot_def)
  have idx: "i < length (ring s)" if "i \<in> set ?D" for i using that by (simp add: fast_due_def)
  have flip: "rev R ! (length (ring s) - 1 - i) = mark_slot ca bitmap (ring s ! i)" if "i < length (ring s)" for i
    using that by (subst rev_nth) (auto simp: R)
  have "map ((!) (rev R)) (walk_due 0 (rev R)) = map (\<lambda>i. mark_slot ca bitmap (ring s ! i)) (rev ?D)"
    unfolding W rev_map map_map using idx flip by auto
  then show "n' = foldl (resend T dest) (snd (t_now T n)) (map ((!) (ring s)) (rev ?D))"
    using F e(2) n by (simp add: foldl_map dat)
  show "rtt s' = foldl (\<lambda>r sl. rtt_sample r (round_trip (fst (t_now T n)) sl)) (rtt s)
      (filter (\<lambda>sl. newly_sacked ca bitmap sl \<and> unambiguous sl) (ring s))" using F M e n by simp
  show "retransmit_count s' = retransmit_count s + word_of_nat (length ?D)"
    using F M e(1) arg_cong [OF W, of length] by simp
  assume i: "i < length (ring s)"
  let ?j = "length (ring s) - 1 - i"
  have d: "?j \<in> set (walk_due 0 (rev R)) \<longleftrightarrow> i \<in> set ?D"
  proof -
    have "?j = length (ring s) - 1 - k \<longleftrightarrow> i = k" if "k \<in> set ?D" for k using idx [OF that] i by auto
    then show ?thesis unfolding W by auto
  qed
  have l: "ring s' ! i = l' ! ?j" using i F R e(1) by (simp add: rev_nth)
  have "?j < length (rev R)" using i R by simp
  then have "resent_slot (?j \<in> set (walk_due 0 (rev R))) (rev R ! ?j) (l' ! ?j)" using F by blast
  then show "resent_slot (i \<in> set ?D) (mark_slot ca bitmap (ring s ! i)) (ring s' ! i)" unfolding d flip [OF i] l .
qed

section \<open>Properties\<close>

text \<open>C6: Which advertised window is in force. A sender that stands at generation \<open>b\<close> of its peer's standalone acknowledgements hears any
  selection of them, older and newer, in any order and with any repetitions, mixed with any other packets that carry acknowledgement fields; the
  generations may wrap, all within half the range of the counter. Then the window is the one of the newest standalone acknowledgement that
  carries the highest cumulative acknowledgement heard; when there is none of them it is the one of the first packet heard with that cumulative
  acknowledgement, and when that has not moved either it is unchanged: piggybacked fields with an equal or lower cumulative acknowledgement
  and stale or repeated acknowledgements neither close nor open the window.\<close>

theorem newest_window_in_force:
  assumes "numbered_acks acks" "stands_at acks b s" "half_range b hs" "list_all (\<lambda>h. case h of Standalone g \<Rightarrow> True | Other p \<Rightarrow> p_type p \<noteq> PT_Ack) hs"
  shows "peer_adv_window (foldl (\<lambda>s h. process_window_update (heard_packet acks h) s) s hs) =
    (if decisive acks b s hs \<noteq> [] then p_adv_window (acks (Max (set (decisive acks b s hs))))
     else if last_ack s < top_ack acks s hs then p_adv_window (first_at acks s hs)
     else peer_adv_window s)"
proof -
  have "window_inv acks b s hs (updates acks s hs)"
    by (rule window_updates [OF assms(1,2) _ assms(3)]) (use assms(4) in \<open>auto simp: list_all_iff\<close>)
  then show ?thesis by (auto simp: window_inv_def window_decided_def window_undecided_def updates_def)
qed

text \<open>A sender whose peer's generation counter is about to wrap: 4294967295 was applied last. It then hears 2, the stale 4294967294, 1, and a
  data packet that advertises 7.\<close>

definition demo_acks :: "nat \<Rightarrow> Packet" where
  "demo_acks g = empty_packet\<lparr>p_type := PT_Ack, p_seq := ack_gen g, p_adv_window := word_of_nat (g mod 3)\<rparr>"

definition demo_sender :: SendSide where
  "demo_sender = (new_send_side default_config)\<lparr>last_ack_seq := 4294967295, ack_seq_initialized := True\<rparr>"

definition demo_heard :: "heard list" where
  "demo_heard = [Standalone 4294967296, Standalone 4294967293, Standalone 4294967295, Other (empty_packet\<lparr>p_adv_window := 7\<rparr>)]"

theorem newest_window_in_force_witness:
  "map ack_gen [4294967293, 4294967294, 4294967295, 4294967296] = [4294967294, 4294967295, 1, 2]
   \<and> peer_adv_window (foldl (\<lambda>s h. process_window_update (heard_packet demo_acks h) s) demo_sender demo_heard) = 1"
proof -
  have a: "numbered_acks demo_acks" by (simp add: numbered_acks_def demo_acks_def empty_packet_def)
  have s: "stands_at demo_acks 4294967294 demo_sender"
    by (simp add: stands_at_def demo_sender_def demo_acks_def ack_gen_def empty_packet_def)
  have h: "half_range 4294967294 demo_heard" by (simp add: half_range_def demo_heard_def)
  have o: "list_all (\<lambda>h. case h of Standalone g \<Rightarrow> True | Other p \<Rightarrow> p_type p \<noteq> PT_Ack) demo_heard"
    by (simp add: demo_heard_def empty_packet_def PT_Ack_def)
  have d: "decisive demo_acks 4294967294 demo_sender demo_heard = [4294967296, 4294967295]"
    by (simp add: decisive_def demo_heard_def demo_sender_def top_ack_def demo_acks_def empty_packet_def new_send_side_def)
  show ?thesis using newest_window_in_force [OF a s h o] unfolding d
    by (simp add: demo_acks_def ack_gen_def)
qed

text \<open>C9: Karn's rule. The round-trip samples that reach the estimator of the retransmission timeout come only from packets transmitted exactly once
  that have not given a sample before. A cumulative acknowledgement gives at most one, that of the last such packet it covers; a selective
  acknowledgement gives one for each such packet it newly covers, in order, and marks exactly those as sampled, so that the later
  cumulative acknowledgement does not sample them again.\<close>

theorem karn_rule:
  "rtt (fst (process_cum_ack T ca s n)) =
     (case filter unambiguous (takeWhile (\<lambda>sl. sl_seq sl < ca) (ring s)) of
        [] \<Rightarrow> rtt s | sl # sls \<Rightarrow> rtt_sample (rtt s) (round_trip (fst (t_now T n)) (last (sl # sls))))
   \<and> rtt (fst (process_sack T dest ca bitmap s n)) =
     foldl (\<lambda>r sl. rtt_sample r (round_trip (fst (t_now T n)) sl)) (rtt s) (filter (\<lambda>sl. newly_sacked ca bitmap sl \<and> unambiguous sl) (ring s))
   \<and> map rtt_sampled (ring (fst (process_sack T dest ca bitmap s n))) =
     map (\<lambda>sl. rtt_sampled sl \<or> newly_sacked ca bitmap sl \<and> unambiguous sl) (ring s)"
proof (intro conjI)
  obtain s' n' where e: "process_sack T dest ca bitmap s n = (s', n')" by fastforce
  note P = process_sack_eq [OF e]
  show "rtt (fst (process_sack T dest ca bitmap s n)) = foldl (\<lambda>r sl. rtt_sample r (round_trip (fst (t_now T n)) sl)) (rtt s)
      (filter (\<lambda>sl. newly_sacked ca bitmap sl \<and> unambiguous sl) (ring s))" using P(4) e by simp
  have "rtt_sampled (ring s' ! i) \<longleftrightarrow> rtt_sampled (ring s ! i) \<or> newly_sacked ca bitmap (ring s ! i) \<and> unambiguous (ring s ! i)"
    if "i < length (ring s)" for i
    using resent_fields(6) [OF P(2) [OF that]] by (simp add: mark_fields)
  then show "map rtt_sampled (ring (fst (process_sack T dest ca bitmap s n))) =
     map (\<lambda>sl. rtt_sampled sl \<or> newly_sacked ca bitmap sl \<and> unambiguous sl) (ring s)"
    using P(1) e by (intro nth_equalityI) simp_all
qed (rule process_cum_ack_rtt)

text \<open>C8: Fast retransmission happens exactly when it should, and once. Processing a selective acknowledgement hands to the transport, from the
  newest down, the datagrams of exactly those packets in flight that are not acknowledged, have at least three selectively acknowledged packets
  above them and were not fast-retransmitted before; each of them is counted and flagged, all other packets keep their transmission counts
  and flags, and no later selective acknowledgement resends one of them.\<close>

theorem fast_retransmit_rule:
  "case process_sack T dest ca bitmap s n of (s', n') \<Rightarrow>
     n' = foldl (\<lambda>n sl. snd (t_now T (snd (t_send T dest (datagram sl) n)))) (snd (t_now T n))
            (map ((!) (ring s)) (rev (fast_due ca bitmap (ring s))))
     \<and> map (\<lambda>sl. (sl_seq sl, sl_rto sl, send_time sl, datagram sl, sacked sl, fast_retransmitted sl, transmit_count sl)) (ring s') =
       map (\<lambda>i. let sl = ring s ! i; due = i \<in> set (fast_due ca bitmap (ring s))
               in (sl_seq sl, sl_rto sl, send_time sl, datagram sl, sacked sl \<or> newly_sacked ca bitmap sl,
                   fast_retransmitted sl \<or> due, transmit_count sl + (if due then 1 else 0))) [0..<length (ring s)]
     \<and> retransmit_count s' = retransmit_count s + word_of_nat (length (fast_due ca bitmap (ring s)))
     \<and> set (fast_due ca' bitmap' (ring s')) \<inter> set (fast_due ca bitmap (ring s)) = {}"
proof -
  obtain s' n' where e: "process_sack T dest ca bitmap s n = (s', n')" by fastforce
  note P = process_sack_eq [OF e]
  note F = resent_fields [OF P(2), unfolded mark_fields]
  have m: "map (\<lambda>sl. (sl_seq sl, sl_rto sl, send_time sl, datagram sl, sacked sl, fast_retransmitted sl, transmit_count sl)) (ring s') =
    map (\<lambda>i. let sl = ring s ! i; due = i \<in> set (fast_due ca bitmap (ring s))
             in (sl_seq sl, sl_rto sl, send_time sl, datagram sl, sacked sl \<or> newly_sacked ca bitmap sl,
                 fast_retransmitted sl \<or> due, transmit_count sl + (if due then 1 else 0))) [0..<length (ring s)]" (is "?l = ?r")
  proof (rule nth_equalityI)
    fix i
    assume "i < length ?l"
    then have i: "i < length (ring s')" "i < length (ring s)" using P(1) by simp_all
    show "?l ! i = ?r ! i" using i(1) F [OF i(2)] i(2) by (simp add: Let_def)
  qed (simp add: P(1))
  have "i \<notin> set (fast_due ca' bitmap' (ring s'))" if "i \<in> set (fast_due ca bitmap (ring s))" for i
  proof -
    have i: "i < length (ring s)" using that by (simp add: fast_due_def)
    have "fast_retransmitted (ring s' ! i)" using F(7) [OF i] that by simp
    then show ?thesis by (simp add: fast_due_def)
  qed
  moreover have "resend T dest = (\<lambda>n sl. snd (t_now T (snd (t_send T dest (datagram sl) n))))" by (intro ext) (simp add: resend_def)
  ultimately show ?thesis using P(3,5) m by (auto simp: e)
qed

end
