(* ===== verification/Swim.thy ===== *)
theory Swim
  imports Codec Transport Mt19937 Complex_Main
    "HOL-Library.AList" "HOL-Library.Product_Lexorder"
begin

text \<open>
  The membership protocol of \<^verbatim>\<open>src/swim.cc\<close> and \<^verbatim>\<open>include/taut/swim.h\<close>, function by function, over a transport \<open>T\<close>.

  The hash maps are association lists (assignment replaces in place or appends). What the C++ standard leaves open is a parameter
  \<open>L\<close>: the order in which a hash map is traversed, the choices of \<^verbatim>\<open>std::shuffle\<close>, and the library's
  \<^verbatim>\<open>ceil(factor * log(n))\<close>. Orders are given by arbitrary insertion positions (\<open>arrange\<close>), so that every permutation is possible
  and no assumption on the library is needed.
\<close>

section \<open>Orders the library chooses\<close>

fun arrange :: "(nat \<Rightarrow> nat) \<Rightarrow> 'a list \<Rightarrow> 'a list" where
  "arrange f [] = []"
| "arrange f (x # xs) =
     (let ys = arrange f xs; i = f (length xs) mod Suc (length ys) in take i ys @ x # drop i ys)"

lemma mset_arrange [simp]: "mset (arrange f xs) = mset xs"
proof (induction xs)
  case (Cons x xs)
  let ?i = "f (length xs) mod Suc (length (arrange f xs))"
  have "mset (take ?i (arrange f xs)) + mset (drop ?i (arrange f xs)) = mset (arrange f xs)"
    by (simp only: mset_append [symmetric] append_take_drop_id)
  then show ?case using Cons by (simp add: Let_def)
qed simp

lemma set_arrange [simp]: "set (arrange f xs) = set xs"
  by (metis mset_arrange set_mset_mset)

lemma length_arrange [simp]: "length (arrange f xs) = length xs"
  by (metis mset_arrange size_mset)

record Library =
  traversal :: "u64 list \<Rightarrow> nat \<Rightarrow> nat"
  shuffle_choices :: "mt_state \<Rightarrow> nat \<Rightarrow> (nat \<Rightarrow> nat) \<times> mt_state"
  ceil_log :: "rat \<Rightarrow> nat \<Rightarrow> nat"

definition entries :: "Library \<Rightarrow> (u64 \<times> 'v) list \<Rightarrow> (u64 \<times> 'v) list" where
  "entries L m = arrange (traversal L (map fst m)) m"

section \<open>State\<close>

record SwimConfig =
  period :: millis
  ping_timeout :: millis
  suspicion_timeout :: millis
  sw_k :: nat
  gossip_factor :: rat
  sw_max_recv :: nat

record Member =
  m_addr :: Endpoint
  m_state :: MemberState
  m_inc :: u32
  suspect_deadline :: time_point

record Rumor =
  r_state :: MemberState
  r_inc :: u32
  tx_count :: u32

record PendingRelay =
  requester :: Endpoint
  req_probe :: u32
  target :: Endpoint
  relay_deadline :: time_point

record Swim =
  self :: Endpoint
  sw_cfg :: SwimConfig
  sw_rng :: mt_state
  on_state :: bool
  state_log :: "(Endpoint \<times> MemberState) list"
  my_incarnation :: u32
  members :: "(u64 \<times> Member) list"
  rumors :: "(u64 \<times> Rumor) list"
  relays :: "(u32 \<times> PendingRelay) list"
  probe_order :: "Endpoint list"
  probe_index :: nat
  started :: bool
  probing :: bool
  indirect_sent :: bool
  probe_acked :: bool
  probe_target :: Endpoint
  probe_id :: u32
  ping_deadline :: time_point
  period_deadline :: time_point
  next_period :: time_point
  next_probe_id :: u32

section \<open>Helpers\<close>

definition is_none :: "Endpoint \<Rightarrow> bool" where
  "is_none e \<longleftrightarrow> addr_be e = 0 \<and> port_be e = 0"

definition kSwimHeader :: nat where "kSwimHeader = 12"
definition kGossipEntry :: nat where "kGossipEntry = 11"
definition kMaxGossipEntries :: nat where "kMaxGossipEntries = 16"
definition kMaxFitEntries :: nat where
  "kMaxFitEntries = (kMaxDatagram - kBaseHeaderSize - kSwimHeader) div kGossipEntry"

definition put_u16 :: "bytes \<Rightarrow> u16 \<Rightarrow> bytes" where
  "put_u16 b v = b @ [ucast (v AND 0xFF)] @ [ucast (drop_bit 8 v AND 0xFF)]"

definition put_u32 :: "bytes \<Rightarrow> u32 \<Rightarrow> bytes" where
  "put_u32 b v = foldl (\<lambda>b i. b @ [ucast (drop_bit (8 * i) v AND 0xFF)]) b [0..<4]"

definition get_u16 :: "bytes \<Rightarrow> nat \<Rightarrow> u16 option" where
  "get_u16 b off = do {
     b0 \<leftarrow> load_u8 b off;
     b1 \<leftarrow> load_u8 b (off + 1);
     Some (ucast b0 OR push_bit 8 (ucast b1)) }"

definition get_u32 :: "bytes \<Rightarrow> nat \<Rightarrow> u32 option" where
  "get_u32 b off = do {
     b0 \<leftarrow> load_u8 b off;
     b1 \<leftarrow> load_u8 b (off + 1);
     b2 \<leftarrow> load_u8 b (off + 2);
     b3 \<leftarrow> load_u8 b (off + 3);
     Some (ucast b0 OR push_bit 8 (ucast b1) OR push_bit 16 (ucast b2) OR push_bit 24 (ucast b3)) }"

definition overrides :: "MemberState \<Rightarrow> u32 \<Rightarrow> MemberState \<Rightarrow> u32 \<Rightarrow> bool" where
  "overrides cur cur_inc new new_inc =
     (if new_inc \<noteq> cur_inc then new_inc > cur_inc else state_wire new > state_wire cur)"

definition state_from_wire :: "u8 \<Rightarrow> MemberState" where
  "state_from_wire v = (if v = 0 then Alive else if v = 1 then Suspect else Dead)"

section \<open>Membership and dissemination\<close>

definition queue_rumor :: "Endpoint \<Rightarrow> MemberState \<Rightarrow> u32 \<Rightarrow> Swim \<Rightarrow> Swim" where
  "queue_rumor subject st inc s =
     s\<lparr>rumors := AList.update (key subject) \<lparr>r_state = st, r_inc = inc, tx_count = 0\<rparr> (rumors s)\<rparr>"

definition notify :: "Endpoint \<Rightarrow> MemberState \<Rightarrow> Swim \<Rightarrow> Swim" where
  "notify e st s = (if on_state s then s\<lparr>state_log := state_log s @ [(e, st)]\<rparr> else s)"

definition new_swim :: "Endpoint \<Rightarrow> SwimConfig \<Rightarrow> u64 \<Rightarrow> Swim" where
  "new_swim me c seed = queue_rumor me Alive 0
     \<lparr>self = me, sw_cfg = c, sw_rng = mt_seed seed, on_state = False, state_log = [], my_incarnation = 0,
      members = [], rumors = [], relays = [], probe_order = [], probe_index = 0, started = False, probing = False,
      indirect_sent = False, probe_acked = False, probe_target = no_endpoint, probe_id = 0, ping_deadline = 0,
      period_deadline = 0, next_period = 0, next_probe_id = 1\<rparr>"

definition on_state_change :: "Swim \<Rightarrow> Swim" where
  "on_state_change s = s\<lparr>on_state := True\<rparr>"

definition add_member :: "Endpoint \<Rightarrow> Swim \<Rightarrow> Swim" where
  "add_member e s =
     (if e = self s \<or> is_none e then s
      else if map_of (members s) (key e) = None
      then s\<lparr>members := AList.update (key e) \<lparr>m_addr = e, m_state = Alive, m_inc = 0, suspect_deadline = 0\<rparr> (members s)\<rparr>
      else s)"

definition gossip_budget :: "Library \<Rightarrow> Swim \<Rightarrow> nat" where
  "gossip_budget L s =
     (let n = length (members s) + 1
      in if n \<le> 1 then 1
         else let b = ceil_log L (gossip_factor (sw_cfg s)) n in if b < 1 then 1 else b)"

definition refute :: "u32 \<Rightarrow> Swim \<Rightarrow> Swim" where
  "refute suspected_inc s =
     (let s = s\<lparr>my_incarnation := max (my_incarnation s) (suspected_inc + 1)\<rparr>
      in queue_rumor (self s) Alive (my_incarnation s) s)"

definition apply_rumor :: "'n UdpTransport \<Rightarrow> Endpoint \<Rightarrow> MemberState \<Rightarrow> u32 \<Rightarrow> Swim \<Rightarrow> 'n \<Rightarrow> Swim \<times> 'n" where
  "apply_rumor T subject st inc s n =
     (if is_none subject then (s, n)
      else if subject = self s then
        (if (st = Suspect \<or> st = Dead) \<and> inc \<ge> my_incarnation s then (refute inc s, n) else (s, n))
      else let (now, n) = t_now T n;
               k = key subject
           in case map_of (members s) k of
                None \<Rightarrow>
                  let m = \<lparr>m_addr = subject, m_state = st, m_inc = inc,
                           suspect_deadline = (if st = Suspect then now + ms (suspicion_timeout (sw_cfg s)) else 0)\<rparr>;
                      s = s\<lparr>members := AList.update k m (members s)\<rparr>;
                      s = queue_rumor subject st inc s
                  in (notify subject st s, n)
              | Some m \<Rightarrow>
                  if \<not> overrides (m_state m) (m_inc m) st inc then (s, n)
                  else let old = m_state m;
                           m = m\<lparr>m_state := st, m_inc := inc\<rparr>;
                           m = (if st = Suspect then m\<lparr>suspect_deadline := now + ms (suspicion_timeout (sw_cfg s))\<rparr> else m);
                           s = s\<lparr>members := AList.update k m (members s)\<rparr>;
                           s = queue_rumor subject st inc s
                       in (if old \<noteq> st then notify subject st s else s, n))"

section \<open>Wire path\<close>

text \<open>The two ways \<^verbatim>\<open>send_swim\<close> picks its gossip: a snapshot, or the least-transmitted rumors, which are charged.\<close>

definition snapshot_pick :: "Library \<Rightarrow> Swim \<Rightarrow> (Endpoint \<times> Rumor) list" where
  "snapshot_pick L s = take kMaxFitEntries
     ((self s, \<lparr>r_state = Alive, r_inc = my_incarnation s, tx_count = 0\<rparr>)
      # map (\<lambda>(k, m). (m_addr m, \<lparr>r_state = m_state m, r_inc = m_inc m, tx_count = 0\<rparr>)) (entries L (members s)))"

definition rumor_pick :: "Library \<Rightarrow> nat \<Rightarrow> Swim \<Rightarrow> (Endpoint \<times> Rumor) list" where
  "rumor_pick L budget s = take kMaxGossipEntries
     (sort_key (\<lambda>(e, r). (tx_count r, key e))
        (map (\<lambda>(rk, r). (endpoint_of_key rk, r)) (filter (\<lambda>(rk, r). unat (tx_count r) < budget) (entries L (rumors s)))))"

definition charge :: "nat \<Rightarrow> (u64 \<times> Rumor) list \<Rightarrow> Endpoint \<times> Rumor \<Rightarrow> (u64 \<times> Rumor) list" where
  "charge budget rs x =
     (case map_of rs (key (fst x)) of
        None \<Rightarrow> rs
      | Some r \<Rightarrow> let r = r\<lparr>tx_count := tx_count r + 1\<rparr>
                  in if unat (tx_count r) \<ge> budget then AList.delete (key (fst x)) rs
                     else AList.update (key (fst x)) r rs)"

definition swim_body :: "u32 \<Rightarrow> Endpoint \<Rightarrow> (Endpoint \<times> Rumor) list \<Rightarrow> bytes" where
  "swim_body pid subject pick =
     (let b = put_u32 [] pid;
          b = put_u32 b (addr_be subject);
          b = put_u16 b (port_be subject);
          b = put_u16 b (word_of_nat (length pick))
      in foldl (\<lambda>b (e, r).
           let b = put_u32 b (addr_be e);
               b = put_u16 b (port_be e);
               b = put_u32 b (r_inc r)
           in b @ [state_wire (r_state r)]) b pick)"

definition send_swim :: "'n UdpTransport \<Rightarrow> Library \<Rightarrow> PacketType \<Rightarrow> Endpoint \<Rightarrow> u32 \<Rightarrow> Endpoint \<Rightarrow> bool \<Rightarrow> Swim \<Rightarrow> 'n \<Rightarrow> Swim \<times> 'n" where
  "send_swim T L type dest pid subject full_snapshot s n =
     (let budget = gossip_budget L s;
          pick = (if full_snapshot then snapshot_pick L s else rumor_pick L budget s);
          s = (if full_snapshot then s else s\<lparr>rumors := foldl (charge budget) (rumors s) pick\<rparr>);
          body = swim_body pid subject pick;
          p = empty_packet\<lparr>p_type := type, p_flags := 0, p_cls := Unreliable, p_seq := 0, p_cum_ack := 0,
                p_adv_window := 0, p_payload := body\<rparr>;
          (k, out) = encode p (replicate kMaxDatagram 0)
      in if k > 0 then (s, snd (t_send T dest (take k out) n)) else (s, n))"

definition join :: "'n UdpTransport \<Rightarrow> Library \<Rightarrow> Endpoint \<Rightarrow> Swim \<Rightarrow> 'n \<Rightarrow> Swim \<times> 'n" where
  "join T L introducer s n = send_swim T L PT_Join introducer (my_incarnation s) (self s) False s n"

definition handle_ping :: "'n UdpTransport \<Rightarrow> Library \<Rightarrow> Endpoint \<Rightarrow> u32 \<Rightarrow> Swim \<Rightarrow> 'n \<Rightarrow> Swim \<times> 'n" where
  "handle_ping T L source pid s n = send_swim T L PT_Pong source pid (self s) False s n"

definition handle_ping_req :: "'n UdpTransport \<Rightarrow> Library \<Rightarrow> Endpoint \<Rightarrow> u32 \<Rightarrow> Endpoint \<Rightarrow> Swim \<Rightarrow> 'n \<Rightarrow> Swim \<times> 'n" where
  "handle_ping_req T L source pid subject s n =
     (if is_none subject \<or> subject = self s then (s, n)
      else let relay_probe = next_probe_id s;
               s = s\<lparr>next_probe_id := next_probe_id s + 1\<rparr>;
               (now, n) = t_now T n;
               s = s\<lparr>relays := AList.update relay_probe \<lparr>requester = source, req_probe = pid, target = subject,
                      relay_deadline = now + ms (period (sw_cfg s))\<rparr> (relays s)\<rparr>
           in send_swim T L PT_Ping subject relay_probe subject False s n)"

definition handle_pong :: "'n UdpTransport \<Rightarrow> Library \<Rightarrow> u32 \<Rightarrow> Endpoint \<Rightarrow> Swim \<Rightarrow> 'n \<Rightarrow> Swim \<times> 'n" where
  "handle_pong T L pid subject s n =
     (case map_of (relays s) pid of
        Some relay \<Rightarrow>
          let s = s\<lparr>relays := AList.delete pid (relays s)\<rparr>
          in send_swim T L PT_Pong (requester relay) (req_probe relay) (target relay) False s n
      | None \<Rightarrow>
          if probing s \<and> \<not> is_none (probe_target s) \<and> subject = probe_target s
          then (s\<lparr>probe_acked := True\<rparr>, n) else (s, n))"

definition handle_join :: "'n UdpTransport \<Rightarrow> Library \<Rightarrow> Endpoint \<Rightarrow> u32 \<Rightarrow> bool \<Rightarrow> Swim \<Rightarrow> 'n \<Rightarrow> Swim \<times> 'n" where
  "handle_join T L source joiner_inc request s n =
     (if is_none source \<or> source = self s then (s, n)
      else let (s, n) = apply_rumor T source Alive joiner_inc s n
           in if request then send_swim T L PT_Join source (my_incarnation s) source True s n else (s, n))"

text \<open>Reading a body: the header, then as many gossip entries as announced and present. \<open>None\<close> would be a read out of bounds.\<close>

fun read_gossip :: "bytes \<Rightarrow> nat \<Rightarrow> nat \<Rightarrow> (Endpoint \<times> MemberState \<times> u32) list option" where
  "read_gossip body off 0 = Some []"
| "read_gossip body off (Suc cnt) =
     (if off + kGossipEntry > length body then Some []
      else do {
        a \<leftarrow> get_u32 body off;
        p \<leftarrow> get_u16 body (off + 4);
        inc \<leftarrow> get_u32 body (off + 6);
        st \<leftarrow> load_u8 body (off + 10);
        rest \<leftarrow> read_gossip body (off + kGossipEntry) cnt;
        Some ((\<lparr>addr_be = a, port_be = p\<rparr>, state_from_wire st, inc) # rest) })"

definition read_body :: "bytes \<Rightarrow> (u32 \<times> Endpoint \<times> (Endpoint \<times> MemberState \<times> u32) list) option" where
  "read_body body = do {
     pid \<leftarrow> get_u32 body 0;
     a \<leftarrow> get_u32 body 4;
     p \<leftarrow> get_u16 body 8;
     cnt \<leftarrow> get_u16 body 10;
     gossip \<leftarrow> read_gossip body kSwimHeader (unat cnt);
     Some (pid, \<lparr>addr_be = a, port_be = p\<rparr>, gossip) }"

definition apply_gossip :: "'n UdpTransport \<Rightarrow> (Endpoint \<times> MemberState \<times> u32) list \<Rightarrow> Swim \<Rightarrow> 'n \<Rightarrow> Swim \<times> 'n" where
  "apply_gossip T gossip s n = foldl (\<lambda>(s, n) (e, st, inc). apply_rumor T e st inc s n) (s, n) gossip"

text \<open>A packet from a member believed dead re-queues the accusation; the switch on the packet type.\<close>

definition tell_dead :: "Endpoint \<Rightarrow> Swim \<Rightarrow> Swim" where
  "tell_dead source s =
     (case map_of (members s) (key source) of
        None \<Rightarrow> s
      | Some m \<Rightarrow> if m_state m = Dead \<and> map_of (rumors s) (key source) = None
                  then queue_rumor source Dead (m_inc m) s else s)"

definition dispatch :: "'n UdpTransport \<Rightarrow> Library \<Rightarrow> Endpoint \<Rightarrow> PacketType \<Rightarrow> u32 \<Rightarrow> Endpoint \<Rightarrow> Swim \<Rightarrow> 'n \<Rightarrow> Swim \<times> 'n" where
  "dispatch T L source type pid subject s n =
     (if type = PT_Ping then handle_ping T L source pid s n
      else if type = PT_PingReq then handle_ping_req T L source pid subject s n
      else if type = PT_Pong then handle_pong T L pid subject s n
      else if type = PT_Join then handle_join T L source pid (subject = source) s n
      else (s, n))"

definition swim_packet :: "'n UdpTransport \<Rightarrow> Library \<Rightarrow> Endpoint \<Rightarrow> PacketType \<Rightarrow> bytes \<Rightarrow> Swim \<Rightarrow> 'n \<Rightarrow> (Swim \<times> 'n) option" where
  "swim_packet T L source type body s n =
     (case read_body body of
        None \<Rightarrow> None
      | Some (pid, subject, gossip) \<Rightarrow>
          let s = tell_dead source s;
              (s, n) = apply_gossip T gossip s n
          in Some (dispatch T L source type pid subject s n))"

definition swim_datagram :: "'n UdpTransport \<Rightarrow> Library \<Rightarrow> bytes \<Rightarrow> Endpoint \<Rightarrow> Swim \<Rightarrow> 'n \<Rightarrow> (Swim \<times> 'n) option" where
  "swim_datagram T L d source s n =
     (case decode d of
        Inl _ \<Rightarrow> Some (s, n)
      | Inr p \<Rightarrow>
          if p_type p \<noteq> PT_Ping \<and> p_type p \<noteq> PT_PingReq \<and> p_type p \<noteq> PT_Pong \<and> p_type p \<noteq> PT_Join then Some (s, n)
          else if length (p_payload p) < kSwimHeader then Some (s, n)
          else swim_packet T L source (p_type p) (p_payload p) s n)"

fun swim_poll_loop :: "'n UdpTransport \<Rightarrow> Library \<Rightarrow> nat \<Rightarrow> Swim \<Rightarrow> 'n \<Rightarrow> (bool \<times> Swim \<times> 'n) option" where
  "swim_poll_loop T L 0 s n = Some (True, s, n)"
| "swim_poll_loop T L (Suc k) s n =
     (case t_recv T kMaxDatagram n of
        (None, n) \<Rightarrow> Some (False, s, n)
      | (Some (d, source), n) \<Rightarrow>
          (case swim_datagram T L d source s n of
             None \<Rightarrow> None
           | Some (s, n) \<Rightarrow> swim_poll_loop T L k s n))"

definition swim_poll :: "'n UdpTransport \<Rightarrow> Library \<Rightarrow> Swim \<Rightarrow> 'n \<Rightarrow> (bool \<times> Swim \<times> 'n) option" where
  "swim_poll T L s n = swim_poll_loop T L (sw_max_recv (sw_cfg s)) s n"

section \<open>Failure detector\<close>

definition incarnation_of :: "Endpoint \<Rightarrow> Swim \<Rightarrow> u32" where
  "incarnation_of e s =
     (if e = self s then my_incarnation s
      else case map_of (members s) (key e) of None \<Rightarrow> 0 | Some m \<Rightarrow> m_inc m)"

definition state_of :: "Endpoint \<Rightarrow> Swim \<Rightarrow> MemberState" where
  "state_of e s =
     (if e = self s then Alive
      else case map_of (members s) (key e) of None \<Rightarrow> Dead | Some m \<Rightarrow> m_state m)"

definition alive_count :: "Swim \<Rightarrow> nat" where
  "alive_count s = length (filter (\<lambda>(k, m). m_state m = Alive) (members s))"

definition snapshot :: "Library \<Rightarrow> Swim \<Rightarrow> (Endpoint \<times> MemberState) list" where
  "snapshot L s = map (\<lambda>(k, m). (m_addr m, m_state m)) (entries L (members s))"

definition expire_suspects :: "'n UdpTransport \<Rightarrow> Library \<Rightarrow> time_point \<Rightarrow> Swim \<Rightarrow> 'n \<Rightarrow> Swim \<times> 'n" where
  "expire_suspects T L now s n =
     (let to_kill = map (\<lambda>(k, m). m_addr m)
            (filter (\<lambda>(k, m). m_state m = Suspect \<and> now \<ge> suspect_deadline m) (entries L (members s)))
      in foldl (\<lambda>(s, n) e. apply_rumor T e Dead (incarnation_of e s) s n) (s, n) to_kill)"

text \<open>\<^verbatim>\<open>probe_one_dead\<close>, with what it does to the chosen member \<open>t\<close>.\<close>

definition ping_dead :: "'n UdpTransport \<Rightarrow> Library \<Rightarrow> Member \<Rightarrow> Swim \<Rightarrow> 'n \<Rightarrow> Swim \<times> 'n" where
  "ping_dead T L t s n =
     (let s = (if map_of (rumors s) (key (m_addr t)) = None then queue_rumor (m_addr t) Dead (m_inc t) s else s);
          pid = next_probe_id s;
          s = s\<lparr>next_probe_id := next_probe_id s + 1\<rparr>
      in send_swim T L PT_Ping (m_addr t) pid (m_addr t) False s n)"

definition probe_one_dead :: "'n UdpTransport \<Rightarrow> Library \<Rightarrow> Swim \<Rightarrow> 'n \<Rightarrow> Swim \<times> 'n" where
  "probe_one_dead T L s n =
     (let dead = filter (\<lambda>m. m_state m = Dead) (map snd (entries L (members s)))
      in if dead = [] then (s, n)
         else let (r, g) = mt_next (sw_rng s);
                  s = s\<lparr>sw_rng := g\<rparr>
              in ping_dead T L (dead ! (unat r mod length dead)) s n)"

definition reinject_suspicions :: "Library \<Rightarrow> Swim \<Rightarrow> Swim" where
  "reinject_suspicions L s =
     foldl (\<lambda>s (k, m). if m_state m = Suspect then queue_rumor (m_addr m) Suspect (m_inc m) s else s) s (entries L (members s))"

definition shuffle :: "Library \<Rightarrow> 'a list \<Rightarrow> mt_state \<Rightarrow> 'a list \<times> mt_state" where
  "shuffle L xs g = (let (f, g) = shuffle_choices L g (length xs) in (arrange f xs, g))"

definition rebuild_probe_order :: "Library \<Rightarrow> Swim \<Rightarrow> Swim" where
  "rebuild_probe_order L s =
     (let order = map (\<lambda>(k, m). m_addr m) (filter (\<lambda>(k, m). m_state m \<noteq> Dead) (entries L (members s)));
          (order, g) = shuffle L order (sw_rng s)
      in s\<lparr>probe_order := order, sw_rng := g\<rparr>)"

definition live_members :: "Swim \<Rightarrow> (u64 \<times> Member) list" where
  "live_members s = filter (\<lambda>(k, m). m_state m \<noteq> Dead) (members s)"

lemma length_rebuild [simp]: "length (probe_order (rebuild_probe_order L s)) = length (live_members s)"
proof -
  have "mset (filter (\<lambda>(k, m). m_state m \<noteq> Dead) (entries L (members s))) = mset (live_members s)"
    by (simp add: live_members_def entries_def)
  then have "length (filter (\<lambda>(k, m). m_state m \<noteq> Dead) (entries L (members s))) = length (live_members s)"
    by (rule mset_eq_length)
  then show ?thesis by (simp add: rebuild_probe_order_def shuffle_def Let_def split_beta)
qed

lemma members_rebuild [simp]: "members (rebuild_probe_order L s) = members s"
  by (simp add: rebuild_probe_order_def Let_def split_beta)

text \<open>The loop of \<^verbatim>\<open>pick_target\<close>: the order is rebuilt when it is used up, and only a rebuilt order can be empty.\<close>

definition wrap_order :: "Library \<Rightarrow> Swim \<Rightarrow> Swim" where
  "wrap_order L s = (if probe_index s \<ge> length (probe_order s) then (rebuild_probe_order L s)\<lparr>probe_index := 0\<rparr> else s)"

lemma wrap_order_frame [simp]:
  "members (wrap_order L s) = members s"
  "length (probe_order (wrap_order L s)) \<le> max (length (probe_order s)) (length (live_members s))"
  "live_members (wrap_order L s) = live_members s"
  by (simp_all add: wrap_order_def live_members_def)

function pick_target_loop :: "Library \<Rightarrow> nat \<Rightarrow> Swim \<Rightarrow> Endpoint \<times> Swim" where
  "pick_target_loop L tries s =
     (if tries \<le> length (probe_order s) + 1 then
        let s = wrap_order L s
        in if probe_order s = [] then (no_endpoint, s)
           else let cand = probe_order s ! probe_index s;
                    s = s\<lparr>probe_index := probe_index s + 1\<rparr>
                in case map_of (members s) (key cand) of
                     Some m \<Rightarrow> if m_state m \<noteq> Dead then (cand, s) else pick_target_loop L (tries + 1) s
                   | None \<Rightarrow> pick_target_loop L (tries + 1) s
      else (no_endpoint, s))"
  by pat_completeness auto
termination
proof (relation "measure (\<lambda>(L, tries, s). max (length (probe_order s)) (length (live_members s)) + 2 - tries)", goal_cases)
  case (2 L tries s x xa xb)
  then show ?case using wrap_order_frame(2) [of L s] by (auto simp: live_members_def)
next
  case (3 L tries s x xa xb y)
  then show ?case using wrap_order_frame(2) [of L s] by (auto simp: live_members_def)
qed simp

declare pick_target_loop.simps [simp del]

definition pick_target :: "Library \<Rightarrow> Swim \<Rightarrow> Endpoint \<times> Swim" where
  "pick_target L s = pick_target_loop L 0 s"

definition pick_k_others :: "Library \<Rightarrow> Endpoint \<Rightarrow> Swim \<Rightarrow> Endpoint list \<times> Swim" where
  "pick_k_others L tgt s =
     (let pool = map (\<lambda>(k, m). m_addr m) (filter (\<lambda>(k, m). m_state m = Alive \<and> m_addr m \<noteq> tgt) (entries L (members s)));
          (pool, g) = shuffle L pool (sw_rng s)
      in (take (sw_k (sw_cfg s)) pool, s\<lparr>sw_rng := g\<rparr>))"

definition start_period :: "'n UdpTransport \<Rightarrow> Library \<Rightarrow> time_point \<Rightarrow> Swim \<Rightarrow> 'n \<Rightarrow> Swim \<times> 'n" where
  "start_period T L now s n =
     (let s = s\<lparr>period_deadline := now + ms (period (sw_cfg s))\<rparr>;
          s = s\<lparr>next_period := period_deadline s\<rparr>;
          s = reinject_suspicions L s;
          (s, n) = probe_one_dead T L s n;
          (tgt, s) = pick_target L s
      in if is_none tgt then (s, n)
         else let s = s\<lparr>probing := True, indirect_sent := False, probe_acked := False, probe_target := tgt,
                        probe_id := next_probe_id s, next_probe_id := next_probe_id s + 1,
                        ping_deadline := now + ms (ping_timeout (sw_cfg s))\<rparr>
              in send_swim T L PT_Ping tgt (probe_id s) tgt False s n)"

definition send_indirect_probes :: "'n UdpTransport \<Rightarrow> Library \<Rightarrow> Swim \<Rightarrow> 'n \<Rightarrow> Swim \<times> 'n" where
  "send_indirect_probes T L s n =
     (let (others, s) = pick_k_others L (probe_target s) s
      in foldl (\<lambda>(s, n) r. send_swim T L PT_PingReq r (probe_id s) (probe_target s) False s n) (s, n) others)"

definition conclude_period :: "'n UdpTransport \<Rightarrow> Swim \<Rightarrow> 'n \<Rightarrow> Swim \<times> 'n" where
  "conclude_period T s n =
     (let (s, n) =
        (if \<not> probe_acked s then
           case map_of (members s) (key (probe_target s)) of
             Some m \<Rightarrow> if m_state m = Alive then apply_rumor T (probe_target s) Suspect (m_inc m) s n else (s, n)
           | None \<Rightarrow> (s, n)
         else (s, n))
      in (s\<lparr>probing := False\<rparr>, n))"

text \<open>\<^verbatim>\<open>tick\<close>: suspicions expire and relays are pruned, the running period is advanced, the next one is started.\<close>

definition tick_begin :: "'n UdpTransport \<Rightarrow> Library \<Rightarrow> time_point \<Rightarrow> Swim \<Rightarrow> 'n \<Rightarrow> Swim \<times> 'n" where
  "tick_begin T L now s n =
     (let s = (if \<not> started s then s\<lparr>started := True, next_period := now\<rparr> else s);
          (s, n) = expire_suspects T L now s n
      in (s\<lparr>relays := filter (\<lambda>(k, r). \<not> now \<ge> relay_deadline r) (relays s)\<rparr>, n))"

definition tick_probe :: "'n UdpTransport \<Rightarrow> Library \<Rightarrow> time_point \<Rightarrow> Swim \<Rightarrow> 'n \<Rightarrow> Swim \<times> 'n" where
  "tick_probe T L now s n =
     (if probing s then
        let (s, n) = (if \<not> indirect_sent s \<and> \<not> probe_acked s \<and> now \<ge> ping_deadline s
                      then let (s, n) = send_indirect_probes T L s n in (s\<lparr>indirect_sent := True\<rparr>, n)
                      else (s, n))
        in if now \<ge> period_deadline s then conclude_period T s n else (s, n)
      else (s, n))"

definition swim_tick :: "'n UdpTransport \<Rightarrow> Library \<Rightarrow> Swim \<Rightarrow> 'n \<Rightarrow> Swim \<times> 'n" where
  "swim_tick T L s n =
     (let (now, n) = t_now T n;
          (s, n) = tick_begin T L now s n;
          (s, n) = tick_probe T L now s n
      in if \<not> probing s \<and> now \<ge> next_period s then start_period T L now s n else (s, n))"

end
