(* ===== verification/Swim_Merge.thy ===== *)
theory Swim_Merge
  imports Swim
    "HOL-Library.Option_ord"
begin

text \<open>
  What a node of \<^verbatim>\<open>src/swim.cc\<close> believes about the others, and how rumors change it. The precedence of
  \<^verbatim>\<open>overrides()\<close> is the lexicographic order on incarnation and state, so merging a rumor is taking a maximum: the
  \<open>belief\<close> of a node is the abstraction on which every operation of the component is described.
\<close>

section \<open>The order of membership records\<close>

instantiation MemberState :: linorder
begin

definition less_eq_MemberState :: "MemberState \<Rightarrow> MemberState \<Rightarrow> bool" where
  "less_eq_MemberState a b \<longleftrightarrow> state_wire a \<le> state_wire b"

definition less_MemberState :: "MemberState \<Rightarrow> MemberState \<Rightarrow> bool" where
  "less_MemberState a b \<longleftrightarrow> state_wire a < state_wire b"

instance
proof
  fix a b :: MemberState
  show "a \<le> b \<Longrightarrow> b \<le> a \<Longrightarrow> a = b"
    unfolding less_eq_MemberState_def by (cases a; cases b) (simp_all add: word_le_nat_alt)
qed (auto simp: less_eq_MemberState_def less_MemberState_def)

end

lemma state_order [simp]:
  "Alive < st \<longleftrightarrow> st \<noteq> Alive" "Alive \<le> st" "st \<le> Dead" "st < Dead \<longleftrightarrow> st \<noteq> Dead"
  "Dead \<le> st \<longleftrightarrow> st = Dead" "st \<le> Alive \<longleftrightarrow> st = Alive"
  by (cases st; simp add: less_eq_MemberState_def less_MemberState_def word_le_nat_alt word_less_nat_alt)+

type_synonym standing = "u32 \<times> MemberState"

lemma overrides_less: "overrides cur ci new ni \<longleftrightarrow> (ci, cur) < (ni, new)"
  by (auto simp: overrides_def less_MemberState_def less_prod_def' order_less_le)

definition belief :: "Swim \<Rightarrow> Endpoint \<Rightarrow> standing option" where
  "belief s e = map_option (\<lambda>m. (m_inc m, m_state m)) (map_of (members s) (key e))"

section \<open>The well-formedness invariant\<close>

definition swim_inv :: "Swim \<Rightarrow> bool" where
  "swim_inv s \<longleftrightarrow> distinct (map fst (members s)) \<and> distinct (map fst (rumors s)) \<and> distinct (map fst (relays s))
     \<and> (\<forall>(k, m) \<in> set (members s). k = key (m_addr m) \<and> m_addr m \<noteq> self s \<and> \<not> is_none (m_addr m))"

lemma member_addr:
  assumes "swim_inv s" "map_of (members s) (key e) = Some m"
  shows "m_addr m = e" "e \<noteq> self s" "\<not> is_none e"
  using assms map_of_SomeD [OF assms(2)] by (auto simp: swim_inv_def)

lemma map_of_members:
  assumes "swim_inv s"
  shows "(k, m) \<in> set (members s) \<longleftrightarrow> map_of (members s) k = Some m"
  using assms by (simp add: swim_inv_def)

lemma set_AList_update: "set (AList.update k v al) \<subseteq> insert (k, v) (set al)"
  by (induction al) auto

lemma members_update_inv:
  assumes "swim_inv s" "m_addr m = e" "e \<noteq> self s" "\<not> is_none e"
  shows "swim_inv (s\<lparr>members := AList.update (key e) m (members s)\<rparr>)"
  using assms set_AList_update [of "key e" m "members s"]
  by (auto simp: swim_inv_def AList.distinct_update)

section \<open>Small steps\<close>

lemma queue_rumor_simps [simp]:
  "self (queue_rumor e st inc s) = self s" "sw_cfg (queue_rumor e st inc s) = sw_cfg s"
  "members (queue_rumor e st inc s) = members s" "relays (queue_rumor e st inc s) = relays s"
  "my_incarnation (queue_rumor e st inc s) = my_incarnation s" "belief (queue_rumor e st inc s) = belief s"
  "probing (queue_rumor e st inc s) = probing s" "probe_acked (queue_rumor e st inc s) = probe_acked s"
  "probe_target (queue_rumor e st inc s) = probe_target s" "on_state (queue_rumor e st inc s) = on_state s"
  "state_log (queue_rumor e st inc s) = state_log s"
  by (simp_all add: queue_rumor_def belief_def fun_eq_iff)

lemma queue_rumor_inv: "swim_inv s \<Longrightarrow> swim_inv (queue_rumor e st inc s)"
  by (simp add: swim_inv_def queue_rumor_def AList.distinct_update)

lemma notify_simps [simp]:
  "self (notify e st s) = self s" "sw_cfg (notify e st s) = sw_cfg s" "members (notify e st s) = members s"
  "rumors (notify e st s) = rumors s" "relays (notify e st s) = relays s" "my_incarnation (notify e st s) = my_incarnation s"
  "belief (notify e st s) = belief s" "swim_inv (notify e st s) = swim_inv s"
  by (simp_all add: notify_def belief_def swim_inv_def fun_eq_iff)

lemma belief_members_update:
  "belief (s\<lparr>members := AList.update (key e) m (members s)\<rparr>) = (belief s)(e := Some (m_inc m, m_state m))"
  by (auto simp: belief_def fun_eq_iff update_conv')

lemma refute_simps [simp]:
  "self (refute inc s) = self s" "sw_cfg (refute inc s) = sw_cfg s" "members (refute inc s) = members s"
  "belief (refute inc s) = belief s" "my_incarnation (refute inc s) = max (my_incarnation s) (inc + 1)"
  by (simp_all add: refute_def Let_def belief_def fun_eq_iff)

lemma refute_inv: "swim_inv s \<Longrightarrow> swim_inv (refute inc s)"
  unfolding refute_def Let_def by (rule queue_rumor_inv) (simp add: swim_inv_def)

text \<open>The incarnation a node takes when it hears a rumor about itself.\<close>

lemma max_wrap: "inc < my \<Longrightarrow> max my (inc + 1) = (my :: u32)"
  using inc_le [of inc my] by (simp add: max_absorb1)

lemma next_incarnation:
  fixes inc :: u32
  assumes "inc \<noteq> 0xFFFFFFFF"
  shows "inc < inc + 1"
proof -
  have "uint inc < 2 ^ 32" using uint_bounded [of inc] by simp
  moreover have "uint inc \<noteq> uint (0xFFFFFFFF :: u32)" using assms by (simp only: word_uint_eq_iff not_False_eq_True)
  ultimately have "uint (inc + 1) = uint inc + 1" by (simp add: uint_word_ariths)
  then show ?thesis by (simp add: word_less_def)
qed

section \<open>Merging a rumor\<close>

lemma apply_rumor_belief:
  "belief (fst (apply_rumor T e st inc s n)) =
     (if is_none e \<or> e = self s then belief s else (belief s)(e := max (belief s e) (Some (inc, st))))"
proof -
  have new: "max None (Some x) = Some x" for x :: standing by (simp add: max_def)
  have old: "max (Some x) (Some y) = (if x < y then Some y else Some x)" for x y :: standing
    by (auto simp: max_def intro: order_antisym)
  show ?thesis
    by (cases "map_of (members s) (key e)")
      (auto simp: apply_rumor_def Let_def split_beta belief_members_update overrides_less new old fun_eq_iff
        belief_def [of s])
qed


lemma apply_rumor_none: "is_none e \<Longrightarrow> apply_rumor T e st inc s n = (s, n)"
  by (simp add: apply_rumor_def)

lemma apply_rumor_self:
  assumes "\<not> is_none (self s)"
  shows "apply_rumor T (self s) st inc s n = (if st \<noteq> Alive \<and> my_incarnation s \<le> inc then refute inc s else s, n)"
  using assms by (cases st) (simp_all add: apply_rumor_def)

lemma apply_rumor_shape:
  fixes s :: Swim
  assumes "\<not> is_none e" "e \<noteq> self s"
  obtains (kept) "fst (apply_rumor T e st inc s n) = s"
  | (learnt) m s' where "m_addr m = (case map_of (members s) (key e) of None \<Rightarrow> e | Some m0 \<Rightarrow> m_addr m0)"
      "s' = queue_rumor e st inc (s\<lparr>members := AList.update (key e) m (members s)\<rparr>)"
      "fst (apply_rumor T e st inc s n) = s' \<or> fst (apply_rumor T e st inc s n) = notify e st s'"
proof (cases "map_of (members s) (key e)")
  case None
  then show thesis
    by (intro learnt [of "\<lparr>m_addr = e, m_state = st, m_inc = inc, suspect_deadline =
        (if st = Suspect then fst (t_now T n) + ms (suspicion_timeout (sw_cfg s)) else 0)\<rparr>"])
      (simp, rule refl, simp add: apply_rumor_def assms Let_def split_beta)
next
  case (Some m)
  show thesis
  proof (cases "overrides (m_state m) (m_inc m) st inc")
    case True
    let ?m = "m\<lparr>m_state := st, m_inc := inc\<rparr>"
    let ?m' = "if st = Suspect then ?m\<lparr>suspect_deadline := fst (t_now T n) + ms (suspicion_timeout (sw_cfg s))\<rparr> else ?m"
    show thesis
      using Some True by (intro learnt [of ?m']) (simp, rule refl, simp add: apply_rumor_def assms Let_def split_beta)
  next
    case False
    then show thesis using Some by (intro kept) (simp add: apply_rumor_def assms Let_def split_beta)
  qed
qed

lemma apply_rumor_frame [simp]:
  "self (fst (apply_rumor T e st inc s n)) = self s" "sw_cfg (fst (apply_rumor T e st inc s n)) = sw_cfg s"
proof -
  have "self (fst (apply_rumor T e st inc s n)) = self s \<and> sw_cfg (fst (apply_rumor T e st inc s n)) = sw_cfg s"
  proof (cases "is_none e \<or> e = self s")
    case True
    then show ?thesis by (cases "is_none e") (auto simp: apply_rumor_none apply_rumor_self)
  next
    case False
    then have "\<not> is_none e" "e \<noteq> self s" by simp_all
    then show ?thesis
      by (cases rule: apply_rumor_shape [where T = T and st = st and inc = inc and n = n]) auto
  qed
  then show "self (fst (apply_rumor T e st inc s n)) = self s" "sw_cfg (fst (apply_rumor T e st inc s n)) = sw_cfg s"
    by simp_all
qed

text \<open>The failure-detector part of the state, which rumors leave alone.\<close>

definition same_period :: "Swim \<Rightarrow> Swim \<Rightarrow> bool" where
  "same_period s s' \<longleftrightarrow> probing s' = probing s \<and> probe_acked s' = probe_acked s \<and> probe_target s' = probe_target s
     \<and> indirect_sent s' = indirect_sent s \<and> ping_deadline s' = ping_deadline s \<and> period_deadline s' = period_deadline s
     \<and> next_period s' = next_period s \<and> started s' = started s"

lemma same_period_refl [simp]: "same_period s s"
  by (simp add: same_period_def)

lemma same_period_trans: "same_period a b \<Longrightarrow> same_period b c \<Longrightarrow> same_period a c"
  by (simp add: same_period_def)

lemma same_period_small [simp]:
  "same_period s (queue_rumor e st inc s') = same_period s s'" "same_period s (notify e st s') = same_period s s'"
  "same_period s (s'\<lparr>members := mm\<rparr>) = same_period s s'" "same_period s (s'\<lparr>rumors := rs\<rparr>) = same_period s s'"
  "same_period s (s'\<lparr>relays := rl\<rparr>) = same_period s s'" "same_period s (s'\<lparr>my_incarnation := i\<rparr>) = same_period s s'"
  by (simp_all add: same_period_def queue_rumor_def notify_def)

lemma apply_rumor_period: "same_period s (fst (apply_rumor T e st inc s n))"
proof (cases "is_none e \<or> e = self s")
  case True
  then show ?thesis by (cases "is_none e") (auto simp: apply_rumor_none apply_rumor_self refute_def Let_def)
next
  case False
  then have "\<not> is_none e" "e \<noteq> self s" by simp_all
  then show ?thesis
    by (cases rule: apply_rumor_shape [where T = T and st = st and inc = inc and n = n]) auto
qed

lemma apply_rumor_incarnation:
  "my_incarnation (fst (apply_rumor T e st inc s n)) =
     (if \<not> is_none e \<and> e = self s \<and> st \<noteq> Alive then max (my_incarnation s) (inc + 1) else my_incarnation s)"
proof (cases "is_none e \<or> e = self s")
  case True
  then show ?thesis by (cases "is_none e") (auto simp: apply_rumor_none apply_rumor_self max_wrap not_le)
next
  case False
  then have "\<not> is_none e" "e \<noteq> self s" by simp_all
  then show ?thesis
    by (cases rule: apply_rumor_shape [where T = T and st = st and inc = inc and n = n]) (use False in auto)
qed

lemma apply_rumor_inv:
  assumes "swim_inv s"
  shows "swim_inv (fst (apply_rumor T e st inc s n))"
proof (cases "is_none e \<or> e = self s")
  case True
  then show ?thesis
    using assms refute_inv [OF assms, of inc] by (cases "is_none e") (auto simp: apply_rumor_none apply_rumor_self)
next
  case False
  then have "\<not> is_none e" "e \<noteq> self s" by simp_all
  then show ?thesis
  proof (cases rule: apply_rumor_shape [where T = T and st = st and inc = inc and n = n])
    case kept
    then show ?thesis using assms by simp
  next
    case (learnt m s')
    then have "m_addr m = e" by (cases "map_of (members s) (key e)") (simp_all add: member_addr(1) [OF assms])
    then have "swim_inv s'"
      unfolding learnt(2) using False by (intro queue_rumor_inv members_update_inv [OF assms]) simp_all
    then show ?thesis using learnt(3) by (metis notify_simps(8))
  qed
qed

text \<open>Every table entry a rumor creates or changes is the rumor, queued for dissemination.\<close>

lemma apply_rumor_rumors:
  "map_of (rumors (fst (apply_rumor T e st inc s n))) =
     (if is_none e \<or> (if e = self s then st = Alive \<or> inc < my_incarnation s else belief s e \<ge> Some (inc, st))
      then map_of (rumors s)
      else (map_of (rumors s))(key e \<mapsto>
        \<lparr>r_state = (if e = self s then Alive else st),
         r_inc = (if e = self s then max (my_incarnation s) (inc + 1) else inc), tx_count = 0\<rparr>))"
proof (cases "is_none e \<or> e = self s")
  case True
  then show ?thesis
    by (cases "is_none e")
      (auto simp: apply_rumor_none apply_rumor_self refute_def queue_rumor_def Let_def update_conv' not_le not_less)
next
  case False
  show ?thesis
  proof (cases "map_of (members s) (key e)")
    case None
    then show ?thesis
      using False by (simp add: apply_rumor_def Let_def split_beta queue_rumor_def update_conv' belief_def)
  next
    case (Some m)
    then show ?thesis
      using False
      by (simp add: apply_rumor_def Let_def split_beta queue_rumor_def update_conv' belief_def overrides_less not_less)
        (auto simp: not_le not_less)
  qed
qed

lemma apply_rumor_net: "snd (apply_rumor T e st inc s n) = (if is_none e \<or> e = self s then n else snd (t_now T n))"
  by (cases "map_of (members s) (key e)") (simp_all add: apply_rumor_def Let_def split_beta)

section \<open>Merging a packet's gossip\<close>

lemma apply_gossip_simps [simp]:
  "apply_gossip T [] s n = (s, n)"
  "apply_gossip T ((e, st, inc) # g) s n = (case apply_rumor T e st inc s n of (s, n) \<Rightarrow> apply_gossip T g s n)"
  by (simp_all add: apply_gossip_def split_beta)

text \<open>An assertion about the state that every rumor keeps is kept by a packet's gossip.\<close>

lemma apply_gossip_induct:
  assumes "P s" "\<And>e st inc s n. (e, st, inc) \<in> set g \<Longrightarrow> P s \<Longrightarrow> P (fst (apply_rumor T e st inc s n))"
  shows "P (fst (apply_gossip T g s n))"
  using assms
proof (induction g arbitrary: s n)
  case (Cons x g)
  obtain e st inc where x: "x = (e, st, inc)" by (cases x)
  show ?case unfolding x apply_gossip_simps split_beta
    by (rule Cons.IH) (use Cons.prems in \<open>auto simp: x\<close>)
qed simp

lemma apply_gossip_frame [simp]:
  "self (fst (apply_gossip T g s n)) = self s" "sw_cfg (fst (apply_gossip T g s n)) = sw_cfg s"
  by (rule apply_gossip_induct [of "\<lambda>s'. self s' = self s"]; simp)
    (rule apply_gossip_induct [of "\<lambda>s'. sw_cfg s' = sw_cfg s"]; simp)

lemma apply_gossip_inv: "swim_inv s \<Longrightarrow> swim_inv (fst (apply_gossip T g s n))"
  by (rule apply_gossip_induct) (auto intro: apply_rumor_inv)

text \<open>The records a packet carries about one endpoint, and the accusations it carries against the node itself.\<close>

definition heard :: "Endpoint \<Rightarrow> (Endpoint \<times> MemberState \<times> u32) list \<Rightarrow> standing option set" where
  "heard e g = set (map (\<lambda>(_, st, inc). Some (inc, st)) (filter (\<lambda>(e', _). e' = e) g))"

definition accusations :: "Endpoint \<Rightarrow> (Endpoint \<times> MemberState \<times> u32) list \<Rightarrow> u32 set" where
  "accusations e g = set (map (\<lambda>(_, st, inc). inc + 1) (filter (\<lambda>(e', st, _). e' = e \<and> st \<noteq> Alive) g))"

lemma finite_heard [simp]: "finite (heard e g)" "finite (accusations e g)"
  by (simp_all add: heard_def accusations_def)

lemma heard_simps [simp]:
  "heard e [] = {}" "heard e ((e', st, inc) # g) = (if e' = e then insert (Some (inc, st)) (heard e g) else heard e g)"
  "accusations e [] = {}"
  "accusations e ((e', st, inc) # g) =
     (if e' = e \<and> st \<noteq> Alive then insert (inc + 1) (accusations e g) else accusations e g)"
  by (auto simp: heard_def accusations_def)

lemma Max_insert_max:
  assumes "finite A"
  shows "Max (insert (max x y) A) = Max (insert x (insert (y :: 'a::linorder) A))"
proof (cases "A = {}")
  case False
  then show ?thesis using assms by (simp add: max.assoc)
qed simp

lemma apply_gossip_belief:
  "belief (fst (apply_gossip T g s n)) e =
     (if is_none e \<or> e = self s then belief s e else Max (insert (belief s e) (heard e g)))"
proof (induction g arbitrary: s n)
  case (Cons x g)
  obtain e' st inc where x: "x = (e', st, inc)" by (cases x)
  show ?case
    unfolding x apply_gossip_simps split_beta Cons.IH by (auto simp: apply_rumor_belief Max_insert_max)
qed simp

lemma apply_gossip_incarnation:
  "my_incarnation (fst (apply_gossip T g s n)) =
     Max (insert (my_incarnation s) (if is_none (self s) then {} else accusations (self s) g))"
proof (induction g arbitrary: s n)
  case (Cons x g)
  obtain e' st inc where x: "x = (e', st, inc)" by (cases x)
  show ?case
    unfolding x apply_gossip_simps split_beta Cons.IH by (auto simp: apply_rumor_incarnation Max_insert_max)
qed simp

section \<open>Properties\<close>

text \<open>The precedence of membership records is a strict total order: a record overrides another exactly when it is
  greater in the lexicographic order of incarnation and then of state, with Alive below Suspect below Dead.\<close>

theorem overrides_lexicographic:
  "overrides cur ci new ni = ((ci, cur) < (ni, new)) \<and>
   (overrides cur ci new ni \<noteq> overrides new ni cur ci) = ((ci, cur) \<noteq> (ni, new))"
  by (auto simp: overrides_less)

text \<open>C11: Gossip converges: what a node believes about any endpoint after merging a packet is the maximum of what it believed
  and of the records the packet carries about that endpoint, and its own incarnation is the maximum of its own and of the
  successors of the accusations against it. Only the set of the records matters, neither their order nor repetitions.\<close>

theorem gossip_is_join:
  "belief (fst (apply_gossip T g s n)) e =
     (if is_none e \<or> e = self s then belief s e else Max (insert (belief s e) (heard e g)))
   \<and> my_incarnation (fst (apply_gossip T g s n)) =
     Max (insert (my_incarnation s) (if is_none (self s) then {} else accusations (self s) g))"
  by (simp add: apply_gossip_belief apply_gossip_incarnation)

end
