(* ===== verification/Swim_Wire.thy ===== *)
theory Swim_Wire
  imports Swim_Merge
begin

text \<open>
  The wire path of the membership protocol: what a packet sent by \<^verbatim>\<open>send_swim\<close> carries is what its receiver reads,
  reading stays inside the received body, and the refutation and rejoin exchanges built on it.
\<close>

section \<open>The body layout\<close>

lemma get_is_load: "get_u16 = load_u16_le" "get_u32 = load_u32_le"
  by (simp_all add: fun_eq_iff get_u16_def get_u32_def load_u16_le_def load_u32_le_def)

lemma put_is_le: "put_u16 b v = b @ le16 v" "put_u32 b w = b @ le32 w"
  by (simp_all add: put_u16_def put_u32_def le16_def le32_def upt_rec)

definition entry_bytes :: "Endpoint \<times> Rumor \<Rightarrow> bytes" where
  "entry_bytes x = le32 (addr_be (fst x)) @ le16 (port_be (fst x)) @ le32 (r_inc (snd x)) @ [state_wire (r_state (snd x))]"

lemma length_entry [simp]: "length (entry_bytes x) = kGossipEntry"
  by (simp add: entry_bytes_def kGossipEntry_def)

lemma swim_body_eq:
  "swim_body pid subject pick = le32 pid @ le32 (addr_be subject) @ le16 (port_be subject) @ le16 (word_of_nat (length pick))
     @ concat (map entry_bytes pick)"
proof -
  have "foldl (\<lambda>b (e, r). put_u32 (put_u16 (put_u32 b (addr_be e)) (port_be e)) (r_inc r) @ [state_wire (r_state r)]) b pick
      = b @ concat (map entry_bytes pick)" for b
    by (induction pick arbitrary: b) (auto simp: put_is_le entry_bytes_def)
  then show ?thesis by (simp add: swim_body_def Let_def put_is_le)
qed

lemma length_swim_body: "length (swim_body pid subject pick) = kSwimHeader + kGossipEntry * length pick"
  by (simp add: swim_body_eq length_concat comp_def sum_list_triv kSwimHeader_def)

section \<open>Reading back what was written\<close>

lemma load_append:
  "load_u16_le (pre @ le16 v @ post) (length pre) = Some v"
  "load_u32_le (pre @ le32 w @ post) (length pre) = Some w"
  "load_u8 (pre @ x # post) (length pre) = Some x"
proof -
  have [simp]: "(pre @ xs) ! Suc (length pre) = xs ! 1" "(pre @ xs) ! Suc (Suc (length pre)) = xs ! 2" "(pre @ xs) ! (length pre + k) = xs ! k" for xs k
    by (simp_all add: nth_append)
  show "load_u16_le (pre @ le16 v @ post) (length pre) = Some v" "load_u32_le (pre @ le32 w @ post) (length pre) = Some w"
    by (simp_all add: load_in_range) (simp_all add: le16_def le32_def)
  show "load_u8 (pre @ x # post) (length pre) = Some x"
    by (simp add: load_in_range)
qed

lemma load_append_at:
  "off = length pre \<Longrightarrow> load_u16_le (pre @ le16 v @ post) off = Some v"
  "off = length pre \<Longrightarrow> load_u32_le (pre @ le32 w @ post) off = Some w"
  "off = length pre \<Longrightarrow> load_u8 (pre @ x # post) off = Some x"
  by (simp_all add: load_append)

lemma state_round_trip [simp]: "state_from_wire (state_wire st) = st"
  by (cases st) (simp_all add: state_from_wire_def)

definition rumor_of :: "Endpoint \<times> Rumor \<Rightarrow> Endpoint \<times> MemberState \<times> u32" where
  "rumor_of x = (fst x, r_state (snd x), r_inc (snd x))"

lemma read_entry:
  assumes "body = pre @ entry_bytes x @ post" "off = length pre"
  shows "get_u32 body off = Some (addr_be (fst x))" "get_u16 body (off + 4) = Some (port_be (fst x))"
    "get_u32 body (off + 6) = Some (r_inc (snd x))" "load_u8 body (off + 10) = Some (state_wire (r_state (snd x)))"
proof -
  let ?e = "fst x" and ?r = "snd x"
  let ?p1 = "pre @ le32 (addr_be ?e)" and ?p2 = "pre @ le32 (addr_be ?e) @ le16 (port_be ?e)"
  let ?p3 = "?p2 @ le32 (r_inc ?r)"
  have b: "body = pre @ le32 (addr_be ?e) @ le16 (port_be ?e) @ le32 (r_inc ?r) @ state_wire (r_state ?r) # post"
    "body = ?p1 @ le16 (port_be ?e) @ le32 (r_inc ?r) @ state_wire (r_state ?r) # post"
    "body = ?p2 @ le32 (r_inc ?r) @ state_wire (r_state ?r) # post" "body = ?p3 @ state_wire (r_state ?r) # post"
    by (simp_all add: assms(1) entry_bytes_def)
  show "get_u32 body off = Some (addr_be ?e)" "get_u16 body (off + 4) = Some (port_be ?e)"
    "get_u32 body (off + 6) = Some (r_inc ?r)" "load_u8 body (off + 10) = Some (state_wire (r_state ?r))"
    unfolding get_is_load
    by (subst b(1), rule load_append_at, simp add: assms(2))
      (subst b(2), rule load_append_at, simp add: assms(2),
       subst b(3), rule load_append_at, simp add: assms(2), subst b(4), rule load_append_at, simp add: assms(2))
qed

lemma read_gossip_written:
  "read_gossip (pre @ concat (map entry_bytes es)) (length pre) (length es) = Some (map rumor_of es)"
proof (induction es arbitrary: pre)
  case (Cons x es)
  let ?b = "pre @ entry_bytes x @ concat (map entry_bytes es)"
  have "read_gossip ?b (length pre + kGossipEntry) (length es) = Some (map rumor_of es)"
    using Cons.IH [of "pre @ entry_bytes x"] by simp
  then show ?case
    using read_entry [of ?b pre x, OF refl refl] by (simp add: rumor_of_def kGossipEntry_def)
qed simp

lemma read_body_written:
  assumes "length pick < 2 ^ 16"
  shows "read_body (swim_body pid subject pick) = Some (pid, subject, map rumor_of pick)"
proof -
  let ?n = "le16 (word_of_nat (length pick))" and ?g = "concat (map entry_bytes pick)"
  let ?p1 = "le32 pid" and ?p2 = "le32 pid @ le32 (addr_be subject)"
    and ?p3 = "le32 pid @ le32 (addr_be subject) @ le16 (port_be subject)"
  let ?b = "swim_body pid subject pick"
  have b: "?b = [] @ le32 pid @ le32 (addr_be subject) @ le16 (port_be subject) @ ?n @ ?g"
    "?b = ?p1 @ le32 (addr_be subject) @ le16 (port_be subject) @ ?n @ ?g" "?b = ?p2 @ le16 (port_be subject) @ ?n @ ?g"
    "?b = ?p3 @ ?n @ ?g" "?b = (?p3 @ ?n) @ ?g"
    by (simp_all add: swim_body_eq)
  have "get_u32 ?b 0 = Some pid" unfolding get_is_load by (subst b(1), rule load_append_at) simp
  moreover have "get_u32 ?b 4 = Some (addr_be subject)" unfolding get_is_load by (subst b(2), rule load_append_at) simp
  moreover have "get_u16 ?b 8 = Some (port_be subject)" unfolding get_is_load by (subst b(3), rule load_append_at) simp
  moreover have "get_u16 ?b 10 = Some (word_of_nat (length pick))"
    unfolding get_is_load by (subst b(4), rule load_append_at) simp
  moreover have "unat (word_of_nat (length pick) :: u16) = length pick"
    using assms by (simp add: unsigned_of_nat take_bit_nat_eq_self)
  moreover have "read_gossip ?b kSwimHeader (length pick) = Some (map rumor_of pick)"
    using read_gossip_written [of "?p3 @ ?n" pick] unfolding b(5) by (simp add: kSwimHeader_def)
  ultimately show ?thesis by (simp add: read_body_def)
qed

section \<open>Reading stays inside the body\<close>

lemma read_gossip_total: "\<exists>g. read_gossip body off k = Some g \<and> length g \<le> k"
proof (induction k arbitrary: off)
  case (Suc k)
  then obtain g where g: "read_gossip body (off + kGossipEntry) k = Some g" "length g \<le> k" by blast
  show ?case
    using g by (cases "off + kGossipEntry > length body") (simp_all add: get_is_load load_in_range kGossipEntry_def)
qed simp

lemma read_body_total:
  assumes "kSwimHeader \<le> length body"
  shows "\<exists>pid subject g. read_body body = Some (pid, subject, g)"
proof -
  have len: "0 + 3 < length body" "4 + 3 < length body" "8 + 1 < length body" "10 + 1 < length body"
    using assms by (simp_all add: kSwimHeader_def)
  obtain cnt where c: "get_u16 body 10 = Some cnt" unfolding get_is_load using load_in_range(2) [OF len(4)] by simp
  obtain g where "read_gossip body kSwimHeader (unat cnt) = Some g" using read_gossip_total by blast
  then show ?thesis
    using c load_in_range(3) [OF len(1)] load_in_range(3) [OF len(2)] load_in_range(2) [OF len(3)]
    by (simp add: read_body_def get_is_load)
qed

section \<open>Sending\<close>

definition swim_type :: "PacketType \<Rightarrow> bool" where
  "swim_type ty \<longleftrightarrow> ty = PT_Ping \<or> ty = PT_PingReq \<or> ty = PT_Pong \<or> ty = PT_Join"

text \<open>The gossip a packet takes along, the datagram it becomes, and the sender's state afterwards.\<close>

definition chosen :: "Library \<Rightarrow> bool \<Rightarrow> Swim \<Rightarrow> (Endpoint \<times> Rumor) list" where
  "chosen L full s = (if full then snapshot_pick L s else rumor_pick L (gossip_budget L s) s)"

definition swim_wire :: "PacketType \<Rightarrow> u32 \<Rightarrow> Endpoint \<Rightarrow> (Endpoint \<times> Rumor) list \<Rightarrow> bytes" where
  "swim_wire ty pid subject pick = wire_image (empty_packet\<lparr>p_type := ty, p_payload := swim_body pid subject pick\<rparr>)"

definition charged :: "Library \<Rightarrow> bool \<Rightarrow> Swim \<Rightarrow> Swim" where
  "charged L full s =
     (if full then s else s\<lparr>rumors := foldl (charge (gossip_budget L s)) (rumors s) (chosen L full s)\<rparr>)"

lemma length_chosen: "length (chosen L full s) \<le> kMaxFitEntries"
  by (simp add: chosen_def snapshot_pick_def rumor_pick_def kMaxFitEntries_def kMaxGossipEntries_def kMaxDatagram_def
      kBaseHeaderSize_def kSwimHeader_def kGossipEntry_def min_le_iff_disj)

lemma swim_packet_encodable:
  assumes "length pick \<le> kMaxFitEntries"
  shows "encodable (empty_packet\<lparr>p_type := ty, p_payload := swim_body pid subject pick\<rparr>)"
    "total_len (empty_packet\<lparr>p_type := ty, p_payload := swim_body pid subject pick\<rparr>) \<le> kMaxDatagram"
    "0 < total_len (empty_packet\<lparr>p_type := ty, p_payload := swim_body pid subject pick\<rparr>)"
proof -
  have "length (swim_body pid subject pick) \<le> 1178"
    using assms by (simp add: length_swim_body kMaxFitEntries_def kMaxDatagram_def kBaseHeaderSize_def kSwimHeader_def
      kGossipEntry_def)
  then show "encodable (empty_packet\<lparr>p_type := ty, p_payload := swim_body pid subject pick\<rparr>)"
    "total_len (empty_packet\<lparr>p_type := ty, p_payload := swim_body pid subject pick\<rparr>) \<le> kMaxDatagram"
    "0 < total_len (empty_packet\<lparr>p_type := ty, p_payload := swim_body pid subject pick\<rparr>)"
    by (simp_all add: encodable_def total_len_def header_len_def has_sack_def empty_packet_def kMaxDatagram_def
      kBaseHeaderSize_def)
qed

lemma length_swim_wire: "length pick \<le> kMaxFitEntries \<Longrightarrow> length (swim_wire ty pid subject pick) \<le> kMaxDatagram"
  by (simp add: swim_wire_def swim_packet_encodable)

lemma decode_swim_wire:
  assumes "length pick \<le> kMaxFitEntries"
  shows "decode (swim_wire ty pid subject pick) =
    Inr (on_wire (empty_packet\<lparr>p_type := ty, p_payload := swim_body pid subject pick\<rparr>))"
  using swim_packet_encodable [OF assms] by (simp add: swim_wire_def decode_wire_image)

lemma send_swim_eq:
  "send_swim T L ty dest pid subject full s n =
     (charged L full s, snd (t_send T dest (swim_wire ty pid subject (chosen L full s)) n))"
proof -
  let ?p = "empty_packet\<lparr>p_type := ty, p_payload := swim_body pid subject (chosen L full s)\<rparr>"
  have p: "empty_packet\<lparr>p_type := ty, p_flags := 0, p_cls := Unreliable, p_seq := 0, p_cum_ack := 0, p_adv_window := 0,
      p_payload := body\<rparr> = empty_packet\<lparr>p_type := ty, p_payload := body\<rparr>" for body
    by (simp add: empty_packet_def)
  have "encode ?p (replicate kMaxDatagram 0) =
      (total_len ?p, wire_image ?p @ drop (total_len ?p) (replicate kMaxDatagram 0))"
    using swim_packet_encodable [OF length_chosen] by (simp add: encode_eq)
  then show ?thesis
    using swim_packet_encodable(3) [OF length_chosen]
    by (simp add: send_swim_def Let_def p swim_wire_def charged_def flip: chosen_def)
qed

lemma charged_frame [simp]:
  "self (charged L full s) = self s" "sw_cfg (charged L full s) = sw_cfg s" "members (charged L full s) = members s"
  "belief (charged L full s) = belief s" "my_incarnation (charged L full s) = my_incarnation s"
  "relays (charged L full s) = relays s" "same_period s0 (charged L full s) = same_period s0 s"
  by (simp_all add: charged_def belief_def fun_eq_iff)

text \<open>Charging only counts transmissions and drops exhausted rumors.\<close>

lemma charge_origin:
  assumes "map_of (charge b rs x) k = Some r"
  shows "\<exists>r0. map_of rs k = Some r0 \<and> r_state r = r_state r0 \<and> r_inc r = r_inc r0"
  using assms by (auto simp: charge_def Let_def update_conv' delete_conv' split: option.splits if_splits)

lemma charge_distinct: "distinct (map fst rs) \<Longrightarrow> distinct (map fst (charge b rs x))"
  by (simp add: charge_def Let_def AList.distinct_update AList.distinct_delete split: option.split)

lemma charges_origin:
  assumes "map_of (foldl (charge b) rs xs) k = Some r"
  shows "\<exists>r0. map_of rs k = Some r0 \<and> r_state r = r_state r0 \<and> r_inc r = r_inc r0"
  using assms
proof (induction xs arbitrary: r rule: rev_induct)
  case (snoc x xs)
  then obtain r1 where "map_of (foldl (charge b) rs xs) k = Some r1" "r_state r = r_state r1" "r_inc r = r_inc r1"
    using charge_origin [of b "foldl (charge b) rs xs" x k r] by auto
  then show ?case using snoc.IH by force
qed simp

lemma charges_distinct: "distinct (map fst rs) \<Longrightarrow> distinct (map fst (foldl (charge b) rs xs))"
  by (induction xs arbitrary: rs) (simp_all add: charge_distinct)

lemma charged_inv: "swim_inv s \<Longrightarrow> swim_inv (charged L full s)"
  by (simp add: swim_inv_def charged_def charges_distinct)

text \<open>What is gossiped is held: by the table for a snapshot, by the pending rumors otherwise.\<close>

lemma set_entries [simp]: "set (entries L m) = set m"
  by (simp add: entries_def)

lemma chosen_origin:
  assumes "(e, r) \<in> set (chosen L full s)"
  shows "if full then e = self s \<and> r_state r = Alive \<and> r_inc r = my_incarnation s
      \<or> (\<exists>(k, m) \<in> set (members s). m_addr m = e \<and> r_state r = m_state m \<and> r_inc r = m_inc m)
    else \<exists>k. (k, r) \<in> set (rumors s) \<and> e = endpoint_of_key k"
  using assms by (fastforce simp: chosen_def snapshot_pick_def rumor_pick_def dest!: in_set_takeD split: if_splits)

section \<open>Handling a packet\<close>

text \<open>An entry of the table stays as it is, with its deadline, until a record overrides it.\<close>

definition entries_kept :: "Swim \<Rightarrow> Swim \<Rightarrow> bool" where
  "entries_kept s s' \<longleftrightarrow> (\<forall>k m. map_of (members s) k = Some m \<longrightarrow>
     (\<exists>m'. map_of (members s') k = Some m' \<and> (m' = m \<or> (m_inc m, m_state m) < (m_inc m', m_state m'))))"

lemma entries_kept_members: "members s' = members s \<Longrightarrow> entries_kept s s'"
  by (simp add: entries_kept_def)

lemma entries_keptE:
  assumes "entries_kept s s'" "map_of (members s) k = Some m"
  obtains m' where "map_of (members s') k = Some m'" "m' = m \<or> (m_inc m, m_state m) < (m_inc m', m_state m')"
  using assms unfolding entries_kept_def by blast

lemma entries_kept_trans:
  assumes "entries_kept a b" "entries_kept b c"
  shows "entries_kept a c"
  unfolding entries_kept_def
proof (intro allI impI)
  fix k m
  assume "map_of (members a) k = Some m"
  with assms(1) obtain m1 where m1: "map_of (members b) k = Some m1" "m1 = m \<or> (m_inc m, m_state m) < (m_inc m1, m_state m1)"
    by (rule entries_keptE)
  from assms(2) m1(1) obtain m2 where m2: "map_of (members c) k = Some m2" "m2 = m1 \<or> (m_inc m1, m_state m1) < (m_inc m2, m_state m2)"
    by (rule entries_keptE)
  from m1(2) m2(2) have "m2 = m \<or> (m_inc m, m_state m) < (m_inc m2, m_state m2)" by (elim disjE) (blast intro: less_trans)+
  with m2(1) show "\<exists>m'. map_of (members c) k = Some m' \<and> (m' = m \<or> (m_inc m, m_state m) < (m_inc m', m_state m'))" by blast
qed

lemma entries_kept_rumor: "entries_kept s (fst (apply_rumor T e st inc s n))"
proof (cases "is_none e \<or> e = self s \<or> map_of (members s) (key e) = None")
  case True
  then show ?thesis
    by (auto simp: apply_rumor_def Let_def split_beta refute_def queue_rumor_def entries_kept_def update_conv')
next
  case False
  then obtain m where "\<not> is_none e" "e \<noteq> self s" "map_of (members s) (key e) = Some m" by blast
  then show ?thesis
    by (auto simp: apply_rumor_def Let_def split_beta entries_kept_def update_conv' overrides_less)
qed

text \<open>A step that keeps the node's identity and the invariant, and in which evidence only accumulates.\<close>

definition grows :: "Swim \<Rightarrow> Swim \<Rightarrow> bool" where
  "grows s s' \<longleftrightarrow> self s' = self s \<and> sw_cfg s' = sw_cfg s \<and> (\<forall>e. belief s e \<le> belief s' e)
     \<and> my_incarnation s \<le> my_incarnation s' \<and> (swim_inv s \<longrightarrow> swim_inv s') \<and> entries_kept s s'"

lemma grows_refl [simp]: "grows s s"
  by (simp add: grows_def entries_kept_members)

lemma grows_trans: "grows a b \<Longrightarrow> grows b c \<Longrightarrow> grows a c"
  unfolding grows_def by (auto intro: order_trans entries_kept_trans)

lemma grows_rumor: "grows s (fst (apply_rumor T e st inc s n))"
  by (simp add: grows_def apply_rumor_inv apply_rumor_belief apply_rumor_incarnation entries_kept_rumor)

lemma grows_gossip: "grows s (fst (apply_gossip T g s n))"
  by (rule apply_gossip_induct) (auto intro: grows_trans grows_rumor)

lemma grows_queue: "grows s (queue_rumor e st inc s)"
  by (simp add: grows_def queue_rumor_inv entries_kept_members)

lemma grows_send: "grows s (fst (send_swim T L ty dest pid subject full s n))"
  by (simp add: grows_def send_swim_eq charged_inv entries_kept_members)

lemma grows_fields:
  assumes "self s' = self s" "sw_cfg s' = sw_cfg s" "members s' = members s" "rumors s' = rumors s"
    "my_incarnation s' = my_incarnation s" "distinct (map fst (relays s)) \<Longrightarrow> distinct (map fst (relays s'))"
  shows "grows s s'"
  using assms by (simp add: grows_def belief_def swim_inv_def entries_kept_members)

lemma grows_ping_req: "grows s (fst (handle_ping_req T L source pid subject s n))"
proof (cases "is_none subject \<or> subject = self s")
  case False
  let ?s1 = "s\<lparr>next_probe_id := next_probe_id s + 1, relays := AList.update (next_probe_id s) \<lparr>requester = source, req_probe = pid,
      target = subject, relay_deadline = fst (t_now T n) + ms (period (sw_cfg s))\<rparr> (relays s)\<rparr>"
  have "grows s ?s1" by (rule grows_fields) (simp_all add: AList.distinct_update)
  then have "grows s (fst (send_swim T L PT_Ping subject (next_probe_id s) subject False ?s1 (snd (t_now T n))))"
    by (rule grows_trans) (rule grows_send)
  then show ?thesis using False by (simp add: handle_ping_req_def Let_def split_beta)
qed (auto simp: handle_ping_req_def)

lemma grows_pong: "grows s (fst (handle_pong T L pid subject s n))"
proof (cases "map_of (relays s) pid")
  case None
  then show ?thesis by (auto simp: handle_pong_def intro!: grows_fields)
next
  case (Some r)
  have "grows s (s\<lparr>relays := AList.delete pid (relays s)\<rparr>)" by (rule grows_fields) (simp_all add: AList.distinct_delete)
  then show ?thesis using Some by (auto simp: handle_pong_def intro: grows_trans grows_send)
qed

lemma grows_join: "grows s (fst (handle_join T L source inc request s n))"
  by (auto simp: handle_join_def Let_def split_beta intro: grows_trans [OF grows_rumor grows_send] grows_rumor)

lemma grows_tell_dead: "grows s (tell_dead source s)"
  by (simp add: tell_dead_def grows_queue split: option.split)

lemma grows_dispatch: "grows s (fst (dispatch T L source ty pid subject s n))"
  by (simp add: dispatch_def handle_ping_def grows_send grows_ping_req grows_pong grows_join)

lemma swim_packet_grows:
  assumes "swim_packet T L source ty body s n = Some (s', n')"
  shows "grows s s'"
proof -
  obtain pid subject g where b: "read_body body = Some (pid, subject, g)"
    using assms by (cases "read_body body") (auto simp: swim_packet_def)
  obtain s1 n1 where g: "apply_gossip T g (tell_dead source s) n = (s1, n1)" by fastforce
  have "grows s s1" using grows_trans [OF grows_tell_dead grows_gossip [of "tell_dead source s" T g n]] g by simp
  moreover have "grows s1 s'" using assms grows_dispatch [of s1 T L source ty pid subject n1] by (simp add: swim_packet_def b g)
  ultimately show ?thesis by (rule grows_trans)
qed

lemma swim_datagram_total:
  obtains s' n' where "swim_datagram T L d source s n = Some (s', n')" "grows s s'"
proof (cases "\<exists>p. decode d = Inr p \<and> swim_type (p_type p) \<and> kSwimHeader \<le> length (p_payload p)")
  case True
  then obtain p where p: "decode d = Inr p" "swim_type (p_type p)" "kSwimHeader \<le> length (p_payload p)" by blast
  have "swim_packet T L source (p_type p) (p_payload p) s n \<noteq> None"
    using read_body_total [OF p(3)] by (auto simp: swim_packet_def Let_def split_beta)
  then obtain x where x: "swim_packet T L source (p_type p) (p_payload p) s n = Some x" by blast
  then have "swim_datagram T L d source s n = Some (fst x, snd x)"
    using p by (auto simp: swim_datagram_def swim_type_def)
  moreover have "grows s (fst x)" using x swim_packet_grows by (metis prod.collapse)
  ultimately show thesis by (rule that)
next
  case False
  then have "swim_datagram T L d source s n = Some (s, n)"
    by (auto simp: swim_datagram_def swim_type_def split: sum.split)
  then show thesis by (rule that) simp
qed

lemma swim_poll_loop_total: "\<exists>b s' n'. swim_poll_loop T L k s n = Some (b, s', n') \<and> grows s s'"
proof (induction k arbitrary: s n)
  case (Suc k)
  obtain r n1 where r: "t_recv T kMaxDatagram n = (r, n1)" by fastforce
  show ?case
  proof (cases r)
    case None
    then have "swim_poll_loop T L (Suc k) s n = Some (False, s, n1)" using r by simp
    then show ?thesis by (metis grows_refl)
  next
    case (Some x)
    obtain s1 n2 where s1: "swim_datagram T L (fst x) (snd x) s n1 = Some (s1, n2)" "grows s s1"
      by (rule swim_datagram_total)
    with Suc.IH [of s1 n2] show ?thesis using r Some by (auto intro: grows_trans simp: split_beta)
  qed
qed auto

section \<open>Properties\<close>

text \<open>C16: A membership packet always fits and arrives as meant: \<open>send_swim\<close> transmits one datagram of at most 1200 bytes
  to the destination, whatever the tables hold, and a receiver that decodes it reads back the type, the probe id, the subject
  and exactly the gossip entries that were chosen.\<close>

theorem send_swim_carries:
  "\<exists>d p. send_swim T L ty dest pid subject full s n = (charged L full s, snd (t_send T dest d n)) \<and> length d \<le> kMaxDatagram
     \<and> decode d = Inr p \<and> p_type p = ty AND 0x0F
     \<and> read_body (p_payload p) = Some (pid, subject, map rumor_of (chosen L full s))"
proof -
  have len: "length (chosen L full s) < 2 ^ 16"
    using length_chosen [of L full s] by (simp add: kMaxFitEntries_def kMaxDatagram_def kBaseHeaderSize_def kSwimHeader_def
      kGossipEntry_def)
  show ?thesis
    using send_swim_eq [of T L ty dest pid subject full s n] length_swim_wire [OF length_chosen]
      decode_swim_wire [OF length_chosen] read_body_written [OF len]
    by (intro exI [of _ "swim_wire ty pid subject (chosen L full s)"]
        exI [of _ "on_wire (empty_packet\<lparr>p_type := ty, p_payload := swim_body pid subject (chosen L full s)\<rparr>)"])
      (simp add: on_wire_def empty_packet_def)
qed

end
