(* ===== verification/Swim_Detector.thy ===== *)
theory Swim_Detector
  imports Swim_Wire Sim_Net
begin

text \<open>
  The failure detector of the membership protocol: what one \<^verbatim>\<open>tick()\<close> does to the beliefs, the round-robin choice of the
  probe target, and when a member that does not answer becomes suspect.
\<close>

section \<open>Expiring suspicions\<close>

definition expired :: "time_point \<Rightarrow> Swim \<Rightarrow> Endpoint \<Rightarrow> bool" where
  "expired now s e \<longleftrightarrow>
     (case map_of (members s) (key e) of None \<Rightarrow> False | Some m \<Rightarrow> m_state m = Suspect \<and> suspect_deadline m \<le> now)"

definition buried :: "standing option \<Rightarrow> standing option" where
  "buried b = map_option (\<lambda>(i, _). (i, Dead)) b"

lemma incarnation_of_belief: "e \<noteq> self s \<Longrightarrow> belief s e = Some (i, st) \<Longrightarrow> incarnation_of e s = i"
  by (auto simp: incarnation_of_def belief_def)

lemma belief_member:
  assumes "swim_inv s" "belief s e = Some x"
  shows "e \<noteq> self s" "\<not> is_none e"
  using assms member_addr [OF assms(1), of e] by (auto simp: belief_def)

text \<open>A fold of steps that grow the state grows it.\<close>

lemma grows_foldl:
  assumes "\<And>s n x. grows s (fst (f (s, n) x))"
  shows "grows s (fst (foldl f (s, n) xs))"
proof (induction xs arbitrary: s n)
  case (Cons x xs)
  show ?case
    using grows_trans [OF assms [of s n x] Cons.IH [of "fst (f (s, n) x)" "snd (f (s, n) x)"]] by simp
qed simp

lemma period_foldl:
  assumes "\<And>s n x. same_period s (fst (f (s, n) x))"
  shows "same_period s (fst (foldl f (s, n) xs))"
proof (induction xs arbitrary: s n)
  case (Cons x xs)
  show ?case
    using same_period_trans [OF assms [of s n x] Cons.IH [of "fst (f (s, n) x)" "snd (f (s, n) x)"]] by simp
qed simp

lemma kill_all:
  assumes "swim_inv s" "distinct xs" "\<forall>e \<in> set xs. \<exists>i. belief s e = Some (i, Suspect)"
  shows "belief (fst (foldl (\<lambda>(s, n) e. apply_rumor T e Dead (incarnation_of e s) s n) (s, n) xs)) e =
    (if e \<in> set xs then buried (belief s e) else belief s e)"
  using assms
proof (induction xs arbitrary: s n)
  case (Cons x xs)
  obtain i where i: "belief s x = Some (i, Suspect)" using Cons.prems(3) by auto
  note x = belief_member [OF Cons.prems(1) i]
  obtain s1 n1 where s1: "apply_rumor T x Dead (incarnation_of x s) s n = (s1, n1)" by fastforce
  have "belief s1 = (belief s)(x := max (belief s x) (Some (i, Dead)))"
    using apply_rumor_belief [of T x Dead i s n] x i s1 by (simp add: incarnation_of_belief)
  moreover have "max (Some (i, Suspect)) (Some (i, Dead)) = Some (i, Dead)" by (simp add: max_def)
  ultimately have b: "belief s1 = (belief s)(x := Some (i, Dead))" using i by simp
  have inv: "swim_inv s1" using apply_rumor_inv [OF Cons.prems(1)] s1 by (metis fst_conv)
  have "\<forall>e \<in> set xs. \<exists>i. belief s1 e = Some (i, Suspect)" using Cons.prems(2,3) b by auto
  from Cons.IH [OF inv _ this, of n1] show ?case
    using Cons.prems(2) by (auto simp: s1 b i buried_def)
qed simp

lemma kill_all_incarnation:
  assumes "self s \<notin> set xs"
  shows "my_incarnation (fst (foldl (\<lambda>(s, n) e. apply_rumor T e Dead (incarnation_of e s) s n) (s, n) xs)) = my_incarnation s"
  using assms
proof (induction xs arbitrary: s n)
  case (Cons x xs)
  obtain s1 n1 where s1: "apply_rumor T x Dead (incarnation_of x s) s n = (s1, n1)" by fastforce
  then have "self s1 = self s" "my_incarnation s1 = my_incarnation s"
    using apply_rumor_frame(1) [of T x Dead "incarnation_of x s" s n] apply_rumor_incarnation [of T x Dead "incarnation_of x s" s n]
      Cons.prems by auto
  with Cons.IH [of s1 n1] Cons.prems show ?case by (simp add: s1)
qed simp

lemma distinct_arrange [simp]: "distinct (arrange f xs) = distinct xs"
  using mset_arrange mset_eq_imp_distinct_iff by blast

lemma distinct_addresses:
  assumes "swim_inv s"
  shows "distinct (map (\<lambda>(k, m). m_addr m) (filter P (entries L (members s))))"
proof -
  have "(k, m) = (k', m')"
    if "(k, m) \<in> set (members s)" "(k', m') \<in> set (members s)" "m_addr m = m_addr m'" for k m k' m'
  proof -
    have "k = key (m_addr m)" "k' = key (m_addr m')" using that(1,2) assms unfolding swim_inv_def by blast+
    then have "k = k'" using that(3) by simp
    then show ?thesis using that(1,2) by (simp add: map_of_members [OF assms])
  qed
  then have "inj_on (\<lambda>(k, m). m_addr m) (set (members s))" by (auto simp: inj_on_def)
  moreover have "distinct (members s)" using assms by (simp add: swim_inv_def distinct_map)
  ultimately show ?thesis
    by (auto simp: distinct_map entries_def intro: distinct_filter inj_on_subset)
qed

lemma expired_listed:
  assumes "swim_inv s"
  shows "e \<in> set (map (\<lambda>(k, m). m_addr m) (filter (\<lambda>(k, m). m_state m = Suspect \<and> now \<ge> suspect_deadline m)
    (entries L (members s)))) \<longleftrightarrow> expired now s e"
proof -
  have "expired now s e \<longleftrightarrow> (\<exists>m. (key e, m) \<in> set (members s) \<and> m_state m = Suspect \<and> suspect_deadline m \<le> now)"
    using assms by (auto simp: expired_def map_of_members [OF assms] split: option.split)
  moreover have "(k, m) \<in> set (members s) \<Longrightarrow> k = key (m_addr m)" for k m
    using assms unfolding swim_inv_def by auto
  ultimately show ?thesis by force
qed

lemma expire_suspects_belief:
  assumes "swim_inv s"
  shows "belief (fst (expire_suspects T L now s n)) e = (if expired now s e then buried (belief s e) else belief s e)"
proof -
  let ?xs = "map (\<lambda>(k, m). m_addr m) (filter (\<lambda>(k, m). m_state m = Suspect \<and> now \<ge> suspect_deadline m) (entries L (members s)))"
  have "\<exists>i. belief s e = Some (i, Suspect)" if "e \<in> set ?xs" for e
    using that unfolding expired_listed [OF assms] by (auto simp: expired_def belief_def split: option.splits)
  then have "\<forall>e \<in> set ?xs. \<exists>i. belief s e = Some (i, Suspect)" by blast
  from kill_all [OF assms distinct_addresses [OF assms] this, of T n e] show ?thesis
    unfolding expire_suspects_def Let_def expired_listed [OF assms] .
qed

lemma expire_suspects_incarnation:
  assumes "swim_inv s"
  shows "my_incarnation (fst (expire_suspects T L now s n)) = my_incarnation s"
  unfolding expire_suspects_def Let_def
  by (rule kill_all_incarnation) (use assms in \<open>auto simp: swim_inv_def\<close>)

lemma expire_suspects_frame:
  "grows s (fst (expire_suspects T L now s n))" "same_period s (fst (expire_suspects T L now s n))"
  unfolding expire_suspects_def Let_def
  by (rule grows_foldl; simp add: grows_rumor) (rule period_foldl; simp add: apply_rumor_period)

section \<open>One period\<close>

text \<open>Steps that leave every belief alone.\<close>

definition quiet :: "Swim \<Rightarrow> Swim \<Rightarrow> bool" where
  "quiet s s' \<longleftrightarrow> members s' = members s \<and> my_incarnation s' = my_incarnation s \<and> grows s s'"

lemma quiet_refl [simp]: "quiet s s"
  by (simp add: quiet_def)

lemma quiet_trans: "quiet a b \<Longrightarrow> quiet b c \<Longrightarrow> quiet a c"
  by (auto simp: quiet_def intro: grows_trans)

lemma quiet_belief: "quiet s s' \<Longrightarrow> belief s' = belief s"
  by (simp add: quiet_def belief_def fun_eq_iff)

lemma quiet_send: "quiet s (fst (send_swim T L ty dest pid subject full s n))"
  using grows_send [of s T L ty dest pid subject full n] by (simp add: quiet_def send_swim_eq)

lemma quiet_queue: "quiet s (queue_rumor e st inc s)"
  by (simp add: quiet_def grows_queue)

lemma quiet_fields:
  assumes "self s' = self s" "sw_cfg s' = sw_cfg s" "members s' = members s" "rumors s' = rumors s"
    "my_incarnation s' = my_incarnation s" "relays s' = relays s"
  shows "quiet s s'"
  unfolding quiet_def using assms by (simp add: grows_fields)

lemma quiet_foldl:
  assumes "\<And>s n x. quiet s (fst (f (s, n) x))"
  shows "quiet s (fst (foldl f (s, n) xs))"
proof (induction xs arbitrary: s n)
  case (Cons x xs)
  show ?case
    using quiet_trans [OF assms [of s n x] Cons.IH [of "fst (f (s, n) x)" "snd (f (s, n) x)"]] by simp
qed simp

lemma quiet_reinject: "quiet s (reinject_suspicions L s)"
proof -
  have "quiet s (foldl (\<lambda>s (k, m). if m_state m = Suspect then queue_rumor (m_addr m) Suspect (m_inc m) s else s) s xs)"
    for s :: Swim and xs :: "(u64 \<times> Member) list"
  proof (induction xs arbitrary: s)
    case (Cons x xs)
    then show ?case by (auto simp: split_beta intro: quiet_trans [OF quiet_queue])
  qed simp
  then show ?thesis by (simp add: reinject_suspicions_def)
qed

lemma quiet_ping_dead: "quiet s (fst (ping_dead T L t s n))"
proof -
  let ?s2 = "if map_of (rumors s) (key (m_addr t)) = None then queue_rumor (m_addr t) Dead (m_inc t) s else s"
  let ?s3 = "?s2\<lparr>next_probe_id := next_probe_id ?s2 + 1\<rparr>"
  have "quiet s ?s2" using quiet_queue by simp
  moreover have "quiet ?s2 ?s3" by (rule quiet_fields) simp_all
  ultimately have "quiet s (fst (send_swim T L PT_Ping (m_addr t) (next_probe_id ?s2) (m_addr t) False ?s3 n))"
    by (meson quiet_trans quiet_send)
  then show ?thesis unfolding ping_dead_def Let_def .
qed

lemma quiet_probe_one_dead: "quiet s (fst (probe_one_dead T L s n))"
proof -
  have "quiet s (s\<lparr>sw_rng := g\<rparr>)" for g by (rule quiet_fields) simp_all
  then have "quiet s (fst (ping_dead T L t (s\<lparr>sw_rng := g\<rparr>) n))" for g t
    by (rule quiet_trans) (rule quiet_ping_dead)
  then show ?thesis by (simp add: probe_one_dead_def Let_def split_beta)
qed

text \<open>Choosing a target only moves along the probe order.\<close>

definition same_tables :: "Swim \<Rightarrow> Swim \<Rightarrow> bool" where
  "same_tables s s' \<longleftrightarrow> self s' = self s \<and> sw_cfg s' = sw_cfg s \<and> members s' = members s \<and> rumors s' = rumors s
     \<and> my_incarnation s' = my_incarnation s \<and> relays s' = relays s"

lemma same_tables_refl [simp]: "same_tables s s"
  by (simp add: same_tables_def)

lemma same_tables_wrap: "same_tables s (wrap_order L s)"
  by (simp add: same_tables_def wrap_order_def rebuild_probe_order_def Let_def split_beta)

lemma same_tables_pick: "same_tables s (snd (pick_target L s))"
proof -
  have "same_tables s (snd (pick_target_loop L k s))" for k
  proof (induction L k s rule: pick_target_loop.induct)
    case (1 L k s)
    let ?s1 = "wrap_order L s"
    let ?s2 = "?s1\<lparr>probe_index := probe_index ?s1 + 1\<rparr>"
    have q: "same_tables s ?s2" using same_tables_wrap [of s L] by (simp add: same_tables_def)
    have trans: "same_tables s x" if "same_tables ?s2 x" for x using q that by (simp add: same_tables_def)
    show ?case
    proof (cases "k \<le> length (probe_order s) + 1 \<and> probe_order ?s1 \<noteq> []")
      case False
      then show ?thesis using same_tables_wrap [of s L] by (subst pick_target_loop.simps) (auto simp: Let_def)
    next
      case True
      note step = True "1.IH" [OF _ refl _ refl refl]
      show ?thesis
      proof (cases "map_of (members ?s1) (key (probe_order ?s1 ! probe_index ?s1))")
        case None
        then show ?thesis using step(1) trans [OF step(2)]
          by (subst pick_target_loop.simps) (simp add: Let_def)
      next
        case (Some m)
        then show ?thesis using step(1) q trans [OF step(3)]
          by (subst pick_target_loop.simps) (simp add: Let_def)
      qed
    qed
  qed
  then show ?thesis by (simp add: pick_target_def)
qed

lemma quiet_pick_target: "quiet s (snd (pick_target L s))"
  using same_tables_pick [of s L] by (intro quiet_fields) (simp_all add: same_tables_def)

lemma quiet_start_period: "quiet s (fst (start_period T L now s n))"
proof -
  let ?s1 = "s\<lparr>period_deadline := now + ms (period (sw_cfg s)), next_period := now + ms (period (sw_cfg s))\<rparr>"
  let ?p = "probe_one_dead T L (reinject_suspicions L ?s1) n"
  let ?s2 = "snd (pick_target L (fst ?p))" and ?t = "fst (pick_target L (fst ?p))"
  let ?s3 = "?s2\<lparr>probing := True, indirect_sent := False, probe_acked := False, probe_target := ?t,
    probe_id := next_probe_id ?s2, next_probe_id := next_probe_id ?s2 + 1, ping_deadline := now + ms (ping_timeout (sw_cfg ?s2))\<rparr>"
  have "quiet s ?s1" by (rule quiet_fields) simp_all
  then have q: "quiet s ?s2"
    by (meson quiet_trans quiet_reinject quiet_probe_one_dead quiet_pick_target)
  moreover have "quiet ?s2 ?s3" by (rule quiet_fields) simp_all
  ultimately have "quiet s (fst (send_swim T L PT_Ping ?t (next_probe_id ?s2) ?t False ?s3 (snd ?p)))"
    by (meson quiet_trans quiet_send)
  with q show ?thesis by (simp add: start_period_def Let_def split_beta)
qed

lemma quiet_indirect: "quiet s (fst (send_indirect_probes T L s n))" "same_period s (fst (send_indirect_probes T L s n))"
proof -
  obtain xs g where p: "pick_k_others L (probe_target s) s = (xs, s\<lparr>sw_rng := g\<rparr>)"
    by (simp add: pick_k_others_def Let_def split_beta)
  have eq: "send_indirect_probes T L s n =
      foldl (\<lambda>(s, n) r. send_swim T L PT_PingReq r (probe_id s) (probe_target s) False s n) (s\<lparr>sw_rng := g\<rparr>, n) xs"
    by (simp add: send_indirect_probes_def p)
  have "quiet s (s\<lparr>sw_rng := g\<rparr>)" by (rule quiet_fields) simp_all
  then show "quiet s (fst (send_indirect_probes T L s n))"
    unfolding eq by (rule quiet_trans) (rule quiet_foldl, simp add: quiet_send)
  have "same_period s (s\<lparr>sw_rng := g\<rparr>)" by (simp add: same_period_def)
  then show "same_period s (fst (send_indirect_probes T L s n))"
    unfolding eq by (rule same_period_trans) (rule period_foldl, simp add: send_swim_eq)
qed

lemma conclude_period_belief:
  assumes "swim_inv s"
  shows "belief (fst (conclude_period T s n)) e =
    (case belief s e of Some (i, Alive) \<Rightarrow>
       if \<not> probe_acked s \<and> e = probe_target s then Some (i, Suspect) else Some (i, Alive) | b \<Rightarrow> b)"
proof -
  have f: "belief (s\<lparr>probing := False\<rparr>) = belief s" for s by (simp add: belief_def fun_eq_iff)
  have m: "max (Some (i, Alive)) (Some (i, Suspect)) = Some (i, Suspect)" for i :: u32 by (simp add: max_def)
  show ?thesis
  proof (cases "\<not> probe_acked s \<and> (\<exists>i. belief s (probe_target s) = Some (i, Alive))")
    case True
    then obtain i where i: "belief s (probe_target s) = Some (i, Alive)" "\<not> probe_acked s" by blast
    note t = belief_member [OF assms i(1)]
    have "belief (fst (conclude_period T s n)) = (belief s)(probe_target s := Some (i, Suspect))"
      using i apply_rumor_belief [of T "probe_target s" Suspect i s n] t m
      by (auto simp: conclude_period_def Let_def split_beta f belief_def [of s] split: option.splits)
    then show ?thesis using i by (auto split: option.split MemberState.split)
  next
    case False
    then have "fst (conclude_period T s n) = s\<lparr>probing := False\<rparr>"
      by (auto simp: conclude_period_def Let_def split_beta belief_def split: option.splits)
    then show ?thesis using False f by (auto split: option.split MemberState.split)
  qed
qed

lemma conclude_period_incarnation:
  assumes "swim_inv s"
  shows "my_incarnation (fst (conclude_period T s n)) = my_incarnation s"
  using member_addr(2) [OF assms, of "probe_target s"]
  by (auto simp: conclude_period_def Let_def split_beta apply_rumor_incarnation split: option.split)

lemma grows_conclude: "grows s (fst (conclude_period T s n))"
proof -
  have "grows s (s\<lparr>probing := False\<rparr>)" for s by (rule grows_fields) simp_all
  then show ?thesis
    by (auto simp: conclude_period_def Let_def split_beta split: option.split intro: grows_trans [OF grows_rumor])
qed

section \<open>One tick\<close>

lemma tick_begin_belief:
  assumes "swim_inv s"
  shows "belief (fst (tick_begin T L now s n)) e = (if expired now s e then buried (belief s e) else belief s e)"
proof -
  let ?s0 = "if \<not> started s then s\<lparr>started := True, next_period := now\<rparr> else s"
  have "swim_inv ?s0" "belief ?s0 = belief s" "expired now ?s0 = expired now s"
    using assms by (simp_all add: swim_inv_def belief_def expired_def fun_eq_iff)
  moreover have "belief (s\<lparr>relays := r\<rparr>) = belief s" for s r by (simp add: belief_def fun_eq_iff)
  ultimately show ?thesis
    using expire_suspects_belief [of ?s0 T L now n e] by (simp add: tick_begin_def Let_def split_beta)
qed

lemma tick_begin_incarnation:
  assumes "swim_inv s"
  shows "my_incarnation (fst (tick_begin T L now s n)) = my_incarnation s"
proof -
  let ?s0 = "if \<not> started s then s\<lparr>started := True, next_period := now\<rparr> else s"
  have "swim_inv ?s0" using assms by (simp add: swim_inv_def)
  from expire_suspects_incarnation [OF this, of T L now n] show ?thesis
    by (simp add: tick_begin_def Let_def split_beta)
qed

lemma tick_begin_frame:
  "grows s (fst (tick_begin T L now s n))"
  "probing (fst (tick_begin T L now s n)) = probing s" "probe_acked (fst (tick_begin T L now s n)) = probe_acked s"
  "probe_target (fst (tick_begin T L now s n)) = probe_target s"
  "period_deadline (fst (tick_begin T L now s n)) = period_deadline s"
proof -
  let ?s0 = "if \<not> started s then s\<lparr>started := True, next_period := now\<rparr> else s"
  let ?s1 = "fst (expire_suspects T L now ?s0 n)"
  have s0: "grows s ?s0" by (auto intro: grows_fields)
  have "grows ?s1 (?s1\<lparr>relays := filter P (relays ?s1)\<rparr>)" for P
    by (rule grows_fields) (simp_all add: distinct_map_filter)
  then have "grows s (?s1\<lparr>relays := filter P (relays ?s1)\<rparr>)" for P
    by (rule grows_trans [OF grows_trans [OF s0 expire_suspects_frame(1)]])
  then show "grows s (fst (tick_begin T L now s n))" by (simp only: tick_begin_def Let_def split_beta fst_conv)
  show "probing (fst (tick_begin T L now s n)) = probing s" "probe_acked (fst (tick_begin T L now s n)) = probe_acked s"
    "probe_target (fst (tick_begin T L now s n)) = probe_target s"
    "period_deadline (fst (tick_begin T L now s n)) = period_deadline s"
    using expire_suspects_frame(2) [of ?s0 T L now n]
    by (simp_all only: tick_begin_def Let_def split_beta fst_conv same_period_def) simp_all
qed

lemma tick_probe_shape:
  assumes "probing s"
  obtains s1 n1 where "quiet s s1" "probe_acked s1 = probe_acked s" "probe_target s1 = probe_target s"
    "tick_probe T L now s n = (if now \<ge> period_deadline s then conclude_period T s1 n1 else (s1, n1))"
proof (cases "\<not> indirect_sent s \<and> \<not> probe_acked s \<and> now \<ge> ping_deadline s")
  case True
  obtain s1 n1 where i: "send_indirect_probes T L s n = (s1, n1)" by fastforce
  have "quiet s s1" and p: "same_period s s1" using quiet_indirect [of s T L n] i by simp_all
  moreover have "quiet s1 (s1\<lparr>indirect_sent := True\<rparr>)" by (rule quiet_fields) simp_all
  ultimately have "quiet s (s1\<lparr>indirect_sent := True\<rparr>)" by (metis quiet_trans)
  then show thesis
    by (rule that) (use p assms True i in \<open>simp_all add: tick_probe_def same_period_def\<close>)
next
  case False
  then show thesis by (intro that [of s n]) (use assms in \<open>auto simp: tick_probe_def\<close>)
qed

text \<open>The verdict of one tick on the record of a member.\<close>

definition verdict :: "time_point \<Rightarrow> Swim \<Rightarrow> Endpoint \<Rightarrow> MemberState \<Rightarrow> MemberState" where
  "verdict now s e st =
     (if st = Suspect \<and> expired now s e then Dead
      else if st = Alive \<and> probing s \<and> \<not> probe_acked s \<and> probe_target s = e \<and> period_deadline s \<le> now then Suspect
      else st)"

lemma expired_Suspect: "expired now s e \<Longrightarrow> \<exists>i. belief s e = Some (i, Suspect)"
  by (auto simp: expired_def belief_def split: option.splits)

lemma tick_probe_belief:
  assumes "swim_inv s"
  shows "belief (fst (tick_probe T L now s n)) e =
    (case belief s e of Some (i, Alive) \<Rightarrow>
       if probing s \<and> period_deadline s \<le> now \<and> \<not> probe_acked s \<and> e = probe_target s then Some (i, Suspect)
       else Some (i, Alive) | b \<Rightarrow> b)"
proof (cases "probing s")
  case False
  then show ?thesis by (auto simp: tick_probe_def split: option.split MemberState.split)
next
  case True
  from tick_probe_shape [OF this, of T L now n] obtain s1 n1 where s1: "quiet s s1" "probe_acked s1 = probe_acked s"
    "probe_target s1 = probe_target s"
    "tick_probe T L now s n = (if now \<ge> period_deadline s then conclude_period T s1 n1 else (s1, n1))" .
  have "swim_inv s1" using s1(1) assms by (simp add: quiet_def grows_def)
  from conclude_period_belief [OF this, of T n1 e] show ?thesis
    unfolding s1(4) using True quiet_belief [OF s1(1)] s1(2,3) by (auto split: option.split MemberState.split)
qed

lemma grows_tick_probe: "grows s (fst (tick_probe T L now s n))"
proof (cases "probing s")
  case True
  from tick_probe_shape [OF this, of T L now n] obtain s1 n1 where s1: "quiet s s1"
    "tick_probe T L now s n = (if now \<ge> period_deadline s then conclude_period T s1 n1 else (s1, n1))" .
  then show ?thesis using grows_trans [OF _ grows_conclude [of s1 T n1]] by (simp add: quiet_def)
qed (simp add: tick_probe_def)

lemma tick_probe_incarnation:
  assumes "swim_inv s"
  shows "my_incarnation (fst (tick_probe T L now s n)) = my_incarnation s"
proof (cases "probing s")
  case True
  from tick_probe_shape [OF this, of T L now n] obtain s1 n1 where s1: "quiet s s1"
    "tick_probe T L now s n = (if now \<ge> period_deadline s then conclude_period T s1 n1 else (s1, n1))" .
  then show ?thesis using assms conclude_period_incarnation [of s1 T n1] by (simp add: quiet_def grows_def)
qed (simp add: tick_probe_def)

lemma swim_tick_parts:
  fixes T :: "'n UdpTransport"
  obtains now n1 s1 n2 s2 n3 where "t_now T n = (now, n1)" "tick_begin T L now s n1 = (s1, n2)"
    "tick_probe T L now s1 n2 = (s2, n3)" "quiet s2 (fst (swim_tick T L s n))"
proof -
  obtain now n1 where a: "t_now T n = (now, n1)" by fastforce
  obtain s1 n2 where b: "tick_begin T L now s n1 = (s1, n2)" by fastforce
  obtain s2 n3 where c: "tick_probe T L now s1 n2 = (s2, n3)" by fastforce
  have "quiet s2 (fst (swim_tick T L s n))"
    by (simp add: swim_tick_def a b c quiet_start_period)
  with a b c show thesis by (rule that)
qed

lemma swim_tick_belief:
  assumes "swim_inv s"
  shows "belief (fst (swim_tick T L s n)) e = map_option (\<lambda>(i, st). (i, verdict (fst (t_now T n)) s e st)) (belief s e)"
proof -
  obtain now n1 s1 n2 s2 n3 where p: "t_now T n = (now, n1)" "tick_begin T L now s n1 = (s1, n2)"
    "tick_probe T L now s1 n2 = (s2, n3)" "quiet s2 (fst (swim_tick T L s n))" by (rule swim_tick_parts)
  have b1: "belief s1 e = (if expired now s e then buried (belief s e) else belief s e)"
    using tick_begin_belief [OF assms, of T L now n1 e] p(2) by simp
  have f1: "probing s1 = probing s" "probe_acked s1 = probe_acked s" "probe_target s1 = probe_target s"
    "period_deadline s1 = period_deadline s" "swim_inv s1"
    using tick_begin_frame [where s = s and T = T and L = L and now = now and n = n1] p(2) assms by (simp_all add: grows_def)
  have "belief (fst (swim_tick T L s n)) e = belief s2 e" using quiet_belief [OF p(4)] by simp
  also have "\<dots> = map_option (\<lambda>(i, st). (i, verdict now s e st)) (belief s e)"
    using tick_probe_belief [OF f1(5), of T L now n2 e] p(3) b1 f1 expired_Suspect [of now s e]
    by (auto simp: verdict_def buried_def split: option.split MemberState.split)
  finally show ?thesis using p(1) by simp
qed

lemma swim_tick_incarnation:
  assumes "swim_inv s"
  shows "my_incarnation (fst (swim_tick T L s n)) = my_incarnation s"
proof -
  obtain now n1 s1 n2 s2 n3 where p: "t_now T n = (now, n1)" "tick_begin T L now s n1 = (s1, n2)"
    "tick_probe T L now s1 n2 = (s2, n3)" "quiet s2 (fst (swim_tick T L s n))" by (rule swim_tick_parts)
  have "swim_inv s1" "my_incarnation s1 = my_incarnation s"
    using tick_begin_frame(1) [of s T L now n1] tick_begin_incarnation [OF assms, of T L now n1] p(2) assms
    by (simp_all add: grows_def)
  then show ?thesis using tick_probe_incarnation [of s1 T L now n2] p(3,4) by (simp add: quiet_def)
qed

lemma swim_tick_grows: "grows s (fst (swim_tick T L s n))"
proof -
  obtain now n1 s1 n2 s2 n3 where p: "t_now T n = (now, n1)" "tick_begin T L now s n1 = (s1, n2)"
    "tick_probe T L now s1 n2 = (s2, n3)" "quiet s2 (fst (swim_tick T L s n))" by (rule swim_tick_parts)
  have "grows s s1" "grows s1 s2" "grows s2 (fst (swim_tick T L s n))"
    using tick_begin_frame(1) [of s T L now n1] grows_tick_probe [of s1 T L now n2] p by (simp_all add: quiet_def)
  then show ?thesis by (meson grows_trans)
qed

section \<open>The probe target\<close>

definition live :: "Swim \<Rightarrow> Endpoint \<Rightarrow> bool" where
  "live s e \<longleftrightarrow> (case map_of (members s) (key e) of None \<Rightarrow> False | Some m \<Rightarrow> m_state m \<noteq> Dead)"

lemma rebuild_mset:
  "mset (probe_order (rebuild_probe_order L s)) = mset (map (\<lambda>(k, m). m_addr m) (live_members s))"
proof -
  have "mset (filter (\<lambda>(k, m). m_state m \<noteq> Dead) (entries L (members s))) = mset (live_members s)"
    by (simp add: live_members_def entries_def)
  then show ?thesis by (simp add: rebuild_probe_order_def shuffle_def Let_def split_beta mset_map)
qed

lemma rebuild_live:
  assumes "swim_inv s"
  shows "e \<in> set (probe_order (rebuild_probe_order L s)) \<longleftrightarrow> live s e"
proof -
  have "e \<in> set (probe_order (rebuild_probe_order L s)) \<longleftrightarrow> (\<exists>k m. (k, m) \<in> set (members s) \<and> m_state m \<noteq> Dead \<and> e = m_addr m)"
    using arg_cong [OF rebuild_mset [of L s], of set_mset] by (auto simp: live_members_def)
  also have "\<dots> \<longleftrightarrow> (\<exists>m. (key e, m) \<in> set (members s) \<and> m_state m \<noteq> Dead)"
  proof
    assume "\<exists>k m. (k, m) \<in> set (members s) \<and> m_state m \<noteq> Dead \<and> e = m_addr m"
    then obtain k m where m: "(k, m) \<in> set (members s)" "m_state m \<noteq> Dead" "e = m_addr m" by blast
    moreover have "k = key e" using m assms unfolding swim_inv_def by blast
    ultimately show "\<exists>m. (key e, m) \<in> set (members s) \<and> m_state m \<noteq> Dead" by blast
  next
    assume "\<exists>m. (key e, m) \<in> set (members s) \<and> m_state m \<noteq> Dead"
    then obtain m where m: "(key e, m) \<in> set (members s)" "m_state m \<noteq> Dead" by blast
    moreover have "key e = key (m_addr m)" using m assms unfolding swim_inv_def by blast
    ultimately show "\<exists>k m. (k, m) \<in> set (members s) \<and> m_state m \<noteq> Dead \<and> e = m_addr m" by auto
  qed
  also have "\<dots> \<longleftrightarrow> live s e" by (auto simp: live_def map_of_members [OF assms] split: option.split)
  finally show ?thesis .
qed

lemma rebuild_empty [simp]: "probe_order (rebuild_probe_order L s) = [] \<longleftrightarrow> live_members s = []"
  by (metis length_0_conv length_rebuild)

lemma no_live: "swim_inv s \<Longrightarrow> live_members s = [] \<Longrightarrow> \<not> live s e"
  using rebuild_live [of s e undefined] rebuild_empty [of undefined s] by (metis empty_iff list.set(1))

lemma live_frame: "members s' = members s \<Longrightarrow> live s' = live s"
  by (simp add: live_def fun_eq_iff)

text \<open>One round of the loop: the candidate is returned when it is live, and skipped otherwise.\<close>

lemma pick_round:
  assumes "k \<le> length (probe_order s) + 1" "probe_order (wrap_order L s) \<noteq> []"
  shows "pick_target_loop L k s =
    (let s1 = wrap_order L s; t = probe_order s1 ! probe_index s1; s2 = s1\<lparr>probe_index := probe_index s1 + 1\<rparr>
     in if live s t then (t, s2) else pick_target_loop L (k + 1) s2)"
  using assms by (subst pick_target_loop.simps) (simp add: Let_def live_def split: option.split)

lemma pick_live_or_none: "fst (pick_target_loop L k s) = no_endpoint \<or> live s (fst (pick_target_loop L k s))"
proof (induction "max (length (probe_order s)) (length (live_members s)) + 2 - k" arbitrary: k s rule: less_induct)
  case less
  let ?s1 = "wrap_order L s"
  let ?s2 = "?s1\<lparr>probe_index := probe_index ?s1 + 1\<rparr>"
  show ?case
  proof (cases "k \<le> length (probe_order s) + 1 \<and> probe_order ?s1 \<noteq> []")
    case False
    then show ?thesis by (subst (1) pick_target_loop.simps, subst pick_target_loop.simps) (auto simp: Let_def)
  next
    case True
    then have m: "max (length (probe_order ?s2)) (length (live_members ?s2)) + 2 - (k + 1)
        < max (length (probe_order s)) (length (live_members s)) + 2 - k"
      using wrap_order_frame(2) [of L s] by (auto simp: live_members_def)
    show ?thesis
      using less [OF m] True live_frame [of ?s2 s] pick_round [of k s L] by (auto simp: Let_def)
  qed
qed

lemma wrap_live:
  assumes "swim_inv s" "length (probe_order s) \<le> probe_index s" "live_members s \<noteq> []"
  shows "probe_order (wrap_order L s) \<noteq> []" "probe_index (wrap_order L s) = 0"
    "live s (probe_order (wrap_order L s) ! 0)"
proof -
  have w: "wrap_order L s = (rebuild_probe_order L s)\<lparr>probe_index := 0\<rparr>" using assms(2) by (simp add: wrap_order_def)
  show ne: "probe_order (wrap_order L s) \<noteq> []" "probe_index (wrap_order L s) = 0"
    using assms(3) w by simp_all
  show "live s (probe_order (wrap_order L s) ! 0)"
    using rebuild_live [OF assms(1), of "probe_order (wrap_order L s) ! 0" L] ne(1) w by simp
qed

lemma pick_finds:
  assumes "swim_inv s" "live_members s \<noteq> []" "k \<le> probe_index s" "k \<le> length (probe_order s) + 1"
  shows "live s (fst (pick_target_loop L k s))"
  using assms
proof (induction "length (probe_order s) - probe_index s" arbitrary: k s)
  case 0
  then show ?case using wrap_live [of s L] pick_round [of k s L] by (simp add: Let_def)
next
  case (Suc d)
  have w: "wrap_order L s = s" using Suc.hyps(2) by (simp add: wrap_order_def)
  let ?s2 = "s\<lparr>probe_index := probe_index s + 1\<rparr>"
  have "swim_inv ?s2" using Suc.prems(1) by (simp add: swim_inv_def)
  then have "live ?s2 (fst (pick_target_loop L (k + 1) ?s2))"
    using Suc.hyps Suc.prems by (intro Suc.hyps(1)) (simp_all add: live_members_def)
  moreover have "probe_order s \<noteq> []" using Suc.hyps(2) by auto
  ultimately show ?case
    using pick_round [of k s L] Suc.prems(4) live_frame [of ?s2 s] by (simp add: w Let_def)
qed

text \<open>Successive choices while the membership does not change.\<close>

fun picks :: "Library \<Rightarrow> nat \<Rightarrow> Swim \<Rightarrow> Endpoint list" where
  "picks L 0 s = []"
| "picks L (Suc k) s = fst (pick_target L s) # picks L k (snd (pick_target L s))"

lemma picks_order:
  assumes "\<forall>e \<in> set (probe_order s). live s e" "probe_index s + k \<le> length (probe_order s)"
  shows "picks L k s = take k (drop (probe_index s) (probe_order s))"
  using assms
proof (induction k arbitrary: s)
  case (Suc k)
  let ?s2 = "s\<lparr>probe_index := probe_index s + 1\<rparr>"
  have i: "probe_index s < length (probe_order s)" using Suc.prems(2) by simp
  then have w: "wrap_order L s = s" by (simp add: wrap_order_def)
  have "live s (probe_order s ! probe_index s)" "probe_order s \<noteq> []" using Suc.prems(1) i by auto
  then have p: "pick_target L s = (probe_order s ! probe_index s, ?s2)"
    using pick_round [of 0 s L] by (simp add: pick_target_def w Let_def)
  have "picks L k ?s2 = take k (drop (probe_index ?s2) (probe_order ?s2))"
    by (rule Suc.IH) (use Suc.prems live_frame [of ?s2 s] in simp_all)
  then show ?case using p i by (simp add: Cons_nth_drop take_Suc)
qed simp

lemma picks_all:
  assumes "swim_inv s" "length (probe_order s) \<le> probe_index s"
  shows "picks L (length (live_members s)) s = probe_order (rebuild_probe_order L s)"
proof (cases "live_members s = []")
  case True
  then show ?thesis by (metis length_0_conv picks.simps(1) rebuild_empty)
next
  case False
  let ?s1 = "(rebuild_probe_order L s)\<lparr>probe_index := 0\<rparr>"
  let ?s2 = "?s1\<lparr>probe_index := 1\<rparr>" and ?o = "probe_order (rebuild_probe_order L s)"
  have w: "wrap_order L s = ?s1" using assms(2) by (simp add: wrap_order_def)
  note wl = wrap_live [OF assms False, of L]
  have p: "pick_target L s = (?o ! 0, ?s2)"
    using pick_round [of 0 s L] wl by (simp add: pick_target_def Let_def w)
  obtain k where k: "length (live_members s) = Suc k" using False by (cases "live_members s") auto
  have "picks L k ?s2 = take k (drop 1 ?o)"
    using picks_order [of ?s2 k L] rebuild_live [OF assms(1), of _ L] live_frame [of ?s2 s] k length_rebuild [of L s] by simp
  also have "\<dots> = drop 1 ?o" using length_rebuild [of L s] k by simp
  finally show ?thesis
    using p k length_rebuild [of L s] by (cases ?o) simp_all
qed

section \<open>When a fresh suspicion expires\<close>

lemma conclude_deadline:
  assumes "swim_inv s" "\<not> probe_acked s" "belief s (probe_target s) = Some (i, Alive)"
  shows "\<exists>m. map_of (members (fst (conclude_period T s n))) (key (probe_target s)) = Some m \<and> m_state m = Suspect
    \<and> suspect_deadline m = fst (t_now T n) + ms (suspicion_timeout (sw_cfg s))"
    "snd (conclude_period T s n) = snd (t_now T n)"
proof -
  obtain m where m: "map_of (members s) (key (probe_target s)) = Some m" "m_inc m = i" "m_state m = Alive"
    using assms(3) by (auto simp: belief_def)
  note t = belief_member [OF assms(1,3)]
  have o: "overrides Alive i Suspect i" by (simp add: overrides_less)
  show "\<exists>m. map_of (members (fst (conclude_period T s n))) (key (probe_target s)) = Some m \<and> m_state m = Suspect
      \<and> suspect_deadline m = fst (t_now T n) + ms (suspicion_timeout (sw_cfg s))"
    "snd (conclude_period T s n) = snd (t_now T n)"
    using assms(2) m t o by (simp_all add: conclude_period_def apply_rumor_def Let_def split_beta update_conv')
qed

context datagram_transport
begin

lemma clock_send: "clock n \<le> clock (snd (send_swim T L ty dest pid subject full s n))"
  by (simp add: send_swim_eq send_clock)

lemma clock_start_period: "clock n \<le> clock (snd (start_period T L now s n))"
proof -
  have p: "clock n \<le> clock (snd (probe_one_dead T L s n))" for s
    by (simp add: probe_one_dead_def ping_dead_def Let_def split_beta clock_send)
  show ?thesis
    using order_trans [OF p clock_send] by (simp add: start_period_def Let_def split_beta p)
qed

lemma tick_suspects:
  assumes "swim_inv s" "probing s" "\<not> probe_acked s" "belief s (probe_target s) = Some (i, Alive)"
    "period_deadline s \<le> fst (t_now T n)" "swim_tick T L s n = (s', n')" "clock n' + ms (suspicion_timeout (sw_cfg s)) \<le> later"
  shows "expired later s' (probe_target s)"
proof -
  obtain now n1 where p1: "t_now T n = (now, n1)" by fastforce
  obtain s1 n2 where p2: "tick_begin T L now s n1 = (s1, n2)" by fastforce
  have g: "grows s s1" and f1: "probing s1" "\<not> probe_acked s1" "probe_target s1 = probe_target s"
    "period_deadline s1 \<le> now"
    using tick_begin_frame [where s = s and T = T and L = L and now = now and n = n1] p1 p2 assms(2,3,5) by simp_all
  have "belief s1 (probe_target s) = Some (i, Alive)"
    using tick_begin_belief [OF assms(1), of T L now n1 "probe_target s"] p2 assms(4)
      expired_Suspect [of now s "probe_target s"] by auto
  from tick_probe_shape [OF f1(1), of T L now n2] obtain s2 n3 where p3: "quiet s1 s2" "\<not> probe_acked s2"
    "probe_target s2 = probe_target s" "tick_probe T L now s1 n2 = conclude_period T s2 n3"
    using f1 by metis
  have g2: "swim_inv s2" "sw_cfg s2 = sw_cfg s" "belief s2 (probe_target s2) = Some (i, Alive)"
    using g p3(1,3) assms(1) quiet_belief [OF p3(1)] \<open>belief s1 (probe_target s) = Some (i, Alive)\<close>
    by (simp_all add: quiet_def grows_def)
  from conclude_deadline [OF g2(1) p3(2) g2(3), of T n3] obtain m where
    m: "map_of (members (fst (conclude_period T s2 n3))) (key (probe_target s)) = Some m" "m_state m = Suspect"
      "suspect_deadline m = fst (t_now T n3) + ms (suspicion_timeout (sw_cfg s))"
      "snd (conclude_period T s2 n3) = snd (t_now T n3)"
    using p3(3) g2(2) by auto
  obtain s3 n4 where p4: "conclude_period T s2 n3 = (s3, n4)" by fastforce
  have tick: "swim_tick T L s n = (if \<not> probing s3 \<and> now \<ge> next_period s3 then start_period T L now s3 n4 else (s3, n4))"
    by (simp add: swim_tick_def p1 p2 p3(4) p4)
  have "members s' = members s3" "clock n4 \<le> clock n'"
    using tick assms(6) quiet_start_period [of s3 T L now n4] clock_start_period [of n4 L now s3]
    by (cases "start_period T L now s3 n4"; auto simp: quiet_def split: if_splits)+
  moreover have "fst (t_now T n3) \<le> clock n4" using m(4) p4 now_clock [of n3] by simp
  ultimately show ?thesis using m p4 assms(7) by (simp add: expired_def)
qed

end

section \<open>Properties\<close>

text \<open>C12: One tick decides every belief. After \<open>tick\<close> at time \<open>now\<close> each member keeps its incarnation, and its state is
  the one \<open>verdict\<close> gives: a suspect whose deadline has passed is dead, the Alive target of a period that ended without an
  acknowledgement is suspect, and nobody else changes; no member appears or disappears, the own incarnation is kept and the
  table stays well formed.\<close>

theorem tick_decides_beliefs:
  assumes "swim_inv s"
  shows "swim_inv (fst (swim_tick T L s n)) \<and> my_incarnation (fst (swim_tick T L s n)) = my_incarnation s
    \<and> belief (fst (swim_tick T L s n)) = (\<lambda>e. map_option (\<lambda>(i, st). (i, verdict (fst (t_now T n)) s e st)) (belief s e))"
  using swim_tick_belief [OF assms, of T L n] swim_tick_grows [of s T L n] swim_tick_incarnation [OF assms, of T L n] assms
  by (simp add: grows_def fun_eq_iff)

text \<open>A node with one other member, and a library that traverses and shuffles in place.\<close>

definition demo_library :: Library where
  "demo_library = \<lparr>traversal = (\<lambda>_ _. 0), shuffle_choices = (\<lambda>g _. (\<lambda>_. 0, g)), ceil_log = (\<lambda>_ _. 3)\<rparr>"

definition demo_config :: SwimConfig where
  "demo_config = \<lparr>period = 1000, ping_timeout = 300, suspicion_timeout = 3000, sw_k = 3, gossip_factor = 3, sw_max_recv = 64\<rparr>"

definition demo_me :: Endpoint where "demo_me = \<lparr>addr_be = 1, port_be = 1\<rparr>"
definition demo_peer :: Endpoint where "demo_peer = \<lparr>addr_be = 2, port_be = 2\<rparr>"

definition demo_node :: Swim where
  "demo_node = (add_member demo_peer (new_swim demo_me demo_config 1))\<lparr>probing := True, probe_target := demo_peer\<rparr>"

lemma demo_endpoints [simp]: "demo_me \<noteq> demo_peer" "demo_peer \<noteq> demo_me" "\<not> is_none demo_me" "\<not> is_none demo_peer"
  by (simp_all add: demo_me_def demo_peer_def is_none_def)

lemma demo_node_facts:
  "swim_inv demo_node" "self demo_node = demo_me" "probing demo_node" "\<not> probe_acked demo_node"
  "probe_target demo_node = demo_peer" "period_deadline demo_node = 0" "belief demo_node demo_peer = Some (0, Alive)"
  "sw_cfg demo_node = demo_config" "length (probe_order demo_node) \<le> probe_index demo_node"
  "live_members demo_node = [(key demo_peer, \<lparr>m_addr = demo_peer, m_state = Alive, m_inc = 0, suspect_deadline = 0\<rparr>)]"
  using demo_endpoints
  by (simp_all add: demo_node_def new_swim_def add_member_def queue_rumor_def swim_inv_def belief_def live_members_def)

theorem tick_decides_beliefs_witness:
  "swim_inv demo_node \<and> belief (fst (swim_tick (sim_transport demo_me) demo_library demo_node demo_net)) demo_peer = Some (0, Suspect)"
  using tick_decides_beliefs [OF demo_node_facts(1), of "sim_transport demo_me" demo_library demo_net] demo_node_facts
  by (simp add: verdict_def sim_transport_def demo_net_def endpoint_def new_simnet_def)

text \<open>The probe target: when some member is not dead, \<open>pick_target\<close> returns a member that is not dead, and otherwise the null
  endpoint; the table is not touched.\<close>

theorem pick_target_live:
  assumes "swim_inv s"
  shows "(if live_members s = [] then fst (pick_target L s) = no_endpoint else live s (fst (pick_target L s)))
    \<and> members (snd (pick_target L s)) = members s"
  using pick_live_or_none [of L 0 s] no_live [OF assms] pick_finds [OF assms, of 0 L] quiet_pick_target [of s L]
  by (auto simp: pick_target_def quiet_def)

theorem pick_target_live_witness: "swim_inv demo_node \<and> live demo_node (fst (pick_target demo_library demo_node))"
  using pick_target_live [OF demo_node_facts(1), of demo_library] demo_node_facts(1,10) by simp

text \<open>Probing is round robin: from a used-up order, and while the membership does not change, the next \<open>n\<close> choices (\<open>n\<close> being
  the number of members that are not dead) are these members, each exactly once, in the order the shuffle gave.\<close>

theorem probe_round_robin:
  assumes "swim_inv s" "length (probe_order s) \<le> probe_index s"
  shows "mset (picks L (length (live_members s)) s) = mset (map (\<lambda>(k, m). m_addr m) (live_members s))"
  using picks_all [OF assms, of L] rebuild_mset [of L s] by simp

theorem probe_round_robin_witness:
  "swim_inv demo_node \<and> length (probe_order demo_node) \<le> probe_index demo_node \<and> picks demo_library 1 demo_node = [demo_peer]"
  using probe_round_robin [OF demo_node_facts(1,9), of demo_library] demo_node_facts(1,9,10) by simp

end
