(* ===== verification/Swim_Cluster.thy ===== *)
theory Swim_Cluster
  imports Swim_Detector
begin

text \<open>
  A cluster of membership nodes over a datagram service. The locale \<open>swim_cluster\<close> proves once, for every service that satisfies
  the transport contract, that only a node itself mints its incarnations; it is interpreted on the simulator. Runs of a single node over
  any service then show how a failed member is detected and how it rejoins.
\<close>

section \<open>Records bounded by their subjects\<close>

text \<open>The incarnations \<open>I\<close> of the cluster, with the node's own.\<close>

definition bound :: "(Endpoint \<Rightarrow> u32) \<Rightarrow> Swim \<Rightarrow> Endpoint \<Rightarrow> u32" where
  "bound I s e = (if e = self s then my_incarnation s else I e)"

definition held_ok :: "(Endpoint \<Rightarrow> u32) \<Rightarrow> Swim \<Rightarrow> bool" where
  "held_ok B s \<longleftrightarrow> (\<forall>e i st. belief s e = Some (i, st) \<longrightarrow> i \<le> B e)
     \<and> (\<forall>k r. map_of (rumors s) k = Some r \<longrightarrow> r_inc r \<le> B (endpoint_of_key k))"

definition msg_ok :: "(Endpoint \<Rightarrow> u32) \<Rightarrow> Endpoint \<Rightarrow> bytes \<Rightarrow> bool" where
  "msg_ok B src d \<longleftrightarrow> length d \<le> kMaxDatagram \<and> (\<forall>p pid subject g. decode d = Inr p \<longrightarrow>
     read_body (p_payload p) = Some (pid, subject, g) \<longrightarrow>
     (\<forall>(e, st, inc) \<in> set g. inc \<le> B e) \<and> (p_type p = PT_Join \<longrightarrow> pid \<le> B src))"

lemma held_ok_mono: "held_ok B s \<Longrightarrow> (\<And>e. B e \<le> B' e) \<Longrightarrow> held_ok B' s"
  unfolding held_ok_def by (meson order_trans)

lemma msg_ok_mono: "msg_ok B src d \<Longrightarrow> (\<And>e. B e \<le> B' e) \<Longrightarrow> msg_ok B' src d"
  unfolding msg_ok_def by (fastforce intro: order_trans)

lemma bound_grows: "grows s s' \<Longrightarrow> bound I s e \<le> bound I s' e"
  by (simp add: bound_def grows_def)

lemma held_member_belief:
  assumes "swim_inv s" "(k, m) \<in> set (members s)"
  shows "belief s (m_addr m) = Some (m_inc m, m_state m)"
proof -
  have "k = key (m_addr m)" using assms unfolding swim_inv_def by blast
  then show ?thesis using assms(2) by (simp add: map_of_members [OF assms(1)] belief_def)
qed

lemma held_ok_member:
  assumes "swim_inv s" "held_ok B s" "(k, m) \<in> set (members s)"
  shows "m_inc m \<le> B (m_addr m)"
  using held_member_belief [OF assms(1,3)] assms(2) by (simp add: held_ok_def)

lemma held_ok_queue:
  assumes "held_ok B s" "inc \<le> B e"
  shows "held_ok B (queue_rumor e st inc s)"
  using assms by (simp add: held_ok_def) (simp add: queue_rumor_def update_conv')

lemma held_ok_rumor:
  assumes "held_ok (bound I s) s" "inc \<le> bound I s e"
  shows "held_ok (bound I (fst (apply_rumor T e st inc s n))) (fst (apply_rumor T e st inc s n))"
proof -
  let ?s' = "fst (apply_rumor T e st inc s n)"
  have up: "bound I s x \<le> bound I ?s' x" for x by (rule bound_grows) (rule grows_rumor)
  note old = held_ok_mono [OF assms(1) up]
  have inc: "inc \<le> bound I ?s' e" using assms(2) up by (rule order_trans)
  have "i \<le> bound I ?s' x" if "belief ?s' x = Some (i, st')" for x i st'
    using that old inc by (fastforce simp: apply_rumor_belief held_ok_def max_def split: if_splits)
  moreover have "r_inc r \<le> bound I ?s' (endpoint_of_key k)" if "map_of (rumors ?s') k = Some r" for k r
  proof (cases "map_of (rumors s) k = Some r")
    case True
    then show ?thesis using old by (simp add: held_ok_def)
  next
    case False
    then have k: "k = key e" "r_inc r = (if e = self s then max (my_incarnation s) (inc + 1) else inc)"
      "\<not> is_none e" "e = self s \<Longrightarrow> st \<noteq> Alive"
      using that by (auto simp: apply_rumor_rumors split: if_splits)
    then show ?thesis using inc by (auto simp: bound_def apply_rumor_incarnation)
  qed
  ultimately show ?thesis by (simp add: held_ok_def)
qed

lemma chosen_ok:
  assumes "swim_inv s" "held_ok (bound I s) s" "(e, r) \<in> set (chosen L full s)"
  shows "r_inc r \<le> bound I s e"
proof (cases full)
  case True
  then show ?thesis
    using chosen_origin [OF assms(3)] held_ok_member [OF assms(1,2)] by (fastforce simp: bound_def)
next
  case False
  then obtain k where k: "(k, r) \<in> set (rumors s)" "e = endpoint_of_key k" using chosen_origin [OF assms(3)] by auto
  then have "map_of (rumors s) k = Some r" using assms(1) by (simp add: swim_inv_def)
  then show ?thesis using assms(2) k(2) by (simp add: held_ok_def)
qed

lemma msg_ok_wire:
  assumes "swim_inv s" "held_ok (bound I s) s" "ty AND 0x0F = PT_Join \<Longrightarrow> pid \<le> bound I s src"
  shows "msg_ok (bound I s) src (swim_wire ty pid subject (chosen L full s))"
proof -
  have len: "length (chosen L full s) < 2 ^ 16"
    using length_chosen [of L full s] by (simp add: kMaxFitEntries_def kMaxDatagram_def kBaseHeaderSize_def kSwimHeader_def
      kGossipEntry_def)
  have "\<forall>(e, st, inc) \<in> rumor_of ` set (chosen L full s). inc \<le> bound I s e"
    using chosen_ok [OF assms(1,2)] by (auto simp: rumor_of_def)
  then show ?thesis
    using length_swim_wire [OF length_chosen] decode_swim_wire [OF length_chosen] read_body_written [OF len] assms(3)
    by (simp add: msg_ok_def on_wire_def)
qed

lemma held_ok_charged: "held_ok B s \<Longrightarrow> held_ok B (charged L full s)"
  by (simp add: held_ok_def) (fastforce simp: charged_def dest: charges_origin split: if_splits)

lemmas types_simps = PT_Ping_def PT_PingReq_def PT_Pong_def PT_Join_def

section \<open>One node and the network\<close>

context datagram_transport
begin

definition sound :: "(Endpoint \<Rightarrow> u32) \<Rightarrow> Swim \<times> 'n \<Rightarrow> bool" where
  "sound I = (\<lambda>(s, n). self s = me \<and> swim_inv s \<and> held_ok (bound I s) s \<and> flight_ok (\<lambda>src e d. msg_ok (bound I s) src d) n)"

lemma soundD:
  assumes "sound I (s, n)"
  shows "self s = me" "swim_inv s" "held_ok (bound I s) s" "flight_ok (\<lambda>src e d. msg_ok (bound I s) src d) n"
  using assms by (simp_all add: sound_def)

lemma flight_grows:
  assumes "flight_ok (\<lambda>src e d. msg_ok (bound I s) src d) n" "grows s s'"
  shows "flight_ok (\<lambda>src e d. msg_ok (bound I s') src d) n"
  using assms(1) by (rule flight_ok_mono) (rule msg_ok_mono, assumption, rule bound_grows [OF assms(2)])

lemma sound_now: "sound I (s, n) \<Longrightarrow> sound I (s, snd (t_now T n))"
  by (auto simp: sound_def intro: flight_ok_now)

lemma sound_rumor:
  assumes "sound I (s, n)" "inc \<le> bound I s e"
  shows "sound I (apply_rumor T e st inc s n)"
proof -
  note s = soundD [OF assms(1)]
  let ?s' = "fst (apply_rumor T e st inc s n)"
  have "flight_ok (\<lambda>src e d. msg_ok (bound I ?s') src d) n" using s(4) by (rule flight_grows) (rule grows_rumor)
  then have "flight_ok (\<lambda>src e d. msg_ok (bound I ?s') src d) (snd (apply_rumor T e st inc s n))"
    by (auto simp: apply_rumor_net intro: flight_ok_now)
  then show ?thesis
    using s apply_rumor_inv [OF s(2), of T e st inc n] held_ok_rumor [OF s(3) assms(2), of T st n] by (simp add: sound_def split_beta)
qed

lemma sound_send:
  assumes "sound I (s, n)" "ty AND 0x0F = PT_Join \<Longrightarrow> pid \<le> my_incarnation s"
  shows "sound I (send_swim T L ty dest pid subject full s n)"
proof -
  note s = soundD [OF assms(1)]
  have "pid \<le> bound I s me" if "ty AND 0x0F = PT_Join" using assms(2) [OF that] s(1) by (simp add: bound_def)
  then have "msg_ok (bound I s) me (swim_wire ty pid subject (chosen L full s))"
    by (rule msg_ok_wire [OF s(2,3)])
  then have "flight_ok (\<lambda>src e d. msg_ok (bound I s) src d)
      (snd (t_send T dest (swim_wire ty pid subject (chosen L full s)) n))"
    by (rule flight_ok_send [OF s(4)])
  moreover have "bound I (charged L full s) = bound I s" by (simp add: bound_def fun_eq_iff)
  ultimately show ?thesis
    using s charged_inv [OF s(2)] held_ok_charged [OF s(3)] by (simp add: sound_def send_swim_eq)
qed

lemma sound_queue:
  assumes "sound I (s, n)" "inc \<le> bound I s e"
  shows "sound I (queue_rumor e st inc s, n)"
proof -
  have "bound I (queue_rumor e st inc s) = bound I s" by (simp add: bound_def fun_eq_iff)
  then show ?thesis
    using soundD [OF assms(1)] held_ok_queue [of "bound I s" s inc e st] assms(2) queue_rumor_inv [of s e st inc]
    by (simp add: sound_def)
qed

lemma sound_fields:
  assumes "sound I (s, n)" "self s' = self s" "members s' = members s" "rumors s' = rumors s"
    "my_incarnation s' = my_incarnation s" "distinct (map fst (relays s)) \<Longrightarrow> distinct (map fst (relays s'))"
  shows "sound I (s', n)"
proof -
  have "bound I s' = bound I s" "belief s' = belief s" using assms(2,3,5) by (simp_all add: bound_def belief_def fun_eq_iff)
  then show ?thesis using soundD [OF assms(1)] assms(2-6) by (simp add: sound_def held_ok_def swim_inv_def)
qed

lemma sound_foldl:
  assumes "sound I (s, n)" "\<And>x s n. x \<in> set xs \<Longrightarrow> sound I (s, n) \<Longrightarrow> sound I (f (s, n) x)"
  shows "sound I (foldl f (s, n) xs)"
  using assms
proof (induction xs arbitrary: s n)
  case (Cons x xs)
  have "sound I (f (s, n) x)" using Cons.prems by simp
  then show ?case using Cons.IH [of "fst (f (s, n) x)" "snd (f (s, n) x)"] Cons.prems(2) by simp
qed simp

lemma sound_gossip:
  assumes "sound I (s, n)" "\<forall>(e, st, inc) \<in> set g. inc \<le> bound I s e"
  shows "sound I (apply_gossip T g s n)"
  using assms
proof (induction g arbitrary: s n)
  case (Cons x g)
  obtain e st inc where x: "x = (e, st, inc)" by (cases x)
  obtain s1 n1 where s1: "apply_rumor T e st inc s n = (s1, n1)" by fastforce
  have "sound I (s1, n1)" using sound_rumor [OF Cons.prems(1), of inc e st] Cons.prems(2) s1 x by simp
  moreover have "bound I s e' \<le> bound I s1 e'" for e' using bound_grows [OF grows_rumor [of s T e st inc n]] s1 by simp
  then have "\<forall>(e, st, inc) \<in> set g. inc \<le> bound I s1 e"
    using Cons.prems(2) unfolding x by (auto intro: order_trans)
  ultimately show ?case using Cons.IH by (simp add: x s1)
qed simp

lemma sound_tell_dead: "sound I (s, n) \<Longrightarrow> sound I (tell_dead source s, n)"
  using held_ok_member [of s "bound I s"]
  by (auto simp: tell_dead_def belief_def held_ok_def intro!: sound_queue dest: soundD split: option.split)

lemma sound_ping_req:
  assumes "sound I (s, n)"
  shows "sound I (handle_ping_req T L source pid subject s n)"
proof -
  let ?s1 = "s\<lparr>next_probe_id := next_probe_id s + 1, relays := AList.update (next_probe_id s) \<lparr>requester = source, req_probe = pid,
      target = subject, relay_deadline = fst (t_now T n) + ms (period (sw_cfg s))\<rparr> (relays s)\<rparr>"
  have "sound I (?s1, snd (t_now T n))" by (rule sound_fields [OF sound_now [OF assms]]) (simp_all add: AList.distinct_update)
  then have "sound I (send_swim T L PT_Ping subject (next_probe_id s) subject False ?s1 (snd (t_now T n)))"
    by (rule sound_send) (simp add: types_simps)
  then show ?thesis using assms by (simp add: handle_ping_req_def Let_def split_beta)
qed

lemma sound_pong:
  assumes "sound I (s, n)"
  shows "sound I (handle_pong T L pid subject s n)"
proof -
  have "sound I (s\<lparr>relays := AList.delete pid (relays s)\<rparr>, n)"
    by (rule sound_fields [OF assms]) (simp_all add: AList.distinct_delete)
  then have "sound I (send_swim T L PT_Pong (requester r) (req_probe r) (target r) False (s\<lparr>relays := AList.delete pid (relays s)\<rparr>) n)"
    for r :: PendingRelay by (rule sound_send) (simp add: types_simps)
  moreover have "sound I (s\<lparr>probe_acked := True\<rparr>, n)" by (rule sound_fields [OF assms]) simp_all
  ultimately show ?thesis using assms by (simp add: handle_pong_def Let_def split: option.split)
qed

lemma sound_handle_join:
  assumes "sound I (s, n)" "inc \<le> bound I s source"
  shows "sound I (handle_join T L source inc request s n)"
proof -
  obtain s1 n1 where s1: "apply_rumor T source Alive inc s n = (s1, n1)" by fastforce
  have s: "sound I (s1, n1)" using sound_rumor [OF assms, of Alive] s1 by simp
  then have "sound I (send_swim T L PT_Join source (my_incarnation s1) source True s1 n1)" by (rule sound_send) simp
  with s show ?thesis using assms(1) by (simp add: handle_join_def s1)
qed

lemma sound_dispatch:
  assumes "sound I (s, n)" "ty = PT_Join \<Longrightarrow> pid \<le> bound I s source"
  shows "sound I (dispatch T L source ty pid subject s n)"
proof -
  have "sound I (handle_ping T L source pid s n)"
    unfolding handle_ping_def by (rule sound_send [OF assms(1)]) (simp add: types_simps)
  then show ?thesis
    using assms sound_ping_req [OF assms(1)] sound_pong [OF assms(1)] sound_handle_join [OF assms(1)]
    by (simp add: dispatch_def)
qed

lemma sound_datagram:
  assumes "sound I (s, n)" "msg_ok (bound I s) source d" "swim_datagram T L d source s n = Some x"
  shows "sound I x"
proof (cases "\<exists>p. decode d = Inr p \<and> swim_packet T L source (p_type p) (p_payload p) s n = Some x")
  case True
  then obtain p where p: "decode d = Inr p" "swim_packet T L source (p_type p) (p_payload p) s n = Some x" by blast
  obtain pid subject g where b: "read_body (p_payload p) = Some (pid, subject, g)"
    using p(2) by (cases "read_body (p_payload p)") (auto simp: swim_packet_def)
  have m: "\<forall>(e, st, inc) \<in> set g. inc \<le> bound I s e" "p_type p = PT_Join \<Longrightarrow> pid \<le> bound I s source"
    using assms(2) p(1) b by (simp_all add: msg_ok_def)
  have up: "bound I s e \<le> bound I (tell_dead source s) e" for e by (rule bound_grows) (rule grows_tell_dead)
  obtain s1 n1 where s1: "apply_gossip T g (tell_dead source s) n = (s1, n1)" by fastforce
  have "\<forall>(e, st, inc) \<in> set g. inc \<le> bound I (tell_dead source s) e" using m(1) up by (auto intro: order_trans)
  from sound_gossip [OF sound_tell_dead [OF assms(1)] this] have "sound I (s1, n1)" by (simp add: s1)
  moreover have "bound I s e \<le> bound I s1 e" for e
    using order_trans [OF up bound_grows [OF grows_gossip [of "tell_dead source s" T g n]]] s1 by simp
  then have "p_type p = PT_Join \<Longrightarrow> pid \<le> bound I s1 source" using m(2) by (meson order_trans)
  ultimately have "sound I (dispatch T L source (p_type p) pid subject s1 n1)" by (rule sound_dispatch)
  then show ?thesis using p(2) by (simp add: swim_packet_def b s1)
next
  case False
  then have "x = (s, n)" using assms(3) by (auto simp: swim_datagram_def split: sum.splits if_splits)
  then show ?thesis using assms(1) by simp
qed

lemma sound_poll_loop:
  assumes "sound I (s, n)" "swim_poll_loop T L k s n = Some (b, s', n')"
  shows "sound I (s', n')"
  using assms
proof (induction k arbitrary: s n)
  case (Suc k)
  obtain r n1 where r: "t_recv T kMaxDatagram n = (r, n1)" by fastforce
  have s1: "sound I (s, n1)"
    using Suc.prems(1) flight_ok_recv [of "\<lambda>src e d. msg_ok (bound I s) src d" n kMaxDatagram] r by (auto simp: sound_def)
  show ?case
  proof (cases r)
    case None
    then show ?thesis using Suc.prems r s1 by simp
  next
    case (Some x)
    obtain d src where x: "x = (d, src)" by (cases x)
    have "fst (t_recv T kMaxDatagram n) = Some (d, src)" by (simp add: r Some x)
    from flight_ok_received [OF soundD(4) [OF Suc.prems(1)] this] obtain d0 where
      d0: "msg_ok (bound I s) src d0" "d = take kMaxDatagram d0" by blast
    then have "msg_ok (bound I s) src d" by (simp add: msg_ok_def)
    moreover obtain s2 n2 where s2: "swim_datagram T L d src s n1 = Some (s2, n2)" by (rule swim_datagram_total)
    ultimately have "sound I (s2, n2)" using sound_datagram [OF s1] by blast
    then show ?thesis using Suc.IH Suc.prems(2) by (simp add: r Some x s2)
  qed
qed auto

lemma sound_poll: "sound I (s, n) \<Longrightarrow> swim_poll T L s n = Some (b, s', n') \<Longrightarrow> sound I (s', n')"
  unfolding swim_poll_def by (rule sound_poll_loop)

section \<open>The failure detector is sound\<close>

lemma incarnation_of_le: "sound I (s, n) \<Longrightarrow> incarnation_of e s \<le> bound I s e"
  using soundD(3) [of I s n] incarnation_of_belief [of e s]
  by (cases "belief s e") (auto simp: held_ok_def, auto simp: incarnation_of_def bound_def belief_def split: if_splits)

lemma sound_expire: "sound I (s, n) \<Longrightarrow> sound I (expire_suspects T L now s n)"
  unfolding expire_suspects_def Let_def
  by (rule sound_foldl) (auto intro!: sound_rumor incarnation_of_le)

lemma sound_tick_begin:
  assumes "sound I (s, n)"
  shows "sound I (tick_begin T L now s n)"
proof -
  let ?s0 = "if \<not> started s then s\<lparr>started := True, next_period := now\<rparr> else s"
  obtain s1 n1 where s1: "expire_suspects T L now ?s0 n = (s1, n1)" by fastforce
  have "sound I (?s0, n)" by (rule sound_fields [OF assms]) simp_all
  from sound_expire [OF this] have "sound I (s1, n1)" by (metis s1)
  then have "sound I (s1\<lparr>relays := filter (\<lambda>(k, r). \<not> now \<ge> relay_deadline r) (relays s1)\<rparr>, n1)"
    by (rule sound_fields) (simp_all add: distinct_map_filter)
  then show ?thesis by (simp only: tick_begin_def Let_def split_beta s1 fst_conv snd_conv)
qed

lemma sound_conclude:
  assumes "sound I (s, n)"
  shows "sound I (conclude_period T s n)"
proof -
  have stop: "sound I (s\<lparr>probing := False\<rparr>, n)" if "sound I (s, n)" for s n
    by (rule sound_fields [OF that]) simp_all
  have "sound I ((fst (apply_rumor T (probe_target s) Suspect (m_inc m) s n))\<lparr>probing := False\<rparr>,
      snd (apply_rumor T (probe_target s) Suspect (m_inc m) s n))" if "map_of (members s) (key (probe_target s)) = Some m" for m
  proof -
    have "m_inc m \<le> bound I s (probe_target s)"
      using that soundD(3) [OF assms] by (auto simp: held_ok_def belief_def)
    from sound_rumor [OF assms this, of Suspect] show ?thesis by (intro stop) simp
  qed
  then show ?thesis using stop [OF assms] by (simp add: conclude_period_def Let_def split_beta split: option.split)
qed

lemma sound_indirect:
  assumes "sound I (s, n)"
  shows "sound I (send_indirect_probes T L s n)"
proof -
  obtain xs g where p: "pick_k_others L (probe_target s) s = (xs, s\<lparr>sw_rng := g\<rparr>)"
    by (simp add: pick_k_others_def Let_def split_beta)
  have "sound I (s\<lparr>sw_rng := g\<rparr>, n)" by (rule sound_fields [OF assms]) simp_all
  then have "sound I (foldl (\<lambda>(s, n) r. send_swim T L PT_PingReq r (probe_id s) (probe_target s) False s n) (s\<lparr>sw_rng := g\<rparr>, n) xs)"
    by (rule sound_foldl) (auto intro!: sound_send simp: types_simps)
  then show ?thesis by (simp add: send_indirect_probes_def p)
qed

lemma sound_tick_probe:
  assumes "sound I (s, n)"
  shows "sound I (tick_probe T L now s n)"
proof -
  obtain s1 n1 where s1: "send_indirect_probes T L s n = (s1, n1)" by fastforce
  have "sound I (s1, n1)" using sound_indirect [OF assms, of L] by (simp add: s1)
  then have "sound I (s1\<lparr>indirect_sent := True\<rparr>, n1)" by (rule sound_fields) simp_all
  then show ?thesis using assms sound_conclude by (simp add: tick_probe_def s1)
qed

lemma sound_reinject:
  assumes "sound I (s, n)"
  shows "sound I (reinject_suspicions L s, n)"
proof -
  have "sound I (foldl (\<lambda>s (k, m). if m_state m = Suspect then queue_rumor (m_addr m) Suspect (m_inc m) s else s) s xs, n)"
    if "sound I (s, n)" "\<forall>(k, m) \<in> set xs. m_inc m \<le> bound I s (m_addr m)" for s :: Swim and xs :: "(u64 \<times> Member) list"
    using that
  proof (induction xs arbitrary: s)
    case (Cons x xs)
    obtain k m where x: "x = (k, m)" by (cases x)
    let ?s1 = "if m_state m = Suspect then queue_rumor (m_addr m) Suspect (m_inc m) s else s"
    have "bound I ?s1 = bound I s" by (simp add: bound_def fun_eq_iff)
    moreover have "sound I (?s1, n)" using Cons.prems sound_queue [OF Cons.prems(1)] by (simp add: x)
    ultimately show ?case using Cons.IH [of ?s1] Cons.prems(2) by (simp add: x)
  qed simp
  moreover have "\<forall>(k, m) \<in> set (entries L (members s)). m_inc m \<le> bound I s (m_addr m)"
    using held_ok_member [OF soundD(2,3) [OF assms]] by auto
  ultimately show ?thesis using assms by (simp add: reinject_suspicions_def)
qed

lemma sound_ping_dead:
  assumes "sound I (s, n)" "m_inc t \<le> bound I s (m_addr t)"
  shows "sound I (ping_dead T L t s n)"
proof -
  let ?s1 = "if map_of (rumors s) (key (m_addr t)) = None then queue_rumor (m_addr t) Dead (m_inc t) s else s"
  have "sound I (?s1, n)" using assms sound_queue by simp
  then have "sound I (?s1\<lparr>next_probe_id := next_probe_id ?s1 + 1\<rparr>, n)" by (rule sound_fields) simp_all
  then have "sound I (send_swim T L PT_Ping (m_addr t) (next_probe_id ?s1) (m_addr t) False
      (?s1\<lparr>next_probe_id := next_probe_id ?s1 + 1\<rparr>) n)"
    by (rule sound_send) (simp add: types_simps)
  then show ?thesis unfolding ping_dead_def Let_def .
qed

lemma sound_probe_one_dead:
  assumes "sound I (s, n)"
  shows "sound I (probe_one_dead T L s n)"
proof -
  let ?dead = "filter (\<lambda>m. m_state m = Dead) (map snd (entries L (members s)))"
  obtain r g where r: "mt_next (sw_rng s) = (r, g)" by fastforce
  have s: "sound I (s\<lparr>sw_rng := g\<rparr>, n)" by (rule sound_fields [OF assms]) simp_all
  have "sound I (ping_dead T L (?dead ! i) (s\<lparr>sw_rng := g\<rparr>) n)" if "i < length ?dead" for i
  proof -
    have "?dead ! i \<in> set ?dead" using that by (rule nth_mem)
    then have "m_inc (?dead ! i) \<le> bound I s (m_addr (?dead ! i))"
      using held_ok_member [OF soundD(2,3) [OF assms]] by auto
    moreover have "bound I (s\<lparr>sw_rng := g\<rparr>) = bound I s" by (simp add: bound_def fun_eq_iff)
    ultimately show ?thesis using sound_ping_dead [OF s] by (metis (no_types))
  qed
  note pinged = this
  show ?thesis
  proof (cases "?dead = []")
    case True
    then show ?thesis using assms by (simp add: probe_one_dead_def)
  next
    case False
    then have "unat r mod length ?dead < length ?dead" by (metis length_greater_0_conv mod_less_divisor)
    from pinged [OF this] show ?thesis unfolding probe_one_dead_def Let_def r using False by (simp only: if_False prod.case)
  qed
qed

lemma sound_start_period:
  assumes "sound I (s, n)"
  shows "sound I (start_period T L now s n)"
proof -
  let ?s1 = "s\<lparr>period_deadline := now + ms (period (sw_cfg s)), next_period := now + ms (period (sw_cfg s))\<rparr>"
  obtain s2 n2 where p: "probe_one_dead T L (reinject_suspicions L ?s1) n = (s2, n2)" by fastforce
  obtain t s3 where t: "pick_target L s2 = (t, s3)" by fastforce
  have "sound I (?s1, n)" by (rule sound_fields [OF assms]) simp_all
  from sound_probe_one_dead [OF sound_reinject [OF this]] have "sound I (s2, n2)" by (metis p)
  then have s3: "sound I (s3, n2)"
    using same_tables_pick [of s2 L] t by (elim sound_fields) (simp_all add: same_tables_def)
  then have "sound I (s3\<lparr>probing := True, indirect_sent := False, probe_acked := False, probe_target := t,
      probe_id := next_probe_id s3, next_probe_id := next_probe_id s3 + 1, ping_deadline := now + ms (ping_timeout (sw_cfg s3))\<rparr>, n2)"
    by (rule sound_fields) simp_all
  then have "sound I (send_swim T L PT_Ping t (next_probe_id s3) t False
      (s3\<lparr>probing := True, indirect_sent := False, probe_acked := False, probe_target := t,
      probe_id := next_probe_id s3, next_probe_id := next_probe_id s3 + 1, ping_deadline := now + ms (ping_timeout (sw_cfg s3))\<rparr>) n2)"
    by (rule sound_send) (simp add: types_simps)
  with s3 show ?thesis by (simp add: start_period_def Let_def p t)
qed

lemma sound_tick:
  assumes "sound I (s, n)"
  shows "sound I (swim_tick T L s n)"
proof -
  obtain now n1 where a: "t_now T n = (now, n1)" by fastforce
  obtain s1 n2 where b: "tick_begin T L now s n1 = (s1, n2)" by fastforce
  obtain s2 n3 where c: "tick_probe T L now s1 n2 = (s2, n3)" by fastforce
  have "sound I (s, n1)" using sound_now [OF assms] a by simp
  from sound_tick_begin [OF this, of L now] have "sound I (s1, n2)" by (simp add: b)
  from sound_tick_probe [OF this, of L now] have "sound I (s2, n3)" by (simp add: c)
  then show ?thesis using sound_start_period by (simp add: swim_tick_def a b c)
qed

lemma sound_join: "sound I (s, n) \<Longrightarrow> sound I (join T L introducer s n)"
  unfolding join_def by (rule sound_send) simp_all

lemma sound_add_member:
  assumes "sound I (s, n)"
  shows "sound I (add_member e s, n)"
proof (cases "e = self s \<or> is_none e \<or> map_of (members s) (key e) \<noteq> None")
  case True
  then have "add_member e s = s" by (auto simp: add_member_def)
  then show ?thesis using assms by simp
next
  case False
  let ?m = "\<lparr>m_addr = e, m_state = Alive, m_inc = 0, suspect_deadline = 0\<rparr> :: Member"
  let ?s1 = "s\<lparr>members := AList.update (key e) ?m (members s)\<rparr>"
  note s = soundD [OF assms]
  have "swim_inv ?s1" using False by (intro members_update_inv [OF s(2)]) simp_all
  moreover have "bound I ?s1 = bound I s" by (simp add: bound_def fun_eq_iff)
  moreover have "held_ok (bound I s) ?s1"
    using s(3) by (simp add: held_ok_def belief_members_update)
  ultimately have "sound I (?s1, n)" using s by (simp add: sound_def)
  then show ?thesis using False by (simp add: add_member_def)
qed

end

section \<open>The cluster\<close>

record 'n Cluster =
  nodes :: "Endpoint \<Rightarrow> Swim option"
  cnet :: 'n

text \<open>What the application and the event loop can do to a node.\<close>

inductive node_step :: "'n UdpTransport \<Rightarrow> Swim \<times> 'n \<Rightarrow> Swim \<times> 'n \<Rightarrow> bool" for T where
  poll: "swim_poll T L s n = Some (b, s', n') \<Longrightarrow> node_step T (s, n) (s', n')"
| tick: "node_step T (s, n) (swim_tick T L s n)"
| add: "node_step T (s, n) (add_member e s, n)"
| join: "node_step T (s, n) (join T L e s n)"
| handler: "node_step T (s, n) (on_state_change s, n)"

inductive cluster_step :: "(Endpoint \<Rightarrow> 'n UdpTransport) \<Rightarrow> ('n \<Rightarrow> 'n \<Rightarrow> bool) \<Rightarrow> 'n Cluster \<Rightarrow> 'n Cluster \<Rightarrow> bool" for T env where
  start: "nodes y e = None \<Longrightarrow> cluster_step T env y (y\<lparr>nodes := (nodes y)(e \<mapsto> new_swim e c seed)\<rparr>)"
| node: "nodes y e = Some s \<Longrightarrow> node_step (T e) (s, cnet y) (s', n') \<Longrightarrow>
    cluster_step T env y (y\<lparr>nodes := (nodes y)(e \<mapsto> s'), cnet := n'\<rparr>)"
| outside: "env (cnet y) n' \<Longrightarrow> cluster_step T env y (y\<lparr>cnet := n'\<rparr>)"

inductive cluster_reach :: "(Endpoint \<Rightarrow> 'n UdpTransport) \<Rightarrow> ('n \<Rightarrow> 'n \<Rightarrow> bool) \<Rightarrow> 'n \<Rightarrow> 'n Cluster \<Rightarrow> bool" for T env n0 where
  initial: "cluster_reach T env n0 \<lparr>nodes = Map.empty, cnet = n0\<rparr>"
| step: "cluster_reach T env n0 y \<Longrightarrow> cluster_step T env y y' \<Longrightarrow> cluster_reach T env n0 y'"

definition incarnation :: "'n Cluster \<Rightarrow> Endpoint \<Rightarrow> u32" where
  "incarnation y e = (case nodes y e of None \<Rightarrow> 0 | Some s \<Rightarrow> my_incarnation s)"

lemma new_swim_facts [simp]:
  "self (new_swim e c seed) = e" "my_incarnation (new_swim e c seed) = 0" "belief (new_swim e c seed) = (\<lambda>_. None)"
  "swim_inv (new_swim e c seed)" "members (new_swim e c seed) = []"
  by (simp_all add: new_swim_def swim_inv_def queue_rumor_def belief_def fun_eq_iff)

lemma held_ok_new: "held_ok B (new_swim e c seed)"
  by (simp add: held_ok_def) (simp add: new_swim_def queue_rumor_def)

context datagram_transport
begin

lemma sound_step:
  assumes "node_step T (s, n) (s', n')" "sound I (s, n)"
  shows "sound I (s', n')"
  using assms(1)
proof cases
  case (poll L b)
  then show ?thesis using sound_poll assms(2) by blast
next
  case (tick L)
  then show ?thesis using sound_tick [OF assms(2)] by metis
next
  case (add e)
  then show ?thesis using sound_add_member [OF assms(2)] by simp
next
  case (join L e)
  then show ?thesis using sound_join [OF assms(2)] by metis
next
  case handler
  then show ?thesis by (auto simp: on_state_change_def intro: sound_fields [OF assms(2)])
qed

end

lemma node_step_grows:
  assumes "node_step T (s, n) (s', n')"
  shows "grows s s'"
  using assms
proof cases
  case (poll L b)
  then show ?thesis using swim_poll_loop_total [of T L "sw_max_recv (sw_cfg s)" s n] by (auto simp: swim_poll_def)
next
  case (tick L)
  then show ?thesis using swim_tick_grows [of s T L n] by (metis fst_conv)
next
  case (add e)
  have "grows s (s\<lparr>members := AList.update (key e) m (members s)\<rparr>)"
    if "map_of (members s) (key e) = None" "m_addr m = e" "e \<noteq> self s" "\<not> is_none e" for m
    unfolding grows_def belief_members_update using that members_update_inv [of s m e]
    by (auto simp: belief_def entries_kept_def update_conv')
  then show ?thesis using add by (simp add: add_member_def)
next
  case (join L e)
  then show ?thesis using grows_send by (metis fst_conv join_def)
next
  case handler
  then show ?thesis by (auto simp: on_state_change_def intro: grows_fields)
qed

text \<open>
  A node that runs on for a while: it ticks and, where it listens, also polls and does everything else; between its steps anything at
  all can happen to the network and its clock.
\<close>

inductive node_run :: "'n UdpTransport \<Rightarrow> bool \<Rightarrow> Swim \<times> 'n \<Rightarrow> Swim \<times> 'n \<Rightarrow> bool" for T listens where
  start: "node_run T listens x x"
| tick: "node_run T listens x (s, n) \<Longrightarrow> node_run T listens x (swim_tick T L s n)"
| other: "listens \<Longrightarrow> node_run T listens x (s, n) \<Longrightarrow> node_step T (s, n) (s', n') \<Longrightarrow> node_run T listens x (s', n')"
| world: "node_run T listens x (s, n) \<Longrightarrow> node_run T listens x (s, n')"

lemma node_run_grows: "node_run T listens x y \<Longrightarrow> grows (fst x) (fst y)"
proof (induction rule: node_run.induct)
  case (tick x s n L)
  then show ?case using grows_trans [OF _ swim_tick_grows [of s T L n]] by simp
next
  case (other x s n s' n')
  then show ?case using grows_trans [OF _ node_step_grows [OF other(3)]] by simp
qed simp_all

lemma node_run_deaf:
  assumes "node_run T listens x y" "\<not> listens" "swim_inv (fst x)"
  shows "map_option fst (belief (fst y) e) = map_option fst (belief (fst x) e)"
  using assms
proof (induction rule: node_run.induct)
  case (tick x s n L)
  have "swim_inv s" using node_run_grows [OF tick(1)] tick(4) by (simp add: grows_def)
  then show ?case using tick by (simp add: swim_tick_belief option.map_comp comp_def split_beta)
qed simp_all

text \<open>A suspicion with its deadline, some time later: still the same, or overridden.\<close>

lemma suspicion_runs:
  assumes "node_run T listens (s, n) (s', n')" "expired t s e" "belief s e = Some (i, Suspect)"
  shows "expired t s' e \<and> belief s' e = Some (i, Suspect) \<or> (\<exists>j st. belief s' e = Some (j, st) \<and> (i, Suspect) < (j, st))"
proof -
  obtain m where m: "map_of (members s) (key e) = Some m" "m_inc m = i" "m_state m = Suspect"
    using assms(3) by (auto simp: belief_def)
  have "entries_kept s s'" using node_run_grows [OF assms(1)] by (simp add: grows_def)
  from this m(1) obtain m' where "map_of (members s') (key e) = Some m'" "m' = m \<or> (m_inc m, m_state m) < (m_inc m', m_state m')"
    by (rule entries_keptE)
  then show ?thesis using m assms(2) by (auto simp: belief_def expired_def)
qed

locale swim_cluster =
  fixes T :: "Endpoint \<Rightarrow> 'n UdpTransport"
    and wire :: "'n \<Rightarrow> Endpoint \<Rightarrow> (Endpoint \<times> bytes) set"
    and clock :: "'n \<Rightarrow> time_point"
    and env :: "'n \<Rightarrow> 'n \<Rightarrow> bool"
  assumes transport: "datagram_transport (T e) e wire clock"
    and env_wire: "env n n' \<Longrightarrow> wire n' e \<subseteq> wire n e"

sublocale swim_cluster \<subseteq> at: datagram_transport "T e" e wire clock for e
  by (rule transport)

context swim_cluster
begin

definition cluster_inv :: "'n Cluster \<Rightarrow> bool" where
  "cluster_inv y \<longleftrightarrow> (\<forall>e s. nodes y e = Some s \<longrightarrow> self s = e \<and> swim_inv s \<and> held_ok (incarnation y) s)
     \<and> at.flight_ok (\<lambda>src e d. msg_ok (incarnation y) src d) (cnet y)"

lemma node_sound:
  assumes "cluster_inv y" "nodes y e = Some s"
  shows "at.sound e (incarnation y) (s, cnet y)"
proof -
  have "self s = e" using assms by (simp add: cluster_inv_def)
  then have "bound (incarnation y) s = incarnation y" using assms(2) by (auto simp: bound_def incarnation_def fun_eq_iff)
  then show ?thesis using assms by (simp add: cluster_inv_def at.sound_def)
qed

lemma cluster_inv_step:
  assumes "cluster_step T env y y'" "cluster_inv y"
  shows "cluster_inv y'"
  using assms(1)
proof cases
  case (start e c seed)
  then have "incarnation y' = incarnation y" by (auto simp: incarnation_def fun_eq_iff)
  then show ?thesis using assms(2) start by (auto simp: cluster_inv_def held_ok_new)
next
  case (node e s s' n')
  have g: "grows s s'" and self: "self s = e" using node_step_grows [OF node(3)] assms(2) node(2) by (simp_all add: cluster_inv_def)
  have "at.sound e (incarnation y) (s', n')" using at.sound_step [OF node(3) node_sound [OF assms(2) node(2)]] .
  moreover have "bound (incarnation y) s' = incarnation y'"
    using g self by (auto simp: bound_def incarnation_def node(1) grows_def fun_eq_iff)
  ultimately have s': "self s' = e" "swim_inv s'" "held_ok (incarnation y') s'"
    "at.flight_ok (\<lambda>src e d. msg_ok (incarnation y') src d) n'"
    by (simp_all add: at.sound_def)
  have "incarnation y x \<le> incarnation y' x" for x using g node(1,2) by (simp add: incarnation_def grows_def)
  then have "held_ok (incarnation y') q" if "nodes y x = Some q" for x q
    using assms(2) that held_ok_mono [of "incarnation y" q] by (simp add: cluster_inv_def)
  then show ?thesis using s' assms(2) node(1) by (auto simp: cluster_inv_def)
next
  case (outside n')
  then have "incarnation y' = incarnation y" by (simp add: incarnation_def fun_eq_iff)
  moreover have "at.flight_ok (\<lambda>src e d. msg_ok (incarnation y) src d) n'"
    using assms(2) env_wire [OF outside(2)] unfolding cluster_inv_def at.flight_ok_def by blast
  ultimately show ?thesis using assms(2) outside(1) by (simp add: cluster_inv_def)
qed

lemma cluster_inv_reach:
  assumes "cluster_reach T env n0 y" "\<And>e. wire n0 e = {}"
  shows "cluster_inv y"
  using assms(1)
proof (induction rule: cluster_reach.induct)
  case initial
  show ?case using assms(2) by (simp add: cluster_inv_def at.flight_ok_def)
next
  case (step y y')
  then show ?case using cluster_inv_step by blast
qed

lemma authority:
  assumes "cluster_reach T env n0 y" "\<And>e. wire n0 e = {}" "nodes y a = Some s"
  shows "incarnation_of e s \<le> incarnation y e"
proof -
  from node_sound [OF cluster_inv_reach [OF assms(1,2)] assms(3)] have "at.sound a (incarnation y) (s, cnet y)" .
  then have "incarnation_of e s \<le> bound (incarnation y) s e" "self s = a"
    using at.incarnation_of_le at.soundD(1) by blast+
  then show ?thesis using assms(3) by (auto simp: bound_def incarnation_def split: if_splits)
qed

end

text \<open>On the simulator: time passes, endpoints are registered, and datagrams can be taken out of an inbox.\<close>

definition cluster_env :: "SimNet \<Rightarrow> SimNet \<Rightarrow> bool" where
  "cluster_env n n' \<longleftrightarrow> (\<exists>k. n' = advance n k) \<or> (\<exists>e. n' = endpoint n e) \<or> (\<exists>e cap. n' = snd (receive e cap n))"

lemma cluster_env_wire: "cluster_env n n' \<Longrightarrow> sim_wire n' e \<subseteq> sim_wire n e"
  by (auto simp: cluster_env_def dest: subsetD [OF sim_wire_receive])

interpretation cluster: swim_cluster sim_transport sim_wire sim_now cluster_env
  by unfold_locales (rule cluster_env_wire)

section \<open>Stale records\<close>

lemma apply_rumor_stale:
  assumes "\<not> is_none e" "e \<noteq> self s" "Some (inc, st) \<le> belief s e"
  shows "fst (apply_rumor T e st inc s n) = s"
  using assms by (auto simp: apply_rumor_def Let_def split_beta belief_def overrides_less not_less split: option.splits)

lemma apply_gossip_stale:
  assumes "\<forall>(e, st, inc) \<in> set g. \<not> is_none e \<and> e \<noteq> self s \<and> Some (inc, st) \<le> belief s e"
  shows "fst (apply_gossip T g s n) = s"
  using assms
proof (induction g arbitrary: n)
  case (Cons x g)
  obtain e st inc where x: "x = (e, st, inc)" by (cases x)
  have "fst (apply_rumor T e st inc s n) = s" using Cons.prems x by (intro apply_rumor_stale) simp_all
  then show ?case using Cons.IH [of "snd (apply_rumor T e st inc s n)"] Cons.prems by (simp add: x split_beta)
qed simp

text \<open>Merging records does nothing with the transport but read the clock.\<close>

lemma apply_rumor_clock: "\<exists>j. snd (apply_rumor T e st inc s n) = ((\<lambda>n. snd (t_now T n)) ^^ j) n"
  by (cases "is_none e \<or> e = self s") (auto simp: apply_rumor_net intro: exI [of _ 0] exI [of _ 1])

lemma apply_gossip_clock: "\<exists>j. snd (apply_gossip T g s n) = ((\<lambda>n. snd (t_now T n)) ^^ j) n"
proof (induction g arbitrary: s n)
  case (Cons x g)
  obtain e st inc where x: "x = (e, st, inc)" by (cases x)
  obtain i where i: "snd (apply_rumor T e st inc s n) = ((\<lambda>n. snd (t_now T n)) ^^ i) n"
    using apply_rumor_clock [of T e st inc s n] by blast
  obtain j where "snd (apply_gossip T (x # g) s n) = ((\<lambda>n. snd (t_now T n)) ^^ j) (((\<lambda>n. snd (t_now T n)) ^^ i) n)"
    using Cons.IH [of "fst (apply_rumor T e st inc s n)" "snd (apply_rumor T e st inc s n)"] i by (auto simp: x split_beta)
  then show ?case by (metis comp_apply funpow_add)
qed (auto intro: exI [of _ 0])

lemma clock_reads_twice:
  assumes "apply_gossip T g s n = (s1, n1)" "apply_rumor T e st inc s1 n1 = (s2, n2)"
  shows "\<exists>j. n2 = ((\<lambda>n. snd (t_now T n)) ^^ j) n"
proof -
  obtain i j where "n1 = ((\<lambda>n. snd (t_now T n)) ^^ i) n" "n2 = ((\<lambda>n. snd (t_now T n)) ^^ j) n1"
    using apply_gossip_clock [of T g s n] apply_rumor_clock [of T e st inc s1 n1] assms by auto
  then show ?thesis by (metis comp_apply funpow_add)
qed

lemma swim_datagram_wire:
  assumes "swim_type ty" "length pick \<le> kMaxFitEntries"
  shows "swim_datagram T L (swim_wire ty pid subject pick) source s n =
    (let (s, n) = apply_gossip T (map rumor_of pick) (tell_dead source s) n in Some (dispatch T L source ty pid subject s n))"
proof -
  have "length pick < 2 ^ 16"
    using assms(2) by (simp add: kMaxFitEntries_def kMaxDatagram_def kBaseHeaderSize_def kSwimHeader_def kGossipEntry_def)
  note r = read_body_written [OF this]
  have "ty AND 0x0F = ty" using assms(1) by (auto simp: swim_type_def types_simps)
  then show ?thesis
    using assms r decode_swim_wire [OF assms(2)]
    by (auto simp: swim_datagram_def swim_packet_def on_wire_def swim_type_def length_swim_body Let_def)
qed

lemma tell_dead_frame:
  "self (tell_dead e a) = self a" "belief (tell_dead e a) = belief a" "members (tell_dead e a) = members a"
  "my_incarnation (tell_dead e a) = my_incarnation a"
  by (simp_all add: tell_dead_def split: option.split)

lemma tell_dead_inv: "swim_inv a \<Longrightarrow> swim_inv (tell_dead e a)"
  by (simp add: tell_dead_def queue_rumor_inv split: option.split)

text \<open>A restarted node gossips nothing but its own presence; a full snapshot carries the verdict on it.\<close>

lemma fresh_gossip_stale:
  assumes "\<not> is_none e" "e \<noteq> self a" "Some (0, Alive) \<le> belief a e"
  shows "\<forall>(x, st, inc) \<in> set (map rumor_of (chosen L False (new_swim e c seed))).
    \<not> is_none x \<and> x \<noteq> self a \<and> Some (inc, st) \<le> belief a x"
proof -
  have "rumors (new_swim e c seed) = [(key e, \<lparr>r_state = Alive, r_inc = 0, tx_count = 0\<rparr>)]"
    by (simp add: new_swim_def queue_rumor_def)
  then have "x = (e, \<lparr>r_state = Alive, r_inc = 0, tx_count = 0\<rparr>)" if "x \<in> set (chosen L False (new_swim e c seed))" for x
    using chosen_origin [of "fst x" "snd x" L False "new_swim e c seed"] that by (cases x) auto
  then have "set (chosen L False (new_swim e c seed)) \<subseteq> {(e, \<lparr>r_state = Alive, r_inc = 0, tx_count = 0\<rparr>)}" by blast
  then show ?thesis using assms by (auto simp: rumor_of_def)
qed

lemma snapshot_accusations:
  assumes "swim_inv a" "belief a e = Some (k, Dead)" "length (members a) < kMaxFitEntries"
  shows "accusations e (map rumor_of (chosen L True a)) = {k + 1}"
proof -
  note e = belief_member [OF assms(1,2)]
  let ?S = "map (\<lambda>(k, m). (m_addr m, m_state m, m_inc m)) (entries L (members a))"
  have g: "map rumor_of (chosen L True a) = (self a, Alive, my_incarnation a) # ?S"
    using assms(3) by (auto simp: chosen_def snapshot_pick_def entries_def rumor_of_def)
  obtain m where m: "(key e, m) \<in> set (members a)" "m_inc m = k" "m_state m = Dead" "m_addr m = e"
    using assms(2) member_addr(1) [OF assms(1), of e] by (auto simp: belief_def map_of_members [OF assms(1)])
  have only: "m_inc m' = k" if "(k', m') \<in> set (members a)" "m_addr m' = e" for k' m'
    using that held_member_belief [OF assms(1) that(1)] assms(2) by simp
  have "k + 1 \<in> accusations e ?S"
    using m unfolding accusations_def by (force simp: image_iff)
  moreover have "accusations e ?S \<subseteq> {k + 1}"
    using only unfolding accusations_def by auto
  ultimately show ?thesis unfolding g using e(1) by auto
qed

section \<open>Properties\<close>

text \<open>C10: Only a node mints its own incarnations. In every state a cluster can reach on the simulated network (any number of
  nodes, started, joined, ticked and polled in any order, under loss, duplication, delay and reordering), what a node believes of an
  endpoint never carries a higher incarnation than that endpoint has announced itself.\<close>

theorem incarnation_authority:
  assumes "cluster_reach sim_transport cluster_env (new_simnet seed i) y" "nodes y a = Some s"
  shows "incarnation_of e s \<le> incarnation y e"
  by (rule cluster.authority [OF assms(1) _ assms(2)]) (simp add: sim_wire_def box_of_def new_simnet_def)

theorem incarnation_authority_witness:
  "\<exists>y s. cluster_reach sim_transport cluster_env (new_simnet 1 \<lparr>imp_loss = 0, imp_dup = 1, imp_delay = 5, imp_jitter = 0\<rparr>) y
     \<and> nodes y demo_me = Some s \<and> incarnation_of demo_peer s \<le> incarnation y demo_peer"
proof -
  let ?y = "\<lparr>nodes = [demo_me \<mapsto> new_swim demo_me demo_config 1], cnet = new_simnet 1
    \<lparr>imp_loss = 0, imp_dup = 1, imp_delay = 5, imp_jitter = 0\<rparr>\<rparr> :: SimNet Cluster"
  have r: "cluster_reach sim_transport cluster_env (new_simnet 1 \<lparr>imp_loss = 0, imp_dup = 1, imp_delay = 5, imp_jitter = 0\<rparr>) ?y"
    by (rule cluster_reach.step [OF cluster_reach.initial])
      (use cluster_step.start [of "\<lparr>nodes = Map.empty, cnet = new_simnet 1
        \<lparr>imp_loss = 0, imp_dup = 1, imp_delay = 5, imp_jitter = 0\<rparr>\<rparr>" demo_me] in simp)
  have "incarnation_of demo_peer (new_swim demo_me demo_config 1) \<le> incarnation ?y demo_peer"
    by (rule incarnation_authority [OF r]) simp
  with r show ?thesis by (intro exI [of _ ?y] exI [of _ "new_swim demo_me demo_config 1"]) simp
qed

text \<open>A false accusation is refuted: a node that hears itself called suspect or dead at an incarnation at least its own takes
  the next incarnation and queues an Alive record with a fresh budget, and every other node that believed the accusation, or anything
  at that incarnation, and hears this record believes the node alive. The one exception is the last incarnation.\<close>

theorem refutation_wins:
  assumes "\<not> is_none (self a)" "st \<noteq> Alive" "my_incarnation a \<le> inc" "inc \<noteq> 0xFFFFFFFF"
    and "self b \<noteq> self a" "belief b (self a) \<le> Some (inc, Dead)"
  shows "my_incarnation (fst (apply_rumor T (self a) st inc a n)) = inc + 1
    \<and> map_of (rumors (fst (apply_rumor T (self a) st inc a n))) (key (self a)) = Some \<lparr>r_state = Alive, r_inc = inc + 1, tx_count = 0\<rparr>
    \<and> belief (fst (apply_rumor T' (self a) Alive (inc + 1) b n')) (self a) = Some (inc + 1, Alive)"
proof -
  have inc: "inc < inc + 1" using assms(4) by (rule next_incarnation)
  then have "max (my_incarnation a) (inc + 1) = inc + 1" using assms(3) by simp
  moreover have "belief b (self a) \<le> Some (inc + 1, Alive)"
    using assms(6) inc by (auto intro: order_trans [OF assms(6)])
  ultimately show ?thesis
    using assms(1-3,5) by (simp add: apply_rumor_incarnation apply_rumor_rumors apply_rumor_belief max_absorb2 not_less)
qed

theorem refutation_wins_witness:
  "belief demo_node demo_peer \<le> Some (0, Dead) \<and>
   belief (fst (apply_rumor (sim_transport demo_me) demo_peer Alive 1 demo_node demo_net)) demo_peer = Some (1, Alive)"
  using refutation_wins [of "new_swim demo_peer demo_config 1" Dead 0 demo_node "sim_transport demo_peer" demo_net
      "sim_transport demo_me" demo_net] demo_node_facts
  by simp

text \<open>C37: Incarnations wrap: an accusation at the last incarnation 0xFFFFFFFF leaves the accused's own incarnation unchanged
  (the successor is 0), and no Alive record at any incarnation overrides it at the other nodes. A single such record, forged or
  corrupted, condemns the node for good.\<close>

theorem refutation_fails_at_last_incarnation:
  "my_incarnation (fst (apply_rumor T e st 0xFFFFFFFF s n)) = my_incarnation s
   \<and> belief (fst (apply_rumor T' e Alive i (fst (apply_rumor T' e Dead 0xFFFFFFFF b n')) n'')) e =
     belief (fst (apply_rumor T' e Dead 0xFFFFFFFF b n')) e"
proof -
  have le: "x \<le> (0xFFFFFFFF :: u32)" for x
    using uint_bounded [of x] by (simp add: word_le_def)
  have "Some (i, Alive) \<le> max c (Some (0xFFFFFFFF, Dead))" for c :: "standing option"
    using le [of i] by (auto intro: le_max_iff_disj [THEN iffD2])
  note last = this
  have wrap: "(4294967296 :: u32) = 0" by (simp add: word_uint_eq_iff)
  show ?thesis
    using last by (simp add: apply_rumor_incarnation apply_rumor_belief max_absorb1 wrap)
qed

text \<open>C13: A member that does not answer is detected, by a node that keeps running. When the period of its probe ends without an
  acknowledgement the prober suspects it at the incarnation it knows. However often the node ticks afterwards, whatever it receives and
  whatever else it does, the tick at least a suspicion timeout later finds the member dead at that incarnation, unless the node has heard of a
  newer incarnation; a node that only ticks finds it dead without exception (on the simulated network, for every seed and impairment).\<close>

theorem failure_is_detected:
  assumes "swim_inv s" "probing s" "\<not> probe_acked s" "belief s (probe_target s) = Some (i, Alive)"
    "period_deadline s \<le> sim_now n" "swim_tick (sim_transport me) L s n = (s', n')"
    "node_run (sim_transport me) listens (s', n') (s2, n2)" "sim_now n' + ms (suspicion_timeout (sw_cfg s)) \<le> sim_now n2"
    "swim_tick (sim_transport me) L' s2 n2 = (s3, n3)"
  shows "belief s' (probe_target s) = Some (i, Suspect)
    \<and> (belief s3 (probe_target s) = Some (i, Dead) \<or> listens \<and> (\<exists>j st. belief s3 (probe_target s) = Some (j, st) \<and> i < j))"
proof -
  let ?e = "probe_target s"
  have now: "t_now (sim_transport me) n = (sim_now n, n)" for n by (simp add: sim_transport_def)
  have "\<not> expired (sim_now n) s ?e" using expired_Suspect [of "sim_now n" s ?e] assms(4) by auto
  then have b: "belief s' ?e = Some (i, Suspect)"
    using swim_tick_belief [OF assms(1), of "sim_transport me" L n ?e] assms(2-6) now by (simp add: verdict_def)
  have inv: "swim_inv s'" using swim_tick_grows [of s "sim_transport me" L n] assms(1,6) by (simp add: grows_def)
  then have inv2: "swim_inv s2" using node_run_grows [OF assms(7)] by (simp add: grows_def)
  have "expired (sim_now n2) s' ?e"
    by (rule sim.tick_suspects [OF assms(1-4) _ assms(6,8)]) (simp add: now assms(5))
  note x = suspicion_runs [OF assms(7) this b]
  have over: "j = i \<and> st = Dead \<or> i < j" if "(i, Suspect) < (j, st)" for j st using that by (cases st) (auto simp: less_MemberState_def)
  from x over obtain j st where j: "belief s2 ?e = Some (j, st)"
    "st = Suspect \<and> expired (sim_now n2) s2 ?e \<and> j = i \<or> st = Dead \<and> j = i \<or> i < j" by blast
  have t: "belief s3 ?e = Some (j, verdict (sim_now n2) s2 ?e st)"
    using swim_tick_belief [OF inv2, of "sim_transport me" L' n2 ?e] assms(9) now j(1) by simp
  have "listens \<or> j = i" using node_run_deaf [OF assms(7), of ?e] inv b j(1) by auto
  then have "belief s3 ?e = Some (i, Dead) \<or> listens \<and> (\<exists>j st. belief s3 ?e = Some (j, st) \<and> i < j)"
    using t j(2) by (auto simp: verdict_def)
  with b show ?thesis by blast
qed

theorem failure_is_detected_witness:
  "\<exists>s' n' s2 n2. swim_tick (sim_transport demo_me) demo_library demo_node demo_net = (s', n')
     \<and> swim_tick (sim_transport demo_me) demo_library s' (advance n' 1500) = (s2, n2)
     \<and> belief (fst (swim_tick (sim_transport demo_me) demo_library s2 (advance n' 3000))) demo_peer = Some (0, Dead)"
proof -
  let ?T = "sim_transport demo_me"
  obtain s' n' where t: "swim_tick ?T demo_library demo_node demo_net = (s', n')" by fastforce
  obtain s2 n2 where t2: "swim_tick ?T demo_library s' (advance n' 1500) = (s2, n2)" by fastforce
  obtain s3 n3 where t3: "swim_tick ?T demo_library s2 (advance n' 3000) = (s3, n3)" by fastforce
  have "node_run ?T False (s', n') (s', advance n' 1500)" by (intro node_run.world [OF node_run.start])
  from node_run.tick [OF this, of demo_library] have r: "node_run ?T False (s', n') (s2, advance n' 3000)"
    unfolding t2 by (rule node_run.world)
  have "sim_now demo_net = 0" by (simp add: demo_net_def endpoint_def new_simnet_def)
  then have "belief s3 demo_peer = Some (0, Dead)"
    using failure_is_detected [OF demo_node_facts(1,3,4) _ _ t r _ t3, of 0] demo_node_facts
    by (simp add: demo_config_def advance_def)
  then show ?thesis using t t2 t3 by (metis fst_conv)
qed

text \<open>C14: A dead node that restarts gets back in. A node with a fresh state that joins through an introducer which holds it
  dead at incarnation \<open>k\<close> (\<open>k\<close> not the last one, the roster small enough for one packet) is sent the snapshot, learns of the
  verdict from it, takes incarnation \<open>k + 1\<close>, and the introducer believes it alive as soon as it hears that incarnation. The introducer
  sends one datagram, its reply, and the reply is not answered: handling it does nothing with the transport but read the clock.\<close>

theorem rejoin_after_death:
  assumes "swim_inv a" "belief a e = Some (k, Dead)" "k \<noteq> 0xFFFFFFFF" "\<not> is_none (self a)" "length (members a) < kMaxFitEntries"
    and b: "b = new_swim e c seed"
  shows "\<exists>d1 a1 d2 b2 i j.
      join TB LB (self a) b nb = (charged LB False b, snd (t_send TB (self a) d1 nb))
    \<and> swim_datagram TA LA d1 e a na = Some (a1, snd (t_send TA e d2 (((\<lambda>n. snd (t_now TA n)) ^^ i) na)))
    \<and> swim_datagram TB LB d2 (self a) (charged LB False b) n2 = Some (b2, ((\<lambda>n. snd (t_now TB n)) ^^ j) n2)
    \<and> my_incarnation b2 = k + 1
    \<and> belief a1 e = Some (k, Dead)
    \<and> belief (fst (apply_rumor TA e Alive (my_incarnation b2) a1 n3)) e = Some (k + 1, Alive)"
proof -
  note e = belief_member [OF assms(1,2)]
  let ?a1 = "tell_dead e a" and ?b1 = "charged LB False b"
  note t = tell_dead_frame [of e a] tell_dead_inv [OF assms(1), of e]
  have own: "Some (0, Alive) \<le> belief ?a1 e" using assms(2) t by simp
  obtain n0 where g1: "apply_gossip TA (map rumor_of (chosen LB False b)) ?a1 na = (?a1, n0)"
    using apply_gossip_stale [OF fresh_gossip_stale [of e ?a1 LB c seed], of TA na] e own t(1) b by (metis prod.collapse)
  obtain n1 where r1: "apply_rumor TA e Alive 0 ?a1 n0 = (?a1, n1)"
    using apply_rumor_stale [of e ?a1 0 Alive TA n0] e t(1) own by (metis prod.collapse)
  let ?d1 = "swim_wire PT_Join 0 e (chosen LB False b)" and ?d2 = "swim_wire PT_Join (my_incarnation a) e (chosen LA True ?a1)"
  have "dispatch TA LA e PT_Join 0 e ?a1 n0 = (?a1, snd (t_send TA e ?d2 n1))"
    using e t r1 by (simp add: dispatch_def types_simps handle_join_def send_swim_eq charged_def)
  then have reply: "swim_datagram TA LA ?d1 e a na = Some (?a1, snd (t_send TA e ?d2 n1))"
    by (simp add: swim_datagram_wire [OF _ length_chosen] swim_type_def g1)
  have b1: "self ?b1 = e" "my_incarnation ?b1 = 0" "tell_dead (self a) ?b1 = ?b1"
    by (simp_all add: b tell_dead_def)
  obtain b3 n3' where g2: "apply_gossip TB (map rumor_of (chosen LA True ?a1)) ?b1 n2 = (b3, n3')" by fastforce
  have "accusations e (map rumor_of (chosen LA True ?a1)) = {k + 1}"
    using snapshot_accusations [OF t(5)] assms(2,5) t by simp
  then have b3: "self b3 = e" "my_incarnation b3 = k + 1"
    using apply_gossip_frame(1) [of TB "map rumor_of (chosen LA True ?a1)" ?b1 n2]
      apply_gossip_incarnation [of TB "map rumor_of (chosen LA True ?a1)" ?b1 n2] e g2 b1 by simp_all
  obtain b2 n4 where r2: "apply_rumor TB (self a) Alive (my_incarnation a) b3 n3' = (b2, n4)" by fastforce
  obtain i where i: "n1 = ((\<lambda>n. snd (t_now TA n)) ^^ i) na" using clock_reads_twice [OF g1 r1] by blast
  obtain j where j: "n4 = ((\<lambda>n. snd (t_now TB n)) ^^ j) n2" using clock_reads_twice [OF g2 r2] by blast
  have "my_incarnation b2 = k + 1"
    using r2 apply_rumor_incarnation [of TB "self a" Alive "my_incarnation a" b3 n3'] b3 by simp
  moreover have "dispatch TB LB (self a) PT_Join (my_incarnation a) e b3 n3' = (b2, n4)"
    using e assms(4) r2 b3 by (simp add: dispatch_def types_simps handle_join_def)
  then have "swim_datagram TB LB ?d2 (self a) ?b1 n2 = Some (b2, n4)"
    by (simp add: swim_datagram_wire [OF _ length_chosen] swim_type_def b1 g2)
  moreover have "belief (fst (apply_rumor TA e Alive (k + 1) ?a1 n3)) e = Some (k + 1, Alive)"
    using e t assms(2) next_incarnation [OF assms(3)] by (simp add: apply_rumor_belief max_absorb2)
  moreover have "join TB LB (self a) b nb = (?b1, snd (t_send TB (self a) ?d1 nb))"
    by (simp add: join_def send_swim_eq b)
  ultimately show ?thesis using reply t(2) assms(2) unfolding i j by metis
qed

definition demo_mourner :: Swim where
  "demo_mourner = fst (apply_rumor (sim_transport demo_me) demo_peer Dead 5 (new_swim demo_me demo_config 1) demo_net)"

theorem rejoin_after_death_witness:
  "\<exists>d1 a1 d2 b2. swim_datagram (sim_transport demo_me) demo_library d1 demo_peer demo_mourner demo_net = Some (a1, snd (t_send (sim_transport demo_me) demo_peer d2 demo_net))
    \<and> swim_datagram (sim_transport demo_peer) demo_library d2 demo_me (charged demo_library False (new_swim demo_peer demo_config 2)) demo_net
        = Some (b2, demo_net)
    \<and> belief (fst (apply_rumor (sim_transport demo_me) demo_peer Alive (my_incarnation b2) a1 demo_net)) demo_peer = Some (6, Alive)"
proof -
  have "swim_inv demo_mourner" unfolding demo_mourner_def by (rule apply_rumor_inv) simp
  moreover have "belief demo_mourner demo_peer = Some (5, Dead)" "self demo_mourner = demo_me"
    by (simp_all add: demo_mourner_def apply_rumor_belief max_def)
  moreover have "length (members demo_mourner) < kMaxFitEntries"
    by (simp add: demo_mourner_def apply_rumor_def Let_def split_beta kMaxFitEntries_def kMaxDatagram_def
        kBaseHeaderSize_def kSwimHeader_def kGossipEntry_def)
  moreover have "((\<lambda>n. snd (t_now (sim_transport x) n)) ^^ j) demo_net = demo_net" for x j
    by (induction j) (simp_all add: sim_transport_def)
  ultimately show ?thesis
    using rejoin_after_death [of demo_mourner demo_peer 5 "new_swim demo_peer demo_config 2" demo_config 2
        "sim_transport demo_peer" demo_library demo_net "sim_transport demo_me" demo_library demo_net demo_net demo_net]
    by simp blast
qed

text \<open>C15: Polling is safe on arbitrary input: whatever datagrams arrive, \<open>poll\<close> returns without reading outside a
  packet body, keeps the table well formed (distinct keys that match the addresses, never the node itself or the null
  endpoint), and no belief and no incarnation ever regresses.\<close>

theorem swim_poll_safe:
  assumes "swim_inv s"
  shows "\<exists>b s' n'. swim_poll T L s n = Some (b, s', n') \<and> swim_inv s' \<and> (\<forall>e. belief s e \<le> belief s' e)
    \<and> my_incarnation s \<le> my_incarnation s'"
  using swim_poll_loop_total [of T L "sw_max_recv (sw_cfg s)" s n] assms by (auto simp: swim_poll_def grows_def)

theorem swim_poll_safe_witness:
  "\<exists>b s' n'. swim_poll (sim_transport demo_me) demo_library demo_node demo_net = Some (b, s', n') \<and> swim_inv s'"
  using swim_poll_safe [OF demo_node_facts(1), of "sim_transport demo_me" demo_library demo_net] by blast

end
