(* ===== verification/Udp_Socket.thy ===== *)
theory Udp_Socket
  imports Session_Delivery
begin

text \<open>
  The socket transport of \<^verbatim>\<open>src/transport.cc\<close>: \<open>make_endpoint\<close> and the class \<^verbatim>\<open>RealUdpTransport\<close>. The system calls are the fields
  of the record \<open>Kernel\<close> over a state of the outside world, a parameter of every operation. The locale \<open>udp_kernel\<close> states what the
  manual pages of \<^verbatim>\<open>sendto\<close>, \<^verbatim>\<open>recvfrom\<close> and \<^verbatim>\<open>clock_gettime\<close> say of a datagram socket; a bound socket over such a kernel
  satisfies the contract \<open>datagram_transport\<close>, so that the end-to-end theorems of the session hold over real sockets.
  The in-memory kernel at the end, on which the locales are interpreted, shows that these statements can hold together.
\<close>

section \<open>Model\<close>

text \<open>
  \<open>k_recvfrom fd cap\<close> returns the return value of the call with the contents of the buffer and the source address after it;
  \<open>k_pton\<close> is \<^verbatim>\<open>inet_pton(AF_INET, ...)\<close> with the address in network order, \<open>k_htons\<close> the byte order of the host.
\<close>

record 'w Kernel =
  k_pton :: "string \<Rightarrow> u32 option"
  k_htons :: "u16 \<Rightarrow> u16"
  k_socket :: "'w \<Rightarrow> int \<times> 'w"
  k_getfl :: "int \<Rightarrow> 'w \<Rightarrow> int \<times> 'w"
  k_setfl :: "int \<Rightarrow> int \<Rightarrow> 'w \<Rightarrow> int \<times> 'w"
  k_reuseaddr :: "int \<Rightarrow> 'w \<Rightarrow> int \<times> 'w"
  k_bind :: "int \<Rightarrow> Endpoint \<Rightarrow> 'w \<Rightarrow> int \<times> 'w"
  k_getsockname :: "int \<Rightarrow> 'w \<Rightarrow> int \<times> Endpoint"
  k_sendto :: "int \<Rightarrow> bytes \<Rightarrow> Endpoint \<Rightarrow> 'w \<Rightarrow> int \<times> 'w"
  k_recvfrom :: "int \<Rightarrow> nat \<Rightarrow> 'w \<Rightarrow> int \<times> bytes \<times> Endpoint \<times> 'w"
  k_clock :: "'w \<Rightarrow> time_point \<times> 'w"
  k_close :: "int \<Rightarrow> 'w \<Rightarrow> 'w"

definition O_NONBLOCK :: int where
  "O_NONBLOCK = 2048"

text \<open>The address text is copied into a zeroed array of 64 characters, so \<^verbatim>\<open>inet_pton\<close> sees it up to the first NUL.\<close>

definition c_string :: "string \<Rightarrow> string" where
  "c_string s = takeWhile (\<lambda>c. c \<noteq> CHR 0x00) s"

definition make_endpoint :: "'w Kernel \<Rightarrow> string \<Rightarrow> u16 \<Rightarrow> Endpoint option" where
  "make_endpoint K ipv4 port =
     (if 64 \<le> length ipv4 then None
      else case k_pton K (c_string ipv4) of
        None \<Rightarrow> None
      | Some a \<Rightarrow> Some \<lparr>addr_be = a, port_be = k_htons K port\<rparr>)"

record RealUdpTransport =
  sock_fd :: int

definition new_udp :: RealUdpTransport where
  "new_udp = \<lparr>sock_fd = -1\<rparr>"

definition close_udp :: "'w Kernel \<Rightarrow> RealUdpTransport \<Rightarrow> 'w \<Rightarrow> 'w" where
  "close_udp K r w = (if 0 \<le> sock_fd r then k_close K (sock_fd r) w else w)"

definition udp_bind :: "'w Kernel \<Rightarrow> string \<Rightarrow> u16 \<Rightarrow> RealUdpTransport \<Rightarrow> 'w \<Rightarrow> bool \<times> RealUdpTransport \<times> 'w" where
  "udp_bind K addr port r w =
     (let (fd, w) = k_socket K w; r = r\<lparr>sock_fd := fd\<rparr>
      in if fd < 0 then (False, r, w)
         else let (flags, w) = k_getfl K fd w
           in if flags < 0 then (False, r, w)
              else let (rc, w) = k_setfl K fd (flags OR O_NONBLOCK) w
                in if rc < 0 then (False, r, w)
                   else let (_, w) = k_reuseaddr K fd w
                     in case make_endpoint K addr port of
                          None \<Rightarrow> (False, r, w)
                        | Some ep \<Rightarrow> let (rc, w) = k_bind K fd ep w in (rc = 0, r, w))"

definition local_endpoint :: "'w Kernel \<Rightarrow> RealUdpTransport \<Rightarrow> 'w \<Rightarrow> Endpoint option" where
  "local_endpoint K r w =
     (if sock_fd r < 0 then None
      else let (rc, sa) = k_getsockname K (sock_fd r) w in if rc \<noteq> 0 then None else Some sa)"

definition udp_send :: "'w Kernel \<Rightarrow> RealUdpTransport \<Rightarrow> Endpoint \<Rightarrow> bytes \<Rightarrow> 'w \<Rightarrow> nat \<times> 'w" where
  "udp_send K r dest d w =
     (if sock_fd r < 0 then (0, w)
      else let (n, w) = k_sendto K (sock_fd r) d dest w in (if n < 0 then 0 else nat n, w))"

definition udp_recv :: "'w Kernel \<Rightarrow> RealUdpTransport \<Rightarrow> nat \<Rightarrow> 'w \<Rightarrow> (bytes \<times> Endpoint) option \<times> 'w" where
  "udp_recv K r cap w =
     (if sock_fd r < 0 then (None, w)
      else let (n, buf, src, w) = k_recvfrom K (sock_fd r) cap w
           in if n < 0 then (None, w) else (Some (take (nat n) buf, src), w))"

definition udp_now :: "'w Kernel \<Rightarrow> 'w \<Rightarrow> time_point \<times> 'w" where
  "udp_now K w = k_clock K w"

definition real_transport :: "'w Kernel \<Rightarrow> RealUdpTransport \<Rightarrow> 'w UdpTransport" where
  "real_transport K r = \<lparr>t_send = udp_send K r, t_recv = udp_recv K r, t_now = udp_now K\<rparr>"

lemma real_transport_sel [simp]:
  "t_send (real_transport K r) = udp_send K r" "t_recv (real_transport K r) = udp_recv K r" "t_now (real_transport K r) = udp_now K"
  by (simp_all add: real_transport_def)

section \<open>The kernel's side of the contract\<close>

text \<open>
  \<open>addr fd\<close> is the address the open socket \<open>fd\<close> is bound to, \<open>wire w e\<close> the datagrams, with their source, that a socket bound to \<open>e\<close>
  can still receive. A send puts at most the one datagram on its way; a receive that does not fail writes the beginning of one such
  datagram into the buffer and returns its length; the monotonic clock does not run backwards.
\<close>

locale udp_kernel =
  fixes K :: "'w Kernel"
    and addr :: "int \<Rightarrow> Endpoint option"
    and wire :: "'w \<Rightarrow> Endpoint \<Rightarrow> (Endpoint \<times> bytes) set"
    and clock :: "'w \<Rightarrow> time_point"
  assumes sendto: "addr fd = Some me \<Longrightarrow> k_sendto K fd d dest w = (n, w') \<Longrightarrow>
      n \<le> int (length d) \<and> clock w \<le> clock w' \<and> wire w' e \<subseteq> wire w e \<union> (if e = dest then {(me, d)} else {})"
    and recvfrom: "addr fd = Some me \<Longrightarrow> k_recvfrom K fd cap w = (n, buf, src, w') \<Longrightarrow> clock w \<le> clock w' \<and> wire w' e \<subseteq> wire w e"
    and recvfrom_data: "addr fd = Some me \<Longrightarrow> k_recvfrom K fd cap w = (n, buf, src, w') \<Longrightarrow> 0 \<le> n \<Longrightarrow>
      \<exists>d. (src, d) \<in> wire w me \<and> nat n = min cap (length d) \<and> take (nat n) buf = take (nat n) d"
    and clock_gettime: "k_clock K w = (t, w') \<Longrightarrow> clock w \<le> t \<and> t \<le> clock w' \<and> wire w' e \<subseteq> wire w e"

locale udp_socket = udp_kernel +
  fixes fd :: int
    and me :: Endpoint
  assumes bound: "addr fd = Some me"

text \<open>A bound socket is a datagram transport.\<close>

sublocale udp_socket \<subseteq> datagram_transport "real_transport K \<lparr>sock_fd = fd\<rparr>" me wire clock
proof
  fix dest d n e cap src
  obtain r w' where s: "k_sendto K fd d dest n = (r, w')" by fastforce
  from sendto [OF bound s, of e] s
  show "wire (snd (t_send (real_transport K \<lparr>sock_fd = fd\<rparr>) dest d n)) e \<subseteq> wire n e \<union> (if e = dest then {(me, d)} else {})"
    by (auto simp: udp_send_def split: if_splits)
  from sendto [OF bound s] s show "fst (t_send (real_transport K \<lparr>sock_fd = fd\<rparr>) dest d n) \<le> length d"
    by (simp add: udp_send_def nat_le_iff)
  from sendto [OF bound s] s show "clock n \<le> clock (snd (t_send (real_transport K \<lparr>sock_fd = fd\<rparr>) dest d n))"
    by (simp add: udp_send_def)
  obtain k buf sa w2 where v: "k_recvfrom K fd cap n = (k, buf, sa, w2)" by (metis prod_cases4)
  from recvfrom [OF bound v, of e] v show "wire (snd (t_recv (real_transport K \<lparr>sock_fd = fd\<rparr>) cap n)) e \<subseteq> wire n e"
    by (auto simp: udp_recv_def)
  from recvfrom [OF bound v] v show "clock n \<le> clock (snd (t_recv (real_transport K \<lparr>sock_fd = fd\<rparr>) cap n))"
    by (auto simp: udp_recv_def)
  show "\<exists>d0. (src, d0) \<in> wire n me \<and> d = take cap d0" if "fst (t_recv (real_transport K \<lparr>sock_fd = fd\<rparr>) cap n) = Some (d, src)"
  proof -
    have k: "0 \<le> k" "d = take (nat k) buf" "src = sa" using that v by (auto simp: udp_recv_def split: if_splits)
    from recvfrom_data [OF bound v k(1)] obtain d0 where
      d0: "(sa, d0) \<in> wire n me" "nat k = min cap (length d0)" "take (nat k) buf = take (nat k) d0" by blast
    then have "d = take cap d0" using k(2) by (simp add: min_def split: if_splits)
    then show ?thesis using d0(1) k(3) by blast
  qed
  obtain t w3 where c: "k_clock K n = (t, w3)" by fastforce
  from clock_gettime [OF c, of e] c show "wire (snd (t_now (real_transport K \<lparr>sock_fd = fd\<rparr>) n)) e \<subseteq> wire n e"
    by (simp add: udp_now_def)
  from clock_gettime [OF c] c show "clock n \<le> fst (t_now (real_transport K \<lparr>sock_fd = fd\<rparr>) n) \<and>
      fst (t_now (real_transport K \<lparr>sock_fd = fd\<rparr>) n) \<le> clock (snd (t_now (real_transport K \<lparr>sock_fd = fd\<rparr>) n))"
    by (simp add: udp_now_def)
qed

text \<open>Two sockets on kernels that share the network, with whatever else happens there.\<close>

locale udp_pair = a: udp_socket K addr wire clock fda ea + b: udp_socket K addr wire clock fdb eb
  for K :: "'w Kernel" and addr and wire :: "'w \<Rightarrow> Endpoint \<Rightarrow> (Endpoint \<times> bytes) set" and clock and fda fdb ea eb +
  fixes env :: "'w \<Rightarrow> 'w \<Rightarrow> bool"
  assumes env_wire: "env w w' \<Longrightarrow> x = ea \<or> x = eb \<Longrightarrow> (x, d) \<in> wire w' e \<Longrightarrow> (x, d) \<in> wire w e"

sublocale udp_pair \<subseteq> over: session_pair "real_transport K \<lparr>sock_fd = fda\<rparr>" "real_transport K \<lparr>sock_fd = fdb\<rparr>" ea eb wire clock env
  by unfold_locales (rule env_wire)

context udp_pair
begin

lemma run_guarantees:
  assumes "pair_reach UA UB (real_transport K \<lparr>sock_fd = fda\<rparr>) (real_transport K \<lparr>sock_fd = fdb\<rparr>) env (start_pair ea eb ca cb w) y"
    and "ea \<noteq> eb" "config_ok ca" "config_ok cb" "\<And>e d. (ea, d) \<notin> wire w e" "\<And>e d. (eb, d) \<notin> wire w e"
  shows "sess_inv UA (acc_b y) (acc_a y) (received (rx_side (pa y))) (pb y)"
    and "\<exists>s' w'. tick (real_transport K \<lparr>sock_fd = fda\<rparr>) (pa y) (net y) = Some (s', w')"
proof -
  have i: "over.pair_inv UA UB y" using over.pair_inv_reach [OF assms(1) over.pair_inv_start [OF assms(3-6)] assms(2)] .
  then show "sess_inv UA (acc_b y) (acc_a y) (received (rx_side (pa y))) (pb y)" by (simp add: over.pair_inv_def)
  show "\<exists>s' w'. tick (real_transport K \<lparr>sock_fd = fda\<rparr>) (pa y) (net y) = Some (s', w')" using over.pair_tick [OF i] by blast
qed

end

section \<open>Binding\<close>

text \<open>When \<open>bind\<close> succeeds the object holds the descriptor of a non-blocking socket bound to the address asked for.\<close>

lemma udp_bind_iff:
  "fst (udp_bind K a port r w) \<longleftrightarrow>
     (\<exists>fd w1 flags w2 rc w3 o4 w4 ep w5. k_socket K w = (fd, w1) \<and> 0 \<le> fd \<and> k_getfl K fd w1 = (flags, w2) \<and> 0 \<le> flags
        \<and> k_setfl K fd (flags OR O_NONBLOCK) w2 = (rc, w3) \<and> 0 \<le> rc \<and> k_reuseaddr K fd w3 = (o4, w4)
        \<and> make_endpoint K a port = Some ep \<and> k_bind K fd ep w4 = (0, w5)
        \<and> udp_bind K a port r w = (True, r\<lparr>sock_fd := fd\<rparr>, w5))"
  by (auto simp: udp_bind_def Let_def split: prod.splits option.splits if_splits)

text \<open>Whether or not \<open>bind\<close> succeeds, it replaces the descriptor without closing the one the object held.\<close>

lemma udp_bind_descriptor: "sock_fd (fst (snd (udp_bind K a port r w))) = fst (k_socket K w)"
  by (auto simp: udp_bind_def Let_def split: prod.splits option.splits if_splits)

lemma make_endpoint_some:
  "make_endpoint K s p = Some e \<longleftrightarrow> length s < 64 \<and> k_pton K (c_string s) = Some (addr_be e) \<and> port_be e = k_htons K p"
  by (cases e) (auto simp: make_endpoint_def split: option.splits)

section \<open>A kernel in memory\<close>

text \<open>A host whose sockets are open: every address has a queue of datagrams, every reading of the clock advances it.\<close>

record Host =
  inboxes :: "Endpoint \<Rightarrow> (Endpoint \<times> bytes) list"
  uptime :: time_point

definition host_send :: "Endpoint option \<Rightarrow> bytes \<Rightarrow> Endpoint \<Rightarrow> 'z Host_scheme \<Rightarrow> int \<times> 'z Host_scheme" where
  "host_send a d dest w =
     (case a of None \<Rightarrow> (-1, w)
      | Some me \<Rightarrow> (int (length d), w\<lparr>inboxes := (inboxes w)(dest := inboxes w dest @ [(me, d)])\<rparr>))"

definition host_recv :: "Endpoint option \<Rightarrow> nat \<Rightarrow> 'z Host_scheme \<Rightarrow> int \<times> bytes \<times> Endpoint \<times> 'z Host_scheme" where
  "host_recv a cap w =
     (case a of None \<Rightarrow> (-1, [], no_endpoint, w)
      | Some me \<Rightarrow>
          (case inboxes w me of
             [] \<Rightarrow> (-1, [], no_endpoint, w)
           | (src, d) # rest \<Rightarrow> (int (min cap (length d)), take cap d, src, w\<lparr>inboxes := (inboxes w)(me := rest)\<rparr>)))"

definition host_kernel :: "(int \<Rightarrow> Endpoint option) \<Rightarrow> 'z Host_scheme Kernel" where
  "host_kernel addr =
     \<lparr>k_pton = (\<lambda>s. if s = ''127.0.0.1'' then Some 0x0100007F else None), k_htons = (\<lambda>p. word_rotl 8 p),
      k_socket = Pair 3, k_getfl = (\<lambda>_. Pair 0), k_setfl = (\<lambda>_ _. Pair 0), k_reuseaddr = (\<lambda>_. Pair 0),
      k_bind = (\<lambda>fd ep. Pair (if addr fd = Some ep then 0 else -1)),
      k_getsockname = (\<lambda>fd w. case addr fd of None \<Rightarrow> (-1, no_endpoint) | Some ep \<Rightarrow> (0, ep)),
      k_sendto = (\<lambda>fd. host_send (addr fd)), k_recvfrom = (\<lambda>fd. host_recv (addr fd)),
      k_clock = (\<lambda>w. (uptime w, w\<lparr>uptime := uptime w + 1\<rparr>)), k_close = (\<lambda>_ w. w)\<rparr>"

definition host_wire :: "'z Host_scheme \<Rightarrow> Endpoint \<Rightarrow> (Endpoint \<times> bytes) set" where
  "host_wire w e = set (inboxes w e)"

definition host_env :: "'z Host_scheme \<Rightarrow> 'z Host_scheme \<Rightarrow> bool" where
  "host_env w w' \<longleftrightarrow> uptime w \<le> uptime w' \<and> (\<forall>e. set (inboxes w' e) \<subseteq> set (inboxes w e))"

interpretation loopback: udp_kernel "host_kernel addr" addr host_wire uptime for addr
proof
  fix fd me d dest n e cap buf src and w w' :: "'z Host_scheme"
  assume a: "addr fd = Some me"
  show "n \<le> int (length d) \<and> uptime w \<le> uptime w' \<and> host_wire w' e \<subseteq> host_wire w e \<union> (if e = dest then {(me, d)} else {})"
    if "k_sendto (host_kernel addr) fd d dest w = (n, w')"
    using that a by (auto simp: host_kernel_def host_send_def host_wire_def)
  show "uptime w \<le> uptime w' \<and> host_wire w' e \<subseteq> host_wire w e" if "k_recvfrom (host_kernel addr) fd cap w = (n, buf, src, w')"
    using that a by (auto simp: host_kernel_def host_recv_def host_wire_def split: list.splits if_splits)
  show "\<exists>d. (src, d) \<in> host_wire w me \<and> nat n = min cap (length d) \<and> take (nat n) buf = take (nat n) d"
    if "k_recvfrom (host_kernel addr) fd cap w = (n, buf, src, w')" "0 \<le> n"
    using that a by (cases "inboxes w me") (force simp: host_kernel_def host_recv_def host_wire_def)+
next
  fix t e and w w' :: "'z Host_scheme" assume "k_clock (host_kernel addr) w = (t, w')"
  then show "uptime w \<le> t \<and> t \<le> uptime w' \<and> host_wire w' e \<subseteq> host_wire w e" by (auto simp: host_kernel_def host_wire_def)
qed

abbreviation sockets :: "Endpoint \<Rightarrow> Endpoint \<Rightarrow> int \<Rightarrow> Endpoint option" where
  "sockets ea eb \<equiv> [3 \<mapsto> ea, 4 \<mapsto> eb]"

interpretation hosts: udp_pair "host_kernel (sockets ea eb)" "sockets ea eb" host_wire uptime 3 4 ea eb host_env for ea eb
  by unfold_locales (auto simp: host_env_def host_wire_def)

section \<open>Properties\<close>

text \<open>C17: The delivery guarantees hold over the socket transport. Let the kernel treat datagram sockets as documented, let two sessions
  run over bound sockets with different addresses, and let the network lose, repeat, reorder and truncate at will and carry any other
  traffic. Then after every run the ordered messages handed to the application are a prefix of those accepted at the other side, the
  unordered reliable ones are among those accepted, no more often than they were accepted, the unreliable ones are among those the other
  side sent (they lie in every set \<open>UA\<close> that all of those lie in), and \<open>tick\<close> returns.\<close>

theorem delivery_over_sockets:
  assumes "udp_kernel K addr wire clock" "addr fda = Some ea" "addr fdb = Some eb" "ea \<noteq> eb"
    and "\<And>w w' x e d. env w w' \<Longrightarrow> x = ea \<or> x = eb \<Longrightarrow> (x, d) \<in> wire w' e \<Longrightarrow> (x, d) \<in> wire w e"
    and "\<And>e d. (ea, d) \<notin> wire w e" "\<And>e d. (eb, d) \<notin> wire w e" "config_ok ca" "config_ok cb"
    and "pair_reach UA UB (real_transport K \<lparr>sock_fd = fda\<rparr>) (real_transport K \<lparr>sock_fd = fdb\<rparr>) env (start_pair ea eb ca cb w) y"
  shows "prefix (of_class ReliableOrdered (app_log (rx_side (pb y)))) (of_class ReliableOrdered (acc_a y))
    \<and> mset (of_class ReliableUnordered (app_log (rx_side (pb y)))) \<subseteq># mset (of_class ReliableUnordered (acc_a y))
    \<and> {d. (Unreliable, d) \<in> set (app_log (rx_side (pb y)))} \<subseteq> UA
    \<and> (\<exists>s' w'. tick (real_transport K \<lparr>sock_fd = fda\<rparr>) (pa y) (net y) = Some (s', w'))"
proof -
  have p: "udp_pair K addr wire clock fda fdb ea eb env"
    using assms(1-3,5) by (simp add: udp_pair_def udp_pair_axioms_def udp_socket_def udp_socket_axioms_def)
  note run = udp_pair.run_guarantees [OF p assms(10,4,8,9,6,7)]
  have "rx_content (acc_a y) (rx_side (pb y))" "rx_inv (rx_side (pb y))" using run(1) by (simp_all add: sess_inv_def)
  then show ?thesis using ordered_prefix unordered_subset unreliable_sent [OF run(1)] run(2) by blast
qed

section \<open>A run over the kernel in memory\<close>

theorem delivery_over_sockets_witness:
  "\<exists>y. pair_reach UNIV UNIV (real_transport (host_kernel (sockets (host 1) (host 2))) \<lparr>sock_fd = 3\<rparr>)
        (real_transport (host_kernel (sockets (host 1) (host 2))) \<lparr>sock_fd = 4\<rparr>) host_env
        (start_pair (host 1) (host 2) default_config default_config \<lparr>inboxes = (\<lambda>_. []), uptime = 0\<rparr>) y
     \<and> acc_a y = [(ReliableOrdered, [42])]
     \<and> prefix (of_class ReliableOrdered (app_log (rx_side (pb y)))) [(ReliableOrdered, [42])]"
proof -
  let ?K = "host_kernel (sockets (host 1) (host 2))" and ?w = "\<lparr>inboxes = (\<lambda>_. []), uptime = 0\<rparr>"
  obtain y where y: "pair_reach UNIV UNIV (real_transport ?K \<lparr>sock_fd = 3\<rparr>) (real_transport ?K \<lparr>sock_fd = 4\<rparr>) host_env
      (start_pair (host 1) (host 2) default_config default_config ?w) y" "acc_a y = [(ReliableOrdered, [42])]"
    using first_send [of UNIV UNIV "real_transport ?K \<lparr>sock_fd = 3\<rparr>" "real_transport ?K \<lparr>sock_fd = 4\<rparr>" host_env "host 1" "host 2" ?w] by blast
  have n: "(x, d) \<notin> host_wire ?w e" for x d e by (simp add: host_wire_def)
  have e: "(x, d) \<in> host_wire w e" if "host_env w w'" "(x, d) \<in> host_wire w' e" for w w' x d e
    using that by (auto simp: host_env_def host_wire_def)
  from delivery_over_sockets [OF loopback.udp_kernel_axioms, of "sockets (host 1) (host 2)" 3 "host 1" 4 "host 2" host_env ?w,
      OF _ _ hosts_differ e n n default_config_ok default_config_ok y(1)] y
  show ?thesis by (intro exI [of _ y]) (simp add: of_class_def)
qed

end
