(* ===== verification/Event_Loop.thy ===== *)
theory Event_Loop
  imports Udp_Socket "HOL-Library.Monad_Syntax" "HOL-Library.Sublist"
begin

text \<open>
  The event loop of \<^verbatim>\<open>src/loop.cc\<close>. The calls of \<^verbatim>\<open>epoll\<close> and \<^verbatim>\<open>eventfd\<close> are the fields of the record \<open>Epoll\<close>, a parameter
  of the operations (a wait that blocks forever gives \<open>None\<close>); \<^verbatim>\<open>running_\<close> travels with the outside world, because a handler may call \<open>stop\<close>. A handler that registers
  further transports while the loop is dispatching is outside the model. The locale \<open>served_sockets\<close> states what the loop relies on
  (queues of datagrams behind the registered sockets, handlers that do not receive on their own), and proves what a tick does. Datagrams may
  arrive at any moment, a wait may be interrupted, and it may block.
\<close>

section \<open>Model\<close>

record 'w Epoll =
  ep_create :: "'w \<Rightarrow> int \<times> 'w"
  ep_eventfd :: "'w \<Rightarrow> int \<times> 'w"
  ep_add :: "int \<Rightarrow> int \<Rightarrow> 'w \<Rightarrow> int \<times> 'w"
  ep_wait :: "int \<Rightarrow> nat \<Rightarrow> int \<Rightarrow> 'w \<Rightarrow> (int \<times> int list \<times> 'w) option"
  ep_write :: "int \<Rightarrow> u64 \<Rightarrow> 'w \<Rightarrow> int \<times> 'w"
  ep_read :: "int \<Rightarrow> 'w \<Rightarrow> int \<times> 'w"
  ep_close :: "int \<Rightarrow> 'w \<Rightarrow> 'w"

text \<open>The state a handler acts on: \<^verbatim>\<open>running_\<close> and the world.\<close>

type_synonym 'w live = "bool \<times> 'w"

record 'w Registration =
  reg_fd :: int
  reg_transport :: "'w UdpTransport"
  reg_handler :: "Endpoint \<Rightarrow> bytes \<Rightarrow> 'w live \<Rightarrow> 'w live"

record 'w EventLoop =
  epfd :: int
  eventfd :: int
  regs :: "'w Registration list"

definition new_loop :: "'w Epoll \<Rightarrow> 'w \<Rightarrow> 'w EventLoop \<times> 'w live" where
  "new_loop P w =
     (let (ep, w) = ep_create P w;
          (ev, w) = ep_eventfd P w;
          w = (if 0 \<le> ep \<and> 0 \<le> ev then snd (ep_add P ep ev w) else w)
      in (\<lparr>epfd = ep, eventfd = ev, regs = []\<rparr>, False, w))"

definition close_loop :: "'w Epoll \<Rightarrow> 'w EventLoop \<Rightarrow> 'w \<Rightarrow> 'w" where
  "close_loop P l w =
     (let w = (if 0 \<le> eventfd l then ep_close P (eventfd l) w else w)
      in if 0 \<le> epfd l then ep_close P (epfd l) w else w)"

definition valid :: "'w EventLoop \<Rightarrow> bool" where
  "valid l \<longleftrightarrow> 0 \<le> epfd l \<and> 0 \<le> eventfd l"

text \<open>\<open>fd\<close> is the descriptor the transport reports.\<close>

definition add_transport ::
    "'w Epoll \<Rightarrow> 'w UdpTransport \<Rightarrow> int \<Rightarrow> (Endpoint \<Rightarrow> bytes \<Rightarrow> 'w live \<Rightarrow> 'w live) \<Rightarrow> 'w EventLoop \<Rightarrow> 'w \<Rightarrow> bool \<times> 'w EventLoop \<times> 'w" where
  "add_transport P T fd on_datagram_fn l w =
     (if epfd l < 0 \<or> fd < 0 then (False, l, w)
      else let (rc, w) = ep_add P (epfd l) fd w
           in if rc \<noteq> 0 then (False, l, w)
              else (True, l\<lparr>regs := regs l @ [\<lparr>reg_fd = fd, reg_transport = T, reg_handler = on_datagram_fn\<rparr>]\<rparr>, w))"

definition wake :: "'w Epoll \<Rightarrow> 'w EventLoop \<Rightarrow> 'w \<Rightarrow> 'w" where
  "wake P l w = (if eventfd l < 0 then w else snd (ep_write P (eventfd l) 1 w))"

definition stop :: "'w Epoll \<Rightarrow> 'w EventLoop \<Rightarrow> 'w live \<Rightarrow> 'w live" where
  "stop P l st = (False, wake P l (snd st))"

definition kMaxRecvPerTick :: nat where
  "kMaxRecvPerTick = 64"

text \<open>The inner loop, counting the receives that are left.\<close>

fun drain_reg :: "nat \<Rightarrow> 'w Registration \<Rightarrow> 'w live \<Rightarrow> 'w live" where
  "drain_reg 0 reg st = st"
| "drain_reg (Suc k) reg (running, w) =
     (case t_recv (reg_transport reg) kMaxDatagram w of
        (None, w) \<Rightarrow> (running, w)
      | (Some (d, src), w) \<Rightarrow> drain_reg k reg (reg_handler reg src d (running, w)))"

definition serve_reg :: "int \<Rightarrow> 'w Registration \<Rightarrow> 'w live \<Rightarrow> 'w live" where
  "serve_reg fd reg st = (if reg_fd reg \<noteq> fd then st else drain_reg kMaxRecvPerTick reg st)"

definition serve_event :: "'w Epoll \<Rightarrow> 'w EventLoop \<Rightarrow> int \<Rightarrow> 'w live \<Rightarrow> 'w live" where
  "serve_event P l fd st =
     (if fd = eventfd l then (fst st, snd (ep_read P (eventfd l) (snd st)))
      else fold (serve_reg fd) (regs l) st)"

definition run_once :: "'w Epoll \<Rightarrow> 'w EventLoop \<Rightarrow> int \<Rightarrow> 'w live \<Rightarrow> 'w live option" where
  "run_once P l timeout_ms st =
     (case ep_wait P (epfd l) 16 timeout_ms (snd st) of
        None \<Rightarrow> None
      | Some (n, evs, w) \<Rightarrow>
          if n < 0 then Some (fst st, w)
          else Some (fold (serve_event P l) (take (nat n) evs) (fst st, w)))"

partial_function (option) run_loop :: "'w Epoll \<Rightarrow> 'w EventLoop \<Rightarrow> 'w live \<Rightarrow> 'w live option" where
  "run_loop E l st = (if fst st then run_once E l (-1) st \<bind> run_loop E l else Some st)"

definition run :: "'w Epoll \<Rightarrow> 'w EventLoop \<Rightarrow> 'w live \<Rightarrow> 'w live option" where
  "run P l st = run_loop P l (True, snd st)"

section \<open>Ticks\<close>

text \<open>Several ticks in a row, and how many of their waits were not interrupted.\<close>

fun loop_ticks :: "'w Epoll \<Rightarrow> 'w EventLoop \<Rightarrow> int \<Rightarrow> nat \<Rightarrow> 'w live \<Rightarrow> 'w live option" where
  "loop_ticks P l t 0 st = Some st"
| "loop_ticks P l t (Suc k) st = run_once P l t st \<bind> loop_ticks P l t k"

definition wait_succeeds :: "'w Epoll \<Rightarrow> 'w EventLoop \<Rightarrow> int \<Rightarrow> 'w live \<Rightarrow> bool" where
  "wait_succeeds P l t st = (case ep_wait P (epfd l) 16 t (snd st) of None \<Rightarrow> False | Some (n, evs, w) \<Rightarrow> 0 \<le> n)"

fun good_waits :: "'w Epoll \<Rightarrow> 'w EventLoop \<Rightarrow> int \<Rightarrow> nat \<Rightarrow> 'w live \<Rightarrow> nat" where
  "good_waits P l t 0 st = 0"
| "good_waits P l t (Suc k) st =
     (if wait_succeeds P l t st then 1 else 0) + (case run_once P l t st of None \<Rightarrow> 0 | Some st \<Rightarrow> good_waits P l t k st)"

text \<open>The loop runs until the first tick that ends with \<^verbatim>\<open>running_\<close> cleared, and then returns.\<close>

lemma run_loop_ticks:
  assumes "loop_ticks P l (-1) k st = Some r" "\<not> fst r" "\<And>i. i < k \<Longrightarrow> \<exists>s. loop_ticks P l (-1) i st = Some s \<and> fst s"
  shows "run_loop P l st = Some r"
  using assms
proof (induction k arbitrary: st)
  case 0
  then show ?case by (subst run_loop.simps) simp
next
  case (Suc k)
  obtain s1 where s1: "run_once P l (-1) st = Some s1" "loop_ticks P l (-1) k s1 = Some r"
    using Suc.prems(1) by (auto simp: bind_eq_Some_conv)
  have "fst st" using Suc.prems(3) [of 0] by simp
  moreover have "\<exists>s. loop_ticks P l (-1) i s1 = Some s \<and> fst s" if "i < k" for i
    using Suc.prems(3) [of "Suc i"] that s1(1) by simp
  ultimately show ?case using Suc.IH [OF s1(2) Suc.prems(2)] s1(1) by (simp add: run_loop.simps [of P l st])
qed

lemma run_loop_returns:
  assumes "run_loop E l st = Some r"
  shows "\<not> fst r \<and> (\<exists>k. loop_ticks E l (-1) k st = Some r)"
proof (rule run_loop.raw_induct [where P = "\<lambda>E l st r. \<not> fst r \<and> (\<exists>k. loop_ticks E l (-1) k st = Some r)", OF _ assms])
  fix rl and E :: "'a Epoll" and l st r
  assume ih: "\<And>E l st r. rl E l st = Some r \<Longrightarrow> \<not> fst r \<and> (\<exists>k. loop_ticks E l (-1) k st = Some r)"
    and r: "(if fst st then run_once E l (-1) st \<bind> rl E l else Some st) = Some r"
  show "\<not> fst r \<and> (\<exists>k. loop_ticks E l (-1) k st = Some r)"
  proof (cases "fst st")
    case True
    then obtain s1 where s1: "run_once E l (-1) st = Some s1" "rl E l s1 = Some r" using r by (auto simp: bind_eq_Some_conv)
    from ih [OF s1(2)] obtain k where "\<not> fst r" "loop_ticks E l (-1) k s1 = Some r" by blast
    then show ?thesis using s1(1) by (intro conjI exI [of _ "Suc k"]) simp_all
  next
    case False
    then show ?thesis using r by (intro conjI exI [of _ 0]) auto
  qed
qed

text \<open>Without a handler that calls \<open>stop\<close>, a tick leaves \<^verbatim>\<open>running_\<close> alone.\<close>

lemma drain_reg_running:
  assumes "\<And>src d st. fst (reg_handler reg src d st) = fst st"
  shows "fst (drain_reg k reg st) = fst st"
  using assms by (induction k reg st rule: drain_reg.induct) (auto split: prod.split option.split)

lemma fold_running: "(\<And>x st. x \<in> set xs \<Longrightarrow> fst (g x st) = fst st) \<Longrightarrow> fst (fold g xs st) = fst st"
  by (induction xs arbitrary: st) auto

lemma run_once_running:
  assumes "\<forall>reg\<in>set (regs l). \<forall>src d st. fst (reg_handler reg src d st) = fst st" "run_once P l t st = Some st'"
  shows "fst st' = fst st"
proof -
  have ev: "fst (serve_event P l fd st) = fst st" for fd st
  proof -
    have "fst (serve_reg fd reg x) = fst x" if "reg \<in> set (regs l)" for reg x
      using drain_reg_running [of reg kMaxRecvPerTick x] assms(1) that by (simp add: serve_reg_def)
    then show ?thesis by (simp add: serve_event_def fold_running)
  qed
  have "fst (fold (serve_event P l) evs x) = fst x" for evs x by (rule fold_running) (rule ev)
  then show ?thesis using assms(2) by (auto simp: run_once_def split: option.splits if_splits)
qed

text \<open>A loop whose handlers never call \<open>stop\<close> runs forever.\<close>

lemma run_forever:
  assumes "\<forall>reg\<in>set (regs l). \<forall>src d st. fst (reg_handler reg src d st) = fst st"
  shows "run P l st = None"
proof (cases "run P l st")
  case (Some r)
  have keep: "loop_ticks P l (-1) k x = Some y \<Longrightarrow> fst y = fst x" for k x y
    by (induction k arbitrary: x) (auto simp: bind_eq_Some_conv dest: run_once_running [OF assms])
  from Some obtain k where "\<not> fst r" "loop_ticks P l (-1) k (True, snd st) = Some r"
    using run_loop_returns [of P l "(True, snd st)" r] by (auto simp: run_def)
  then show ?thesis using keep by fastforce
qed

section \<open>What a tick does to the sockets\<close>

text \<open>
  \<open>q fd w\<close> is the queue behind socket \<open>fd\<close>, \<open>seen fd w\<close> what the handler of \<open>fd\<close> has been given. A receive takes the first datagram of
  its queue (cut to the buffer) and touches nothing else; a handler takes note of its datagram.
\<close>

abbreviation cut :: "Endpoint \<times> bytes \<Rightarrow> Endpoint \<times> bytes" where
  "cut x \<equiv> (fst x, take kMaxDatagram (snd x))"

text \<open>
  What happens to one socket from \<open>w\<close> to \<open>w'\<close>: datagrams \<open>ys\<close> arrive behind its queue, and the first \<open>j\<close> of the queue so extended are handed
  over, in order; all that were queued, or at least \<open>a\<close> of them, and never more than \<open>b\<close>.
\<close>

definition moved ::
    "(int \<Rightarrow> 'w \<Rightarrow> (Endpoint \<times> bytes) list) \<Rightarrow> (int \<Rightarrow> 'w \<Rightarrow> (Endpoint \<times> bytes) list) \<Rightarrow> int \<Rightarrow> nat \<Rightarrow> nat \<Rightarrow> 'w \<Rightarrow> 'w \<Rightarrow> bool" where
  "moved q seen fd a b w w' \<longleftrightarrow>
     (\<exists>ys j. q fd w' = drop j (q fd w @ ys) \<and> seen fd w' = seen fd w @ map cut (take j (q fd w @ ys))
        \<and> j \<le> length (q fd w @ ys) \<and> min a (length (q fd w)) \<le> j \<and> j \<le> b)"

lemma moved_trans:
  assumes "moved q seen fd a b w w'" "moved q seen fd a' b' w' w''"
  shows "moved q seen fd (a + a') (b + b') w w''"
proof -
  obtain ys j where 1: "q fd w' = drop j (q fd w @ ys)" "seen fd w' = seen fd w @ map cut (take j (q fd w @ ys))"
    "j \<le> length (q fd w @ ys)" "min a (length (q fd w)) \<le> j" "j \<le> b" using assms(1) unfolding moved_def by blast
  obtain zs k where 2: "q fd w'' = drop k (q fd w' @ zs)" "seen fd w'' = seen fd w' @ map cut (take k (q fd w' @ zs))"
    "k \<le> length (q fd w' @ zs)" "min a' (length (q fd w')) \<le> k" "k \<le> b'" using assms(2) unfolding moved_def by blast
  let ?x = "q fd w @ ys @ zs"
  have d: "drop j ?x = q fd w' @ zs" and t: "take j ?x = take j (q fd w @ ys)" using 1(1,3) by auto
  have "drop (j + k) ?x = drop k (drop j ?x)" by (simp only: drop_drop add.commute)
  then have "q fd w'' = drop (j + k) ?x" unfolding d using 2(1) by (simp only:)
  moreover have "seen fd w'' = seen fd w @ map cut (take (j + k) ?x)" unfolding take_add d t using 1(2) 2(2) by simp
  moreover have len: "length (q fd w') = length (q fd w) + length ys - j" using 1(1) by simp
  moreover have "j + k \<le> length ?x" using 1(3) 2(3) len by simp
  moreover have "min (a + a') (length (q fd w)) \<le> j + k" using 1(3,4) 2(4) len unfolding min_def by (auto split: if_splits)
  moreover have "j + k \<le> b + b'" using 1(5) 2(5) by simp
  ultimately show ?thesis unfolding moved_def by blast
qed

lemma moved_arrivals: "moved q seen fd 0 0 w w' \<longleftrightarrow> prefix (q fd w) (q fd w') \<and> seen fd w' = seen fd w"
  by (auto simp: moved_def prefix_def)

lemma moved_refl: "moved q seen fd 0 0 w w"
  by (simp add: moved_arrivals)

lemma moved_weaken: "moved q seen fd a b w w' \<Longrightarrow> a' \<le> a \<Longrightarrow> b \<le> b' \<Longrightarrow> moved q seen fd a' b' w w'"
  unfolding moved_def by (meson le_trans min.mono order_refl)

lemma moved_empty: "moved q seen fd 0 0 w w' \<Longrightarrow> q fd w = [] \<Longrightarrow> moved q seen fd a b w w'"
  by (auto simp: moved_def intro!: exI [of _ "q fd w'"] exI [of _ 0])

locale served_sockets =
  fixes rs :: "'w Registration list"
    and q :: "int \<Rightarrow> 'w \<Rightarrow> (Endpoint \<times> bytes) list"
    and seen :: "int \<Rightarrow> 'w \<Rightarrow> (Endpoint \<times> bytes) list"
  assumes distinct_fds: "distinct (map reg_fd rs)"
    and recv_empty: "reg \<in> set rs \<Longrightarrow> q (reg_fd reg) w = [] \<Longrightarrow>
      \<exists>w'. t_recv (reg_transport reg) cap w = (None, w') \<and> (\<forall>fd. prefix (q fd w) (q fd w') \<and> seen fd w' = seen fd w)"
    and recv_first: "reg \<in> set rs \<Longrightarrow> q (reg_fd reg) w = (src, d) # ds \<Longrightarrow>
      \<exists>w'. t_recv (reg_transport reg) cap w = (Some (take cap d, src), w')
        \<and> (\<forall>fd. prefix (if fd = reg_fd reg then ds else q fd w) (q fd w') \<and> seen fd w' = seen fd w)"
    and handler_notes: "reg \<in> set rs \<Longrightarrow> reg_handler reg src d (running, w) = (running', w') \<Longrightarrow>
      prefix (q fd w) (q fd w') \<and> seen fd w' = (if fd = reg_fd reg then seen fd w @ [(src, d)] else seen fd w)"
begin

abbreviation moves where "moves \<equiv> moved q seen"

lemma recv_handle_moves:
  assumes "reg \<in> set rs" "t_recv (reg_transport reg) kMaxDatagram w = (Some (d, src), w1)" "reg_handler reg src d (running, w1) = (r, w2)"
  shows "moves fd (if fd = reg_fd reg then 1 else 0) (if fd = reg_fd reg then 1 else 0) w w2"
proof -
  have "q (reg_fd reg) w \<noteq> []" using recv_empty [OF assms(1), of w kMaxDatagram] assms(2) by auto
  then obtain x ds where "q (reg_fd reg) w = x # ds" by (cases "q (reg_fd reg) w") auto
  moreover obtain s b where "x = (s, b)" by fastforce
  ultimately have Q: "q (reg_fd reg) w = (s, b) # ds" by simp
  have x: "d = take kMaxDatagram b" "src = s" and
    w1: "prefix (if fd = reg_fd reg then ds else q fd w) (q fd w1)" "seen fd w1 = seen fd w"
    using recv_first [OF assms(1) Q, of kMaxDatagram] assms(2) by auto
  note h = handler_notes [OF assms(1,3), of fd]
  have p: "prefix (if fd = reg_fd reg then ds else q fd w) (q fd w2)" using w1(1) h by (blast intro: prefix_order.trans)
  show ?thesis
  proof (cases "fd = reg_fd reg")
    case True
    then obtain ys where "q fd w2 = ds @ ys" using p by (auto simp: prefix_def)
    then have "q fd w2 = drop 1 (q fd w @ ys) \<and> seen fd w2 = seen fd w @ map cut (take 1 (q fd w @ ys))"
      using True Q x h w1(2) by simp
    then show ?thesis using True Q unfolding moved_def by (intro exI [of _ ys] exI [of _ 1]) simp
  next
    case False
    then show ?thesis using p w1(2) h by (simp add: moved_arrivals)
  qed
qed

lemma drain_reg_moves:
  assumes "reg \<in> set rs"
  shows "moves fd (if fd = reg_fd reg then k else 0) (if fd = reg_fd reg then k else 0) (snd st) (snd (drain_reg k reg st))"
proof (induction k arbitrary: st)
  case 0
  then show ?case by (simp add: moved_refl)
next
  case (Suc k)
  obtain running w where st: "st = (running, w)" by fastforce
  obtain x w1 where x: "t_recv (reg_transport reg) kMaxDatagram w = (x, w1)" by fastforce
  show ?case
  proof (cases x)
    case None
    have e: "q (reg_fd reg) w = []"
    proof (rule ccontr)
      assume "q (reg_fd reg) w \<noteq> []"
      then obtain y ds where "q (reg_fd reg) w = y # ds" by (cases "q (reg_fd reg) w") auto
      then show False using recv_first [OF assms, of w "fst y" "snd y" ds kMaxDatagram] x None by simp
    qed
    then have "moves fd 0 0 w w1" using recv_empty [OF assms e, of kMaxDatagram] x by (simp add: moved_arrivals)
    then show ?thesis using st x None e by (auto intro: moved_empty)
  next
    case (Some y)
    obtain d src where y: "y = (d, src)" by fastforce
    obtain r2 w2 where h: "reg_handler reg src d (running, w1) = (r2, w2)" by fastforce
    have "drain_reg (Suc k) reg st = drain_reg k reg (r2, w2)" using st x Some y h by simp
    moreover have "moves fd (if fd = reg_fd reg then 1 else 0) (if fd = reg_fd reg then 1 else 0) w w2"
      using recv_handle_moves [OF assms] x Some y h by blast
    moreover note moved_trans [OF this Suc.IH [of "(r2, w2)", unfolded snd_conv]]
    ultimately show ?thesis using st by (cases "fd = reg_fd reg") (simp_all del: drain_reg.simps)
  qed
qed

lemma fold_serve_other:
  assumes "set xs \<subseteq> set rs" "fd' \<notin> reg_fd ` set xs"
  shows "fold (serve_reg fd') xs st = st"
  using assms by (induction xs arbitrary: st) (auto simp: serve_reg_def)

lemma fold_serve_moves:
  assumes "set xs \<subseteq> set rs" "distinct (map reg_fd xs)"
  shows "moves fd (if fd = fd' \<and> fd \<in> reg_fd ` set xs then kMaxRecvPerTick else 0) (if fd = fd' \<and> fd \<in> reg_fd ` set xs then kMaxRecvPerTick else 0)
    (snd st) (snd (fold (serve_reg fd') xs st))"
  using assms
proof (induction xs arbitrary: st)
  case Nil
  then show ?case by (simp add: moved_refl)
next
  case (Cons reg xs)
  show ?case
  proof (cases "reg_fd reg = fd'")
    case True
    then have "fold (serve_reg fd') (reg # xs) st = drain_reg kMaxRecvPerTick reg st"
      using fold_serve_other [of xs fd'] Cons.prems by (simp add: serve_reg_def)
    moreover have "fd = fd' \<and> fd \<in> reg_fd ` set (reg # xs) \<longleftrightarrow> fd = reg_fd reg" using True by auto
    ultimately show ?thesis using drain_reg_moves [of reg fd kMaxRecvPerTick st] Cons.prems(1) by simp
  next
    case False
    then have "fold (serve_reg fd') (reg # xs) st = fold (serve_reg fd') xs st" by (simp add: serve_reg_def)
    moreover have "fd = fd' \<and> fd \<in> reg_fd ` set (reg # xs) \<longleftrightarrow> fd = fd' \<and> fd \<in> reg_fd ` set xs" using False by auto
    ultimately show ?thesis using Cons.IH [of st] Cons.prems by simp
  qed
qed

end

text \<open>
  A level-triggered \<^verbatim>\<open>epoll\<close> instance over these sockets, as documented. Waiting may block, may be interrupted (a negative result), and
  datagrams may arrive meanwhile; a wait that returns without an error reports no descriptor twice, and every registered socket that
  had something in its queue when it was called (at most 15 are registered beside the eventfd, and 16 events fit).
\<close>

locale level_triggered = served_sockets "regs l" q seen
  for l :: "'w EventLoop" and q seen +
  fixes P :: "'w Epoll"
  assumes fits: "length (regs l) < 16"
    and eventfd_apart: "eventfd l \<notin> reg_fd ` set (regs l)"
    and read_keeps: "ep_read P (eventfd l) w = (n, w') \<Longrightarrow> prefix (q fd w) (q fd w') \<and> seen fd w' = seen fd w"
    and wait_keeps: "ep_wait P (epfd l) 16 t w = Some (n, evs, w') \<Longrightarrow> prefix (q fd w) (q fd w') \<and> seen fd w' = seen fd w"
    and wait_reports: "ep_wait P (epfd l) 16 t w = Some (n, evs, w') \<Longrightarrow> 0 \<le> n \<Longrightarrow>
      distinct (take (nat n) evs) \<and> {fd \<in> reg_fd ` set (regs l). q fd w \<noteq> []} \<subseteq> set (take (nat n) evs)"
begin

lemma serve_event_moves:
  "moves fd (if fd = fd' \<and> fd \<in> reg_fd ` set (regs l) then kMaxRecvPerTick else 0)
     (if fd = fd' \<and> fd \<in> reg_fd ` set (regs l) then kMaxRecvPerTick else 0) (snd st) (snd (serve_event P l fd' st))"
proof (cases "fd' = eventfd l")
  case True
  obtain n w' where "ep_read P (eventfd l) (snd st) = (n, w')" by fastforce
  then show ?thesis using True eventfd_apart read_keeps [of "snd st" n w' fd] by (auto simp: serve_event_def moved_arrivals)
next
  case False
  then show ?thesis using fold_serve_moves [OF subset_refl distinct_fds, of fd fd' st] by (simp add: serve_event_def)
qed

lemma fold_events_moves:
  assumes "distinct evs"
  shows "moves fd (if fd \<in> set evs \<inter> reg_fd ` set (regs l) then kMaxRecvPerTick else 0)
     (if fd \<in> set evs \<inter> reg_fd ` set (regs l) then kMaxRecvPerTick else 0) (snd st) (snd (fold (serve_event P l) evs st))"
  using assms
proof (induction evs arbitrary: st)
  case Nil
  then show ?case by (simp add: moved_refl)
next
  case (Cons e evs)
  show ?case
    using moved_trans [OF serve_event_moves [of fd e st] Cons.IH [of "serve_event P l e st"]] Cons.prems by (auto split: if_splits)
qed

lemma run_once_moves:
  assumes "fd \<in> reg_fd ` set (regs l)" "run_once P l t st = Some st'"
  shows "moves fd (if wait_succeeds P l t st then kMaxRecvPerTick else 0) (if wait_succeeds P l t st then kMaxRecvPerTick else 0) (snd st) (snd st')"
proof -
  obtain n evs w where e: "ep_wait P (epfd l) 16 t (snd st) = Some (n, evs, w)"
    using assms(2) by (auto simp: run_once_def split: option.splits)
  have k: "moves fd 0 0 (snd st) w" using wait_keeps [OF e] by (simp add: moved_arrivals)
  show ?thesis
  proof (cases "n < 0")
    case True
    then show ?thesis using assms(2) e k by (auto simp: run_once_def wait_succeeds_def)
  next
    case False
    then have r: "st' = fold (serve_event P l) (take (nat n) evs) (fst st, w)" "wait_succeeds P l t st"
      using assms(2) e by (simp_all add: run_once_def wait_succeeds_def)
    have d: "distinct (take (nat n) evs)" "q fd (snd st) \<noteq> [] \<Longrightarrow> fd \<in> set (take (nat n) evs)"
      using wait_reports [OF e] False assms(1) by auto
    note f = moved_trans [OF k fold_events_moves [OF d(1), of fd "(fst st, w)", unfolded snd_conv, folded r(1)]]
    show ?thesis
    proof (cases "fd \<in> set (take (nat n) evs)")
      case True
      then show ?thesis using f assms(1) r(2) by simp
    next
      case no: False
      then show ?thesis using f d(2) by (auto intro: moved_empty)
    qed
  qed
qed

lemma ticks_move:
  assumes "fd \<in> reg_fd ` set (regs l)" "loop_ticks P l t k st = Some st'"
  shows "moves fd (kMaxRecvPerTick * good_waits P l t k st) (kMaxRecvPerTick * good_waits P l t k st) (snd st) (snd st')"
  using assms(2)
proof (induction k arbitrary: st)
  case 0
  then show ?case by (simp add: moved_refl)
next
  case (Suc k)
  obtain s1 where s1: "run_once P l t st = Some s1" "loop_ticks P l t k s1 = Some st'"
    using Suc.prems by (auto simp: bind_eq_Some_conv)
  show ?case using moved_trans [OF run_once_moves [OF assms(1) s1(1)] Suc.IH [OF s1(2)]] s1(1)
    by (cases "wait_succeeds P l t st") (simp_all add: add.commute)
qed

end

section \<open>The loop over sockets of the kernel in memory\<close>

text \<open>The program of the example keeps the datagrams of each socket in a list.\<close>

record Desk = Host +
  jotted :: "int \<Rightarrow> (Endpoint \<times> bytes) list"

definition desk_reg :: "(int \<Rightarrow> Endpoint option) \<Rightarrow> int \<Rightarrow> Desk Registration" where
  "desk_reg addr fd = \<lparr>reg_fd = fd, reg_transport = real_transport (host_kernel addr) \<lparr>sock_fd = fd\<rparr>,
     reg_handler = (\<lambda>src d (running, w). (running, w\<lparr>jotted := (jotted w)(fd := jotted w fd @ [(src, d)])\<rparr>))\<rparr>"

definition desk_queue :: "(int \<Rightarrow> Endpoint option) \<Rightarrow> int \<Rightarrow> Desk \<Rightarrow> (Endpoint \<times> bytes) list" where
  "desk_queue addr fd w = (case addr fd of None \<Rightarrow> [] | Some e \<Rightarrow> inboxes w e)"

definition desk_epoll :: "(int \<Rightarrow> Endpoint option) \<Rightarrow> int list \<Rightarrow> Desk Epoll" where
  "desk_epoll addr fds =
     \<lparr>ep_create = Pair 5, ep_eventfd = Pair 6, ep_add = (\<lambda>_ _. Pair 0),
      ep_wait = (\<lambda>_ k t w. let ready = filter (\<lambda>fd. desk_queue addr fd w \<noteq> []) fds
        in if ready = [] \<and> t < 0 then None else Some (int (length ready), ready, w)),
      ep_write = (\<lambda>_ _. Pair 8), ep_read = (\<lambda>_. Pair 8), ep_close = (\<lambda>_ w. w)\<rparr>"

definition desk_loop :: "Desk EventLoop" where
  "desk_loop = \<lparr>epfd = 5, eventfd = 6, regs = map (desk_reg (sockets (host 1) (host 2))) [3, 4]\<rparr>"

lemma desk_recv:
  assumes "addr fd = Some e" "0 \<le> fd"
  shows "t_recv (real_transport (host_kernel addr) \<lparr>sock_fd = fd\<rparr>) cap w =
    (case inboxes w e of [] \<Rightarrow> (None, w) | (src, d) # ds \<Rightarrow> (Some (take cap d, src), w\<lparr>inboxes := (inboxes w)(e := ds)\<rparr>))"
  using assms by (auto simp: udp_recv_def host_kernel_def host_recv_def min_def split: list.splits)

lemma desk_serves: "served_sockets (map (desk_reg (sockets (host 1) (host 2))) [3, 4]) (desk_queue (sockets (host 1) (host 2))) (\<lambda>fd w. jotted w fd)"
proof
  show "distinct (map reg_fd (map (desk_reg (sockets (host 1) (host 2))) [3, 4]))" by (simp add: desk_reg_def)
  fix reg fd cap src d ds running running' and w w' :: Desk
  assume r: "reg \<in> set (map (desk_reg (sockets (host 1) (host 2))) [3, 4])"
  then obtain f e where f: "reg = desk_reg (sockets (host 1) (host 2)) f" "f = 3 \<and> e = host 1 \<or> f = 4 \<and> e = host 2" by auto
  have t: "t_recv (reg_transport reg) cap w = (case inboxes w e of [] \<Rightarrow> (None, w)
      | (src, d) # ds \<Rightarrow> (Some (take cap d, src), w\<lparr>inboxes := (inboxes w)(e := ds)\<rparr>))" for cap w
    using f desk_recv [of "sockets (host 1) (host 2)" f e cap w] by (auto simp: desk_reg_def)
  have qe: "desk_queue (sockets (host 1) (host 2)) (reg_fd reg) w = inboxes w e" for w
    using f by (auto simp: desk_queue_def desk_reg_def)
  show "\<exists>w'. t_recv (reg_transport reg) cap w = (None, w')
      \<and> (\<forall>fd. prefix (desk_queue (sockets (host 1) (host 2)) fd w) (desk_queue (sockets (host 1) (host 2)) fd w') \<and> jotted w' fd = jotted w fd)"
    if "desk_queue (sockets (host 1) (host 2)) (reg_fd reg) w = []"
    using that t [of cap w] qe by simp
  show "\<exists>w'. t_recv (reg_transport reg) cap w = (Some (take cap d, src), w')
      \<and> (\<forall>fd. prefix (if fd = reg_fd reg then ds else desk_queue (sockets (host 1) (host 2)) fd w)
            (desk_queue (sockets (host 1) (host 2)) fd w') \<and> jotted w' fd = jotted w fd)"
    if "desk_queue (sockets (host 1) (host 2)) (reg_fd reg) w = (src, d) # ds"
    using that t [of cap w] qe f by (auto simp: desk_queue_def desk_reg_def)
  show "prefix (desk_queue (sockets (host 1) (host 2)) fd w) (desk_queue (sockets (host 1) (host 2)) fd w')
      \<and> jotted w' fd = (if fd = reg_fd reg then jotted w fd @ [(src, d)] else jotted w fd)"
    if "reg_handler reg src d (running, w) = (running', w')"
    using that f by (auto simp: desk_queue_def desk_reg_def split: option.splits)
qed

interpretation desk: level_triggered desk_loop "desk_queue (sockets (host 1) (host 2))" "\<lambda>fd w. jotted w fd"
  "desk_epoll (sockets (host 1) (host 2)) [3, 4]"
  using desk_serves
  by (auto simp: level_triggered_def level_triggered_axioms_def desk_loop_def desk_epoll_def desk_reg_def Let_def simp del: upt_Suc)

section \<open>Properties\<close>

text \<open>C26: The bounded drain starves nobody and loses nothing. Over sockets with queues and a level-triggered \<^verbatim>\<open>epoll\<close>, with waits that may be
  interrupted and datagrams that may arrive at any moment, some ticks of the loop hand to the handler of every registered socket an initial
  part of its queue and of what arrived behind it, in order and cut to the buffer, and leave exactly the rest queued. With \<open>k\<close> of the waits
  not interrupted that part has at least the first \<open>64 * k\<close> datagrams that were queued, or all of them, however busy the other sockets
  are, and at most \<open>64 * k\<close> datagrams; so a queue of \<open>n\<close> datagrams is served completely once \<open>n div 64 + 1\<close> waits have succeeded. And \<open>run\<close>
  returns after the first tick that ends with \<^verbatim>\<open>running_\<close> cleared.\<close>

theorem loop_serves_every_socket:
  assumes "level_triggered l q seen P" "reg \<in> set (regs l)" "loop_ticks P l t k st = Some st'"
  shows "(\<exists>new j. q (reg_fd reg) (snd st') = drop j (q (reg_fd reg) (snd st) @ new)
        \<and> seen (reg_fd reg) (snd st') = seen (reg_fd reg) (snd st) @ map cut (take j (q (reg_fd reg) (snd st) @ new))
        \<and> min (64 * good_waits P l t k st) (length (q (reg_fd reg) (snd st))) \<le> j
        \<and> j \<le> min (64 * good_waits P l t k st) (length (q (reg_fd reg) (snd st) @ new)))
    \<and> (length (q (reg_fd reg) (snd st)) div 64 < good_waits P l t k st \<longrightarrow>
         prefix (seen (reg_fd reg) (snd st) @ map cut (q (reg_fd reg) (snd st))) (seen (reg_fd reg) (snd st')))
    \<and> (t = -1 \<and> fst st \<and> \<not> fst st' \<and> (\<forall>i<k. \<exists>s. loop_ticks P l t i st = Some s \<and> fst s) \<longrightarrow> run P l (r, snd st) = Some st')"
proof -
  let ?fd = "reg_fd reg" and ?g = "good_waits P l t k st"
  have "?fd \<in> reg_fd ` set (regs l)" using assms(2) by blast
  from level_triggered.ticks_move [OF assms(1) this assms(3)] obtain new j where
    j: "q ?fd (snd st') = drop j (q ?fd (snd st) @ new)" "seen ?fd (snd st') = seen ?fd (snd st) @ map cut (take j (q ?fd (snd st) @ new))"
      "j \<le> length (q ?fd (snd st) @ new)" "min (64 * ?g) (length (q ?fd (snd st))) \<le> j" "j \<le> 64 * ?g"
    unfolding moved_def kMaxRecvPerTick_def by blast
  have all: "prefix (seen ?fd (snd st) @ map cut (q ?fd (snd st))) (seen ?fd (snd st'))" if "length (q ?fd (snd st)) div 64 < ?g"
  proof -
    have "length (q ?fd (snd st)) \<le> j" using that j(4) by (simp split: split_min)
    then have "take j (q ?fd (snd st) @ new) = q ?fd (snd st) @ take (j - length (q ?fd (snd st))) new" by simp
    then show ?thesis using j(2) by (simp add: prefix_def)
  qed
  have "run P l (r, snd st) = Some st'"
    if "t = -1" "fst st" "\<not> fst st'" "\<forall>i<k. \<exists>s. loop_ticks P l t i st = Some s \<and> fst s"
  proof -
    have "(True, snd st) = st" using that(2) by (cases st) simp
    then show ?thesis using run_loop_ticks [of P l k st st'] that assms(3) by (simp add: run_def)
  qed
  with all j show ?thesis by (intro conjI exI [of _ new] exI [of _ j]) auto
qed

theorem loop_serves_every_socket_witness:
  "let ds = replicate 65 (host 2, [42]);
       w = \<lparr>inboxes = (\<lambda>e. if e = host 1 then ds else []), uptime = 0, jotted = (\<lambda>_. [])\<rparr>;
       P = desk_epoll (sockets (host 1) (host 2)) [3, 4]
   in level_triggered desk_loop (desk_queue (sockets (host 1) (host 2))) (\<lambda>fd w. jotted w fd) P
      \<and> desk_reg (sockets (host 1) (host 2)) 3 \<in> set (regs desk_loop)
      \<and> (\<exists>st. loop_ticks P desk_loop 0 2 (True, w) = Some st \<and> prefix ds (jotted (snd st) 3))"
proof -
  let ?P = "desk_epoll (sockets (host 1) (host 2)) [3, 4]" and ?Q = "desk_queue (sockets (host 1) (host 2))"
  let ?w = "\<lparr>inboxes = (\<lambda>e. if e = host 1 then replicate 65 (host 2, [42]) else []), uptime = 0, jotted = (\<lambda>_. [])\<rparr>"
  have r: "desk_reg (sockets (host 1) (host 2)) 3 \<in> set (regs desk_loop)" by (simp add: desk_loop_def)
  have f: "reg_fd (desk_reg (sockets (host 1) (host 2)) 3) = 3" by (simp add: desk_reg_def)
  have wait: "wait_succeeds ?P desk_loop 0 st" "\<exists>st'. run_once ?P desk_loop 0 st = Some st'" for st
    by (simp_all add: wait_succeeds_def run_once_def desk_epoll_def Let_def)
  obtain s1 s2 where s: "run_once ?P desk_loop 0 (True, ?w) = Some s1" "run_once ?P desk_loop 0 s1 = Some s2" using wait(2) by metis
  have t: "loop_ticks ?P desk_loop 0 2 (True, ?w) = Some s2" "good_waits ?P desk_loop 0 2 (True, ?w) = 2"
    using s wait(1) by (simp_all add: numeral_2_eq_2)
  have "?Q 3 ?w = replicate 65 (host 2, [42])" by (simp add: desk_queue_def)
  then have "prefix (replicate 65 (host 2, [42])) (jotted (snd s2) 3)"
    using loop_serves_every_socket [OF desk.level_triggered_axioms r t(1)] by (simp add: f t(2) kMaxDatagram_def)
  then show ?thesis using desk.level_triggered_axioms r t(1) unfolding Let_def by blast
qed

text \<open>C38: A \<open>stop\<close> that comes before \<open>run\<close> is lost: \<open>run\<close> sets \<^verbatim>\<open>running_\<close> again, so on a loop whose handlers never call \<open>stop\<close> it does not
  return, whatever the pending wake-up and the network do.\<close>

theorem stop_before_run_is_lost:
  assumes "\<forall>reg\<in>set (regs l). \<forall>src d st. fst (reg_handler reg src d st) = fst st"
  shows "run P l (stop P l st) = None"
  by (rule run_forever [OF assms])

theorem stop_before_run_is_lost_witness:
  "let P = desk_epoll (sockets (host 1) (host 2)) [3, 4]; w = \<lparr>inboxes = (\<lambda>_. []), uptime = 0, jotted = (\<lambda>_. [])\<rparr>
   in fst (stop P desk_loop (False, w)) = False \<and> run P desk_loop (stop P desk_loop (False, w)) = None"
proof -
  have "\<forall>reg\<in>set (regs desk_loop). \<forall>src d st. fst (reg_handler reg src d st) = fst st"
    by (auto simp: desk_loop_def desk_reg_def split: prod.split)
  then show ?thesis unfolding Let_def by (intro conjI stop_before_run_is_lost) (simp_all add: stop_def)
qed

end
