(* ===== verification/Sha256.thy ===== *)
theory Sha256
  imports Taut_Prelude "HOL-Library.Monad_Syntax"
begin

text \<open>
  The digest of the file-transfer programs, \<^verbatim>\<open>demo/sha256.h\<close>: a streaming SHA-256 over a 64-byte buffer. The model follows
  the class member by member; its loops, which end only because the buffer never stays full, are partial functions whose result
  \<open>None\<close> is not returning. The reference is the one-shot definition of FIPS 180-4: pad, cut into blocks, fold the compression function.
\<close>

section \<open>Model\<close>

record Sha256 =
  sh_h :: "u32 list"
  sh_buf :: bytes
  buflen :: nat
  bitlen :: u64

definition new_sha256 :: Sha256 where
  "new_sha256 = \<lparr>sh_h = [0x6a09e667, 0xbb67ae85, 0x3c6ef372, 0xa54ff53a, 0x510e527f, 0x9b05688c, 0x1f83d9ab, 0x5be0cd19],
     sh_buf = replicate 64 0, buflen = 0, bitlen = 0\<rparr>"

definition rotr :: "u32 \<Rightarrow> nat \<Rightarrow> u32" where
  "rotr x n = drop_bit n x OR push_bit (32 - n) x"

text \<open>The round constants, in the rows of the source.\<close>

definition sha_k :: "u32 list" where
  "sha_k = concat [
     [0x428a2f98, 0x71374491, 0xb5c0fbcf, 0xe9b5dba5, 0x3956c25b, 0x59f111f1, 0x923f82a4],
     [0xab1c5ed5, 0xd807aa98, 0x12835b01, 0x243185be, 0x550c7dc3, 0x72be5d74, 0x80deb1fe],
     [0x9bdc06a7, 0xc19bf174, 0xe49b69c1, 0xefbe4786, 0x0fc19dc6, 0x240ca1cc, 0x2de92c6f],
     [0x4a7484aa, 0x5cb0a9dc, 0x76f988da, 0x983e5152, 0xa831c66d, 0xb00327c8, 0xbf597fc7],
     [0xc6e00bf3, 0xd5a79147, 0x06ca6351, 0x14292967, 0x27b70a85, 0x2e1b2138, 0x4d2c6dfc],
     [0x53380d13, 0x650a7354, 0x766a0abb, 0x81c2c92e, 0x92722c85, 0xa2bfe8a1, 0xa81a664b],
     [0xc24b8b70, 0xc76c51a3, 0xd192e819, 0xd6990624, 0xf40e3585, 0x106aa070, 0x19a4c116],
     [0x1e376c08, 0x2748774c, 0x34b0bcb5, 0x391c0cb3, 0x4ed8aa4a, 0x5b9cca4f, 0x682e6ff3],
     [0x748f82ee, 0x78a5636f, 0x84c87814, 0x8cc70208, 0x90befffa, 0xa4506ceb, 0xbef9a3f7],
     [0xc67178f2]]"

definition block_word :: "bytes \<Rightarrow> nat \<Rightarrow> u32" where
  "block_word block i =
     (let j = i * 4
      in push_bit 24 (ucast (block ! j)) OR push_bit 16 (ucast (block ! (j + 1))) OR push_bit 8 (ucast (block ! (j + 2)))
         OR ucast (block ! (j + 3)))"

definition schedule_step :: "u32 list \<Rightarrow> nat \<Rightarrow> u32 list" where
  "schedule_step w i =
     (let s0 = rotr (w ! (i - 15)) 7 XOR rotr (w ! (i - 15)) 18 XOR drop_bit 3 (w ! (i - 15));
          s1 = rotr (w ! (i - 2)) 17 XOR rotr (w ! (i - 2)) 19 XOR drop_bit 10 (w ! (i - 2))
      in w @ [w ! (i - 16) + s0 + w ! (i - 7) + s1])"

definition message_schedule :: "bytes \<Rightarrow> u32 list" where
  "message_schedule block = foldl schedule_step (map (block_word block) [0..<16]) [16..<64]"

definition sha_round :: "u32 list \<Rightarrow> u32 list \<Rightarrow> nat \<Rightarrow> u32 list" where
  "sha_round w v i =
     (let a = v ! 0; b = v ! 1; c = v ! 2; d = v ! 3; e = v ! 4; f = v ! 5; g = v ! 6; h = v ! 7;
          s1 = rotr e 6 XOR rotr e 11 XOR rotr e 25;
          ch = (e AND f) XOR (NOT e AND g);
          t1 = h + s1 + ch + sha_k ! i + w ! i;
          s0 = rotr a 2 XOR rotr a 13 XOR rotr a 22;
          maj = (a AND b) XOR (a AND c) XOR (b AND c);
          t2 = s0 + maj
      in [t1 + t2, a, b, c, d + t1, e, f, g])"

definition transform :: "bytes \<Rightarrow> u32 list \<Rightarrow> u32 list" where
  "transform block h =
     (let w = message_schedule block;
          v = foldl (sha_round w) h [0..<64]
      in map2 (+) h v)"

text \<open>\<^verbatim>\<open>update\<close>: the bit count first, then the loop that fills and flushes the buffer.\<close>

partial_function (option) sha_loop :: "Sha256 \<Rightarrow> bytes \<Rightarrow> Sha256 option" where
  "sha_loop s p =
     (if p = [] then Some s
      else let k = min (64 - buflen s) (length p);
               s = s\<lparr>sh_buf := take (buflen s) (sh_buf s) @ take k p @ drop (buflen s + k) (sh_buf s), buflen := buflen s + k\<rparr>;
               s = (if buflen s = 64 then s\<lparr>sh_h := transform (sh_buf s) (sh_h s), buflen := 0\<rparr> else s)
           in sha_loop s (drop k p))"

definition sha_update :: "Sha256 \<Rightarrow> bytes \<Rightarrow> Sha256 option" where
  "sha_update s data = sha_loop (s\<lparr>bitlen := bitlen s + word_of_nat (length data) * 8\<rparr>) data"

partial_function (option) sha_zeros :: "Sha256 \<Rightarrow> Sha256 option" where
  "sha_zeros s = (if buflen s \<noteq> 56 then Option.bind (sha_update s [0]) sha_zeros else Some s)"

definition hex_word :: "u32 \<Rightarrow> string" where
  "hex_word h = map (\<lambda>i. ''0123456789abcdef'' ! unat (drop_bit (28 - 4 * i) h AND 0xF)) [0..<8]"

definition sha_hex :: "Sha256 \<Rightarrow> string option" where
  "sha_hex s =
     (let lenbe = map (\<lambda>i. ucast (drop_bit (56 - 8 * i) (bitlen s))) [0..<8]
      in do {
        s \<leftarrow> sha_update s [0x80];
        s \<leftarrow> sha_zeros s;
        s \<leftarrow> sha_update s lenbe;
        Some (concat (map hex_word (sh_h s))) })"

definition sha256_of :: "bytes \<Rightarrow> string option" where
  "sha256_of data = do {
     s \<leftarrow> sha_update new_sha256 data;
     sha_hex s }"

section \<open>Reference: FIPS 180-4\<close>

definition lower0 :: "u32 \<Rightarrow> u32" where
  "lower0 x = word_rotr 7 x XOR word_rotr 18 x XOR drop_bit 3 x"

definition lower1 :: "u32 \<Rightarrow> u32" where
  "lower1 x = word_rotr 17 x XOR word_rotr 19 x XOR drop_bit 10 x"

definition upper0 :: "u32 \<Rightarrow> u32" where
  "upper0 x = word_rotr 2 x XOR word_rotr 13 x XOR word_rotr 22 x"

definition upper1 :: "u32 \<Rightarrow> u32" where
  "upper1 x = word_rotr 6 x XOR word_rotr 11 x XOR word_rotr 25 x"

fun fips_w :: "bytes \<Rightarrow> nat \<Rightarrow> u32" where
  "fips_w m t =
     (if t < 16 then block_word m t
      else lower1 (fips_w m (t - 2)) + fips_w m (t - 7) + lower0 (fips_w m (t - 15)) + fips_w m (t - 16))"

declare fips_w.simps [simp del]

fun fips_rounds :: "bytes \<Rightarrow> nat \<Rightarrow> u32 list \<Rightarrow> u32 list" where
  "fips_rounds m 0 v = v"
| "fips_rounds m (Suc t) v =
     (case fips_rounds m t v of
        [a, b, c, d, e, f, g, h] \<Rightarrow>
          let t1 = h + upper1 e + ((e AND f) XOR (NOT e AND g)) + sha_k ! t + fips_w m t;
              t2 = upper0 a + ((a AND b) XOR (a AND c) XOR (b AND c))
          in [t1 + t2, a, b, c, d + t1, e, f, g]
      | _ \<Rightarrow> [])"

definition fips_compress :: "u32 list \<Rightarrow> bytes \<Rightarrow> u32 list" where
  "fips_compress h m = map2 (+) h (fips_rounds m 64 h)"

definition fips_pad :: "bytes \<Rightarrow> bytes" where
  "fips_pad d = d @ [0x80] @ replicate ((119 - length d mod 64) mod 64) 0
     @ map (\<lambda>i. ucast (drop_bit (56 - 8 * i) (word_of_nat (8 * length d) :: u64))) [0..<8]"

function blocks :: "bytes \<Rightarrow> bytes list" where
  "blocks xs = (if length xs < 64 then [] else take 64 xs # blocks (drop 64 xs))"
  by pat_completeness auto
termination by (relation "measure length") auto

declare blocks.simps [simp del]

definition fips_sha256 :: "bytes \<Rightarrow> string" where
  "fips_sha256 d = concat (map hex_word (foldl fips_compress (sh_h new_sha256) (blocks (fips_pad d))))"

text \<open>The constants of the standard: the first 32 bits of the fractional parts of the square and cube roots of the first primes.\<close>

definition first_primes :: "nat list" where
  "first_primes = filter (\<lambda>p. list_all (\<lambda>d. p \<le> d \<or> p mod d \<noteq> 0) [2, 3, 5, 7, 11, 13, 17]) [2..<312]"

definition root_frac :: "nat \<Rightarrow> nat \<Rightarrow> u32 \<Rightarrow> bool" where
  "root_frac e p k \<longleftrightarrow>
     list_ex (\<lambda>a. let x = a * 2 ^ 32 + unat k in x ^ e \<le> p * 2 ^ (32 * e) \<and> p * 2 ^ (32 * e) < (x + 1) ^ e) [1, 2, 3, 4, 5, 6]"

section \<open>The compression function\<close>

lemma rotr_word_rotr:
  assumes "0 < n" "n < 32"
  shows "rotr x n = word_rotr n x"
proof (rule bit_word_eqI)
  fix i assume "i < LENGTH(32)"
  then have i: "i < 32" by simp
  have "(i + n) mod 32 = (if i + n < 32 then i + n else i + n - 32)" using i assms by (simp add: mod_if)
  then show "bit (rotr x n) i = bit (word_rotr n x) i"
    using i assms by (auto simp: rotr_def bit_simps bit_word_rotr_iff add.commute dest: bit_imp_le_length)
qed

lemma schedule_eq: "foldl schedule_step (map (block_word m) [0..<16]) [16..<16 + k] = map (fips_w m) [0..<16 + k]"
proof (induction k)
  case 0
  show ?case by (auto simp: fips_w.simps)
next
  case (Suc k)
  have up: "[i..<16 + Suc k] = [i..<16 + k] @ [16 + k]" if "i \<le> 16" for i
    using that upt_Suc_append [of i "16 + k"] by (simp only: add_Suc_right)
  then have "foldl schedule_step (map (block_word m) [0..<16]) [16..<16 + Suc k] =
      schedule_step (map (fips_w m) [0..<16 + k]) (16 + k)"
    by (simp only: foldl_append foldl.simps Suc.IH order_refl)
  moreover
  have w: "fips_w m (k + 16) = lower1 (fips_w m (k + 14)) + fips_w m (k + 9) + lower0 (fips_w m (Suc k)) + fips_w m k"
    by (simp add: fips_w.simps [of m "k + 16"] add.commute)
  then have "schedule_step (map (fips_w m) [0..<16 + k]) (16 + k) = map (fips_w m) [0..<16 + k] @ [fips_w m (16 + k)]"
    by (simp add: w schedule_step_def lower0_def lower1_def rotr_word_rotr Let_def algebra_simps del: upt_Suc)
  ultimately show ?case by (simp only: up list.map map_append)
qed

lemma message_schedule_nth: "i < 64 \<Longrightarrow> message_schedule m ! i = fips_w m i"
  using schedule_eq [of m 48] by (simp add: message_schedule_def)

lemma list_of_8:
  assumes "length v = 8"
  obtains a b c d e f g h where "v = [a, b, c, d, e, f, g, h]"
  using assms by (auto simp: numeral_eq_Suc length_Suc_conv)

lemma rounds_eq:
  assumes "length v = 8" "t \<le> 64"
  shows "foldl (sha_round (message_schedule m)) v [0..<t] = fips_rounds m t v \<and> length (fips_rounds m t v) = 8"
  using assms(2)
proof (induction t)
  case (Suc t)
  then have IH: "foldl (sha_round (message_schedule m)) v [0..<t] = fips_rounds m t v" "length (fips_rounds m t v) = 8" by simp_all
  from IH(2) obtain a b c d e f g h where v: "fips_rounds m t v = [a, b, c, d, e, f, g, h]" by (rule list_of_8)
  have "foldl (sha_round (message_schedule m)) v [0..<Suc t] = sha_round (message_schedule m) [a, b, c, d, e, f, g, h] t"
    using IH(1) v by simp
  also have "\<dots> = fips_rounds m (Suc t) v"
    using v message_schedule_nth [of t m] Suc.prems
    by (simp add: sha_round_def Let_def rotr_word_rotr upper0_def upper1_def)
  finally show ?case using v by (simp add: Let_def)
qed (simp add: assms(1))

lemma transform_compress:
  assumes "length h = 8"
  shows "transform m h = fips_compress h m" "length (fips_compress h m) = 8"
  using rounds_eq [OF assms, of 64 m] assms by (simp_all add: transform_def fips_compress_def Let_def)

section \<open>Blocks\<close>

lemma blocks_append:
  assumes "64 dvd length xs"
  shows "blocks (xs @ ys) = blocks xs @ blocks ys"
  using assms
proof (induction xs rule: blocks.induct)
  case (1 xs)
  show ?case
  proof (cases "length xs < 64")
    case True
    then have "xs = []" using "1.prems" by (auto dest: dvd_imp_le)
    then show ?thesis by (simp add: blocks.simps [of "[]"])
  next
    case False
    have "64 dvd length (drop 64 xs)" using "1.prems" by simp
    from "1.IH" [OF False this] False show ?thesis
      by (subst (1 2) blocks.simps) simp
  qed
qed

lemma blocks_one: "length t = 64 \<Longrightarrow> blocks t = [t]" "length t < 64 \<Longrightarrow> blocks t = []"
  by (simp_all add: blocks.simps [of t] blocks.simps [of "[]"])

section \<open>The streaming state\<close>

definition absorbed :: "Sha256 \<Rightarrow> bytes \<Rightarrow> bool" where
  "absorbed s d \<longleftrightarrow> (\<exists>xs t. d = xs @ t \<and> 64 dvd length xs \<and> length t < 64 \<and> buflen s = length t \<and> length (sh_buf s) = 64
     \<and> take (length t) (sh_buf s) = t \<and> sh_h s = foldl fips_compress (sh_h new_sha256) (blocks xs))"

lemma length_foldl_compress: "length h = 8 \<Longrightarrow> length (foldl fips_compress h bs) = 8"
  by (induction bs arbitrary: h) (simp_all add: transform_compress)

lemma length_initial [simp]: "length (sh_h new_sha256) = 8"
  by (simp add: new_sha256_def)

lemma absorbed_new: "absorbed new_sha256 []"
  unfolding absorbed_def by (rule exI [of _ "[]"], rule exI [of _ "[]"])
    (simp add: new_sha256_def blocks_one)

lemma absorbed_buflen: "absorbed s d \<Longrightarrow> buflen s = length d mod 64"
  by (auto simp: absorbed_def)

lemma absorbed_bitlen [simp]: "absorbed (s\<lparr>bitlen := v\<rparr>) d = absorbed s d"
  by (simp add: absorbed_def)

lemma sha_loop_absorbs:
  assumes "absorbed s d"
  shows "\<exists>s'. sha_loop s p = Some s' \<and> absorbed s' (d @ p) \<and> bitlen s' = bitlen s"
  using assms
proof (induction "length p" arbitrary: s d p rule: less_induct)
  case less
  obtain xs t where st: "d = xs @ t" "64 dvd length xs" "length t < 64" "buflen s = length t" "length (sh_buf s) = 64"
    "take (length t) (sh_buf s) = t" "sh_h s = foldl fips_compress (sh_h new_sha256) (blocks xs)"
    using less.prems by (auto simp: absorbed_def)
  show ?case
  proof (cases "p = []")
    case True
    then show ?thesis using less.prems by (simp add: sha_loop.simps [of s])
  next
    case False
    define k where "k = min (64 - length t) (length p)"
    have k: "0 < k" "k \<le> length p" "length t + k \<le> 64" using False st(3) by (auto simp: k_def)
    define s1 where "s1 = s\<lparr>sh_buf := t @ take k p @ drop (length t + k) (sh_buf s), buflen := length t + k\<rparr>"
    define s2 where "s2 = (if buflen s1 = 64 then s1\<lparr>sh_h := transform (sh_buf s1) (sh_h s1), buflen := 0\<rparr> else s1)"
    have step: "sha_loop s p = sha_loop s2 (drop k p)"
      unfolding s2_def s1_def k_def using False st(4,6) by (subst sha_loop.simps) (simp add: Let_def)
    have "absorbed s2 (d @ take k p)"
    proof (cases "length t + k = 64")
      case True
      have "length (foldl fips_compress (sh_h new_sha256) (blocks xs)) = 8" by (rule length_foldl_compress) simp
      moreover have "sh_buf s1 = t @ take k p" "length (t @ take k p) = 64" using True st(5) k by (simp_all add: s1_def)
      ultimately show ?thesis
        unfolding absorbed_def using True st k
        by (intro exI [of _ "xs @ t @ take k p"] exI [of _ "[]"])
          (simp add: s2_def s1_def transform_compress blocks_append blocks_one)
    next
      case False
      then show ?thesis
        unfolding absorbed_def using st k
        by (intro exI [of _ xs] exI [of _ "t @ take k p"]) (simp add: s2_def s1_def)
    qed
    moreover have "length (drop k p) < length p" "bitlen s2 = bitlen s" using k False by (simp_all add: s2_def s1_def)
    ultimately show ?thesis
      using less.hyps [of "drop k p" s2 "d @ take k p"] step by simp
  qed
qed

text \<open>The state after \<open>d\<close> bytes, with their bit count.\<close>

definition hashing :: "Sha256 \<Rightarrow> bytes \<Rightarrow> bool" where
  "hashing s d \<longleftrightarrow> absorbed s d \<and> bitlen s = word_of_nat (8 * length d)"

lemma sha_update_hashing:
  assumes "hashing s d"
  shows "\<exists>s'. sha_update s p = Some s' \<and> hashing s' (d @ p)"
  using sha_loop_absorbs [of "s\<lparr>bitlen := bitlen s + word_of_nat (length p) * 8\<rparr>" d p] assms
  by (auto simp: hashing_def sha_update_def algebra_simps)

lemma pad_arith:
  assumes "x < (64 :: nat)"
  shows "(120 - x) mod 64 = (if x \<le> 56 then 56 - x else 120 - x)"
  using assms by (simp add: mod_if)

lemma pad_step:
  assumes "x < 64" "x \<noteq> 56" "Suc z = (120 - x) mod 64"
  shows "(120 - Suc x mod 64) mod 64 = z"
proof (cases "x = 63")
  case False
  then have "Suc x mod 64 = Suc x" using assms(1) by simp
  then show ?thesis using assms pad_arith [OF assms(1)] pad_arith [of "Suc x"] False by (simp split: if_splits)
qed (use assms in simp)

lemma sha_zeros_hashing:
  assumes "hashing s d"
  shows "\<exists>s'. sha_zeros s = Some s' \<and> hashing s' (d @ replicate ((120 - length d mod 64) mod 64) 0)"
  using assms
proof (induction "(120 - length d mod 64) mod 64" arbitrary: s d)
  case 0
  have "length d mod 64 = 56" using 0(1) pad_arith [of "length d mod 64"] by (simp split: if_splits)
  then have "buflen s = 56" using absorbed_buflen [of s d] 0(2) by (simp add: hashing_def)
  then show ?case using 0 by (simp add: sha_zeros.simps [of s])
next
  case (Suc z)
  obtain s1 where s1: "sha_update s [0] = Some s1" "hashing s1 (d @ [0])" using sha_update_hashing [OF Suc.prems] by blast
  have lt: "length d mod 64 < 64" by simp
  have ne: "length d mod 64 \<noteq> 56" using Suc.hyps(2) by auto
  then have "buflen s \<noteq> 56" using absorbed_buflen [of s d] Suc.prems by (auto simp: hashing_def)
  then have step: "sha_zeros s = sha_zeros s1" using s1(1) by (simp add: sha_zeros.simps [of s])
  have "Suc (length d) mod 64 = Suc (length d mod 64) mod 64" by (simp add: mod_Suc_eq)
  then have z: "(120 - length (d @ [0 :: byte]) mod 64) mod 64 = z"
    using pad_step [OF lt ne Suc.hyps(2)] by simp
  from Suc.hyps(1) [of "d @ [0]" s1] z s1(2) obtain s' where
    "sha_zeros s1 = Some s'" "hashing s' ((d @ [0]) @ replicate z 0)" by auto
  then show ?case using step Suc.hyps(2) by (metis append.assoc append_Cons append_Nil replicate_Suc)
qed

lemma pad_total:
  assumes "x < (64 :: nat)"
  shows "64 dvd x + 9 + (119 - x) mod 64"
proof (cases "x \<le> 55")
  case True
  then have "119 - x = 64 + (55 - x)" by simp
  then have "(119 - x) mod 64 = 55 - x" using True by (metis le_less_trans diff_le_self mod_add_self1 mod_less numeral_less_iff semiring_norm(76,78,80,81))
  then show ?thesis using True by simp
next
  case False
  then have "(119 - x) mod 64 = 119 - x" using assms by (intro mod_less) simp
  then have "x + 9 + (119 - x) mod 64 = 128" using assms by simp
  then show ?thesis by simp
qed

lemma length_fips_pad: "64 dvd length (fips_pad d)"
proof -
  have "length (fips_pad d) = length d + 9 + (119 - length d mod 64) mod 64"
    by (simp add: fips_pad_def)
  also have "\<dots> = 64 * (length d div 64) + (length d mod 64 + 9 + (119 - length d mod 64) mod 64)"
    by (simp only: add.assoc [symmetric] mult_div_mod_eq)
  finally show ?thesis using pad_total [of "length d mod 64"] by (simp only: dvd_add dvd_triv_left mod_less_divisor zero_less_numeral)
qed

lemma sha_hex_hashing:
  assumes "hashing s d"
  shows "sha_hex s = Some (fips_sha256 d)"
proof -
  let ?len = "map (\<lambda>i. ucast (drop_bit (56 - 8 * i) (bitlen s))) [0..<8]"
  obtain s1 where s1: "sha_update s [0x80] = Some s1" "hashing s1 (d @ [0x80])" using sha_update_hashing [OF assms] by blast
  obtain s2 where s2: "sha_zeros s1 = Some s2"
    "hashing s2 ((d @ [0x80]) @ replicate ((120 - length (d @ [0x80 :: byte]) mod 64) mod 64) 0)"
    using sha_zeros_hashing [OF s1(2)] by blast
  have "length d mod 64 < 64" by simp
  then have "(120 - length (d @ [0x80 :: byte]) mod 64) mod 64 = (119 - length d mod 64) mod 64"
    by (cases "length d mod 64 = 63") (auto simp: mod_Suc)
  moreover have "bitlen s = word_of_nat (8 * length d)" using assms by (simp add: hashing_def)
  ultimately obtain s3 where s3: "sha_update s2 ?len = Some s3" "hashing s3 (fips_pad d)"
    using sha_update_hashing [OF s2(2), of ?len] by (auto simp: fips_pad_def)
  obtain xs t where x: "fips_pad d = xs @ t" "64 dvd length xs" "length t < 64"
    "sh_h s3 = foldl fips_compress (sh_h new_sha256) (blocks xs)"
    using s3(2) by (auto simp: hashing_def absorbed_def)
  have "64 dvd length t" using length_fips_pad [of d] x(1,2) by (metis dvd_add_right_iff length_append)
  then have "t = []" using x(3) by (auto dest: dvd_imp_le)
  then show ?thesis using s1(1) s2(1) s3(1) x by (simp add: sha_hex_def fips_sha256_def Let_def)
qed

fun sha_updates :: "Sha256 \<Rightarrow> bytes list \<Rightarrow> Sha256 option" where
  "sha_updates s [] = Some s"
| "sha_updates s (p # ps) = Option.bind (sha_update s p) (\<lambda>s. sha_updates s ps)"

lemma sha_updates_hashing: "hashing s d \<Longrightarrow> \<exists>s'. sha_updates s ps = Some s' \<and> hashing s' (d @ concat ps)"
proof (induction ps arbitrary: s d)
  case (Cons p ps)
  from sha_update_hashing [OF Cons.prems] obtain s1 where s1: "sha_update s p = Some s1" "hashing s1 (d @ p)" by blast
  with Cons.IH [OF s1(2)] show ?case by auto
qed simp

lemma hashing_new: "hashing new_sha256 []"
  using absorbed_new by (simp add: hashing_def) (simp add: new_sha256_def)

section \<open>Properties\<close>

lemma first_primes_eval: "first_primes = [
     2, 3, 5, 7, 11, 13, 17, 19, 23, 29, 31, 37, 41, 43, 47, 53, 59, 61, 67, 71, 73, 79,
     83, 89, 97, 101, 103, 107, 109, 113, 127, 131, 137, 139, 149, 151, 157, 163, 167, 173, 179, 181, 191, 193,
     197, 199, 211, 223, 227, 229, 233, 239, 241, 251, 257, 263, 269, 271, 277, 281, 283, 293, 307, 311]"
  by (simp add: first_primes_def upt_rec_numeral)

lemma sha_h_constants: "list_all2 (root_frac 2) (take 8 first_primes) (sh_h new_sha256)"
  by (simp add: first_primes_eval new_sha256_def root_frac_def)

lemma sha_k_constants: "list_all2 (root_frac 3) first_primes sha_k"
  by (simp add: first_primes_eval sha_k_def root_frac_def)

text \<open>C36: The streaming digest is SHA-256: however the data is cut into calls of \<open>update\<close>, the calls and \<open>hex\<close> all return, and the
  digest is the one FIPS 180-4 defines for the concatenation, with the rotations, the message schedule, the padding and the bit
  length (modulo \<open>2 ^ 64\<close>) of the standard. The tables are the standard's too: the initial hash value and the round constants are the
  first 32 bits of the fractional parts of the square roots of the first 8 and the cube roots of the first 64 primes.\<close>

theorem sha256_streaming:
  "Option.bind (sha_updates new_sha256 parts) sha_hex = Some (fips_sha256 (concat parts))
   \<and> sha256_of data = Some (fips_sha256 data)
   \<and> list_all2 (root_frac 2) (take 8 first_primes) (sh_h new_sha256) \<and> list_all2 (root_frac 3) first_primes sha_k"
proof -
  obtain s where s: "sha_updates new_sha256 parts = Some s" "hashing s (concat parts)"
    using sha_updates_hashing [OF hashing_new, of parts] by auto
  obtain s' where s': "sha_update new_sha256 data = Some s'" "hashing s' data"
    using sha_update_hashing [OF hashing_new, of data] by auto
  show ?thesis using sha_hex_hashing [OF s(2)] sha_hex_hashing [OF s'(2)] s(1) s'(1) sha_h_constants sha_k_constants by (simp add: sha256_of_def)
qed

end
