(* ===== verification/Session_Handler.thy ===== *)
theory Session_Handler
  imports Session_Delivery
begin

text \<open>
  A session without a message handler. \<open>mute\<close> forgets the handler and the calls made to it; every operation commutes with it, so
  whether a handler is registered makes no difference to the protocol: to the datagrams sent, to the timers, to the buffers.
\<close>

definition mute_rx :: "RecvSide \<Rightarrow> RecvSide" where
  "mute_rx r = r\<lparr>handler := False, app_log := []\<rparr>"

definition mute :: "Session \<Rightarrow> Session" where
  "mute s = s\<lparr>rx_side := mute_rx (rx_side s)\<rparr>"

lemma mute_rx_sel [simp]:
  "handler (mute_rx r) = False" "app_log (mute_rx r) = []" "sack_enabled (mute_rx r) = sack_enabled r"
  "next_ack_seq (mute_rx r) = next_ack_seq r" "rcv_next (mute_rx r) = rcv_next r" "reasm (mute_rx r) = reasm r"
  "buffered_c2 (mute_rx r) = buffered_c2 r" "rcv_buf (mute_rx r) = rcv_buf r" "capacity (mute_rx r) = capacity r"
  "app_ready (mute_rx r) = app_ready r" "ur_init (mute_rx r) = ur_init r" "ur_base (mute_rx r) = ur_base r" "ur_seen (mute_rx r) = ur_seen r"
  by (simp_all add: mute_rx_def)

lemma mute_sel [simp]: "peer (mute s) = peer s" "cfg (mute s) = cfg s" "tx_side (mute s) = tx_side s" "rx_side (mute s) = mute_rx (rx_side s)"
  by (simp_all add: mute_def)

lemma mute_set_on_message [simp]: "mute (set_on_message s) = mute s"
  by (simp add: mute_def set_on_message_def mute_rx_def)

lemma mute_new_session [simp]: "mute (new_session e c) = new_session e c"
  by (simp add: mute_def new_session_def mute_rx_def new_recv_side_def)

section \<open>The receive side\<close>

named_theorems muted \<open>operations commute with forgetting the handler\<close>

lemma emit_mute [muted]: "emit_to_app c d (mute_rx r) = mute_rx (emit_to_app c d r)"
  by (simp add: emit_to_app_def Let_def) (simp add: mute_rx_def)

lemma update_mute [muted]:
  "(mute_rx r)\<lparr>rcv_next := a\<rparr> = mute_rx (r\<lparr>rcv_next := a\<rparr>)" "(mute_rx r)\<lparr>reasm := m\<rparr> = mute_rx (r\<lparr>reasm := m\<rparr>)"
  "(mute_rx r)\<lparr>buffered_c2 := k\<rparr> = mute_rx (r\<lparr>buffered_c2 := k\<rparr>)" "(mute_rx r)\<lparr>rcv_buf := q\<rparr> = mute_rx (r\<lparr>rcv_buf := q\<rparr>)"
  "(mute_rx r)\<lparr>next_ack_seq := a\<rparr> = mute_rx (r\<lparr>next_ack_seq := a\<rparr>)"
  "(mute_rx r)\<lparr>ur_init := b\<rparr> = mute_rx (r\<lparr>ur_init := b\<rparr>)" "(mute_rx r)\<lparr>ur_base := a\<rparr> = mute_rx (r\<lparr>ur_base := a\<rparr>)"
  "(mute_rx r)\<lparr>ur_seen := v\<rparr> = mute_rx (r\<lparr>ur_seen := v\<rparr>)"
  by (simp_all add: mute_rx_def)

lemma space_mute [simp]: "has_buffer_space (mute_rx r) = has_buffer_space r"
  by (simp add: has_buffer_space_def rcv_occupancy_def)

lemma fill_mute [simp]: "fill_ack_fields (mute_rx r) p = fill_ack_fields r p"
  by (simp add: fill_ack_fields_def my_adv_window_def build_sack_def Let_def cong: if_cong)

lemma send_ack_mute [muted]: "send_ack T dest (mute_rx r) n = (let (r', n') = send_ack T dest r n in (mute_rx r', n'))"
  by (simp add: send_ack_def muted Let_def split_beta)

lemma handle_unreliable_mute [muted]: "handle_unreliable p (mute_rx r) = mute_rx (handle_unreliable p r)"
  by (cases "ur_init r") (simp_all add: handle_unreliable_def Let_def muted if_distrib [of mute_rx] del: if_split)

lemma queue_or_emit_mute [muted]: "queue_or_emit c d (mute_rx r) = mute_rx (queue_or_emit c d r)"
  by (simp add: queue_or_emit_def muted)

lemma flush_one_mute [muted]: "flush_one e (mute_rx r) = mute_rx (flush_one e r)"
  by (simp add: flush_one_def muted Let_def)

lemma flush_mute [muted]: "flush_reassembled (mute_rx r) = mute_rx (flush_reassembled r)"
proof (induction r rule: flush_reassembled.induct)
  case (1 r)
  then show ?case by (cases "map_of (reasm r) (rcv_next r)")
    (simp_all add: flush_reassembled.simps [of r] flush_reassembled.simps [of "mute_rx r"] muted)
qed

lemma accept_mute [muted]: "accept_reliable p (mute_rx r) = mute_rx (accept_reliable p r)"
  by (simp add: accept_reliable_def deliver_reliable_def muted Let_def)

lemma handle_data_mute [muted]: "handle_data T dest p (mute_rx r) n = (let (r', n') = handle_data T dest p r n in (mute_rx r', n'))"
  by (simp add: handle_data_def handle_reliable_def muted)

section \<open>The send side reads only the acknowledgement fields\<close>

lemma pump_one_mute [simp]: "pump_one T dest (mute_rx r) msg s n = pump_one T dest r msg s n"
  by (simp add: pump_one_def)

lemma pump_mute [simp]: "pump T dest wp (mute_rx r) s n = pump T dest wp r s n"
proof (induction T dest wp r s n rule: pump.induct)
  case (1 T dest wp r s n)
  then show ?case
    by (simp add: pump.simps [of T dest wp "mute_rx r" s n] pump.simps [of T dest wp r s n] Let_def split: list.split prod.split)
qed

lemma timer_fired_mute [simp]: "timer_fired T dest (mute_rx r) = timer_fired T dest r"
  by (simp add: timer_fired_def send_probe_def fun_eq_iff)

lemma tick_loop_some:
  assumes "tick_loop T dest r now s n = Some x" "timer_fired T dest r' = timer_fired T dest r"
  shows "tick_loop T dest r' now s n = Some x"
proof -
  let ?P = "\<lambda>T' d' q now' s' n' x'. T' = T \<and> q = r \<and> d' = dest \<longrightarrow> tick_loop T dest r' now' s' n' = Some x'"
  have "?P T dest r now s n x"
  proof (rule tick_loop.raw_induct [where P = ?P, OF _ assms(1)])
    fix tl T' d' q now' s' n' x'
    assume ih: "\<And>T' d' q now' s' n' x'. tl T' d' q now' s' n' = Some x' \<Longrightarrow> ?P T' d' q now' s' n' x'"
      and x: "(case pop_due (timers s') now' of
          (None, th) \<Rightarrow> Some (s'\<lparr>timers := th\<rparr>, n')
        | (Some tid, th) \<Rightarrow> (case timer_fired T' d' q tid (s'\<lparr>timers := th\<rparr>) n' of (s, n) \<Rightarrow> tl T' d' q now' s n)) = Some x'"
    show "?P T' d' q now' s' n' x'"
      using x assms(2) by (auto simp: tick_loop.simps [of T dest r' now' s' n'] split: prod.splits option.splits dest: ih)
  qed
  then show ?thesis by simp
qed

lemma tick_loop_mute [simp]: "tick_loop T dest (mute_rx r) now s n = tick_loop T dest r now s n"
  by (cases "tick_loop T dest r now s n"; cases "tick_loop T dest (mute_rx r) now s n")
    (auto dest: tick_loop_some [where r' = r and r = "mute_rx r"] tick_loop_some [where r' = "mute_rx r" and r = r])

section \<open>The operations\<close>

lemma pump_and_arm_mute [muted]: "pump_and_arm T (mute s) n = (let (s', n') = pump_and_arm T s n in (mute s', n'))"
  by (simp add: pump_and_arm_def Let_def split_beta mute_def)

lemma send_mute: "send T c d (mute s) n = (let (ok, s', n') = send T c d s n in (ok, mute s', n'))"
  by (simp add: send_def pump_and_arm_def Let_def split_beta mute_def)

lemma process_packet_mute [muted]: "process_packet T p (mute s) n = (let (s', n') = process_packet T p s n in (mute s', n'))"
  by (simp add: process_packet_def muted Let_def split_beta mute_def)

lemma on_datagram_mute [muted]: "on_datagram T d src (mute s) n = (let (s', n') = on_datagram T d src s n in (mute s', n'))"
  by (auto simp: on_datagram_def muted split: sum.split)

lemma poll_loop_mute [muted]: "poll_loop T k (mute s) n = (let (b, s', n') = poll_loop T k s n in (b, mute s', n'))"
  by (induction k arbitrary: s n) (auto simp: muted Let_def split_beta split: option.split)

lemma poll_mute: "poll T (mute s) n = (let (b, s', n') = poll T s n in (b, mute s', n'))"
  by (simp add: poll_def muted Let_def split_beta)

lemma tick_mute: "tick T (mute s) n = map_option (\<lambda>(s', n'). (mute s', n')) (tick T s n)"
  by (auto simp: tick_def pump_and_arm_def Let_def split_beta mute_def split: option.split)

lemma drain_mute [muted]: "drain q (mute_rx r) = mute_rx (drain q r)"
  by (induction q arbitrary: r) (simp_all add: muted)

lemma set_receiving_mute: "set_receiving T b (mute s) n = (let (s', n') = set_receiving T b s n in (mute s', n'))"
proof -
  have "(mute_rx r)\<lparr>app_ready := b\<rparr> = mute_rx (r\<lparr>app_ready := b\<rparr>)" for r by (simp add: mute_rx_def)
  then show ?thesis by (simp add: set_receiving_def muted Let_def split_beta mute_def)
qed

lemma set_sack_enabled_mute: "set_sack_enabled b (mute s) = mute (set_sack_enabled b s)"
  by (simp add: set_sack_enabled_def mute_def mute_rx_def)

lemma side_step_mute:
  assumes "side_step U T (mute s, n, out) (s', n', out')"
  shows "\<exists>t. s' = mute t \<and> side_step U T (s, n, out) (t, n', out')"
  using assms
proof cases
  case (send c d accepted)
  then obtain t where "s' = mute t" "Session.send T c d s n = (accepted, t, n')"
    by (auto simp: send_mute Let_def split: prod.splits)
  then show ?thesis using send side_step.send [of c d U T s n accepted t n' out] by blast
next
  case (poll b)
  then obtain t where "s' = mute t" "Session.poll T s n = (b, t, n')" by (auto simp: poll_mute Let_def split: prod.splits)
  then show ?thesis using poll side_step.poll [of T s n b t n' U out] by auto
next
  case tick
  then obtain t where "s' = mute t" "Session.tick T s n = Some (t, n')" by (auto simp: tick_mute)
  then show ?thesis using tick side_step.tick [of T s n t n' U out] by auto
next
  case (set_receiving b)
  then obtain t where "s' = mute t" "Session.set_receiving T b s n = (t, n')"
    by (auto simp: set_receiving_mute Let_def split: prod.splits)
  then show ?thesis using set_receiving side_step.set_receiving [of T b s n t n' U out] by auto
next
  case (set_sack_enabled b)
  then show ?thesis using set_sack_enabled_mute [of b s] side_step.set_sack_enabled [of U T s n out b] by auto
qed

section \<open>A pair whose first side registers no handler\<close>

text \<open>\<open>mute_a\<close> is a forward simulation, backwards: each run of the muted pair is the image of a run of the pair with both handlers.\<close>

definition mute_a :: "'n Pair \<Rightarrow> 'n Pair" where
  "mute_a y = y\<lparr>pa := mute (pa y)\<rparr>"

lemma mute_a_sel [simp]:
  "pa (mute_a y) = mute (pa y)" "pb (mute_a y) = pb y" "net (mute_a y) = net y" "acc_a (mute_a y) = acc_a y" "acc_b (mute_a y) = acc_b y"
  by (simp_all add: mute_a_def)

lemma pair_step_mute:
  assumes "pair_step UA UB TA TB env (mute_a y) z"
  shows "\<exists>y'. z = mute_a y' \<and> pair_step UA UB TA TB env y y'"
  using assms
proof cases
  case (side_a s' n' out')
  then obtain t where "s' = mute t" "side_step UA TA (pa y, net y, acc_a y) (t, n', out')"
    using side_step_mute [of UA TA "pa y" "net y" "acc_a y" s' n' out'] by auto
  then show ?thesis using side_a pair_step.side_a [of UA TA y t n' out' UB TB env]
    by (intro exI [of _ "y\<lparr>pa := t, net := n', acc_a := out'\<rparr>"]) (simp add: mute_a_def)
next
  case (side_b s' n' out')
  then show ?thesis using pair_step.side_b [of UB TB y s' n' out' UA TA env]
    by (intro exI [of _ "y\<lparr>pb := s', net := n', acc_b := out'\<rparr>"]) (simp add: mute_a_def)
next
  case (outside n')
  then show ?thesis using pair_step.outside [of env y n' UA UB TA TB] by (intro exI [of _ "y\<lparr>net := n'\<rparr>"]) (simp add: mute_a_def)
qed

lemma pair_reach_mute:
  assumes "pair_reach UA UB TA TB env (mute_a y0) z"
  shows "\<exists>y. z = mute_a y \<and> pair_reach UA UB TA TB env y0 y"
  using assms
proof induction
  case start
  then show ?case using pair_reach.start by blast
next
  case (step z z')
  then obtain y where y: "z = mute_a y" "pair_reach UA UB TA TB env y0 y" by blast
  then obtain y' where "z' = mute_a y'" "pair_step UA UB TA TB env y y'" using step(2) pair_step_mute by blast
  then show ?case using y(2) pair_reach.step by blast
qed

text \<open>The first side sends only, the second side listens.\<close>

definition one_way_pair :: "Endpoint \<Rightarrow> Endpoint \<Rightarrow> Config \<Rightarrow> Config \<Rightarrow> 'n \<Rightarrow> 'n Pair" where
  "one_way_pair ea eb ca cb n = \<lparr>pa = new_session eb ca, pb = set_on_message (new_session ea cb),
     net = n, acc_a = [], acc_b = []\<rparr>"

lemma one_way_pair_mute: "one_way_pair ea eb ca cb n = mute_a (start_pair ea eb ca cb n)"
  by (simp add: one_way_pair_def start_pair_def mute_a_def)

lemma received_mute [simp]: "received (mute_rx r) = received r"
  by (simp add: received_def rx_keys_def)

context session_pair
begin

lemma one_way_inv:
  assumes "pair_reach UA UB TA TB env (one_way_pair ea eb ca cb n) z" "ea \<noteq> eb" "config_ok ca" "config_ok cb"
    "\<And>e d. (ea, d) \<notin> wire n e" "\<And>e d. (eb, d) \<notin> wire n e"
  obtains y where "z = mute_a y" "pair_inv UA UB y"
proof -
  obtain y where y: "z = mute_a y" "pair_reach UA UB TA TB env (start_pair ea eb ca cb n) y"
    using assms(1) pair_reach_mute unfolding one_way_pair_mute by blast
  then show thesis using that pair_inv_reach [OF y(2) pair_inv_start [OF assms(3-6)] assms(2)] by blast
qed

lemma pair_tick_b:
  assumes "pair_inv UA UB y"
  shows "\<exists>s' n'. tick TB (pb y) (net y) = Some (s', n')"
  using b.tick_inv [of UA "acc_b y" "acc_a y" _ "pb y" "net y"] assms unfolding pair_inv_def by blast

lemma one_way_tick:
  assumes "pair_inv UA UB y"
  shows "\<exists>s' n'. tick TA (pa (mute_a y)) (net y) = Some (s', n')"
  using pair_tick [OF assms] by (auto simp: tick_mute)

end

end
