(* ===== verification/Session_Calls.thy ===== *)
theory Session_Calls
  imports Session
begin

text \<open>
  What the operations of a session can do to the outside world: call the transport, and send to the peer only. Every operation
  leaves the world in a state that such calls lead to, so whatever each call keeps, every operation keeps.
\<close>

inductive transport_call :: "'n UdpTransport \<Rightarrow> Endpoint \<Rightarrow> 'n \<Rightarrow> 'n \<Rightarrow> bool" for T dest where
  call_send: "transport_call T dest n (snd (t_send T dest d n))"
| call_recv: "transport_call T dest n (snd (t_recv T cap n))"
| call_now: "transport_call T dest n (snd (t_now T n))"

abbreviation calls :: "'n UdpTransport \<Rightarrow> Endpoint \<Rightarrow> 'n \<Rightarrow> 'n \<Rightarrow> bool" where
  "calls T dest \<equiv> (transport_call T dest)\<^sup>*\<^sup>*"

lemma sent_calls: "t_send T dest d n = (k, n') \<Longrightarrow> calls T dest n n'"
  by (metis r_into_rtranclp snd_conv transport_call.call_send)

lemma recv_calls: "t_recv T cap n = (x, n') \<Longrightarrow> calls T dest n n'"
  by (metis r_into_rtranclp snd_conv transport_call.call_recv)

lemma now_calls: "t_now T n = (t, n') \<Longrightarrow> calls T dest n n'"
  by (metis r_into_rtranclp snd_conv transport_call.call_now)

lemma one_send: "calls T dest n (snd (t_send T dest d n))"
  by (rule r_into_rtranclp) (rule transport_call.call_send)

text \<open>A quantity that each call leaves alone is left alone by all.\<close>

lemma calls_keep:
  assumes "calls T dest n n'" "\<And>a b. transport_call T dest a b \<Longrightarrow> g b = g a"
  shows "g n' = g n"
  using assms(1) by induction (simp_all add: assms(2))

lemma calls_then: "calls T dest n n1 \<Longrightarrow> calls T dest n1 n2 \<Longrightarrow> calls T dest n n2"
  by (rule rtranclp_trans)

section \<open>The send side\<close>

lemma send_ack_calls: "send_ack T dest r n = (r', n') \<Longrightarrow> calls T dest n n'"
  by (auto simp: send_ack_def Let_def split: prod.splits if_splits intro: one_send)

lemma send_probe_calls: "calls T dest n (send_probe T dest r n)"
  by (auto simp: send_probe_def Let_def split: prod.splits intro: one_send)

lemma pump_one_calls: "pump_one T dest r msg s n = (s', n') \<Longrightarrow> calls T dest n n'"
  by (auto simp: pump_one_def Let_def split: prod.splits if_splits dest!: sent_calls now_calls [where dest = dest] intro: calls_then)

lemma pump_calls: "pump T dest wp r s n = (s', n') \<Longrightarrow> calls T dest n n'"
proof (induction T dest wp r s n rule: pump.induct)
  case (1 T dest wp r s n)
  show ?case
  proof (cases "pending s \<noteq> [] \<and> length (ring s) < effective_window wp s")
    case True
    then obtain msg rest where p: "pending s = msg # rest" "length (ring s) < effective_window wp s" by (cases "pending s") auto
    obtain t n1 where t: "t_now T n = (t, n1)" by fastforce
    obtain s2 n2 where o: "pump_one T dest r msg (s\<lparr>pending := rest\<rparr>) n1 = (s2, n2)" by fastforce
    have c: "calls T dest n n1" using t by (rule now_calls)
    have "calls T dest n n2" using calls_then [OF c pump_one_calls [OF o]] .
    moreover have "calls T dest n2 n'" if "ready (congestion s) t"
      using 1(1) [OF p(1,2) refl t [symmetric] _ refl o [symmetric]] that 1(2) p t o by (simp add: pump.simps [of T dest wp r s n])
    ultimately show ?thesis using 1(2) p t o c by (cases "ready (congestion s) t") (auto simp: pump.simps [of T dest wp r s n])
  next
    case False
    then show ?thesis using 1(2) by (auto simp: pump.simps [of T dest wp r s n] split: list.splits)
  qed
qed

lemma maybe_arm_calls: "maybe_arm_persist T s n = (s', n') \<Longrightarrow> calls T dest n n'"
  by (auto simp: maybe_arm_persist_def Let_def split: prod.splits if_splits dest!: now_calls [where dest = dest])

lemma pump_and_arm_calls: "pump_and_arm T s n = (s', n') \<Longrightarrow> calls T (peer s) n n' \<and> peer s' = peer s"
  by (auto simp: pump_and_arm_def Let_def split: prod.splits dest!: pump_calls maybe_arm_calls [where dest = "peer s"] intro: calls_then)

lemma send_calls: "send T c d s n = (ok, s', n') \<Longrightarrow> calls T (peer s) n n' \<and> peer s' = peer s"
  by (auto simp: send_def Let_def split: prod.splits if_splits dest!: pump_and_arm_calls intro: one_send)

lemma process_cum_ack_calls: "process_cum_ack T a s n = (s', n') \<Longrightarrow> calls T dest n n'"
  by (auto simp: process_cum_ack_def Let_def split: prod.splits if_splits dest!: now_calls [where dest = dest])

lemma retransmit_calls: "retransmit T dest sl s n = (sl', s', n') \<Longrightarrow> calls T dest n n'"
  by (auto simp: retransmit_def Let_def split: prod.splits if_splits dest!: sent_calls now_calls [where dest = dest] intro: calls_then)

lemma fast_retransmit_calls: "fast_retransmit T dest sl s n = (sl', s', n') \<Longrightarrow> calls T dest n n'"
  by (auto simp: fast_retransmit_def Let_def split: prod.splits if_splits dest!: sent_calls now_calls [where dest = dest] intro: calls_then)

lemma fast_loop_calls: "fast_loop T dest k sls s n = (sls', s', n') \<Longrightarrow> calls T dest n n'"
proof (induction T dest k sls s n arbitrary: sls' s' n' rule: fast_loop.induct)
  case (2 T dest k sl rest s n)
  then show ?case by (auto simp: Let_def split: prod.splits if_splits dest!: fast_retransmit_calls intro: calls_then)
qed simp

lemma process_sack_calls: "process_sack T dest a bm s n = (s', n') \<Longrightarrow> calls T dest n n'"
  by (auto simp: process_sack_def Let_def split: prod.splits dest!: fast_loop_calls now_calls [where dest = dest] intro: calls_then)

section \<open>poll and tick\<close>

lemma handle_data_calls: "handle_data T dest p r n = (r', n') \<Longrightarrow> calls T dest n n'"
  by (auto simp: handle_data_def handle_reliable_def split: if_splits dest!: send_ack_calls)

lemma process_packet_calls: "process_packet T p s n = (s', n') \<Longrightarrow> calls T (peer s) n n' \<and> peer s' = peer s"
  by (auto simp: process_packet_def Let_def split: prod.splits if_splits
      dest!: handle_data_calls send_ack_calls process_sack_calls process_cum_ack_calls [where dest = "peer s"] intro: calls_then)

lemma on_datagram_calls: "on_datagram T d src s n = (s', n') \<Longrightarrow> calls T (peer s) n n' \<and> peer s' = peer s"
  by (auto simp: on_datagram_def split: sum.splits if_splits dest!: process_packet_calls)

lemma poll_loop_calls: "poll_loop T k s n = (b, s', n') \<Longrightarrow> calls T (peer s) n n' \<and> peer s' = peer s"
proof (induction k arbitrary: s n)
  case (Suc k)
  obtain x n1 where x: "t_recv T kMaxDatagram n = (x, n1)" by fastforce
  have c: "calls T (peer s) n n1" using x by (rule recv_calls)
  show ?case
  proof (cases x)
    case (Some m)
    obtain s2 n2 where o: "on_datagram T (fst m) (snd m) s n1 = (s2, n2)" by fastforce
    then have "poll_loop T k s2 n2 = (b, s', n')" using Suc(2) x Some by (auto split: prod.splits)
    from Suc(1) [OF this] on_datagram_calls [OF o] c show ?thesis by (auto intro: calls_then)
  qed (use Suc(2) x c in auto)
qed auto

lemma poll_calls: "poll T s n = (b, s', n') \<Longrightarrow> calls T (peer s) n n' \<and> peer s' = peer s"
  by (auto simp: poll_def Let_def split: prod.splits dest!: poll_loop_calls pump_and_arm_calls intro: calls_then)

lemma retransmit_seq_calls: "retransmit_seq T dest q sls s n = (sls', s', n') \<Longrightarrow> calls T dest n n'"
  by (induction T dest q sls s n arbitrary: sls' s' n' rule: retransmit_seq.induct)
    (auto simp: Let_def split: prod.splits if_splits dest!: retransmit_calls)

lemma timer_fired_calls: "timer_fired T dest r tid s n = (s', n') \<Longrightarrow> calls T dest n n'"
  by (auto simp: timer_fired_def Let_def split: prod.splits if_splits option.splits dest!: retransmit_seq_calls now_calls [where dest = dest]
      intro: calls_then send_probe_calls)

lemma tick_loop_calls:
  assumes "tick_loop T dest r now s n = Some (s', n')"
  shows "calls T dest n n'"
proof -
  let ?P = "\<lambda>T dest r now s n (x :: SendSide \<times> 'a). calls T dest n (snd x)"
  have "?P T dest r now s n (s', n')"
  proof (rule tick_loop.raw_induct [where P = ?P, OF _ assms])
    fix tl and T :: "'a UdpTransport" and dest r now s n x
    assume ih: "\<And>T dest r now s n x. tl T dest r now s n = Some x \<Longrightarrow> ?P T dest r now s n x"
      and x: "(case pop_due (timers s) now of
          (None, th) \<Rightarrow> Some (s\<lparr>timers := th\<rparr>, n)
        | (Some tid, th) \<Rightarrow> (case timer_fired T dest r tid (s\<lparr>timers := th\<rparr>) n of (s, n) \<Rightarrow> tl T dest r now s n)) = Some x"
    show "?P T dest r now s n x"
      using x by (auto split: prod.splits option.splits dest!: timer_fired_calls ih intro: calls_then)
  qed
  then show ?thesis by simp
qed

lemma tick_calls: "tick T s n = Some (s', n') \<Longrightarrow> calls T (peer s) n n' \<and> peer s' = peer s"
  by (auto simp: tick_def Let_def split: prod.splits option.splits dest!: tick_loop_calls pump_and_arm_calls now_calls [where dest = "peer s"]
      intro: calls_then)

lemma set_receiving_calls: "set_receiving T b s n = (s', n') \<Longrightarrow> calls T (peer s) n n' \<and> peer s' = peer s"
  by (auto simp: set_receiving_def Let_def split: prod.splits if_splits dest!: send_ack_calls)

end
