(* ===== verification/Session_One_Way.thy ===== *)
theory Session_One_Way
  imports Session_Handler Session_Calls
begin

text \<open>
  Two sessions used in one direction over the simulator: one side sends messages of the ordered class and registers no handler, the
  other listens. \<open>one_way\<close> says which messages have been accepted so far, and that unreliable messages, if any, came from the set \<open>U\<close>; its rules
  follow the session calls a program makes.
\<close>

section \<open>The log of a listening session\<close>

lemma pump_and_arm_rx: "pump_and_arm T s n = (s', n') \<Longrightarrow> rx_side s' = rx_side s"
  by (auto simp: pump_and_arm_def Let_def split: prod.splits)

lemma tick_rx: "tick T s n = Some (s', n') \<Longrightarrow> rx_side s' = rx_side s"
  by (auto simp: tick_def Let_def split: prod.splits option.splits dest!: pump_and_arm_rx)

lemma send_rx: "send T c d s n = (ok, s', n') \<Longrightarrow> rx_side s' = rx_side s"
  by (auto simp: send_def Let_def split: prod.splits if_splits dest!: pump_and_arm_rx)

lemma emit_log: "prefix (app_log r) (app_log (emit_to_app c d r))"
  by (simp add: emit_to_app_def Let_def)

lemma queue_or_emit_log: "prefix (app_log r) (app_log (queue_or_emit c d r))"
  using emit_log by (simp add: queue_or_emit_def)

lemma flush_one_log: "prefix (app_log r) (app_log (flush_one e r))"
  using emit_log [of r] by (simp add: flush_one_def Let_def)

lemma flush_log: "prefix (app_log r) (app_log (flush_reassembled r))"
proof (induction r rule: flush_reassembled.induct)
  case (1 r)
  then show ?case using flush_one_log prefix_order.trans
    by (cases "map_of (reasm r) (rcv_next r)") (force simp: flush_reassembled.simps [of r])+
qed

lemma handle_unreliable_log: "prefix (app_log r) (app_log (handle_unreliable p r))"
  by (simp add: handle_unreliable_def Let_def emit_to_app_def)

lemma accept_log: "prefix (app_log r) (app_log (accept_reliable p r))"
proof (cases rule: accept_cases [of p r])
  case in_order
  let ?r = "(queue_or_emit (p_cls p) (p_payload p) r)\<lparr>rcv_next := rcv_next r + 1\<rparr>"
  have "prefix (app_log r) (app_log ?r)" using queue_or_emit_log by simp
  from prefix_order.trans [OF this flush_log] show ?thesis using in_order by (simp add: accept_next)
qed (simp_all add: accept_unordered accept_ordered queue_or_emit_log)

lemma send_ack_log [simp]: "app_log (fst (send_ack T dest r n)) = app_log r"
  by (rule send_ack_frame [of T dest r n]) simp

lemma handle_data_log: "prefix (app_log r) (app_log (fst (handle_data T dest p r n)))"
  by (simp add: handle_data_def handle_reliable_def handle_unreliable_log accept_log)

lemma on_datagram_log: "prefix (app_log (rx_side s)) (app_log (rx_side (fst (on_datagram T d src s n))))"
  by (auto simp: on_datagram_def process_packet_def Let_def split_beta handle_data_log split: sum.split)

lemma poll_loop_log: "prefix (app_log (rx_side s)) (app_log (rx_side (fst (snd (poll_loop T k s n)))))"
proof (induction k arbitrary: s n)
  case (Suc k)
  obtain x n1 where x: "t_recv T kMaxDatagram n = (x, n1)" by fastforce
  show ?case
  proof (cases x)
    case (Some m)
    obtain s2 n2 where o: "on_datagram T (fst m) (snd m) s n1 = (s2, n2)" by fastforce
    have "prefix (app_log (rx_side s)) (app_log (rx_side s2))" using on_datagram_log [of s T "fst m" "snd m" n1] o by simp
    from prefix_order.trans [OF this Suc(1) [of s2 n2]] show ?thesis using x Some o by (simp add: case_prod_unfold)
  qed (use x in simp)
qed simp

lemma poll_log: "poll T s n = (b, s', n') \<Longrightarrow> prefix (app_log (rx_side s)) (app_log (rx_side s'))"
  using poll_loop_log [of s T "unat (max_recv_per_poll (cfg s))" n]
  by (auto simp: poll_def Let_def split: prod.splits dest!: pump_and_arm_rx)

text \<open>When the peer accepted ordered messages only and sent no unreliable ones, the whole log is a prefix of what it accepted.\<close>

lemma ordered_only_prefix:
  assumes "sess_inv {} out acc R s" "\<And>m. m \<in> set acc \<Longrightarrow> fst m = ReliableOrdered"
  shows "prefix (app_log (rx_side s)) acc"
proof -
  let ?l = "app_log (rx_side s)"
  have c: "rx_content acc (rx_side s)" "rx_inv (rx_side s)" using assms(1) by (simp_all add: sess_inv_def)
  have "of_class ReliableUnordered acc = []" using assms(2) by (auto simp: of_class_def filter_empty_conv)
  then have "of_class ReliableUnordered ?l = []" using unordered_subset [OF c] by simp
  moreover have "(Unreliable, d) \<notin> set ?l" for d using unreliable_sent [OF assms(1)] by auto
  ultimately have "fst m = ReliableOrdered" if "m \<in> set ?l" for m
    using that by (cases m; cases "fst m") (auto simp: of_class_def filter_empty_conv)
  then have "of_class ReliableOrdered ?l = ?l" by (simp add: of_class_def)
  moreover have "of_class ReliableOrdered acc = acc" using assms(2) by (simp add: of_class_def)
  ultimately show ?thesis using ordered_prefix [OF c(1)] by simp
qed

section \<open>One-way runs\<close>

definition one_way :: "bytes set \<Rightarrow> Endpoint \<Rightarrow> Endpoint \<Rightarrow> Config \<Rightarrow> SimNet \<Rightarrow> bytes list \<Rightarrow> Session \<Rightarrow> Session \<Rightarrow> SimNet \<Rightarrow> bool" where
  "one_way U ea eb c n0 ps sa sb n \<longleftrightarrow>
     pair_reach U {} (sim_transport ea) (sim_transport eb) (sim_env ea eb) (one_way_pair ea eb c c n0)
       \<lparr>pa = sa, pb = sb, net = n, acc_a = map (Pair ReliableOrdered) ps, acc_b = []\<rparr>
     \<and> length ps < 2 ^ 32"

lemma one_way_start: "one_way U ea eb c n0 [] (new_session eb c) (set_on_message (new_session ea c)) n0"
  using pair_reach.start [of U "{}" "sim_transport ea" "sim_transport eb" "sim_env ea eb" "one_way_pair ea eb c c n0"]
  by (simp add: one_way_def one_way_pair_def)

lemma one_way_side_a:
  assumes "one_way U ea eb c n0 ps sa sb n" "side_step U (sim_transport ea) (sa, n, map (Pair ReliableOrdered) ps) (sa', n', map (Pair ReliableOrdered) ps')"
    "length ps' < 2 ^ 32"
  shows "one_way U ea eb c n0 ps' sa' sb n'"
  using pair_reach.step [OF _ pair_step.side_a, of U "{}" "sim_transport ea" "sim_transport eb" "sim_env ea eb" "one_way_pair ea eb c c n0"
      "\<lparr>pa = sa, pb = sb, net = n, acc_a = map (Pair ReliableOrdered) ps, acc_b = []\<rparr>" sa' n' "map (Pair ReliableOrdered) ps'"] assms
  by (simp add: one_way_def)

lemma one_way_send:
  assumes "one_way U ea eb c n0 ps sa sb n" "send (sim_transport ea) ReliableOrdered d sa n = (ok, sa', n')" "Suc (length ps) < 2 ^ 32"
  shows "one_way U ea eb c n0 (ps @ (if ok then [d] else [])) sa' sb n'"
proof (rule one_way_side_a [OF assms(1)])
  show "side_step U (sim_transport ea) (sa, n, map (Pair ReliableOrdered) ps) (sa', n', map (Pair ReliableOrdered) (ps @ (if ok then [d] else [])))"
    using side_step.send [OF _ assms(2), of U "map (Pair ReliableOrdered) ps"] by (cases ok) auto
qed (use assms(3) in simp)

lemma one_way_unreliable:
  assumes "one_way U ea eb c n0 ps sa sb n" "send (sim_transport ea) Unreliable d sa n = (ok, sa', n')" "d \<in> U"
  shows "one_way U ea eb c n0 ps sa' sb n'"
proof (rule one_way_side_a [OF assms(1)])
  show "side_step U (sim_transport ea) (sa, n, map (Pair ReliableOrdered) ps) (sa', n', map (Pair ReliableOrdered) ps)"
    using side_step.send [OF _ assms(2), of U "map (Pair ReliableOrdered) ps"] assms(3) by auto
qed (use assms(1) in \<open>simp add: one_way_def\<close>)

lemma one_way_poll_a: "one_way U ea eb c n0 ps sa sb n \<Longrightarrow> poll (sim_transport ea) sa n = (b, sa', n') \<Longrightarrow> one_way U ea eb c n0 ps sa' sb n'"
  by (rule one_way_side_a) (auto intro: side_step.poll simp: one_way_def)

lemma one_way_tick_a: "one_way U ea eb c n0 ps sa sb n \<Longrightarrow> tick (sim_transport ea) sa n = Some (sa', n') \<Longrightarrow> one_way U ea eb c n0 ps sa' sb n'"
  by (rule one_way_side_a) (auto intro: side_step.tick simp: one_way_def)

lemma one_way_side_b:
  assumes "one_way U ea eb c n0 ps sa sb n" "side_step {} (sim_transport eb) (sb, n, []) (sb', n', [])"
  shows "one_way U ea eb c n0 ps sa sb' n'"
  using pair_reach.step [OF _ pair_step.side_b, of U "{}" "sim_transport ea" "sim_transport eb" "sim_env ea eb" "one_way_pair ea eb c c n0"
      "\<lparr>pa = sa, pb = sb, net = n, acc_a = map (Pair ReliableOrdered) ps, acc_b = []\<rparr>" sb' n' "[]"] assms
  by (simp add: one_way_def)

lemma one_way_poll_b: "one_way U ea eb c n0 ps sa sb n \<Longrightarrow> poll (sim_transport eb) sb n = (b, sb', n') \<Longrightarrow> one_way U ea eb c n0 ps sa sb' n'"
  by (rule one_way_side_b) (auto intro: side_step.poll)

lemma one_way_tick_b: "one_way U ea eb c n0 ps sa sb n \<Longrightarrow> tick (sim_transport eb) sb n = Some (sb', n') \<Longrightarrow> one_way U ea eb c n0 ps sa sb' n'"
  by (rule one_way_side_b) (auto intro: side_step.tick)

lemma one_way_advance:
  assumes "one_way U ea eb c n0 ps sa sb n"
  shows "one_way U ea eb c n0 ps sa sb (advance n k)"
proof -
  have "sim_env ea eb n (advance n k)" by (auto simp: sim_env_def)
  then show ?thesis
    using pair_reach.step [OF _ pair_step.outside, of U "{}" "sim_transport ea" "sim_transport eb" "sim_env ea eb" "one_way_pair ea eb c c n0"
      "\<lparr>pa = sa, pb = sb, net = n, acc_a = map (Pair ReliableOrdered) ps, acc_b = []\<rparr>" "advance n k"] assms
    by (simp add: one_way_def)
qed

text \<open>The two endpoints differ, the configuration is admissible, and the network starts without datagrams of theirs.\<close>

definition one_way_ok :: "Endpoint \<Rightarrow> Endpoint \<Rightarrow> Config \<Rightarrow> SimNet \<Rightarrow> bool" where
  "one_way_ok ea eb c n0 \<longleftrightarrow> ea \<noteq> eb \<and> config_ok c \<and> (\<forall>e d. (ea, d) \<notin> sim_wire n0 e \<and> (eb, d) \<notin> sim_wire n0 e)"

lemma one_way_muted:
  assumes "one_way U ea eb c n0 ps sa sb n" "one_way_ok ea eb c n0"
  obtains y where "\<lparr>pa = sa, pb = sb, net = n, acc_a = map (Pair ReliableOrdered) ps, acc_b = []\<rparr> = mute_a y" "pair.pair_inv ea eb U {} y"
  by (rule pair.one_way_inv [of U "{}" ea eb c c n0]) (use assms that in \<open>auto simp: one_way_def one_way_ok_def\<close>)

lemma one_way_log:
  assumes "one_way {} ea eb c n0 ps sa sb n" "one_way_ok ea eb c n0"
  shows "prefix (app_log (rx_side sb)) (map (Pair ReliableOrdered) ps)"
proof -
  obtain y where y: "\<lparr>pa = sa, pb = sb, net = n, acc_a = map (Pair ReliableOrdered) ps, acc_b = []\<rparr> = mute_a y"
    and inv: "pair.pair_inv ea eb {} {} y"
    by (rule one_way_muted [OF assms])
  have "pb y = sb" "acc_a y = map (Pair ReliableOrdered) ps"
    using arg_cong [OF y, of pb] arg_cong [OF y, of acc_a] by simp_all
  then show ?thesis using inv by (intro ordered_only_prefix) (auto simp: pair.pair_inv_def)
qed

text \<open>With unreliable messages from \<open>U\<close> in between, what is handed over is those and a prefix of the accepted ones.\<close>

lemma one_way_mixed_log:
  assumes "one_way U ea eb c n0 ps sa sb n" "one_way_ok ea eb c n0"
  shows "prefix (filter (\<lambda>m. fst m \<noteq> Unreliable) (app_log (rx_side sb))) (map (Pair ReliableOrdered) ps)"
    and "(Unreliable, d) \<in> set (app_log (rx_side sb)) \<Longrightarrow> d \<in> U"
proof -
  obtain y where y: "\<lparr>pa = sa, pb = sb, net = n, acc_a = map (Pair ReliableOrdered) ps, acc_b = []\<rparr> = mute_a y"
    and inv: "pair.pair_inv ea eb U {} y"
    by (rule one_way_muted [OF assms])
  let ?l = "app_log (rx_side sb)" and ?acc = "map (Pair ReliableOrdered) ps"
  have "pb y = sb" "acc_a y = ?acc" using arg_cong [OF y, of pb] arg_cong [OF y, of acc_a] by simp_all
  then obtain R out where s: "sess_inv U out ?acc R sb" using inv by (auto simp: pair.pair_inv_def)
  then show "(Unreliable, d) \<in> set ?l \<Longrightarrow> d \<in> U" by (rule unreliable_sent)
  have c: "rx_content ?acc (rx_side sb)" "rx_inv (rx_side sb)" using s by (simp_all add: sess_inv_def)
  have "of_class ReliableUnordered ?acc = []" by (simp add: of_class_def filter_empty_conv)
  then have "of_class ReliableUnordered ?l = []" using unordered_subset [OF c] by simp
  then have "fst m \<noteq> ReliableUnordered" if "m \<in> set ?l" for m using that by (auto simp: of_class_def filter_empty_conv)
  then have "filter (\<lambda>m. fst m \<noteq> Unreliable) ?l = of_class ReliableOrdered ?l"
    unfolding of_class_def by (intro filter_cong refl) (metis Class.exhaust Class.distinct)
  moreover have "of_class ReliableOrdered ?acc = ?acc" by (simp add: of_class_def)
  ultimately show "prefix (filter (\<lambda>m. fst m \<noteq> Unreliable) ?l) ?acc" using ordered_prefix [OF c(1)] by simp
qed

lemma one_way_ticks:
  assumes "one_way U ea eb c n0 ps sa sb n" "one_way_ok ea eb c n0"
  shows "tick (sim_transport ea) sa n \<noteq> None" "tick (sim_transport eb) sb n \<noteq> None"
proof -
  obtain y where y: "\<lparr>pa = sa, pb = sb, net = n, acc_a = map (Pair ReliableOrdered) ps, acc_b = []\<rparr> = mute_a y"
    and inv: "pair.pair_inv ea eb U {} y"
    by (rule one_way_muted [OF assms])
  have "sa = pa (mute_a y)" "sb = pb y" "n = net y"
    using arg_cong [OF y, of pa] arg_cong [OF y, of pb] arg_cong [OF y, of net] by simp_all
  then show "tick (sim_transport ea) sa n \<noteq> None" "tick (sim_transport eb) sb n \<noteq> None"
    using pair.one_way_tick [OF inv] pair.pair_tick_b [OF inv] by auto
qed

text \<open>The clock of the simulator moves with \<^verbatim>\<open>advance\<close> only.\<close>

lemma deliver_now: "deliver src dest d n = Some n' \<Longrightarrow> sim_now n' = sim_now n"
  using deliver_boxes by blast

lemma sim_calls_now: "calls (sim_transport e) dest n n' \<Longrightarrow> sim_now n' = sim_now n"
  by (erule calls_keep) (auto elim!: transport_call.cases simp: sim_transport_def deliver_now split: option.splits)

end
