(* ===== verification/File_Transfer.thy ===== *)
theory File_Transfer
  imports Udp_Socket Sha256 Session_One_Way
begin

text \<open>
  The file-transfer programs \<^verbatim>\<open>demo/send_file.cc\<close> and \<^verbatim>\<open>demo/recv_file.cc\<close> with their shared \<^verbatim>\<open>demo/file_xfer.h\<close>, on top of the
  session and the socket transport. The sender's \<open>feed\<close> turns the file into a header and chunks of 1024 bytes and offers them to the
  session; the receiver's handler rebuilds the file from the messages of the session. \<open>transfer_step\<close> interleaves the calls of the two
  programs (\<open>feed\<close>, \<open>poll\<close>, \<open>tick\<close>) with each other and with the network, \<open>file_step\<close> is the same with \<open>feed\<close> taken apart for the proofs; the theorems say what the receiver holds, and what the sender knows when it stops.
  Reading and writing the file itself is left to the caller: the model starts from the bytes read and ends at the bytes to write.
\<close>

section \<open>Shared code\<close>

definition kHeaderLen :: nat where
  "kHeaderLen = 8"

definition kChunk :: nat where
  "kChunk = 1024"

record HostPort =
  hp_ip :: string
  hp_port :: u16

text \<open>\<^verbatim>\<open>std::string_view::rfind\<close> and \<^verbatim>\<open>std::atol\<close>. A number too large for \<^verbatim>\<open>long\<close> is kept exact here; the caller rejects it.\<close>

definition rfind :: "char \<Rightarrow> string \<Rightarrow> nat option" where
  "rfind c s = (if c \<in> set s then Some (length s - Suc (length (takeWhile (\<lambda>x. x \<noteq> c) (rev s)))) else None)"

definition is_space :: "char \<Rightarrow> bool" where
  "is_space c \<longleftrightarrow> c \<in> {CHR '' '', CHR 0x09, CHR 0x0A, CHR 0x0B, CHR 0x0C, CHR 0x0D}"

definition digit_value :: "char \<Rightarrow> int" where
  "digit_value c = of_char c - 48"

definition is_digit :: "char \<Rightarrow> bool" where
  "is_digit c \<longleftrightarrow> 0 \<le> digit_value c \<and> digit_value c \<le> 9"

definition digits :: "string \<Rightarrow> int" where
  "digits s = foldl (\<lambda>v c. 10 * v + digit_value c) 0 (takeWhile is_digit s)"

definition atol :: "string \<Rightarrow> int" where
  "atol s =
     (case dropWhile is_space s of
        [] \<Rightarrow> 0
      | c # rest \<Rightarrow> if c = CHR ''-'' then - digits rest else if c = CHR ''+'' then digits rest else digits (c # rest))"

definition parse_hostport :: "string \<Rightarrow> HostPort option" where
  "parse_hostport s =
     (case rfind CHR '':'' s of
        None \<Rightarrow> None
      | Some colon \<Rightarrow>
          if colon = 0 \<or> length s \<le> colon + 1 then None
          else let port = atol (drop (colon + 1) s)
               in if port \<le> 0 \<or> port > 65535 then None
                  else Some \<lparr>hp_ip = take colon s, hp_port = word_of_int port\<rparr>)"

section \<open>send_file\<close>

text \<open>The header: the file length, little endian.\<close>

definition file_header :: "u64 \<Rightarrow> bytes" where
  "file_header len = map (\<lambda>i. ucast (drop_bit (8 * i) len AND 0xFF)) [0..<kHeaderLen]"

record Feeder =
  header_sent :: bool
  feed_off :: nat

definition new_feeder :: Feeder where
  "new_feeder = \<lparr>header_sent = False, feed_off = 0\<rparr>"

function feed_loop :: "'n UdpTransport \<Rightarrow> bytes \<Rightarrow> nat \<Rightarrow> Session \<Rightarrow> 'n \<Rightarrow> nat \<times> Session \<times> 'n" where
  "feed_loop T data off s n =
     (if off < length data then
        let k = min kChunk (length data - off);
            (ok, s, n) = send T ReliableOrdered (take k (drop off data)) s n
        in if ok then feed_loop T data (off + k) s n else (off, s, n)
      else (off, s, n))"
  by pat_completeness auto
termination by (relation "measure (\<lambda>(_, data, off, _, _). length data - off)") (auto simp: kChunk_def)

declare feed_loop.simps [simp del]

definition feed :: "'n UdpTransport \<Rightarrow> bytes \<Rightarrow> Feeder \<Rightarrow> Session \<Rightarrow> 'n \<Rightarrow> Feeder \<times> Session \<times> 'n" where
  "feed T data f s n =
     (let (f, s, n) = (if \<not> header_sent f then
            let (ok, s, n) = send T ReliableOrdered (file_header (word_of_nat (length data))) s n
            in (f\<lparr>header_sent := ok\<rparr>, s, n) else (f, s, n))
      in if \<not> header_sent f then (f, s, n)
         else let (off, s, n) = feed_loop T data (feed_off f) s n in (f\<lparr>feed_off := off\<rparr>, s, n))"

definition send_done :: "bytes \<Rightarrow> Feeder \<Rightarrow> Session \<Rightarrow> bool" where
  "send_done data f s \<longleftrightarrow> header_sent f \<and> feed_off f = length data \<and> length (ring (tx_side s)) = 0"

text \<open>
  The main loop, with the exit code. \<open>wait\<close> is the call of \<^verbatim>\<open>poll\<close> that sleeps until the socket is readable; a loop that
  never ends is \<open>None\<close>.
\<close>

partial_function (option) send_loop ::
    "'n UdpTransport \<Rightarrow> ('n \<Rightarrow> 'n) \<Rightarrow> bytes \<Rightarrow> time_point \<Rightarrow> Feeder \<Rightarrow> Session \<Rightarrow> 'n \<Rightarrow> (nat \<times> Feeder \<times> Session \<times> 'n) option" where
  "send_loop T wait data limit f s n =
     (let (f, s, n) = feed T data f s n;
          (_, s, n) = poll T s n
      in Option.bind (tick T s n) (\<lambda>(s, n).
           if send_done data f s then Some (0, f, s, n)
           else let (now, n) = t_now T n
                in if limit < now then Some (3, f, s, n)
                   else send_loop T wait data limit f s (wait n)))"

section \<open>recv_file\<close>

record FileBody =
  have_len :: bool
  expected :: u64
  fbody :: bytes

definition new_body :: FileBody where
  "new_body = \<lparr>have_len = False, expected = 0, fbody = []\<rparr>"

text \<open>The message handler; it does not look at the class.\<close>

definition read_length :: "bytes \<Rightarrow> u64" where
  "read_length p = foldl (\<lambda>v i. v OR push_bit (8 * i) (ucast (p ! i))) 0 [0..<min kHeaderLen (length p)]"

definition on_file_message :: "FileBody \<Rightarrow> message \<Rightarrow> FileBody" where
  "on_file_message b m =
     (if \<not> have_len b then b\<lparr>expected := read_length (snd m), have_len := True\<rparr>
      else b\<lparr>fbody := fbody b @ snd m\<rparr>)"

definition complete :: "FileBody \<Rightarrow> bool" where
  "complete b \<longleftrightarrow> have_len b \<and> unat (expected b) \<le> length (fbody b)"

text \<open>What the program has built from the messages its session has handed it.\<close>

definition file_body :: "Session \<Rightarrow> FileBody" where
  "file_body s = foldl on_file_message new_body (app_log (rx_side s))"

text \<open>\<^verbatim>\<open>body.resize(expected)\<close> cuts, or pads with zero bytes.\<close>

definition resized :: "FileBody \<Rightarrow> bytes" where
  "resized b = take (unat (expected b)) (fbody b) @ replicate (unat (expected b) - length (fbody b)) 0"

partial_function (option) recv_loop ::
    "'n UdpTransport \<Rightarrow> ('n \<Rightarrow> 'n) \<Rightarrow> time_point \<Rightarrow> Session \<Rightarrow> 'n \<Rightarrow> (nat \<times> Session \<times> 'n) option" where
  "recv_loop T wait limit s n =
     (if complete (file_body s) then Some (0, s, n)
      else let (_, s, n) = poll T s n
           in Option.bind (tick T s n) (\<lambda>(s, n).
                if complete (file_body s) then Some (0, s, n)
                else let (now, n) = t_now T n
                     in if limit < now then Some (3, s, n) else recv_loop T wait limit s (wait n)))"

partial_function (option) linger_loop :: "'n UdpTransport \<Rightarrow> ('n \<Rightarrow> 'n) \<Rightarrow> time_point \<Rightarrow> Session \<Rightarrow> 'n \<Rightarrow> (Session \<times> 'n) option" where
  "linger_loop T wait until s n =
     (let (now, n) = t_now T n
      in if now < until then
           let (_, s, n) = poll T s n
           in Option.bind (tick T s n) (\<lambda>(s, n). linger_loop T wait until s (wait n))
         else Some (s, n))"

section \<open>Frames\<close>

function chunks :: "bytes \<Rightarrow> bytes list" where
  "chunks xs = (if xs = [] then [] else take kChunk xs # chunks (drop kChunk xs))"
  by pat_completeness auto
termination by (relation "measure length") (auto simp: kChunk_def)

declare chunks.simps [simp del]

definition frames :: "bytes \<Rightarrow> bytes list" where
  "frames data = file_header (word_of_nat (length data)) # chunks data"

lemma concat_chunks [simp]: "concat (chunks xs) = xs"
  by (induction xs rule: chunks.induct) (simp add: chunks.simps)

lemma chunks_Nil [simp]: "chunks [] = []"
  by (simp add: chunks.simps)

lemma length_chunks: "length (chunks xs) * kChunk < length xs + kChunk"
proof (induction xs rule: chunks.induct)
  case (1 xs)
  show ?case
  proof (cases "length xs \<le> kChunk")
    case True
    then show ?thesis by (auto simp: chunks.simps [of xs] kChunk_def)
  next
    case False
    then have "xs \<noteq> []" by auto
    from 1 [OF this] False this show ?thesis by (simp add: chunks.simps [of xs])
  qed
qed

lemma file_header_le64: "file_header v = le64 v"
proof -
  have "ucast (x AND 0xFF) = (ucast x :: byte)" for x :: u64
  proof -
    have "(0xFF :: u64) = mask 8" by (simp add: mask_numeral)
    then show ?thesis by (auto intro!: bit_word_eqI simp: bit_simps)
  qed
  then show ?thesis by (simp add: file_header_def le64_def kHeaderLen_def)
qed

lemma read_length_header [simp]: "read_length (file_header v) = v"
proof -
  have "length (le64 v) = 8" by (simp add: le64_def)
  then have "read_length (le64 v) = ld64 (le64 v)" by (simp add: read_length_def ld64_def kHeaderLen_def)
  then show ?thesis by (simp add: file_header_le64)
qed

lemma on_file_body:
  "have_len b \<Longrightarrow> foldl on_file_message b (map (Pair c) ps) = b\<lparr>fbody := fbody b @ concat ps\<rparr>"
  by (induction ps arbitrary: b) (simp_all add: on_file_message_def)

lemma on_file_frames:
  assumes "ps = take j (frames data)" "j \<noteq> 0"
  shows "foldl on_file_message new_body (map (Pair c) ps) =
    \<lparr>have_len = True, expected = word_of_nat (length data), fbody = concat (take (j - 1) (chunks data))\<rparr>"
proof -
  have "ps = file_header (word_of_nat (length data)) # take (j - 1) (chunks data)"
    using assms by (cases j) (simp_all add: frames_def)
  then show ?thesis by (simp add: on_file_message_def on_file_body new_body_def)
qed

lemma concat_take_prefix: "prefix (concat (take j xs)) (concat xs)"
  by (metis append_take_drop_id concat_append prefixI)

section \<open>Host and port\<close>

lemma rfind_append:
  assumes "c \<notin> set b"
  shows "rfind c (a @ c # b) = Some (length a)"
proof -
  have "takeWhile (\<lambda>x. x \<noteq> c) (rev b @ c # rev a) = rev b" using assms by (subst takeWhile_append2) auto
  then show ?thesis by (simp add: rfind_def)
qed

lemma parse_hostport_split:
  assumes "CHR '':'' \<notin> set b" "a \<noteq> []" "b \<noteq> []" "0 < atol b" "atol b \<le> 65535"
  shows "parse_hostport (a @ CHR '':'' # b) = Some \<lparr>hp_ip = a, hp_port = word_of_int (atol b)\<rparr>"
  using assms by (auto simp: parse_hostport_def rfind_append Let_def)

text \<open>Trailing characters after the number are ignored.\<close>

lemma parse_hostport_trailing: "parse_hostport ''h:7001x'' = Some \<lparr>hp_ip = ''h'', hp_port = 7001\<rparr>"
  using parse_hostport_split [of "''7001x''" "''h''"] by (simp add: atol_def digits_def is_space_def is_digit_def digit_value_def of_char_def)

section \<open>Runs of the two programs\<close>

text \<open>
  The session calls of the sender and of the receiver, and the environment, interleaved. The sender offers the header until it is
  accepted, then the chunks; both sides poll and tick. (The order in which a program makes its calls is one of the orders allowed here.)
\<close>

type_synonym 'n FileRun = "'n Pair \<times> Feeder"

definition chunk_at :: "bytes \<Rightarrow> nat \<Rightarrow> bytes" where
  "chunk_at data off = take (min kChunk (length data - off)) (drop off data)"

definition offer :: "'n UdpTransport \<Rightarrow> bytes \<Rightarrow> 'n Pair \<Rightarrow> bool \<times> 'n Pair" where
  "offer T d y =
     (let (ok, s, n) = send T ReliableOrdered d (pa y) (net y)
      in (ok, y\<lparr>pa := s, net := n, acc_a := acc_a y @ (if ok then [(ReliableOrdered, d)] else [])\<rparr>))"

inductive file_step :: "'n UdpTransport \<Rightarrow> 'n UdpTransport \<Rightarrow> ('n \<Rightarrow> 'n \<Rightarrow> bool) \<Rightarrow> bytes \<Rightarrow> 'n FileRun \<Rightarrow> 'n FileRun \<Rightarrow> bool"
  for TA TB env data where
  header: "\<not> header_sent f \<Longrightarrow> offer TA (file_header (word_of_nat (length data))) y = (ok, y') \<Longrightarrow>
    file_step TA TB env data (y, f) (y', f\<lparr>header_sent := ok\<rparr>)"
| chunk: "header_sent f \<Longrightarrow> feed_off f < length data \<Longrightarrow> offer TA (chunk_at data (feed_off f)) y = (ok, y') \<Longrightarrow>
    file_step TA TB env data (y, f) (y', if ok then f\<lparr>feed_off := feed_off f + min kChunk (length data - feed_off f)\<rparr> else f)"
| poll_a: "poll TA (pa y) (net y) = (b, s, n) \<Longrightarrow> file_step TA TB env data (y, f) (y\<lparr>pa := s, net := n\<rparr>, f)"
| tick_a: "tick TA (pa y) (net y) = Some (s, n) \<Longrightarrow> file_step TA TB env data (y, f) (y\<lparr>pa := s, net := n\<rparr>, f)"
| poll_b: "poll TB (pb y) (net y) = (b, s, n) \<Longrightarrow> file_step TA TB env data (y, f) (y\<lparr>pb := s, net := n\<rparr>, f)"
| tick_b: "tick TB (pb y) (net y) = Some (s, n) \<Longrightarrow> file_step TA TB env data (y, f) (y\<lparr>pb := s, net := n\<rparr>, f)"
| outside: "env (net y) n \<Longrightarrow> file_step TA TB env data (y, f) (y\<lparr>net := n\<rparr>, f)"

inductive file_reach ::
    "'n UdpTransport \<Rightarrow> 'n UdpTransport \<Rightarrow> ('n \<Rightarrow> 'n \<Rightarrow> bool) \<Rightarrow> bytes \<Rightarrow> 'n Pair \<Rightarrow> 'n FileRun \<Rightarrow> bool" for TA TB env data y0 where
  start: "file_reach TA TB env data y0 (y0, new_feeder)"
| step: "file_reach TA TB env data y0 x \<Longrightarrow> file_step TA TB env data x x' \<Longrightarrow> file_reach TA TB env data y0 x'"

text \<open>The sender's progress: the frames accepted so far, and the part of the file they carry.\<close>

definition fed :: "bytes \<Rightarrow> message list \<Rightarrow> Feeder \<Rightarrow> bool" where
  "fed data acc f \<longleftrightarrow> feed_off f \<le> length data \<and>
     (if header_sent f then \<exists>cs. acc = map (Pair ReliableOrdered) (file_header (word_of_nat (length data)) # cs)
        \<and> chunks data = cs @ chunks (drop (feed_off f) data)
      else acc = [] \<and> feed_off f = 0)"

lemma fed_prefix:
  assumes "fed data acc f"
  shows "\<exists>j. acc = map (Pair ReliableOrdered) (take j (frames data))"
proof (cases "header_sent f")
  case True
  then obtain cs where "acc = map (Pair ReliableOrdered) (file_header (word_of_nat (length data)) # cs)"
    "chunks data = cs @ chunks (drop (feed_off f) data)" using assms by (auto simp: fed_def)
  then have "acc = map (Pair ReliableOrdered) (take (Suc (length cs)) (frames data))" by (simp add: frames_def)
  then show ?thesis by blast
next
  case False
  then show ?thesis using assms by (intro exI [of _ 0]) (simp add: fed_def)
qed

lemma fed_length: "fed data acc f \<Longrightarrow> length data \<le> 2 ^ 40 \<Longrightarrow> length acc < 2 ^ 32"
proof -
  assume f: "fed data acc f" and d: "length data \<le> 2 ^ 40"
  obtain j where "acc = map (Pair ReliableOrdered) (take j (frames data))" using fed_prefix [OF f] by blast
  then have "length acc \<le> Suc (length (chunks data))" by (simp add: frames_def)
  then show ?thesis using length_chunks [of data] d by (simp add: kChunk_def)
qed

lemma fed_all:
  assumes "fed data acc f" "header_sent f" "feed_off f = length data"
  shows "acc = map (Pair ReliableOrdered) (frames data)"
  using assms by (auto simp: fed_def frames_def)

lemma fed_header:
  "fed data acc f \<Longrightarrow> \<not> header_sent f \<Longrightarrow>
   fed data (acc @ (if ok then [(ReliableOrdered, file_header (word_of_nat (length data)))] else [])) (f\<lparr>header_sent := ok\<rparr>)"
  by (auto simp: fed_def)

lemma fed_chunk:
  assumes "fed data acc f" "header_sent f" "feed_off f < length data"
  shows "fed data (acc @ (if ok then [(ReliableOrdered, chunk_at data (feed_off f))] else []))
    (if ok then f\<lparr>feed_off := feed_off f + min kChunk (length data - feed_off f)\<rparr> else f)"
proof (cases ok)
  case True
  obtain cs where cs: "acc = map (Pair ReliableOrdered) (file_header (word_of_nat (length data)) # cs)"
    "chunks data = cs @ chunks (drop (feed_off f) data)" using assms by (auto simp: fed_def)
  have c: "chunk_at data (feed_off f) = take kChunk (drop (feed_off f) data)"
    by (simp add: chunk_at_def min_def)
  have "chunks (drop (feed_off f) data) = chunk_at data (feed_off f) # chunks (drop (feed_off f + min kChunk (length data - feed_off f)) data)"
    using assms(3) by (auto simp: chunks.simps [of "drop (feed_off f) data"] c add.commute min_def)
  then show ?thesis using True cs assms by (auto simp: fed_def)
qed (use assms in simp)

lemma offer_step:
  assumes "offer TA d y = (ok, y')" "length (acc_a y') < 2 ^ 32"
  shows "pair_step U UB TA TB env y y'" "acc_a y' = acc_a y @ (if ok then [(ReliableOrdered, d)] else [])"
    "acc_b y' = acc_b y" "pb y' = pb y"
proof -
  obtain s n where s: "send TA ReliableOrdered d (pa y) (net y) = (ok, s, n)"
    and y': "y' = y\<lparr>pa := s, net := n, acc_a := acc_a y @ (if ok then [(ReliableOrdered, d)] else [])\<rparr>"
    using assms(1) by (auto simp: offer_def Let_def split: prod.splits)
  have "side_step U TA (pa y, net y, acc_a y) (s, n, acc_a y @ (if ok then [(ReliableOrdered, d)] else []))"
    using side_step.send [OF _ s, of U "acc_a y"] by simp
  then show "pair_step U UB TA TB env y y'" using pair_step.side_a [of U TA y s n "acc_a y'" UB TB env] assms(2) y' by simp
qed (use assms in \<open>auto simp: offer_def Let_def split: prod.splits\<close>)

text \<open>The receiver never pauses its session: polling and ticking leave \<^verbatim>\<open>app_ready_\<close> alone.\<close>

lemma flush_ready [simp]: "app_ready (flush_reassembled r) = app_ready r"
  by (induction r rule: flush_reassembled.induct) (simp add: flush_reassembled.simps split: option.split)

lemma accept_ready [simp]: "app_ready (accept_reliable p r) = app_ready r"
  by (rule accept_cases [of p r]) (simp_all add: accept_next accept_unordered accept_ordered)

lemma send_ack_ready [simp]: "app_ready (fst (send_ack T dest r n)) = app_ready r"
  by (rule send_ack_frame [of T dest r n]) simp

lemma handle_data_ready [simp]: "app_ready (fst (handle_data T dest p r n)) = app_ready r"
  by (simp add: handle_data_def handle_reliable_def) (simp add: handle_unreliable_def Let_def)

lemma on_datagram_ready [simp]: "app_ready (rx_side (fst (on_datagram T d src s n))) = app_ready (rx_side s)"
  by (auto simp: on_datagram_def process_packet_def Let_def split_beta split: sum.split)

lemma poll_loop_ready: "app_ready (rx_side (fst (snd (poll_loop T k s n)))) = app_ready (rx_side s)"
  by (induction k arbitrary: s n) (auto simp: Let_def split_beta split: option.split)

lemma poll_ready: "poll T s n = (b, s', n') \<Longrightarrow> app_ready (rx_side s') = app_ready (rx_side s)"
  using poll_loop_ready [of T "unat (max_recv_per_poll (cfg s))" s n]
  by (auto simp: poll_def Let_def split: prod.splits dest!: pump_and_arm_rx)

lemma same_acc_step:
  assumes "length (acc_a y) < 2 ^ 32" "length (acc_b y) < 2 ^ 32"
  shows "side_step U TA (pa y, net y, acc_a y) (s, n, acc_a y) \<Longrightarrow> pair_step U UB TA TB env y (y\<lparr>pa := s, net := n\<rparr>)"
    and "side_step UB TB (pb y, net y, acc_b y) (s, n, acc_b y) \<Longrightarrow> pair_step U UB TA TB env y (y\<lparr>pb := s, net := n\<rparr>)"
  using pair_step.side_a [of U TA y s n "acc_a y" UB TB env] pair_step.side_b [of UB TB y s n "acc_b y" U TA env] assms by simp_all

definition file_inv :: "bytes \<Rightarrow> 'n FileRun \<Rightarrow> bool" where
  "file_inv data x \<longleftrightarrow> fed data (acc_a (fst x)) (snd x) \<and> acc_b (fst x) = [] \<and> app_ready (rx_side (pb (fst x)))"

lemma file_step_inv:
  assumes "file_step TA TB env data x x'" "file_inv data x" "length data \<le> 2 ^ 40"
  shows "pair_step U UB TA TB env (fst x) (fst x') \<and> file_inv data x'"
  using assms(1)
proof cases
  case (header f y ok y')
  then have f: "fed data (acc_a y') (f\<lparr>header_sent := ok\<rparr>)" using fed_header [of data "acc_a y" f ok] assms(2)
    by (auto simp: offer_def Let_def file_inv_def split: prod.splits)
  show ?thesis using offer_step [OF header(4) fed_length [OF f assms(3)]] header f assms(2) by (simp add: file_inv_def)
next
  case (chunk f y ok y')
  let ?f = "if ok then f\<lparr>feed_off := feed_off f + min kChunk (length data - feed_off f)\<rparr> else f"
  have f: "fed data (acc_a y') ?f" using fed_chunk [of data "acc_a y" f ok] assms(2) chunk
    by (auto simp: offer_def Let_def file_inv_def split: prod.splits)
  show ?thesis using offer_step [OF chunk(5) fed_length [OF f assms(3)]] chunk f assms(2) by (simp add: file_inv_def)
next
  case (poll_a y b s n f)
  then show ?thesis using same_acc_step(1) [OF _ _ side_step.poll [OF poll_a(3)]] fed_length [OF _ assms(3)] assms(2)
    by (auto simp: file_inv_def)
next
  case (tick_a y s n f)
  then show ?thesis using same_acc_step(1) [OF _ _ side_step.tick [OF tick_a(3)]] fed_length [OF _ assms(3)] assms(2)
    by (auto simp: file_inv_def)
next
  case (poll_b y b s n f)
  then show ?thesis using same_acc_step(2) [OF _ _ side_step.poll [OF poll_b(3)]] fed_length [OF _ assms(3)] assms(2)
      poll_ready [OF poll_b(3)] by (auto simp: file_inv_def)
next
  case (tick_b y s n f)
  then show ?thesis using same_acc_step(2) [OF _ _ side_step.tick [OF tick_b(3)]] fed_length [OF _ assms(3)] assms(2)
      tick_rx [OF tick_b(3)] by (auto simp: file_inv_def)
next
  case (outside y n f)
  then show ?thesis using assms(2) by (auto simp: file_inv_def intro: pair_step.outside)
qed

lemma file_reach_inv:
  assumes "file_reach TA TB env data (one_way_pair ea eb ca cb w) x" "length data \<le> 2 ^ 40"
  shows "pair_reach U UB TA TB env (one_way_pair ea eb ca cb w) (fst x) \<and> file_inv data x"
  using assms(1)
proof induction
  case start
  show ?case
    by (auto intro: pair_reach.start simp: file_inv_def one_way_pair_def fed_def new_feeder_def set_on_message_def new_session_def new_recv_side_def)
next
  case (step x x')
  then show ?case using file_step_inv [OF step.hyps(2) _ assms(2), of U UB] pair_reach.step by blast
qed

text \<open>One pass of the sender through \<open>feed\<close>, and one round of either main loop, are made of such steps.\<close>

lemma feed_loop_reach:
  assumes "file_reach TA TB env data y0 (y, f)" "header_sent f" "feed_loop TA data (feed_off f) (pa y) (net y) = (off, s, n)"
  shows "\<exists>y'. file_reach TA TB env data y0 (y', f\<lparr>feed_off := off\<rparr>) \<and> pa y' = s \<and> net y' = n \<and> pb y' = pb y"
  using assms
proof (induction TA data "feed_off f" "pa y" "net y" arbitrary: y f rule: feed_loop.induct)
  case (1 T data y f)
  show ?case
  proof (cases "feed_off f < length data")
    case True
    let ?k = "min kChunk (length data - feed_off f)"
    obtain ok s1 n1 where snd: "send T ReliableOrdered (take ?k (drop (feed_off f) data)) (pa y) (net y) = (ok, s1, n1)" by (metis prod_cases3)
    let ?y = "y\<lparr>pa := s1, net := n1, acc_a := acc_a y @ (if ok then [(ReliableOrdered, chunk_at data (feed_off f))] else [])\<rparr>"
    let ?f = "if ok then f\<lparr>feed_off := feed_off f + ?k\<rparr> else f"
    have "offer T (chunk_at data (feed_off f)) y = (ok, ?y)" using snd by (simp add: offer_def chunk_at_def)
    then have r: "file_reach T TB env data y0 (?y, ?f)"
      using file_reach.step [OF 1(2) file_step.chunk [OF 1(3) True]] by blast
    show ?thesis
    proof (cases ok)
      case True2: True
      have "feed_loop T data (feed_off ?f) (pa ?y) (net ?y) = (off, s, n)"
        using 1(4) snd True True2 by (simp add: feed_loop.simps [of T data "feed_off f"])
      from 1(1) [OF True refl refl snd [symmetric], of ?y ?f] this r True2 1(3) show ?thesis by simp
    next
      case False
      then have "off = feed_off f" "s = s1" "n = n1" using 1(4) snd True by (simp_all add: feed_loop.simps [of T data "feed_off f"])
      then show ?thesis using r False by (intro exI [of _ ?y]) simp
    qed
  next
    case False
    then have "off = feed_off f" "s = pa y" "n = net y" using 1(4) by (simp_all add: feed_loop.simps [of T data "feed_off f"])
    then show ?thesis using 1(2) by auto
  qed
qed

lemma feed_reach:
  assumes "file_reach TA TB env data y0 (y, f)" "feed TA data f (pa y) (net y) = (f', s, n)"
  shows "\<exists>y'. file_reach TA TB env data y0 (y', f') \<and> pa y' = s \<and> net y' = n \<and> pb y' = pb y"
proof -
  obtain f1 y1 where r: "file_reach TA TB env data y0 (y1, f1)" "pb y1 = pb y" "feed_off f1 = feed_off f"
    and eq: "feed TA data f (pa y) (net y) = (if \<not> header_sent f1 then (f1, pa y1, net y1)
      else let (off, s, n) = feed_loop TA data (feed_off f1) (pa y1) (net y1) in (f1\<lparr>feed_off := off\<rparr>, s, n))"
  proof (cases "header_sent f")
    case True
    then show ?thesis using that [of y f] assms(1) by (simp add: feed_def)
  next
    case False
    let ?h = "file_header (word_of_nat (length data))"
    obtain ok s1 n1 where snd: "send TA ReliableOrdered ?h (pa y) (net y) = (ok, s1, n1)" by (metis prod_cases3)
    let ?y = "y\<lparr>pa := s1, net := n1, acc_a := acc_a y @ (if ok then [(ReliableOrdered, ?h)] else [])\<rparr>"
    have "offer TA ?h y = (ok, ?y)" using snd by (simp add: offer_def)
    then have "file_reach TA TB env data y0 (?y, f\<lparr>header_sent := ok\<rparr>)"
      using file_reach.step [OF assms(1) file_step.header [OF False]] by blast
    then show ?thesis using that [of ?y "f\<lparr>header_sent := ok\<rparr>"] False snd by (simp add: feed_def)
  qed
  show ?thesis
  proof (cases "header_sent f1")
    case True
    obtain off s2 n2 where l: "feed_loop TA data (feed_off f1) (pa y1) (net y1) = (off, s2, n2)" by (metis prod_cases3)
    then have "f' = f1\<lparr>feed_off := off\<rparr>" "s = s2" "n = n2" using eq True assms(2) by simp_all
    then show ?thesis using feed_loop_reach [OF r(1) True l] r(2) by simp
  next
    case False
    then show ?thesis using r eq assms(2) by auto
  qed
qed

lemma send_round_reach:
  assumes "file_reach TA TB env data y0 (y, f)" "feed TA data f (pa y) (net y) = (f', s1, n1)" "poll TA s1 n1 = (b, s2, n2)"
    "tick TA s2 n2 = Some (s', n')"
  shows "\<exists>y'. file_reach TA TB env data y0 (y', f') \<and> pa y' = s' \<and> net y' = n' \<and> pb y' = pb y"
proof -
  obtain y1 where y1: "file_reach TA TB env data y0 (y1, f')" "pa y1 = s1" "net y1 = n1" "pb y1 = pb y"
    using feed_reach [OF assms(1,2)] by blast
  have "file_reach TA TB env data y0 (y1\<lparr>pa := s2, net := n2\<rparr>, f')"
    using file_reach.step [OF y1(1) file_step.poll_a] assms(3) y1 by blast
  from file_reach.step [OF this file_step.tick_a] assms(4) y1(4)
  show ?thesis by (intro exI [of _ "y1\<lparr>pa := s', net := n'\<rparr>"]) simp
qed

section \<open>The calls of the two programs\<close>

text \<open>The calls that the loops of the two programs make, in any order, interleaved with the environment. The state is the sender's session and its
  progress, the receiver's session, and the network.\<close>

type_synonym 'n Transfer = "Session \<times> Feeder \<times> Session \<times> 'n"

inductive transfer_step :: "'n UdpTransport \<Rightarrow> 'n UdpTransport \<Rightarrow> ('n \<Rightarrow> 'n \<Rightarrow> bool) \<Rightarrow> bytes \<Rightarrow> 'n Transfer \<Rightarrow> 'n Transfer \<Rightarrow> bool"
  for TA TB env data where
  feed: "feed TA data f s n = (f', s', n') \<Longrightarrow> transfer_step TA TB env data (s, f, r, n) (s', f', r, n')"
| poll_a: "poll TA s n = (b, s', n') \<Longrightarrow> transfer_step TA TB env data (s, f, r, n) (s', f, r, n')"
| tick_a: "tick TA s n = Some (s', n') \<Longrightarrow> transfer_step TA TB env data (s, f, r, n) (s', f, r, n')"
| poll_b: "poll TB r n = (b, r', n') \<Longrightarrow> transfer_step TA TB env data (s, f, r, n) (s, f, r', n')"
| tick_b: "tick TB r n = Some (r', n') \<Longrightarrow> transfer_step TA TB env data (s, f, r, n) (s, f, r', n')"
| outside: "env n n' \<Longrightarrow> transfer_step TA TB env data (s, f, r, n) (s, f, r, n')"

inductive transfer_reach ::
    "'n UdpTransport \<Rightarrow> 'n UdpTransport \<Rightarrow> ('n \<Rightarrow> 'n \<Rightarrow> bool) \<Rightarrow> bytes \<Rightarrow> 'n Transfer \<Rightarrow> 'n Transfer \<Rightarrow> bool" for TA TB env data x0 where
  start: "transfer_reach TA TB env data x0 x0"
| step: "transfer_reach TA TB env data x0 x \<Longrightarrow> transfer_step TA TB env data x x' \<Longrightarrow> transfer_reach TA TB env data x0 x'"

text \<open>Every call of \<open>feed\<close> is a sequence of the finer steps above.\<close>

lemma transfer_file_step:
  assumes "transfer_step TA TB env data (pa y, f, pb y, net y) (s', f', r', n')" "file_reach TA TB env data y0 (y, f)"
  shows "\<exists>y'. file_reach TA TB env data y0 (y', f') \<and> pa y' = s' \<and> pb y' = r' \<and> net y' = n'"
  using assms(1)
proof cases
  case feed
  then show ?thesis using feed_reach [OF assms(2)] by blast
next
  case (poll_a b)
  then show ?thesis using file_reach.step [OF assms(2) file_step.poll_a [OF poll_a(3)]] by (intro exI [of _ "y\<lparr>pa := s', net := n'\<rparr>"]) simp
next
  case tick_a
  then show ?thesis using file_reach.step [OF assms(2) file_step.tick_a [OF tick_a(3)]] by (intro exI [of _ "y\<lparr>pa := s', net := n'\<rparr>"]) simp
next
  case (poll_b b)
  then show ?thesis using file_reach.step [OF assms(2) file_step.poll_b [OF poll_b(3)]] by (intro exI [of _ "y\<lparr>pb := r', net := n'\<rparr>"]) simp
next
  case tick_b
  then show ?thesis using file_reach.step [OF assms(2) file_step.tick_b [OF tick_b(3)]] by (intro exI [of _ "y\<lparr>pb := r', net := n'\<rparr>"]) simp
next
  case outside
  then show ?thesis using file_reach.step [OF assms(2) file_step.outside [where env = env and y = y, OF outside(4)]] by (intro exI [of _ "y\<lparr>net := n'\<rparr>"]) simp
qed

lemma transfer_file_reach:
  assumes "transfer_reach TA TB env data (pa y0, new_feeder, pb y0, net y0) (s, f, r, n)"
  shows "\<exists>y. file_reach TA TB env data y0 (y, f) \<and> pa y = s \<and> pb y = r \<and> net y = n"
  using assms
proof (induction "(s, f, r, n)" arbitrary: s f r n rule: transfer_reach.induct)
  case start
  then show ?case using file_reach.start by metis
next
  case (step x)
  obtain s1 f1 r1 n1 where x: "x = (s1, f1, r1, n1)" by (cases x)
  from step(2) [OF x] obtain y where "file_reach TA TB env data y0 (y, f1)" "pa y = s1" "pb y = r1" "net y = n1" by blast
  then show ?case using transfer_file_step [of TA TB env data y f1] step(3) x by blast
qed

section \<open>What the receiver holds\<close>

lemma delivered_frames:
  assumes "sess_inv {} out acc R s" "fed data acc f"
  shows "\<exists>j. app_log (rx_side s) = map (Pair ReliableOrdered) (take j (frames data))"
proof -
  obtain j0 where j0: "acc = map (Pair ReliableOrdered) (take j0 (frames data))" using fed_prefix [OF assms(2)] by blast
  let ?l = "app_log (rx_side s)"
  have "prefix ?l acc" using j0 by (intro ordered_only_prefix [OF assms(1)]) auto
  then have "?l = map (Pair ReliableOrdered) (take (length ?l) (take j0 (frames data)))"
    using j0 by (metis prefix_def append_eq_conv_conj take_map)
  then show ?thesis by (metis take_take)
qed

lemma frames_body:
  assumes "app_log (rx_side s) = map (Pair ReliableOrdered) (take j (frames data))" "length data < 2 ^ 64"
  shows "have_len (file_body s) \<longrightarrow> expected (file_body s) = word_of_nat (length data)"
    and "prefix (fbody (file_body s)) data"
    and "complete (file_body s) \<longrightarrow> resized (file_body s) = data"
    and "length (frames data) \<le> j \<Longrightarrow> complete (file_body s)"
proof -
  have u: "unat (word_of_nat (length data) :: u64) = length data" using assms(2) by (simp add: unat_of_nat take_bit_nat_eq_self)
  have b: "file_body s = (if j = 0 then new_body else
      \<lparr>have_len = True, expected = word_of_nat (length data), fbody = concat (take (j - 1) (chunks data))\<rparr>)"
    using on_file_frames [OF refl, of j ReliableOrdered data] assms(1) by (simp add: file_body_def)
  show "have_len (file_body s) \<longrightarrow> expected (file_body s) = word_of_nat (length data)" by (simp add: b new_body_def)
  show p: "prefix (fbody (file_body s)) data" using concat_take_prefix [of "j - 1" "chunks data"] by (simp add: b new_body_def)
  have "fbody (file_body s) = data" if "length data \<le> length (fbody (file_body s))"
    using p that by (auto simp: prefix_def dest: arg_cong [where f = length])
  then show "complete (file_body s) \<longrightarrow> resized (file_body s) = data"
    using u by (auto simp: b complete_def new_body_def resized_def)
  show "complete (file_body s)" if "length (frames data) \<le> j"
    using that u by (simp add: b frames_def complete_def)
qed

text \<open>When nothing is in flight, the receiver has been handed everything that left the sender's queue.\<close>

lemma acked_received:
  assumes "sess_inv V acc inc (received r) s" "ring (tx_side s) = []"
    and "rx_inv r" "rx_content acc r"
  shows "length acc - length (pending (tx_side s)) \<le> unat (rcv_next r)"
proof -
  let ?N = "unat (next_seq (tx_side s))"
  have t: "\<And>k. unat k < ?N \<Longrightarrow> k \<in> received r" "map msg_of (pending (tx_side s)) = drop ?N acc"
    using assms(1,2) by (auto simp: sess_inv_def tx_inv_def ring_ok_def)
  then have N: "length (pending (tx_side s)) = length acc - ?N" by (metis length_drop length_map)
  have "?N \<le> unat (rcv_next r)"
  proof (rule ccontr)
    assume "\<not> ?thesis"
    then have "rcv_next r \<in> received r" using t(1) by simp
    then show False using assms(3) by (auto simp: received_def rx_inv_def)
  qed
  then show ?thesis using N by simp
qed

lemma drained_log:
  assumes "sess_inv V acc inc (received (rx_side p)) s" "sess_inv {} inc acc R p" "ring (tx_side s) = []"
    and "app_ready (rx_side p)" "\<And>m. m \<in> set acc \<Longrightarrow> fst m = ReliableOrdered"
  shows "\<exists>j. length acc - length (pending (tx_side s)) \<le> j \<and> app_log (rx_side p) = take j acc"
proof -
  let ?r = "rx_side p"
  have c: "rx_content acc ?r" "rx_inv ?r" using assms(2) by (simp_all add: sess_inv_def)
  have o: "of_class ReliableOrdered xs = xs" if "set xs \<subseteq> set acc" for xs using that assms(5) by (auto simp: of_class_def filter_id_conv)
  have p: "prefix (app_log ?r) acc" by (rule ordered_only_prefix [OF assms(2,5)])
  have "rcv_buf ?r = []" using c(2) assms(4) by (simp add: rx_inv_def rx_struct_def)
  then have "of_class ReliableOrdered (app_log ?r) = of_class ReliableOrdered (take (unat (rcv_next ?r)) acc)"
    using c(1) by (simp add: rx_content_def stream_def)
  then have "app_log ?r = take (unat (rcv_next ?r)) acc"
    using o [of "app_log ?r"] o [of "take (unat (rcv_next ?r)) acc"] set_mono_prefix [OF p] by (simp add: set_take_subset)
  then show ?thesis using acked_received [OF assms(1,3) c(2,1)] by blast
qed

context session_pair
begin

lemma file_run:
  assumes "file_reach TA TB env data (one_way_pair ea eb ca cb w) (y, f)" "length data \<le> 2 ^ 40"
    and "ea \<noteq> eb" "config_ok ca" "config_ok cb" "\<And>e d. (ea, d) \<notin> wire w e" "\<And>e d. (eb, d) \<notin> wire w e"
  obtains s where "sess_inv {} (acc_a y) (acc_b y) (received (rx_side (pb y))) s" "tx_side (pa y) = tx_side s"
    and "sess_inv {} (acc_b y) (acc_a y) (received (rx_side (pa y))) (pb y)"
    and "fed data (acc_a y) f" "app_ready (rx_side (pb y))"
proof -
  have i: "pair_reach {} {} TA TB env (one_way_pair ea eb ca cb w) y" "file_inv data (y, f)"
    using file_reach_inv [OF assms(1,2), of "{}" "{}"] by simp_all
  obtain y' where "y = mute_a y'" "pair_inv {} {} y'" by (rule one_way_inv [OF i(1) assms(3-7)])
  then show thesis using that [of "pa y'"] i(2) by (simp add: pair_inv_def file_inv_def)
qed

lemma file_run_body:
  assumes "file_reach TA TB env data (one_way_pair ea eb ca cb w) (y, f)" "length data \<le> 2 ^ 40"
    and "ea \<noteq> eb" "config_ok ca" "config_ok cb" "\<And>e d. (ea, d) \<notin> wire w e" "\<And>e d. (eb, d) \<notin> wire w e"
  shows "(have_len (file_body (pb y)) \<longrightarrow> expected (file_body (pb y)) = word_of_nat (length data))
    \<and> prefix (fbody (file_body (pb y))) data \<and> (complete (file_body (pb y)) \<longrightarrow> resized (file_body (pb y)) = data)"
proof -
  obtain s where r: "sess_inv {} (acc_b y) (acc_a y) (received (rx_side (pa y))) (pb y)" "fed data (acc_a y) f"
    by (rule file_run [OF assms])
  obtain j where j: "app_log (rx_side (pb y)) = map (Pair ReliableOrdered) (take j (frames data))"
    using delivered_frames [OF r] by blast
  have "length data < 2 ^ 64" using assms(2) by simp
  from frames_body [OF j this] show ?thesis by blast
qed

lemma file_run_done:
  assumes "file_reach TA TB env data (one_way_pair ea eb ca cb w) (y, f)" "length data \<le> 2 ^ 40"
    and "ea \<noteq> eb" "config_ok ca" "config_ok cb" "\<And>e d. (ea, d) \<notin> wire w e" "\<And>e d. (eb, d) \<notin> wire w e"
    and "send_done data f (pa y)"
  shows "\<exists>j. length (frames data) - length (pending (tx_side (pa y))) \<le> j
      \<and> app_log (rx_side (pb y)) = map (Pair ReliableOrdered) (take j (frames data))"
proof -
  obtain s where r: "sess_inv {} (acc_a y) (acc_b y) (received (rx_side (pb y))) s" "sess_inv {} (acc_b y) (acc_a y) (received (rx_side (pa y))) (pb y)"
      "fed data (acc_a y) f" "app_ready (rx_side (pb y))" and tx: "tx_side (pa y) = tx_side s"
    by (rule file_run [OF assms(1-7)])
  have acc: "acc_a y = map (Pair ReliableOrdered) (frames data)" and e: "ring (tx_side s) = []"
    using fed_all [OF r(3)] assms(8) tx by (simp_all add: send_done_def)
  have "\<And>m. m \<in> set (acc_a y) \<Longrightarrow> fst m = ReliableOrdered" using acc by auto
  from drained_log [OF r(1,2) e r(4) this] acc tx show ?thesis by (auto simp: take_map)
qed

end

context udp_pair
begin

lemmas transfer_body = over.file_run_body and transfer_done = over.file_run_done

end

section \<open>Properties\<close>

text \<open>C18: The file arrives intact. Let \<^verbatim>\<open>send_file\<close> and \<^verbatim>\<open>recv_file\<close> make their calls (\<open>feed\<close>, \<open>poll\<close> and \<open>tick\<close>) over sockets of a kernel that treats
  datagrams as documented, interleaved in any order and with any loss, repetition, reordering and other traffic, on a file of at most
  \<open>2 ^ 40\<close> bytes. At every moment what the receiver has collected is a prefix of the file, and the length it expects is the length of the
  file; when it finds the transfer complete, the bytes it writes are the file. When the sender leaves its loop, the receiver has been handed
  every frame but those still queued at the sender; so if the queue is empty the receiver has the whole file.\<close>

theorem file_arrives_intact:
  assumes "udp_pair K addr wire clock fda fdb ea eb env" "ea \<noteq> eb" "config_ok ca" "config_ok cb"
    and "\<And>e d. (ea, d) \<notin> wire w e" "\<And>e d. (eb, d) \<notin> wire w e" "length data \<le> 2 ^ 40"
    and "transfer_reach (real_transport K \<lparr>sock_fd = fda\<rparr>) (real_transport K \<lparr>sock_fd = fdb\<rparr>) env data
      (new_session eb ca, new_feeder, set_on_message (new_session ea cb), w) (s, f, r, n)"
  shows "prefix (fbody (file_body r)) data
    \<and> (have_len (file_body r) \<longrightarrow> expected (file_body r) = word_of_nat (length data))
    \<and> (complete (file_body r) \<longrightarrow> resized (file_body r) = data)
    \<and> (send_done data f s \<longrightarrow>
        (\<exists>j. length (frames data) - length (pending (tx_side s)) \<le> j
           \<and> app_log (rx_side r) = map (Pair ReliableOrdered) (take j (frames data))))
    \<and> (send_done data f s \<and> pending (tx_side s) = [] \<longrightarrow> complete (file_body r) \<and> resized (file_body r) = data)"
proof -
  have "new_session eb ca = pa (one_way_pair ea eb ca cb w)" "set_on_message (new_session ea cb) = pb (one_way_pair ea eb ca cb w)"
    "w = net (one_way_pair ea eb ca cb w)" by (simp_all add: one_way_pair_def)
  then obtain y where y: "file_reach (real_transport K \<lparr>sock_fd = fda\<rparr>) (real_transport K \<lparr>sock_fd = fdb\<rparr>) env data (one_way_pair ea eb ca cb w) (y, f)"
    "pa y = s" "pb y = r" using transfer_file_reach [of _ _ _ _ "one_way_pair ea eb ca cb w"] assms(8) by metis
  note body = udp_pair.transfer_body [OF assms(1) y(1) assms(7,2,3,4,5,6)]
  have fin: "\<exists>j. length (frames data) - length (pending (tx_side s)) \<le> j
      \<and> app_log (rx_side r) = map (Pair ReliableOrdered) (take j (frames data))" if "send_done data f s"
    using udp_pair.transfer_done [OF assms(1) y(1) assms(7,2,3,4,5,6)] that y(2,3) by blast
  have "complete (file_body r)" if d: "send_done data f s" and q: "pending (tx_side s) = []"
  proof -
    obtain j where j: "length (frames data) \<le> j" "app_log (rx_side r) = map (Pair ReliableOrdered) (take j (frames data))"
      using fin [OF d] q by auto
    show ?thesis by (rule frames_body(4) [OF j(2) _ j(1)]) (use assms(7) in simp)
  qed
  then show ?thesis using body fin y(2,3) by blast
qed

theorem file_arrives_intact_witness:
  "\<exists>s f r n. transfer_reach (real_transport (host_kernel (sockets (host 1) (host 2))) \<lparr>sock_fd = 3\<rparr>)
        (real_transport (host_kernel (sockets (host 1) (host 2))) \<lparr>sock_fd = 4\<rparr>) host_env [1, 2, 3]
        (new_session (host 2) default_config, new_feeder, set_on_message (new_session (host 1) default_config), \<lparr>inboxes = (\<lambda>_. []), uptime = 0\<rparr>) (s, f, r, n)
     \<and> header_sent f \<and> prefix (fbody (file_body r)) [1, 2, 3] \<and> (complete (file_body r) \<longrightarrow> resized (file_body r) = [1, 2, 3])"
proof -
  let ?K = "host_kernel (sockets (host 1) (host 2))" and ?w = "\<lparr>inboxes = (\<lambda>_. []), uptime = 0\<rparr>" and ?d = "[1, 2, 3 :: byte]"
  let ?TA = "real_transport ?K \<lparr>sock_fd = 3\<rparr>" and ?TB = "real_transport ?K \<lparr>sock_fd = 4\<rparr>"
  let ?a = "new_session (host 2) default_config" and ?b = "set_on_message (new_session (host 1) default_config)"
  let ?h = "file_header (word_of_nat (length ?d))"
  obtain f s n where f: "feed ?TA ?d new_feeder ?a ?w = (f, s, n)" by (metis prod_cases3)
  have h: "?h = [3, 0, 0, 0, 0, 0, 0, 0]" by code_simp
  have "fst (send ?TA ReliableOrdered ?h ?a ?w)"
    using send_accepts [of ReliableOrdered ?h ?a ?TA ?w] h by (auto simp: new_session_def default_config_def new_send_side_def)
  then have hs: "header_sent f" using f by (auto simp: feed_def new_feeder_def Let_def split: prod.splits)
  have t: "transfer_reach ?TA ?TB host_env ?d (?a, new_feeder, ?b, ?w) (s, f, ?b, n)"
    by (rule transfer_reach.step [OF transfer_reach.start transfer_step.feed [OF f]])
  have e: "(x, d) \<notin> host_wire ?w e" for x d e by (simp add: host_wire_def)
  have "length ?d \<le> 2 ^ 40" by simp
  from file_arrives_intact [OF hosts.udp_pair_axioms hosts_differ default_config_ok default_config_ok e e this t] t hs
  show ?thesis by blast
qed

end
