(* ===== verification/Browser_Lab.thy ===== *)
theory Browser_Lab
  imports Session_One_Way Ieee_Double
begin

text \<open>
  The experiments of the browser demonstration, \<^verbatim>\<open>wasm/taut_wasm.cc\<close>: sessions over the simulator under a virtual clock.
  \<open>tt_run\<close> is one batch experiment, \<open>tt_feel_init\<close>, \<open>tt_feel_send\<close> and \<open>tt_feel_step\<close> the interactive pair. What the page is
  told is proved of every run: the batch experiment returns, its messages arrive in order, and the figures it reports are consistent;
  the interactive channels hand back the cursor samples in order, unaltered.
\<close>

section \<open>tt_run\<close>

definition ep :: "u16 \<Rightarrow> Endpoint" where
  "ep port = \<lparr>addr_be = 1, port_be = port\<rparr>"

text \<open>\<^verbatim>\<open>memcpy(&v, p.data(), min(sizeof(v), p.psize()))\<close> into a zero variable, little endian.\<close>

definition read_u32 :: "bytes \<Rightarrow> u32" where
  "read_u32 p = (let q = take 4 p @ replicate 4 0 in ld32 (q ! 0) (q ! 1) (q ! 2) (q ! 3))"

text \<open>The variables the message handler of the receiving session captures, and one call of it at the virtual time \<open>now\<close>.\<close>

record LabSink =
  lab_delivered :: nat
  lab_ordered :: bool
  lab_expect :: u32
  recv_ms :: "int list"

definition lab_message :: "nat \<Rightarrow> int \<Rightarrow> LabSink \<Rightarrow> message \<Rightarrow> LabSink" where
  "lab_message n_msgs now k m =
     (let v = read_u32 (snd m);
          k = (if v \<noteq> lab_expect k then k\<lparr>lab_ordered := False\<rparr> else k);
          k = k\<lparr>lab_expect := v + 1\<rparr>;
          k = (if v < word_of_nat n_msgs then k\<lparr>recv_ms := (recv_ms k)[unat v := now]\<rparr> else k)
      in k\<lparr>lab_delivered := lab_delivered k + 1\<rparr>)"

definition lab_payload :: "int \<Rightarrow> u32 \<Rightarrow> bytes" where
  "lab_payload payload_size v = le32 v @ replicate (nat (max payload_size 4) - 4) 0"

record Lab =
  lab_net :: SimNet
  lab_sa :: Session
  lab_sb :: Session
  lab_sink :: LabSink
  lab_next :: nat
  send_ms :: "int list"
  elapsed :: int
  last_sampled :: int
  timeline :: "(int \<times> nat) list"

text \<open>The inner loop: feed as much as the window allows.\<close>

function lab_feed :: "SimNet UdpTransport \<Rightarrow> nat \<Rightarrow> int \<Rightarrow> int \<Rightarrow> nat \<Rightarrow> int list \<Rightarrow> Session \<Rightarrow> SimNet \<Rightarrow> nat \<times> int list \<times> Session \<times> SimNet" where
  "lab_feed T n_msgs payload_size now next sm s n =
     (if next < n_msgs then
        let (ok, s, n) = send T ReliableOrdered (lab_payload payload_size (word_of_nat next)) s n
        in if ok then lab_feed T n_msgs payload_size now (next + 1) (sm[next := now]) s n else (next, sm, s, n)
      else (next, sm, s, n))"
  by pat_completeness auto
termination by (relation "measure (\<lambda>(_, n_msgs, _, _, next, _). n_msgs - next)") auto

declare lab_feed.simps [simp del]

text \<open>The calls that the receiving session made to its handler between two of its states.\<close>

definition new_calls :: "Session \<Rightarrow> Session \<Rightarrow> message list" where
  "new_calls s s' = drop (length (app_log (rx_side s))) (app_log (rx_side s'))"

definition step_ms :: int where "step_ms = 5"
definition max_virtual_ms :: int where "max_virtual_ms = 120000"

text \<open>The body of the main loop; \<open>a\<close>, \<open>b\<close> are the two endpoints and \<open>t0\<close> the start of the virtual clock.\<close>

definition lab_round :: "Endpoint \<Rightarrow> Endpoint \<Rightarrow> time_point \<Rightarrow> nat \<Rightarrow> int \<Rightarrow> Lab \<Rightarrow> Lab option" where
  "lab_round a b t0 n_msgs payload_size L =
     (let (next, sm, sa, n) = lab_feed (sim_transport a) n_msgs payload_size (elapsed L) (lab_next L) (send_ms L) (lab_sa L) (lab_net L);
          n = advance n step_ms;
          el = elapsed L + step_ms;
          (_, sa, n) = poll (sim_transport a) sa n;
          (_, sb, n) = poll (sim_transport b) (lab_sb L) n;
          k = foldl (lab_message n_msgs (to_ms (sim_now n - t0))) (lab_sink L) (new_calls (lab_sb L) sb)
      in Option.bind (tick (sim_transport a) sa n) (\<lambda>(sa, n).
         Option.bind (tick (sim_transport b) sb n) (\<lambda>(sb, n).
           let L = L\<lparr>lab_net := n, lab_sa := sa, lab_sb := sb, lab_sink := k, lab_next := next, send_ms := sm, elapsed := el\<rparr>
           in Some (if el - last_sampled L \<ge> 25
                    then L\<lparr>timeline := timeline L @ [(el, lab_delivered k)], last_sampled := el\<rparr> else L))))"

lemma elapsed_lab_round: "lab_round a b t0 n_msgs psize L = Some L' \<Longrightarrow> elapsed L' = elapsed L + 5"
  by (auto simp: lab_round_def step_ms_def Let_def split: prod.splits option.splits bind_splits if_splits)

function lab_loop :: "Endpoint \<Rightarrow> Endpoint \<Rightarrow> time_point \<Rightarrow> nat \<Rightarrow> int \<Rightarrow> Lab \<Rightarrow> Lab option" where
  "lab_loop a b t0 n_msgs payload_size L =
     (if lab_delivered (lab_sink L) < n_msgs \<and> elapsed L < max_virtual_ms
      then case lab_round a b t0 n_msgs payload_size L of None \<Rightarrow> None | Some L \<Rightarrow> lab_loop a b t0 n_msgs payload_size L
      else Some L)"
  by pat_completeness auto
termination
  by (relation "measure (\<lambda>(_, _, _, _, _, L). nat (max_virtual_ms - elapsed L))") (auto dest!: elapsed_lab_round simp: max_virtual_ms_def)

declare lab_loop.simps [simp del]

text \<open>The latencies of the messages that arrived, sorted, and the sample at a quantile; products are rounded to \<^verbatim>\<open>double\<close>.\<close>

definition latencies :: "int list \<Rightarrow> int list \<Rightarrow> int list" where
  "latencies sm rm = sort (map (\<lambda>(s, r). r - s) (filter (\<lambda>(s, r). 0 \<le> s \<and> 0 \<le> r) (zip sm rm)))"

definition pick :: "int list \<Rightarrow> rat \<Rightarrow> int" where
  "pick lat q = (if lat = [] then 0 else lat ! min (length lat - 1) (nat \<lfloor>fl (fl q * of_nat (length lat))\<rfloor>))"

record LabResult =
  res_delivered :: nat
  res_sent :: nat
  res_ordered :: bool
  res_retransmits :: u32
  res_virtual_ms :: int
  res_timed_out :: bool
  res_p50 :: int
  res_p99 :: int
  res_max :: int
  res_timeline :: "(int \<times> nat) list"

definition lab_result :: "nat \<Rightarrow> Lab \<Rightarrow> LabResult" where
  "lab_result n_msgs L =
     (let k = lab_sink L; lat = latencies (send_ms L) (recv_ms k)
      in \<lparr>res_delivered = lab_delivered k, res_sent = lab_next L, res_ordered = lab_ordered k,
          res_retransmits = retransmit_count (tx_side (lab_sa L)), res_virtual_ms = elapsed L,
          res_timed_out = (lab_delivered k < n_msgs), res_p50 = pick lat (50 / 100), res_p99 = pick lat (99 / 100),
          res_max = (if lat = [] then 0 else last lat), res_timeline = timeline L\<rparr>)"

definition lab_imp :: "rat \<Rightarrow> int \<Rightarrow> int \<Rightarrow> Impairments" where
  "lab_imp loss_pct delay_ms jitter_ms = \<lparr>imp_loss = fl (loss_pct / 100), imp_dup = 0, imp_delay = delay_ms, imp_jitter = jitter_ms\<rparr>"

definition lab_config :: "int \<Rightarrow> int \<Rightarrow> Config" where
  "lab_config wpkts rto_floor_ms = default_config\<lparr>window_pkts := word_of_int wpkts, cfg_rto_floor := rto_floor_ms\<rparr>"

text \<open>The conversion of a floating-point number to an integer type truncates toward zero.\<close>

definition truncated :: "rat \<Rightarrow> int" where
  "truncated x = (if x < 0 then \<lceil>x\<rceil> else \<lfloor>x\<rfloor>)"

text \<open>Both programs make the network first, then the two sessions on its endpoints.\<close>

definition lab_network :: "rat \<Rightarrow> Impairments \<Rightarrow> SimNet" where
  "lab_network seed i = endpoint (endpoint (new_simnet (word_of_int (truncated seed)) i) (ep 1)) (ep 2)"

definition new_sink :: "nat \<Rightarrow> LabSink" where
  "new_sink n_msgs = \<lparr>lab_delivered = 0, lab_ordered = True, lab_expect = 0, recv_ms = replicate n_msgs (- 1)\<rparr>"

definition new_lab :: "SimNet \<Rightarrow> Config \<Rightarrow> nat \<Rightarrow> Lab" where
  "new_lab n c n_msgs = \<lparr>lab_net = n, lab_sa = new_session (ep 2) c, lab_sb = set_on_message (new_session (ep 1) c),
     lab_sink = new_sink n_msgs, lab_next = 0, send_ms = replicate n_msgs (- 1), elapsed = 0, last_sampled = - 1000, timeline = []\<rparr>"

text \<open>The text handed to the page.\<close>

fun digits_of :: "nat \<Rightarrow> string" where
  "digits_of n = (if n < 10 then [char_of (48 + n)] else digits_of (n div 10) @ [char_of (48 + n mod 10)])"

declare digits_of.simps [simp del]

definition to_string :: "int \<Rightarrow> string" where
  "to_string i = (if i < 0 then CHR ''-'' # digits_of (nat (- i)) else digits_of (nat i))"

definition json_field :: "string \<Rightarrow> string \<Rightarrow> string" where
  "json_field k v = CHR 0x22 # k @ [CHR 0x22, CHR '':''] @ v"

definition json_bool :: "bool \<Rightarrow> string" where
  "json_bool b = (if b then ''true'' else ''false'')"

fun join_with :: "string \<Rightarrow> string list \<Rightarrow> string" where
  "join_with sep [] = []"
| "join_with sep [x] = x"
| "join_with sep (x # y # xs) = x @ sep @ join_with sep (y # xs)"

definition timeline_text :: "(int \<times> nat) list \<Rightarrow> string" where
  "timeline_text xs = ''['' @ join_with '','' (map (\<lambda>(t, d). ''['' @ to_string t @ '','' @ to_string (int d) @ '']'') xs) @ '']''"

definition lab_json :: "LabResult \<Rightarrow> string" where
  "lab_json r = ''{'' @ json_field ''delivered'' (to_string (int (res_delivered r)))
     @ '','' @ json_field ''sent'' (to_string (int (res_sent r)))
     @ '','' @ json_field ''ordered'' (json_bool (res_ordered r))
     @ '','' @ json_field ''retransmits'' (to_string (uint (res_retransmits r)))
     @ '','' @ json_field ''virtual_ms'' (to_string (res_virtual_ms r))
     @ '','' @ json_field ''timed_out'' (json_bool (res_timed_out r))
     @ '','' @ json_field ''lat_p50'' (to_string (res_p50 r))
     @ '','' @ json_field ''lat_p99'' (to_string (res_p99 r))
     @ '','' @ json_field ''lat_max'' (to_string (res_max r))
     @ '','' @ json_field ''timeline'' (timeline_text (res_timeline r)) @ ''}''"

datatype lab_error = Length_error

text \<open>
  A negative number of messages makes the construction of the vectors throw. \<open>None\<close> is an experiment that does not return.
\<close>

definition lab_run :: "rat \<Rightarrow> rat \<Rightarrow> int \<Rightarrow> int \<Rightarrow> int \<Rightarrow> int \<Rightarrow> int \<Rightarrow> int \<Rightarrow> (lab_error + LabResult) option" where
  "lab_run seed loss_pct delay_ms jitter_ms wpkts rto_floor_ms n_msgs payload_size =
     (let n = lab_network seed (lab_imp loss_pct delay_ms jitter_ms)
      in if n_msgs < 0 then Some (Inl Length_error)
         else map_option (\<lambda>L. Inr (lab_result (nat n_msgs) L))
                (lab_loop (ep 1) (ep 2) (sim_now n) (nat n_msgs) payload_size (new_lab n (lab_config wpkts rto_floor_ms) (nat n_msgs))))"

definition tt_run :: "rat \<Rightarrow> rat \<Rightarrow> int \<Rightarrow> int \<Rightarrow> int \<Rightarrow> int \<Rightarrow> int \<Rightarrow> int \<Rightarrow> (lab_error + string) option" where
  "tt_run seed loss_pct delay_ms jitter_ms wpkts rto_floor_ms n_msgs payload_size =
     map_option (map_sum id lab_json) (lab_run seed loss_pct delay_ms jitter_ms wpkts rto_floor_ms n_msgs payload_size)"

section \<open>tt_feel: the cursor-echo instrument\<close>

text \<open>A \<^verbatim>\<open>float\<close> is its bit pattern: the code only copies it.\<close>

record FeelDelivery =
  fd_seq :: u32
  fd_x :: u32
  fd_y :: u32
  fd_lat :: int

record FeelChannel =
  fc_net :: SimNet
  fc_tx :: Session
  fc_rx :: Session
  fc_t0 :: time_point
  fc_next :: u32
  fc_send_ms :: "int list"
  fc_delivered :: "FeelDelivery list"

definition now_ms :: "FeelChannel \<Rightarrow> int" where
  "now_ms ch = to_ms (sim_now (fc_net ch) - fc_t0 ch)"

definition feel_make :: "rat \<Rightarrow> rat \<Rightarrow> int \<Rightarrow> int \<Rightarrow> int \<Rightarrow> FeelChannel" where
  "feel_make seed loss_pct delay_ms jitter_ms rto_floor_ms =
     (let n = lab_network seed (lab_imp loss_pct delay_ms jitter_ms); c = lab_config 64 rto_floor_ms
      in \<lparr>fc_net = n, fc_tx = new_session (ep 2) c, fc_rx = set_on_message (new_session (ep 1) c), fc_t0 = sim_now n,
          fc_next = 0, fc_send_ms = [], fc_delivered = []\<rparr>)"

text \<open>The message handler.\<close>

definition word_at :: "bytes \<Rightarrow> nat \<Rightarrow> u32" where
  "word_at p i = ld32 (p ! i) (p ! (i + 1)) (p ! (i + 2)) (p ! (i + 3))"

definition feel_message :: "FeelChannel \<Rightarrow> message \<Rightarrow> FeelChannel" where
  "feel_message ch m =
     (let p = snd m
      in if length p < 12 then ch
         else let sq = word_at p 0;
                  lat = (if unat sq < length (fc_send_ms ch) then now_ms ch - fc_send_ms ch ! unat sq else 0)
              in ch\<lparr>fc_delivered := fc_delivered ch @ [\<lparr>fd_seq = sq, fd_x = word_at p 4, fd_y = word_at p 8, fd_lat = lat\<rparr>]\<rparr>)"

definition feel_payload :: "u32 \<Rightarrow> u32 \<times> u32 \<Rightarrow> bytes" where
  "feel_payload sq z = le32 sq @ le32 (fst z) @ le32 (snd z)"

text \<open>One channel of \<^verbatim>\<open>tt_feel_send\<close>, and of a sub-step of \<^verbatim>\<open>tt_feel_step\<close>.\<close>

definition feel_send :: "u32 \<times> u32 \<Rightarrow> FeelChannel \<Rightarrow> int \<times> FeelChannel" where
  "feel_send z ch =
     (let sq = fc_next ch;
          (ok, tx, n) = send (sim_transport (ep 1)) ReliableOrdered (feel_payload sq z) (fc_tx ch) (fc_net ch);
          ch = ch\<lparr>fc_tx := tx, fc_net := n\<rparr>
      in if ok then (uint sq, ch\<lparr>fc_send_ms := fc_send_ms ch @ [now_ms ch], fc_next := fc_next ch + 1\<rparr>)
         else (- 1, ch))"

definition feel_substep :: "millis \<Rightarrow> FeelChannel \<Rightarrow> FeelChannel option" where
  "feel_substep dt ch =
     (let n = advance (fc_net ch) dt;
          (_, tx, n) = poll (sim_transport (ep 1)) (fc_tx ch) n;
          (_, rx, n) = poll (sim_transport (ep 2)) (fc_rx ch) n;
          ch' = foldl feel_message (ch\<lparr>fc_net := n\<rparr>) (new_calls (fc_rx ch) rx)
      in Option.bind (tick (sim_transport (ep 1)) tx n) (\<lambda>(tx, n).
         Option.bind (tick (sim_transport (ep 2)) rx n) (\<lambda>(rx, n).
           Some (ch'\<lparr>fc_net := n, fc_tx := tx, fc_rx := rx\<rparr>))))"

type_synonym Feel = "FeelChannel \<times> FeelChannel"

definition tt_feel_init :: "rat \<Rightarrow> rat \<Rightarrow> int \<Rightarrow> int \<Rightarrow> Feel" where
  "tt_feel_init seed loss_pct delay_ms jitter_ms =
     (feel_make seed loss_pct delay_ms jitter_ms 25, feel_make seed loss_pct delay_ms jitter_ms 200)"

text \<open>\<open>None\<close> is the state before \<^verbatim>\<open>tt_feel_init\<close>.\<close>

definition tt_feel_send :: "u32 \<times> u32 \<Rightarrow> Feel option \<Rightarrow> (int \<times> int) \<times> Feel option" where
  "tt_feel_send z g =
     (case g of
        None \<Rightarrow> ((- 1, - 1), None)
      | Some (a, b) \<Rightarrow> let (i, a) = feel_send z a; (j, b) = feel_send z b in ((i, j), Some (a, b)))"

function feel_loop :: "int \<Rightarrow> int \<Rightarrow> Feel \<Rightarrow> Feel option" where
  "feel_loop dt k g =
     (if k < dt then
        Option.bind (feel_substep (min 5 (dt - k)) (fst g)) (\<lambda>a.
        Option.bind (feel_substep (min 5 (dt - k)) (snd g)) (\<lambda>b. feel_loop dt (k + 5) (a, b)))
      else Some g)"
  by pat_completeness auto
termination by (relation "measure (\<lambda>(dt, k, _). nat (dt - k))") auto

declare feel_loop.simps [simp del]

text \<open>The deliveries and the retransmission counts of the two channels; before \<^verbatim>\<open>tt_feel_init\<close> the answer is empty.\<close>

definition feel_drain :: "FeelChannel \<Rightarrow> (FeelDelivery list \<times> u32) \<times> FeelChannel" where
  "feel_drain ch = ((fc_delivered ch, retransmit_count (tx_side (fc_tx ch))), ch\<lparr>fc_delivered := []\<rparr>)"

definition tt_feel_step ::
    "int \<Rightarrow> Feel option \<Rightarrow> (((FeelDelivery list \<times> u32) \<times> (FeelDelivery list \<times> u32)) option \<times> Feel option) option" where
  "tt_feel_step dt g =
     (case g of
        None \<Rightarrow> Some (None, None)
      | Some g \<Rightarrow> Option.bind (feel_loop (max 0 (min dt 250)) 0 g) (\<lambda>(a, b).
          let (x, a) = feel_drain a; (y, b) = feel_drain b in Some (Some (x, y), Some (a, b))))"

section \<open>The handler\<close>

lemma read_u32_payload [simp]: "read_u32 (lab_payload psize v) = v"
  by (simp add: read_u32_def lab_payload_def le32_def Let_def)

text \<open>The messages in the order in which they were sent.\<close>

definition lab_messages :: "int \<Rightarrow> nat \<Rightarrow> message list" where
  "lab_messages psize k = map (\<lambda>i. (ReliableOrdered, lab_payload psize (word_of_nat i))) [0..<k]"

lemma length_lab_messages [simp]: "length (lab_messages psize k) = k"
  by (simp add: lab_messages_def)

text \<open>What the handler has recorded after \<open>d\<close> calls in order.\<close>

definition sink_ok :: "nat \<Rightarrow> int list \<Rightarrow> int \<Rightarrow> LabSink \<Rightarrow> bool" where
  "sink_ok n_msgs sm el k \<longleftrightarrow> lab_ordered k \<and> lab_expect k = word_of_nat (lab_delivered k) \<and> lab_delivered k \<le> n_msgs
     \<and> length (recv_ms k) = n_msgs
     \<and> (\<forall>i<n_msgs. if i < lab_delivered k then sm ! i + 5 \<le> recv_ms k ! i \<and> recv_ms k ! i \<le> el else recv_ms k ! i = - 1)"

lemma lab_message_ok:
  assumes "sink_ok n_msgs sm el k" "n_msgs < 2 ^ 31" "lab_delivered k < n_msgs" "sm ! lab_delivered k + 5 \<le> el"
  shows "sink_ok n_msgs sm el (lab_message n_msgs el k (ReliableOrdered, lab_payload psize (word_of_nat (lab_delivered k))))"
    and "lab_delivered (lab_message n_msgs el k m) = lab_delivered k + 1"
proof -
  let ?d = "lab_delivered k"
  have u: "unat (word_of_nat ?d :: u32) = ?d" "(word_of_nat ?d :: u32) < word_of_nat n_msgs"
    using assms(2,3) by (simp_all add: unat_of_nat take_bit_nat_eq_self word_less_nat_alt)
  then show "sink_ok n_msgs sm el (lab_message n_msgs el k (ReliableOrdered, lab_payload psize (word_of_nat ?d)))"
    using assms by (auto simp: sink_ok_def lab_message_def Let_def nth_list_update)
qed (simp add: lab_message_def Let_def)

lemma lab_messages_ok:
  assumes "sink_ok n_msgs sm el k" "n_msgs < 2 ^ 31" "lab_delivered k + j \<le> n_msgs" "\<And>i. i < lab_delivered k + j \<Longrightarrow> sm ! i + 5 \<le> el"
  shows "sink_ok n_msgs sm el (foldl (lab_message n_msgs el) k (drop (lab_delivered k) (lab_messages psize (lab_delivered k + j))))
    \<and> lab_delivered (foldl (lab_message n_msgs el) k (drop (lab_delivered k) (lab_messages psize (lab_delivered k + j)))) = lab_delivered k + j"
  using assms(3,4)
proof (induction j)
  case 0
  then show ?case using assms(1) by simp
next
  case (Suc j)
  let ?k = "foldl (lab_message n_msgs el) k (drop (lab_delivered k) (lab_messages psize (lab_delivered k + j)))"
  have ih: "sink_ok n_msgs sm el ?k" "lab_delivered ?k = lab_delivered k + j" using Suc by simp_all
  have "lab_messages psize (lab_delivered k + Suc j)
      = lab_messages psize (lab_delivered k + j) @ [(ReliableOrdered, lab_payload psize (word_of_nat (lab_delivered k + j)))]"
    by (simp add: lab_messages_def)
  then show ?case using lab_message_ok [OF ih(1) assms(2)] ih(2) Suc(2,3) by simp
qed

section \<open>The experiment\<close>

abbreviation lab_sent :: "int \<Rightarrow> nat \<Rightarrow> bytes list" where
  "lab_sent psize k \<equiv> map (\<lambda>i. lab_payload psize (word_of_nat i)) [0..<k]"

lemma lab_feed_ok:
  assumes "lab_feed (sim_transport ea) n_msgs psize now next sm s n = (next', sm', s', n')"
    and "one_way {} ea eb c n0 (lab_sent psize next) s sb n" "next \<le> n_msgs" "n_msgs < 2 ^ 31"
  shows "one_way {} ea eb c n0 (lab_sent psize next') s' sb n' \<and> next \<le> next' \<and> next' \<le> n_msgs \<and> sim_now n' = sim_now n
    \<and> length sm' = length sm \<and> (\<forall>i<length sm. sm' ! i = (if next \<le> i \<and> i < next' then now else sm ! i))"
  using assms
proof (induction "sim_transport ea" n_msgs psize now "next" sm s n rule: lab_feed.induct)
  case (1 n_msgs psize now "next" sm s n)
  show ?case
  proof (cases "next < n_msgs")
    case True
    obtain ok s1 n1 where snd: "send (sim_transport ea) ReliableOrdered (lab_payload psize (word_of_nat next)) s n = (ok, s1, n1)"
      by (metis prod_cases3)
    have ow: "one_way {} ea eb c n0 (lab_sent psize next @ (if ok then [lab_payload psize (word_of_nat next)] else [])) s1 sb n1"
      by (rule one_way_send [OF 1(3) snd]) (use True 1(5) in simp)
    have now: "sim_now n1 = sim_now n" using send_calls [OF snd] sim_calls_now by blast
    show ?thesis
    proof (cases ok)
      case ok: True
      have "lab_feed (sim_transport ea) n_msgs psize now (next + 1) (sm[next := now]) s1 n1 = (next', sm', s', n')"
        using 1(2) True snd ok by (simp add: lab_feed.simps [of _ n_msgs psize now "next"])
      from 1(1) [OF True snd [symmetric] refl refl ok this] ow ok True 1(5) show ?thesis
        using now by (auto simp: nth_list_update split: if_splits)
    next
      case False
      then have "next' = next" "sm' = sm" "s' = s1" "n' = n1"
        using 1(2) True snd by (simp_all add: lab_feed.simps [of _ n_msgs psize now "next"])
      then show ?thesis using ow now False 1(4) by auto
    qed
  next
    case False
    then have "next' = next" "sm' = sm" "s' = s" "n' = n" using 1(2) by (simp_all add: lab_feed.simps [of _ n_msgs psize now "next"])
    then show ?thesis using 1(3,4) by simp
  qed
qed

definition timeline_ok :: "int \<Rightarrow> nat \<Rightarrow> (int \<times> nat) list \<Rightarrow> bool" where
  "timeline_ok el d xs \<longleftrightarrow> sorted_wrt (\<lambda>x y. fst x < fst y \<and> snd x \<le> snd y) xs \<and> (\<forall>x\<in>set xs. fst x \<le> el \<and> snd x \<le> d)"

definition lab_inv :: "Config \<Rightarrow> SimNet \<Rightarrow> nat \<Rightarrow> int \<Rightarrow> Lab \<Rightarrow> bool" where
  "lab_inv c n0 n_msgs psize L \<longleftrightarrow>
     one_way {} (ep 1) (ep 2) c n0 (lab_sent psize (lab_next L)) (lab_sa L) (lab_sb L) (lab_net L)
     \<and> app_log (rx_side (lab_sb L)) = lab_messages psize (lab_delivered (lab_sink L))
     \<and> lab_delivered (lab_sink L) \<le> lab_next L \<and> lab_next L \<le> n_msgs
     \<and> sink_ok n_msgs (send_ms L) (elapsed L) (lab_sink L)
     \<and> length (send_ms L) = n_msgs
     \<and> (\<forall>i<n_msgs. if i < lab_next L then 0 \<le> send_ms L ! i \<and> send_ms L ! i + 5 \<le> elapsed L else send_ms L ! i = - 1)
     \<and> sim_now (lab_net L) = sim_now n0 + ms (elapsed L) \<and> 0 \<le> elapsed L \<and> 5 dvd elapsed L \<and> elapsed L \<le> max_virtual_ms
     \<and> timeline_ok (elapsed L) (lab_delivered (lab_sink L)) (timeline L)"

lemma lab_prefix:
  assumes "prefix al (map (Pair ReliableOrdered) (lab_sent psize k))"
  shows "al = lab_messages psize (length al)" "length al \<le> k"
proof -
  have m: "map (Pair ReliableOrdered) (lab_sent psize k) = lab_messages psize k" by (simp add: lab_messages_def)
  show le: "length al \<le> k" using assms prefix_length_le by fastforce
  have "al = take (length al) (lab_messages psize k)" using assms unfolding m by (auto simp: prefix_def)
  also have "\<dots> = lab_messages psize (length al)" using le by (simp add: lab_messages_def take_map)
  finally show "al = lab_messages psize (length al)" .
qed

lemma to_ms_ms [simp]: "to_ms (ms k) = k"
  by (simp add: to_ms_def ms_def tdiv_def abs_mult sgn_mult) (metis mult_sgn_abs)

lemma to_ms_mono: "a \<le> b \<Longrightarrow> to_ms a \<le> to_ms b"
proof -
  assume ab: "a \<le> b"
  have neg: "to_ms x = - (- x div 1000000)" if "x < 0" for x using that by (simp add: to_ms_def tdiv_def)
  have pos: "to_ms x = x div 1000000" if "0 \<le> x" for x using that by (simp add: to_ms_def tdiv_nonneg)
  consider "0 \<le> a" | "a < 0" "0 \<le> b" | "b < 0" by linarith
  then show ?thesis
  proof cases
    case 1
    then show ?thesis using ab by (simp add: pos zdiv_mono1)
  next
    case 2
    then have "0 \<le> - a div 1000000" "0 \<le> b div 1000000" by (simp_all add: pos_imp_zdiv_nonneg_iff)
    then show ?thesis using 2 by (simp add: pos neg)
  next
    case 3
    then show ?thesis using ab zdiv_mono1 [of "- b" "- a" 1000000] by (simp add: neg)
  qed
qed

lemma prefix_map_take: "prefix al (map f xs) \<Longrightarrow> al = map f (take (length al) xs)"
  by (auto simp: prefix_def take_map [symmetric])

lemma sink_ok_later:
  assumes "sink_ok n_msgs sm el k" "el \<le> el'" "\<And>i. i < lab_delivered k \<Longrightarrow> sm' ! i = sm ! i"
  shows "sink_ok n_msgs sm' el' k"
proof -
  have "sm' ! i + 5 \<le> recv_ms k ! i \<and> recv_ms k ! i \<le> el'" if "i < n_msgs" "i < lab_delivered k" for i
    using assms that unfolding sink_ok_def by fastforce
  then show ?thesis using assms(1) unfolding sink_ok_def by simp
qed

lemma timeline_ok_next:
  assumes "timeline_ok el d xs" "el < el'" "d \<le> d'"
  shows "timeline_ok el' d' xs" "timeline_ok el' d' (xs @ [(el', d')])"
  using assms by (force simp: timeline_ok_def sorted_wrt_append)+

lemma lab_round_ok:
  assumes inv: "lab_inv c n0 n_msgs psize L" and ok: "one_way_ok (ep 1) (ep 2) c n0" and n: "n_msgs < 2 ^ 31"
    and run: "elapsed L < max_virtual_ms"
  shows "\<exists>L'. lab_round (ep 1) (ep 2) (sim_now n0) n_msgs psize L = Some L' \<and> lab_inv c n0 n_msgs psize L'"
proof -
  let ?A = "sim_transport (ep 1)" and ?B = "sim_transport (ep 2)"
  note i = inv [unfolded lab_inv_def]
  have i0: "5 dvd elapsed L" "0 \<le> elapsed L" "timeline_ok (elapsed L) (lab_delivered (lab_sink L)) (timeline L)"
    and i1: "one_way {} (ep 1) (ep 2) c n0 (lab_sent psize (lab_next L)) (lab_sa L) (lab_sb L) (lab_net L)" "lab_next L \<le> n_msgs"
      "length (send_ms L) = n_msgs" "lab_delivered (lab_sink L) \<le> lab_next L" "sink_ok n_msgs (send_ms L) (elapsed L) (lab_sink L)"
    and i2: "\<And>i. i < n_msgs \<Longrightarrow> if i < lab_next L then 0 \<le> send_ms L ! i \<and> send_ms L ! i + 5 \<le> elapsed L else send_ms L ! i = - 1"
    using i by blast+
  obtain next' sm sa n1 where f: "lab_feed ?A n_msgs psize (elapsed L) (lab_next L) (send_ms L) (lab_sa L) (lab_net L) = (next', sm, sa, n1)"
    by (metis prod_cases4)
  from lab_feed_ok [OF f i1(1,2) n] i1(3) have f1: "one_way {} (ep 1) (ep 2) c n0 (lab_sent psize next') sa (lab_sb L) n1"
    "lab_next L \<le> next'" "next' \<le> n_msgs" "sim_now n1 = sim_now (lab_net L)" "length sm = n_msgs"
    "\<And>i. i < n_msgs \<Longrightarrow> sm ! i = (if lab_next L \<le> i \<and> i < next' then elapsed L else send_ms L ! i)" by simp_all
  let ?el = "elapsed L + 5"
  obtain b1 sa2 n2 where p1: "poll ?A sa (advance n1 5) = (b1, sa2, n2)" by (metis prod_cases3)
  obtain b2 sb2 n3 where p2: "poll ?B (lab_sb L) n2 = (b2, sb2, n3)" by (metis prod_cases3)
  have o3: "one_way {} (ep 1) (ep 2) c n0 (lab_sent psize next') sa2 sb2 n3"
    by (rule one_way_poll_b [OF one_way_poll_a [OF one_way_advance [OF f1(1)] p1] p2])
  obtain sa4 n4 where t1: "tick ?A sa2 n3 = Some (sa4, n4)" using one_way_ticks(1) [OF o3 ok] by auto
  have o4: "one_way {} (ep 1) (ep 2) c n0 (lab_sent psize next') sa4 sb2 n4" by (rule one_way_tick_a [OF o3 t1])
  obtain sb5 n5 where t2: "tick ?B sb2 n4 = Some (sb5, n5)" using one_way_ticks(2) [OF o4 ok] by auto
  have o5: "one_way {} (ep 1) (ep 2) c n0 (lab_sent psize next') sa4 sb5 n5" by (rule one_way_tick_b [OF o4 t2])
  have now3: "sim_now n3 = sim_now n0 + ms ?el"
    using sim_calls_now [OF conjunct1 [OF poll_calls [OF p2]]] sim_calls_now [OF conjunct1 [OF poll_calls [OF p1]]] f1(4) i
    by (simp add: advance_def ms_def)
  have now5: "sim_now n5 = sim_now n0 + ms ?el"
    using sim_calls_now [OF conjunct1 [OF tick_calls [OF t2]]] sim_calls_now [OF conjunct1 [OF tick_calls [OF t1]]] now3 by simp
  let ?d = "lab_delivered (lab_sink L)" and ?log = "app_log (rx_side sb2)"
  have lg: "?log = lab_messages psize (length ?log)" "length ?log \<le> next'" using lab_prefix [OF one_way_log [OF o3 ok]] .
  have grow: "?d \<le> length ?log" using prefix_length_le [OF poll_log [OF p2]] i by simp
  let ?k = "foldl (lab_message n_msgs ?el) (lab_sink L) (new_calls (lab_sb L) sb2)"
  have nc: "new_calls (lab_sb L) sb2 = drop ?d (lab_messages psize (?d + (length ?log - ?d)))"
    using lg(1) grow i by (simp add: new_calls_def)
  have "sm ! i = send_ms L ! i" if "i < ?d" for i using that f1(6) [of i] i1(2,4) by simp
  then have sk: "sink_ok n_msgs sm ?el (lab_sink L)" by (intro sink_ok_later [OF i1(5)]) auto
  have sm: "if i < next' then 0 \<le> sm ! i \<and> sm ! i + 5 \<le> ?el else sm ! i = - 1" if "i < n_msgs" for i
    using f1(2) f1(6) [OF that] i2 [OF that] i0(2) by (auto split: if_splits)
  have sm': "sm ! i + 5 \<le> ?el" if "i < length ?log" for i using sm [of i] lg(2) f1(3) that by (simp split: if_splits)
  have k: "sink_ok n_msgs sm ?el ?k" "lab_delivered ?k = length ?log"
    unfolding nc using lab_messages_ok [OF sk n, of "length ?log - ?d" psize] grow lg(2) f1(3) sm' by simp_all
  let ?L = "L\<lparr>lab_net := n5, lab_sa := sa4, lab_sb := sb5, lab_sink := ?k, lab_next := next', send_ms := sm, elapsed := ?el\<rparr>"
  have el: "?el \<le> max_virtual_ms" "5 dvd ?el" "0 \<le> ?el" using i0(1-2) run by (auto simp: max_virtual_ms_def elim!: dvdE)
  have sm2: "sm ! i \<le> elapsed L" if "i < next'" for i using sm [of i] f1(3) that by simp
  have final: "lab_inv c n0 n_msgs psize (?L\<lparr>timeline := xs, last_sampled := z\<rparr>)" if "timeline_ok ?el (length ?log) xs" for xs z
    unfolding lab_inv_def using o5 lg k f1(3,5) sm sm2 now5 tick_rx [OF t2] el that by simp
  note tl = timeline_ok_next [of "elapsed L" ?d "timeline L" ?el "length ?log", OF _ _ grow]
  have r: "lab_round (ep 1) (ep 2) (sim_now n0) n_msgs psize L = Some (if ?el - last_sampled L \<ge> 25
      then ?L\<lparr>timeline := timeline L @ [(?el, lab_delivered ?k)], last_sampled := ?el\<rparr> else ?L)"
    using f p1 p2 t1 t2 now3 by (simp add: lab_round_def step_ms_def Let_def)
  show ?thesis
  proof (cases "?el - last_sampled L \<ge> 25")
    case True
    then show ?thesis using r final [OF tl(2), of ?el] i0(3) k(2) by simp
  next
    case False
    then show ?thesis using r final [OF tl(1), of "last_sampled L"] i0(3) by simp
  qed
qed

lemma lab_loop_ok:
  assumes "lab_inv c n0 n_msgs psize L" "one_way_ok (ep 1) (ep 2) c n0" "n_msgs < 2 ^ 31"
  shows "\<exists>L'. lab_loop (ep 1) (ep 2) (sim_now n0) n_msgs psize L = Some L' \<and> lab_inv c n0 n_msgs psize L'
    \<and> (lab_delivered (lab_sink L') < n_msgs \<longrightarrow> elapsed L' = max_virtual_ms)"
  using assms(1)
proof (induction "nat (max_virtual_ms - elapsed L)" arbitrary: L rule: less_induct)
  case less
  show ?case
  proof (cases "lab_delivered (lab_sink L) < n_msgs \<and> elapsed L < max_virtual_ms")
    case True
    obtain L1 where L1: "lab_round (ep 1) (ep 2) (sim_now n0) n_msgs psize L = Some L1" "lab_inv c n0 n_msgs psize L1"
      using lab_round_ok [OF less(2) assms(2,3)] True by blast
    have "nat (max_virtual_ms - elapsed L1) < nat (max_virtual_ms - elapsed L)" using elapsed_lab_round [OF L1(1)] True by simp
    from less(1) [OF this L1(2)] L1(1) True show ?thesis by (simp add: lab_loop.simps [of _ _ _ n_msgs psize L])
  next
    case False
    then show ?thesis using less(2) by (auto simp: lab_loop.simps [of _ _ _ n_msgs psize L] lab_inv_def)
  qed
qed

section \<open>The figures\<close>

lemma latencies_range:
  assumes "length sm = length rm" "\<And>i. i < length sm \<Longrightarrow> 0 \<le> sm ! i \<Longrightarrow> 0 \<le> rm ! i \<Longrightarrow> sm ! i + a \<le> rm ! i \<and> rm ! i \<le> b" "x \<in> set (latencies sm rm)"
  shows "a \<le> x \<and> x \<le> b"
proof -
  obtain i where i: "i < length sm" "x = rm ! i - sm ! i" "0 \<le> sm ! i" "0 \<le> rm ! i"
    using assms(1,3) by (auto simp: latencies_def in_set_zip)
  then show ?thesis using assms(2) [of i] by linarith
qed

lemma length_latencies: "length (latencies sm rm) = length (filter (\<lambda>(s, r). 0 \<le> s \<and> 0 \<le> r) (zip sm rm))"
  by (simp add: latencies_def)

lemma sorted_latencies [simp]: "sorted (latencies sm rm)"
  by (simp add: latencies_def)

lemma min_index [simp]: "xs \<noteq> [] \<Longrightarrow> min (length xs - Suc 0) k < length xs"
  by (simp add: min_less_iff_disj)

lemma pick_mono: "sorted lat \<Longrightarrow> fl p \<le> fl q \<Longrightarrow> pick lat p \<le> pick lat q"
proof -
  assume s: "sorted lat" and q: "fl p \<le> fl q"
  have "fl (fl p * of_nat (length lat)) \<le> fl (fl q * of_nat (length lat))" by (rule fl_mono, rule mult_right_mono [OF q]) simp
  then have "nat \<lfloor>fl (fl p * of_nat (length lat))\<rfloor> \<le> nat \<lfloor>fl (fl q * of_nat (length lat))\<rfloor>" by (intro nat_mono floor_mono)
  then show ?thesis using s by (auto simp: pick_def intro!: sorted_nth_mono)
qed

lemma pick_in: "lat \<noteq> [] \<Longrightarrow> pick lat q \<in> set lat"
  by (auto simp: pick_def intro!: nth_mem)

lemma pick_le_last: "sorted lat \<Longrightarrow> lat \<noteq> [] \<Longrightarrow> pick lat q \<le> last lat"
  by (auto simp: pick_def last_conv_nth intro!: sorted_nth_mono)

lemma filter_zip_nth:
  assumes "length sm = length rm" "d \<le> length sm" "\<And>i. i < length sm \<Longrightarrow> (0 \<le> sm ! i \<and> 0 \<le> rm ! i) = (i < d)"
  shows "length (filter (\<lambda>(s, r). 0 \<le> s \<and> 0 \<le> (r :: int)) (zip sm rm)) = d"
proof -
  have "length (filter (\<lambda>(s, r). 0 \<le> s \<and> 0 \<le> r) (zip sm rm)) = card {i. i < length sm \<and> i < d}"
    using assms by (simp add: length_filter_conv_card cong: conj_cong)
  also have "{i. i < length sm \<and> i < d} = {..<d}" using assms(2) by auto
  finally show ?thesis by simp
qed

lemma lab_latencies:
  assumes "lab_inv c n0 n_msgs psize L"
  shows "length (latencies (send_ms L) (recv_ms (lab_sink L))) = lab_delivered (lab_sink L)"
    "x \<in> set (latencies (send_ms L) (recv_ms (lab_sink L))) \<Longrightarrow> 5 \<le> x \<and> x \<le> max_virtual_ms"
proof -
  let ?sm = "send_ms L" and ?rm = "recv_ms (lab_sink L)" and ?d = "lab_delivered (lab_sink L)"
  have i: "length ?sm = n_msgs" "length ?rm = n_msgs" "?d \<le> n_msgs" "elapsed L \<le> max_virtual_ms" "?d \<le> lab_next L"
    using assms by (auto simp: lab_inv_def sink_ok_def)
  have r: "if i < ?d then ?sm ! i + 5 \<le> ?rm ! i \<and> ?rm ! i \<le> elapsed L else ?rm ! i = - 1" if "i < n_msgs" for i
    using assms that unfolding lab_inv_def sink_ok_def by blast
  have s: "0 \<le> ?sm ! i" if "i < ?d" for i
  proof -
    have "if i < lab_next L then 0 \<le> ?sm ! i \<and> ?sm ! i + 5 \<le> elapsed L else ?sm ! i = - 1"
      using assms that i(3) unfolding lab_inv_def by (meson order_less_le_trans)
    then show ?thesis using that i(5) by simp
  qed
  have "(0 \<le> ?sm ! j \<and> 0 \<le> ?rm ! j) = (j < ?d)" if "j < n_msgs" for j
    using r [OF that] s [of j] by (cases "j < ?d") auto
  then show "length (latencies ?sm ?rm) = ?d" using i by (simp add: length_latencies filter_zip_nth)
  show "5 \<le> x \<and> x \<le> max_virtual_ms" if "x \<in> set (latencies ?sm ?rm)"
  proof (rule latencies_range [OF _ _ that])
    show "length ?sm = length ?rm" using i by simp
    show "?sm ! j + 5 \<le> ?rm ! j \<and> ?rm ! j \<le> max_virtual_ms" if "j < length ?sm" "0 \<le> ?rm ! j" for j
      using r [of j] that i by (auto split: if_splits)
  qed
qed

lemma lab_network_empty [simp]: "sim_wire (lab_network seed i) e = {}"
  by (simp add: lab_network_def) (simp add: sim_wire_def box_of_def new_simnet_def)

lemma lab_one_way_ok: "1 \<le> rto_floor_ms \<Longrightarrow> rto_floor_ms \<le> 2000 \<Longrightarrow> one_way_ok (ep 1) (ep 2) (lab_config wpkts rto_floor_ms) (lab_network seed i)"
  by (simp add: one_way_ok_def config_ok_def kMaxRto_def lab_config_def ep_def)

lemma lab_inv_new: "lab_inv c n n_msgs psize (new_lab n c n_msgs)"
  using one_way_start [of "{}" "ep 1" "ep 2" c n]
  by (simp add: lab_inv_def new_lab_def new_sink_def sink_ok_def lab_messages_def set_on_message_def new_session_def new_recv_side_def
      ms_def max_virtual_ms_def timeline_ok_def)

lemma lab_result_ok:
  assumes "lab_inv c n0 n_msgs psize L" "lab_delivered (lab_sink L) < n_msgs \<longrightarrow> elapsed L = max_virtual_ms"
  defines "r \<equiv> lab_result n_msgs L"
  shows "res_ordered r \<and> res_delivered r \<le> res_sent r \<and> res_sent r \<le> n_msgs
    \<and> res_timed_out r = (res_delivered r < n_msgs) \<and> (res_timed_out r \<longrightarrow> res_virtual_ms r = 120000) \<and> res_virtual_ms r \<le> 120000
    \<and> (0 < res_delivered r \<longrightarrow> 5 \<le> res_p50 r \<and> res_p50 r \<le> res_p99 r \<and> res_p99 r \<le> res_max r \<and> res_max r \<le> 120000)
    \<and> sorted_wrt (\<lambda>x y. fst x < fst y \<and> snd x \<le> snd y) (res_timeline r)"
proof -
  let ?lat = "latencies (send_ms L) (recv_ms (lab_sink L))"
  note l = lab_latencies [OF assms(1)]
  have q: "fl (50 / 100) \<le> fl (99 / 100)" by (rule fl_mono) simp
  have "5 \<le> pick ?lat (50 / 100) \<and> pick ?lat (50 / 100) \<le> pick ?lat (99 / 100) \<and> pick ?lat (99 / 100) \<le> last ?lat \<and> last ?lat \<le> 120000"
    if "?lat \<noteq> []"
    using l(2) [OF pick_in [OF that]] l(2) [OF last_in_set [OF that]] pick_mono [OF _ q, of ?lat] pick_le_last [OF _ that]
    by (simp add: max_virtual_ms_def)
  moreover have "?lat \<noteq> []" if "0 < lab_delivered (lab_sink L)" using l(1) that by auto
  ultimately show ?thesis using assms
    by (simp add: lab_result_def Let_def lab_inv_def sink_ok_def timeline_ok_def max_virtual_ms_def)
qed

section \<open>The channels\<close>

definition feel_payloads :: "(u32 \<times> u32) list \<Rightarrow> bytes list" where
  "feel_payloads zs = map (\<lambda>i. feel_payload (word_of_nat i) (zs ! i)) [0..<length zs]"

lemma feel_payloads_snoc: "feel_payloads (zs @ [z]) = feel_payloads zs @ [feel_payload (word_of_nat (length zs)) z]"
  by (simp add: feel_payloads_def nth_append)

lemma length_feel_payloads [simp]: "length (feel_payloads zs) = length zs"
  by (simp add: feel_payloads_def)

lemma word_at_payload:
  "word_at (feel_payload sq z) 0 = sq" "word_at (feel_payload sq z) 4 = fst z" "word_at (feel_payload sq z) 8 = snd z"
  "length (feel_payload sq z) = 12"
  by (simp_all add: word_at_def feel_payload_def le32_def)

text \<open>Sample number \<open>i\<close> has been handed over as it was sent.\<close>

definition echoes :: "(u32 \<times> u32) list \<Rightarrow> FeelDelivery list \<Rightarrow> bool" where
  "echoes zs ds \<longleftrightarrow> length ds \<le> length zs
     \<and> (\<forall>i<length ds. fd_seq (ds ! i) = word_of_nat i \<and> (fd_x (ds ! i), fd_y (ds ! i)) = zs ! i \<and> 0 \<le> fd_lat (ds ! i))"

definition feel_inv :: "Config \<Rightarrow> SimNet \<Rightarrow> (u32 \<times> u32) list \<Rightarrow> FeelDelivery list \<Rightarrow> FeelChannel \<Rightarrow> bool" where
  "feel_inv c n0 zs ds ch \<longleftrightarrow> one_way {} (ep 1) (ep 2) c n0 (feel_payloads zs) (fc_tx ch) (fc_rx ch) (fc_net ch)
     \<and> fc_next ch = word_of_nat (length zs) \<and> length (fc_send_ms ch) = length zs \<and> (\<forall>t\<in>set (fc_send_ms ch). t \<le> now_ms ch)
     \<and> length (app_log (rx_side (fc_rx ch))) = length (ds @ fc_delivered ch) \<and> echoes zs (ds @ fc_delivered ch)"

lemma echoes_more: "echoes zs ds \<Longrightarrow> echoes (zs @ ys) ds"
  by (auto simp: echoes_def nth_append)

lemma echoes_front:
  assumes "echoes zs (ds @ es)"
  shows "echoes zs ds"
proof -
  have "fd_seq (ds ! i) = word_of_nat i \<and> (fd_x (ds ! i), fd_y (ds ! i)) = zs ! i \<and> 0 \<le> fd_lat (ds ! i)" if "i < length ds" for i
    using assms that unfolding echoes_def by (metis length_append nth_append trans_less_add1)
  then show ?thesis using assms unfolding echoes_def by simp
qed

lemma echoes_snoc:
  assumes "echoes zs es" "length es = k" "k < length zs" "fd_seq d = word_of_nat k" "(fd_x d, fd_y d) = zs ! k" "0 \<le> fd_lat d"
  shows "echoes zs (es @ [d])"
  using assms by (auto simp: echoes_def nth_append less_Suc_eq)

lemma feel_send_ok:
  assumes "feel_inv c n0 zs ds ch" "feel_send z ch = (q, ch')" "Suc (length zs) < 2 ^ 32"
  shows "feel_inv c n0 (if 0 \<le> q then zs @ [z] else zs) ds ch' \<and> (0 \<le> q \<longrightarrow> q = int (length zs))"
proof -
  obtain ok tx n where s: "send (sim_transport (ep 1)) ReliableOrdered (feel_payload (fc_next ch) z) (fc_tx ch) (fc_net ch) = (ok, tx, n)"
    by (metis prod_cases3)
  have q: "0 \<le> q \<longleftrightarrow> ok" and ch': "ch' = (let ch = ch\<lparr>fc_tx := tx, fc_net := n\<rparr>
      in if ok then ch\<lparr>fc_send_ms := fc_send_ms ch @ [now_ms ch], fc_next := fc_next ch + 1\<rparr> else ch)" and v: "ok \<Longrightarrow> q = uint (fc_next ch)"
    using assms(2) s by (auto simp: feel_send_def Let_def split: if_splits)
  have i: "one_way {} (ep 1) (ep 2) c n0 (feel_payloads zs) (fc_tx ch) (fc_rx ch) (fc_net ch)" "fc_next ch = word_of_nat (length zs)"
    using assms(1) by (simp_all add: feel_inv_def)
  have o: "one_way {} (ep 1) (ep 2) c n0 (feel_payloads (if ok then zs @ [z] else zs)) tx (fc_rx ch) n"
    using one_way_send [OF i(1) s] i(2) assms(3) by (cases ok) (simp_all add: feel_payloads_snoc)
  have now: "now_ms (ch\<lparr>fc_tx := tx, fc_net := n\<rparr>) = now_ms ch"
    using sim_calls_now [OF conjunct1 [OF send_calls [OF s]]] by (simp add: now_ms_def)
  have "uint (word_of_nat (length zs) :: u32) = int (length zs)"
    using assms(3) by (simp add: unsigned_of_nat take_bit_nat_eq_self)
  then show ?thesis using assms(1) o now q v ch' i(2)
    by (cases ok) (auto simp: feel_inv_def now_ms_def Let_def echoes_more)
qed

lemma feel_message_frame [simp]:
  "fc_net (feel_message ch m) = fc_net ch" "fc_send_ms (feel_message ch m) = fc_send_ms ch" "fc_t0 (feel_message ch m) = fc_t0 ch"
  "fc_next (feel_message ch m) = fc_next ch" "fc_tx (feel_message ch m) = fc_tx ch" "fc_rx (feel_message ch m) = fc_rx ch"
  "now_ms (feel_message ch m) = now_ms ch"
  by (simp_all add: feel_message_def Let_def now_ms_def)

lemma feel_messages_frame [simp]:
  "fc_net (foldl feel_message ch l) = fc_net ch" "fc_send_ms (foldl feel_message ch l) = fc_send_ms ch" "fc_t0 (foldl feel_message ch l) = fc_t0 ch"
  "fc_next (foldl feel_message ch l) = fc_next ch"
  by (induction l arbitrary: ch) simp_all

lemma feel_message_ok:
  assumes "echoes zs (ds @ fc_delivered ch)" "length (ds @ fc_delivered ch) = k" "k < length zs" "length zs < 2 ^ 32"
    and "length (fc_send_ms ch) = length zs" "\<forall>t\<in>set (fc_send_ms ch). t \<le> now_ms ch"
  defines "ch' \<equiv> feel_message ch (ReliableOrdered, feel_payload (word_of_nat k) (zs ! k))"
  shows "echoes zs (ds @ fc_delivered ch')" "length (ds @ fc_delivered ch') = Suc k"
proof -
  have u: "unat (word_of_nat k :: u32) = k" using assms(3,4) by (simp add: unat_of_nat take_bit_nat_eq_self)
  have "fc_send_ms ch ! k \<le> now_ms ch" using assms(3,5,6) by simp
  then have new: "fc_delivered ch' = fc_delivered ch
      @ [\<lparr>fd_seq = word_of_nat k, fd_x = fst (zs ! k), fd_y = snd (zs ! k), fd_lat = now_ms ch - fc_send_ms ch ! k\<rparr>]"
    using u assms(3,5) by (simp add: ch'_def feel_message_def word_at_payload Let_def)
  then show "length (ds @ fc_delivered ch') = Suc k" using assms(2) by simp
  show "echoes zs (ds @ fc_delivered ch')"
    using echoes_snoc [OF assms(1-3)] \<open>fc_send_ms ch ! k \<le> now_ms ch\<close> by (simp add: new)
qed

lemma feel_messages_ok:
  assumes "echoes zs (ds @ fc_delivered ch)" "length (ds @ fc_delivered ch) = k" "k + j \<le> length zs" "length zs < 2 ^ 32"
    and "length (fc_send_ms ch) = length zs" "\<forall>t\<in>set (fc_send_ms ch). t \<le> now_ms ch"
  defines "ch' \<equiv> foldl feel_message ch (map (Pair ReliableOrdered) (drop k (take (k + j) (feel_payloads zs))))"
  shows "echoes zs (ds @ fc_delivered ch') \<and> length (ds @ fc_delivered ch') = k + j"
  using assms(3) unfolding ch'_def
proof (induction j)
  case 0
  then show ?case using assms(1,2) by simp
next
  case (Suc j)
  let ?ch = "foldl feel_message ch (map (Pair ReliableOrdered) (drop k (take (k + j) (feel_payloads zs))))"
  have kj: "k + j < length zs" using Suc(2) by simp
  have ih: "echoes zs (ds @ fc_delivered ?ch)" "length (ds @ fc_delivered ?ch) = k + j" using Suc by simp_all
  have "feel_payloads zs ! (k + j) = feel_payload (word_of_nat (k + j)) (zs ! (k + j))"
    using kj by (simp add: feel_payloads_def del: of_nat_add)
  then have "take (k + Suc j) (feel_payloads zs) = take (k + j) (feel_payloads zs) @ [feel_payload (word_of_nat (k + j)) (zs ! (k + j))]"
    using kj by (simp add: take_Suc_conv_app_nth del: of_nat_add)
  then have step: "foldl feel_message ch (map (Pair ReliableOrdered) (drop k (take (k + Suc j) (feel_payloads zs))))
      = feel_message ?ch (ReliableOrdered, feel_payload (word_of_nat (k + j)) (zs ! (k + j)))"
    using kj by (simp del: of_nat_add)
  have "\<forall>t\<in>set (fc_send_ms ?ch). t \<le> now_ms ?ch" "length (fc_send_ms ?ch) = length zs" using assms(5,6) by (simp_all add: now_ms_def)
  from feel_message_ok [OF ih kj assms(4) this(2,1)] show ?case unfolding step by simp
qed

lemma feel_substep_ok:
  assumes inv: "feel_inv c n0 zs ds ch" and ok: "one_way_ok (ep 1) (ep 2) c n0" and n: "length zs < 2 ^ 32" and dt: "0 \<le> dt"
  shows "\<exists>ch'. feel_substep dt ch = Some ch' \<and> feel_inv c n0 zs ds ch'"
proof -
  let ?A = "sim_transport (ep 1)" and ?B = "sim_transport (ep 2)"
  have i: "one_way {} (ep 1) (ep 2) c n0 (feel_payloads zs) (fc_tx ch) (fc_rx ch) (fc_net ch)" "fc_next ch = word_of_nat (length zs)"
    "length (fc_send_ms ch) = length zs" "\<forall>t\<in>set (fc_send_ms ch). t \<le> now_ms ch"
    "length (app_log (rx_side (fc_rx ch))) = length (ds @ fc_delivered ch)" "echoes zs (ds @ fc_delivered ch)"
    using inv by (simp_all add: feel_inv_def)
  obtain b1 tx n1 where p1: "poll ?A (fc_tx ch) (advance (fc_net ch) dt) = (b1, tx, n1)" by (metis prod_cases3)
  obtain b2 rx n2 where p2: "poll ?B (fc_rx ch) n1 = (b2, rx, n2)" by (metis prod_cases3)
  have o2: "one_way {} (ep 1) (ep 2) c n0 (feel_payloads zs) tx rx n2"
    by (rule one_way_poll_b [OF one_way_poll_a [OF one_way_advance [OF i(1)] p1] p2])
  obtain tx3 n3 where t1: "tick ?A tx n2 = Some (tx3, n3)" using one_way_ticks(1) [OF o2 ok] by auto
  have o3: "one_way {} (ep 1) (ep 2) c n0 (feel_payloads zs) tx3 rx n3" by (rule one_way_tick_a [OF o2 t1])
  obtain rx4 n4 where t2: "tick ?B rx n3 = Some (rx4, n4)" using one_way_ticks(2) [OF o3 ok] by auto
  have o4: "one_way {} (ep 1) (ep 2) c n0 (feel_payloads zs) tx3 rx4 n4" by (rule one_way_tick_b [OF o3 t2])
  have now2: "sim_now n2 = sim_now (fc_net ch) + ms dt" and now4: "sim_now n4 = sim_now n2"
    using sim_calls_now [OF conjunct1 [OF poll_calls [OF p2]]] sim_calls_now [OF conjunct1 [OF poll_calls [OF p1]]]
      sim_calls_now [OF conjunct1 [OF tick_calls [OF t2]]] sim_calls_now [OF conjunct1 [OF tick_calls [OF t1]]]
    by (simp_all add: advance_def)
  let ?ch = "ch\<lparr>fc_net := n2\<rparr>" and ?k = "length (ds @ fc_delivered ch)" and ?al = "app_log (rx_side rx)"
  have later: "now_ms ch \<le> now_ms ?ch" using now2 dt by (simp add: now_ms_def to_ms_mono ms_def)
  have sent: "\<forall>t\<in>set (fc_send_ms ?ch). t \<le> now_ms ?ch" using i(4) later by fastforce
  have lg: "?al = map (Pair ReliableOrdered) (take (length ?al) (feel_payloads zs))" "length ?al \<le> length zs"
    using prefix_map_take [OF one_way_log [OF o2 ok]] prefix_length_le [OF one_way_log [OF o2 ok]] by simp_all
  have grow: "?k \<le> length ?al" using prefix_length_le [OF poll_log [OF p2]] i(5) by simp
  have nc: "new_calls (fc_rx ch) rx = map (Pair ReliableOrdered) (drop ?k (take (?k + (length ?al - ?k)) (feel_payloads zs)))"
    using arg_cong [OF lg(1), of "drop ?k"] grow i(5) unfolding drop_map by (simp add: new_calls_def)
  let ?ch' = "foldl feel_message ?ch (new_calls (fc_rx ch) rx)"
  have e: "echoes zs (ds @ fc_delivered ?ch')" "length (ds @ fc_delivered ?ch') = length ?al"
    using feel_messages_ok [of zs ds ?ch ?k "length ?al - ?k", OF _ _ _ n _ sent] i(3,6) lg(2) grow by (simp_all add: nc)
  have "feel_substep dt ch = Some (?ch'\<lparr>fc_net := n4, fc_tx := tx3, fc_rx := rx4\<rparr>)"
    using p1 p2 t1 t2 by (simp add: feel_substep_def Let_def)
  moreover have "now_ms (?ch'\<lparr>fc_net := n4, fc_tx := tx3, fc_rx := rx4\<rparr>) = now_ms ?ch" using now4 by (simp add: now_ms_def)
  ultimately show ?thesis using o4 e i(2,3) sent tick_rx [OF t2] by (simp add: feel_inv_def)
qed

lemma feel_loop_ok:
  assumes "feel_inv c n0 zs ds (fst g)" "feel_inv c' n0' zs' ds' (snd g)" "one_way_ok (ep 1) (ep 2) c n0" "one_way_ok (ep 1) (ep 2) c' n0'"
    "length zs < 2 ^ 32" "length zs' < 2 ^ 32"
  shows "\<exists>g'. feel_loop dt k g = Some g' \<and> feel_inv c n0 zs ds (fst g') \<and> feel_inv c' n0' zs' ds' (snd g')"
  using assms(1,2)
proof (induction dt k g rule: feel_loop.induct)
  case (1 dt k g)
  show ?case
  proof (cases "k < dt")
    case True
    obtain a b where ab: "feel_substep (min 5 (dt - k)) (fst g) = Some a" "feel_inv c n0 zs ds a"
      "feel_substep (min 5 (dt - k)) (snd g) = Some b" "feel_inv c' n0' zs' ds' b"
      using feel_substep_ok [OF 1(2) assms(3,5), of "min 5 (dt - k)"] feel_substep_ok [OF 1(3) assms(4,6), of "min 5 (dt - k)"] True by auto
    from 1(1) [OF True, of a b] ab show ?thesis using True by (simp add: feel_loop.simps [of dt k])
  next
    case False
    then show ?thesis using 1 by (simp add: feel_loop.simps [of dt k])
  qed
qed

text \<open>
  A page's session with the instrument: any sequence of the two calls after \<^verbatim>\<open>tt_feel_init\<close>, with the samples each channel has accepted
  and the deliveries it has handed back.
\<close>

datatype feel_call = Feel_send "u32 \<times> u32" | Feel_step int

record FeelTrace =
  ft_sent :: "(u32 \<times> u32) list"
  ft_got :: "FeelDelivery list"

definition note_sent :: "int \<Rightarrow> u32 \<times> u32 \<Rightarrow> FeelTrace \<Rightarrow> FeelTrace" where
  "note_sent q z t = (if 0 \<le> q then t\<lparr>ft_sent := ft_sent t @ [z]\<rparr> else t)"

definition note_got :: "FeelDelivery list \<times> u32 \<Rightarrow> FeelTrace \<Rightarrow> FeelTrace" where
  "note_got x t = t\<lparr>ft_got := ft_got t @ fst x\<rparr>"

fun feel_run :: "feel_call list \<Rightarrow> Feel option \<times> FeelTrace \<times> FeelTrace \<Rightarrow> (Feel option \<times> FeelTrace \<times> FeelTrace) option" where
  "feel_run [] st = Some st"
| "feel_run (Feel_send z # cs) (g, ta, tb) =
     (let ((i, j), g) = tt_feel_send z g in feel_run cs (g, note_sent i z ta, note_sent j z tb))"
| "feel_run (Feel_step dt # cs) (g, ta, tb) =
     (case tt_feel_step dt g of
        None \<Rightarrow> None
      | Some (None, g) \<Rightarrow> feel_run cs (g, ta, tb)
      | Some (Some (x, y), g) \<Rightarrow> feel_run cs (g, note_got x ta, note_got y tb))"

definition no_trace :: FeelTrace where
  "no_trace = \<lparr>ft_sent = [], ft_got = []\<rparr>"

definition trace_inv :: "Config \<Rightarrow> SimNet \<Rightarrow> FeelTrace \<Rightarrow> FeelChannel \<Rightarrow> bool" where
  "trace_inv c n0 t ch \<longleftrightarrow> feel_inv c n0 (ft_sent t) (ft_got t) ch"

lemma trace_send:
  assumes "trace_inv c n0 t ch" "feel_send z ch = (q, ch')" "Suc (length (ft_sent t)) < 2 ^ 32"
  shows "trace_inv c n0 (note_sent q z t) ch' \<and> length (ft_sent (note_sent q z t)) \<le> Suc (length (ft_sent t))"
  using feel_send_ok [of c n0 "ft_sent t" "ft_got t" ch z q ch'] assms by (auto simp: trace_inv_def note_sent_def)

lemma trace_drain:
  assumes "trace_inv c n0 t ch" "feel_drain ch = (x, ch')"
  shows "trace_inv c n0 (note_got x t) ch' \<and> ft_sent (note_got x t) = ft_sent t"
  using assms by (auto simp: trace_inv_def note_got_def feel_drain_def feel_inv_def now_ms_def)

lemma trace_echoes: "trace_inv c n0 t ch \<Longrightarrow> echoes (ft_sent t) (ft_got t)"
  unfolding trace_inv_def feel_inv_def by (blast intro: echoes_front)

lemma trace_make: "trace_inv (lab_config 64 floor_ms) (lab_network seed (lab_imp l d j)) no_trace (feel_make seed l d j floor_ms)"
  using one_way_start [of "{}" "ep 1" "ep 2" "lab_config 64 floor_ms"]
  by (simp add: trace_inv_def feel_inv_def no_trace_def feel_make_def feel_payloads_def echoes_def Let_def
      set_on_message_def new_session_def new_recv_side_def)

lemma feel_run_ok:
  assumes "trace_inv c n0 ta a" "trace_inv c' n0' tb b" "one_way_ok (ep 1) (ep 2) c n0" "one_way_ok (ep 1) (ep 2) c' n0'"
    "length (ft_sent ta) + length cs < 2 ^ 32" "length (ft_sent tb) + length cs < 2 ^ 32"
  shows "\<exists>a' b' ta' tb'. feel_run cs (Some (a, b), ta, tb) = Some (Some (a', b'), ta', tb')
    \<and> trace_inv c n0 ta' a' \<and> trace_inv c' n0' tb' b'"
  using assms(1,2,5,6)
proof (induction cs arbitrary: a b ta tb)
  case (Cons call cs)
  show ?case
  proof (cases call)
    case (Feel_send z)
    obtain i a1 j b1 where s: "feel_send z a = (i, a1)" "feel_send z b = (j, b1)" by fastforce
    note t = trace_send [OF Cons(2) s(1)] trace_send [OF Cons(3) s(2)]
    from Cons(1) [of "note_sent i z ta" a1 "note_sent j z tb" b1] t Cons(4,5)
    show ?thesis using s Feel_send by (simp add: tt_feel_send_def)
  next
    case (Feel_step dt)
    have "length (ft_sent ta) < 2 ^ 32" "length (ft_sent tb) < 2 ^ 32" using Cons(4,5) by simp_all
    from feel_loop_ok [of c n0 "ft_sent ta" "ft_got ta" "(a, b)" c' n0' "ft_sent tb" "ft_got tb" "max 0 (min dt 250)" 0, OF _ _ assms(3,4) this] Cons(2,3)
    obtain a1 b1 where l: "feel_loop (max 0 (min dt 250)) 0 (a, b) = Some (a1, b1)" "trace_inv c n0 ta a1" "trace_inv c' n0' tb b1"
      by (auto simp: trace_inv_def)
    obtain x a2 y b2 where d: "feel_drain a1 = (x, a2)" "feel_drain b1 = (y, b2)" by fastforce
    note t = trace_drain [OF l(2) d(1)] trace_drain [OF l(3) d(2)]
    from Cons(1) [of "note_got x ta" a2 "note_got y tb" b2] t Cons(4,5)
    show ?thesis using l(1) d Feel_step by (simp add: tt_feel_step_def)
  qed
qed simp

section \<open>Properties\<close>

text \<open>C20: A batch experiment of the browser demonstration always returns, whatever the seed, the loss, the delays, the window and the
  payload, and its report is consistent: the messages arrived in order, at most as many as were sent, and no more than asked for; it says
  that it timed out exactly when messages are missing, and then the virtual clock stands at 120000 ms; the latencies are ordered and lie
  between one step of the clock and the whole run; the samples of the timeline are increasing in time and never decreasing in messages.\<close>

theorem experiment_report:
  assumes "0 \<le> n_msgs" "n_msgs < 2 ^ 31" "1 \<le> rto_floor_ms" "rto_floor_ms \<le> 2000"
  shows "\<exists>r. lab_run seed loss_pct delay_ms jitter_ms wpkts rto_floor_ms n_msgs psize = Some (Inr r)
    \<and> tt_run seed loss_pct delay_ms jitter_ms wpkts rto_floor_ms n_msgs psize = Some (Inr (lab_json r))
    \<and> res_ordered r \<and> res_delivered r \<le> res_sent r \<and> res_sent r \<le> nat n_msgs
    \<and> res_timed_out r = (res_delivered r < nat n_msgs) \<and> (res_timed_out r \<longrightarrow> res_virtual_ms r = 120000) \<and> res_virtual_ms r \<le> 120000
    \<and> (0 < res_delivered r \<longrightarrow> 5 \<le> res_p50 r \<and> res_p50 r \<le> res_p99 r \<and> res_p99 r \<le> res_max r \<and> res_max r \<le> 120000)
    \<and> sorted_wrt (\<lambda>x y. fst x < fst y \<and> snd x \<le> snd y) (res_timeline r)"
proof -
  let ?n = "lab_network seed (lab_imp loss_pct delay_ms jitter_ms)" and ?c = "lab_config wpkts rto_floor_ms"
  obtain L where L: "lab_loop (ep 1) (ep 2) (sim_now ?n) (nat n_msgs) psize (new_lab ?n ?c (nat n_msgs)) = Some L"
    "lab_inv ?c ?n (nat n_msgs) psize L" "lab_delivered (lab_sink L) < nat n_msgs \<longrightarrow> elapsed L = max_virtual_ms"
    using lab_loop_ok [OF lab_inv_new lab_one_way_ok [OF assms(3,4)]] assms(1,2) by (metis nat_less_iff of_nat_numeral of_nat_power)
  have "lab_run seed loss_pct delay_ms jitter_ms wpkts rto_floor_ms n_msgs psize = Some (Inr (lab_result (nat n_msgs) L))"
    using L(1) assms(1) by (simp add: lab_run_def Let_def)
  then show ?thesis using lab_result_ok [OF L(2,3)] by (auto simp: tt_run_def)
qed

theorem experiment_report_witness:
  "\<exists>r. (0 :: int) \<le> 3 \<and> (3 :: int) < 2 ^ 31 \<and> (25 :: int) \<le> 2000 \<and> lab_run 7 10 20 5 64 25 3 100 = Some (Inr r) \<and> res_ordered r \<and> res_delivered r \<le> 3"
  using experiment_report [of 3 25 7 10 20 5 64 100] by auto

text \<open>The cursor-echo instrument hands back every sample in order and unaltered. After any sequence of fewer than \<open>2 ^ 32\<close> calls,
  on both channels, every call has returned, and the deliveries handed to the page are the first samples that the channel accepted, numbered
  from zero, with the coordinates that were sent and a latency that is not negative.\<close>

theorem instrument_echoes:
  assumes "length cs < 2 ^ 32"
  shows "\<exists>g ta tb. feel_run cs (Some (tt_feel_init seed loss_pct delay_ms jitter_ms), no_trace, no_trace) = Some (g, ta, tb)
    \<and> echoes (ft_sent ta) (ft_got ta) \<and> echoes (ft_sent tb) (ft_got tb)"
proof -
  note m = trace_make [of _ seed loss_pct delay_ms jitter_ms]
  have "one_way_ok (ep 1) (ep 2) (lab_config 64 25) n \<and> one_way_ok (ep 1) (ep 2) (lab_config 64 200) n"
    if "n = lab_network seed (lab_imp loss_pct delay_ms jitter_ms)" for n
    using that by (simp add: lab_one_way_ok)
  with feel_run_ok [OF m m, of 25 200 cs] assms show ?thesis
    by (fastforce simp: tt_feel_init_def no_trace_def dest: trace_echoes)
qed

theorem instrument_echoes_witness:
  "\<exists>g ta tb. length [Feel_send (1, 2), Feel_step 40] < 2 ^ 32
    \<and> feel_run [Feel_send (1, 2), Feel_step 40] (Some (tt_feel_init 7 10 20 5), no_trace, no_trace) = Some (g, ta, tb)
    \<and> echoes (ft_sent ta) (ft_got ta)"
  using instrument_echoes [of "[Feel_send (1, 2), Feel_step 40]" 7 10 20 5] by auto

end
