(* ===== verification/Mesh_Node.thy ===== *)
theory Mesh_Node
  imports Swim_Cluster Ieee_Double
begin

text \<open>
  The membership demonstration \<^verbatim>\<open>demo/mesh_node.cc\<close>: five nodes on the simulator, each behind a \<open>LinkFilter\<close> that can sever its
  links; the mesh converges, one node is cut off, and the partition is healed. The filter keeps the transport contract of whatever it
  decorates, so what is proved of clusters holds under partitions, and of every table that the demonstration prints.
\<close>

section \<open>LinkFilter\<close>

text \<open>The world of the filters: the world of the transports they decorate, and for each node the keys of the peers it has blocked.\<close>

record 'n Links =
  under :: 'n
  blocked :: "Endpoint \<Rightarrow> u64 set"

definition ekey :: "Endpoint \<Rightarrow> u64" where
  "ekey e = push_bit 16 (ucast (addr_be e)) OR ucast (port_be e)"

definition block :: "Endpoint \<Rightarrow> Endpoint \<Rightarrow> 'n Links \<Rightarrow> 'n Links" where
  "block me other w = w\<lparr>blocked := (blocked w)(me := insert (ekey other) (blocked w me))\<rparr>"

definition heal :: "Endpoint \<Rightarrow> 'n Links \<Rightarrow> 'n Links" where
  "heal me w = w\<lparr>blocked := (blocked w)(me := {})\<rparr>"

definition link_send :: "'n UdpTransport \<Rightarrow> Endpoint \<Rightarrow> Endpoint \<Rightarrow> bytes \<Rightarrow> 'n Links \<Rightarrow> nat \<times> 'n Links" where
  "link_send T me dest data w =
     (if ekey dest \<in> blocked w me then (length data, w)
      else let (k, n) = t_send T dest data (under w) in (k, w\<lparr>under := n\<rparr>))"

text \<open>The loop of \<^verbatim>\<open>recv\<close> drops what comes from a blocked peer; it ends when the decorated transport runs out of such datagrams. A loop
  that does not end would be \<open>None\<close> here; over the simulator there is none (\<open>link_recv_returns\<close> below), so \<open>link_recv\<close> never takes that branch.\<close>

definition from_blocked :: "u64 set \<Rightarrow> (bytes \<times> Endpoint) option \<times> 'n \<Rightarrow> bool" where
  "from_blocked B x = (case fst x of None \<Rightarrow> False | Some r \<Rightarrow> ekey (snd r) \<in> B)"

definition link_recv_loop :: "'n UdpTransport \<Rightarrow> u64 set \<Rightarrow> nat \<Rightarrow> 'n \<Rightarrow> ((bytes \<times> Endpoint) option \<times> 'n) option" where
  "link_recv_loop T B cap n = while_option (from_blocked B) (\<lambda>x. t_recv T cap (snd x)) (t_recv T cap n)"

definition link_recv :: "'n UdpTransport \<Rightarrow> Endpoint \<Rightarrow> nat \<Rightarrow> 'n Links \<Rightarrow> (bytes \<times> Endpoint) option \<times> 'n Links" where
  "link_recv T me cap w =
     (case link_recv_loop T (blocked w me) cap (under w) of
        None \<Rightarrow> (None, w)
      | Some (r, n) \<Rightarrow> (r, w\<lparr>under := n\<rparr>))"

definition link_now :: "'n UdpTransport \<Rightarrow> 'n Links \<Rightarrow> time_point \<times> 'n Links" where
  "link_now T w = (let (t, n) = t_now T (under w) in (t, w\<lparr>under := n\<rparr>))"

definition link_transport :: "'n UdpTransport \<Rightarrow> Endpoint \<Rightarrow> 'n Links UdpTransport" where
  "link_transport T me = \<lparr>t_send = link_send T me, t_recv = link_recv T me, t_now = link_now T\<rparr>"

lemma ekey_key [simp]: "ekey = key"
  by (simp add: ekey_def key_def fun_eq_iff)

subsection \<open>The decorated transport keeps the contract\<close>

context datagram_transport
begin

lemma link_recv_loop_facts:
  assumes "link_recv_loop T B cap n = Some (r, n')"
  shows "\<not> from_blocked B (r, n') \<and> (\<forall>e. wire n' e \<subseteq> wire n e) \<and> clock n \<le> clock n'
    \<and> (case r of None \<Rightarrow> True | Some (d, src) \<Rightarrow> \<exists>d0. (src, d0) \<in> wire n me \<and> d = take cap d0)"
proof -
  let ?I = "\<lambda>x. (\<forall>e. wire (snd x) e \<subseteq> wire n e) \<and> clock n \<le> clock (snd x)
    \<and> (case fst x of None \<Rightarrow> True | Some (d, src) \<Rightarrow> \<exists>d0. (src, d0) \<in> wire n me \<and> d = take cap d0)"
  have step: "?I (t_recv T cap n1)" if "\<forall>e. wire n1 e \<subseteq> wire n e" "clock n \<le> clock n1" for n1
  proof -
    have "\<forall>e. wire (snd (t_recv T cap n1)) e \<subseteq> wire n e" using that(1) recv_wire by blast
    moreover have "clock n \<le> clock (snd (t_recv T cap n1))" using that(2) recv_clock order_trans by blast
    moreover have "\<exists>d0. (src, d0) \<in> wire n me \<and> d = take cap d0" if r: "fst (t_recv T cap n1) = Some (d, src)" for d src
      using recv_sent [OF r] \<open>\<forall>e. wire n1 e \<subseteq> wire n e\<close> by blast
    ultimately show ?thesis by (auto split: option.split)
  qed
  have w: "while_option (from_blocked B) (\<lambda>x. t_recv T cap (snd x)) (t_recv T cap n) = Some (r, n')"
    using assms by (simp add: link_recv_loop_def)
  have "?I (r, n')" by (rule while_option_rule [OF _ w, where P = ?I]) (use step in simp_all)
  then show ?thesis using while_option_stop [OF w] by simp
qed

lemma link_contract: "datagram_transport (link_transport T me) me (\<lambda>w. wire (under w)) (\<lambda>w. clock (under w))"
proof
  fix dest d cap src e and w :: "'n Links"
  show "wire (under (snd (t_send (link_transport T me) dest d w))) e \<subseteq> wire (under w) e \<union> (if e = dest then {(me, d)} else {})"
    using send_wire [of dest d "under w" e] by (auto simp: link_transport_def link_send_def split: prod.splits)
  show "fst (t_send (link_transport T me) dest d w) \<le> length d"
    using send_size [of dest d "under w"] by (auto simp: link_transport_def link_send_def split: prod.splits)
  show "clock (under w) \<le> clock (under (snd (t_send (link_transport T me) dest d w)))"
    using send_clock [of "under w" dest d] by (auto simp: link_transport_def link_send_def split: prod.splits)
  show "wire (under (snd (t_recv (link_transport T me) cap w))) e \<subseteq> wire (under w) e"
    using link_recv_loop_facts [of "blocked w me" cap "under w"]
    by (auto simp: link_transport_def link_recv_def split: option.splits)
  show "\<exists>d0. (src, d0) \<in> wire (under w) me \<and> d = take cap d0" if "fst (t_recv (link_transport T me) cap w) = Some (d, src)"
    using link_recv_loop_facts [of "blocked w me" cap "under w" "Some (d, src)"] that
    by (auto simp: link_transport_def link_recv_def split: option.splits)
  show "clock (under w) \<le> clock (under (snd (t_recv (link_transport T me) cap w)))"
    using link_recv_loop_facts [of "blocked w me" cap "under w"]
    by (auto simp: link_transport_def link_recv_def split: option.splits)
  show "wire (under (snd (t_now (link_transport T me) w))) e \<subseteq> wire (under w) e"
    using now_wire [of "under w" e] by (auto simp: link_transport_def link_now_def split: prod.splits)
  show "clock (under w) \<le> fst (t_now (link_transport T me) w) \<and> fst (t_now (link_transport T me) w) \<le> clock (under (snd (t_now (link_transport T me) w)))"
    using now_clock [of "under w"] by (auto simp: link_transport_def link_now_def split: prod.splits)
qed

end

text \<open>Over the simulator the loop ends: every round takes a datagram out of the inbox.\<close>

lemma receive_shrinks: "receive here cap n = (Some r, n') \<Longrightarrow> length (box_of n' (key here)) < length (box_of n (key here))"
  by (cases rule: receive_cases [of here cap n]) (auto simp: box_of_inbox_update take_out_def)

lemma link_recv_returns: "\<exists>x. link_recv_loop (sim_transport here) B cap n = Some x"
proof -
  let ?f = "\<lambda>x. length (box_of (snd x) (key here)) + (if fst x = None then 0 else 1 :: nat)"
  let ?P = "\<lambda>x :: (bytes \<times> Endpoint) option \<times> SimNet. True"
  show ?thesis unfolding link_recv_loop_def
  proof (rule measure_while_option_Some [where P = ?P and f = ?f, THEN exE])
    fix x :: "(bytes \<times> Endpoint) option \<times> SimNet" assume b: "from_blocked B x"
    show "?P (t_recv (sim_transport here) cap (snd x)) \<and> ?f (t_recv (sim_transport here) cap (snd x)) < ?f x"
      using b receive_shrinks [of here cap "snd x"]
      by (cases "receive here cap (snd x)"; cases rule: receive_cases [of here cap "snd x"])
        (auto simp: sim_transport_def from_blocked_def split: option.splits)
  qed auto
qed

section \<open>The demonstration\<close>

definition mesh_ep :: "u16 \<Rightarrow> Endpoint" where
  "mesh_ep port = \<lparr>addr_be = 1, port_be = port\<rparr>"

definition mesh_size :: nat where "mesh_size = 5"

definition mesh_eps :: "Endpoint list" where
  "mesh_eps = map (\<lambda>i. mesh_ep (word_of_nat (7000 + i))) [0..<mesh_size]"

definition victim :: Endpoint where
  "victim = mesh_eps ! (mesh_size - 1)"

definition default_swim_config :: SwimConfig where
  "default_swim_config = \<lparr>period = 1000, ping_timeout = 300, suspicion_timeout = 3000, sw_k = 3, gossip_factor = 3, sw_max_recv = 64\<rparr>"

definition mesh_imp :: Impairments where
  "mesh_imp = \<lparr>imp_loss = fl (2 / 100), imp_dup = 0, imp_delay = 15, imp_jitter = 5\<rparr>"

type_synonym MeshNet = "SimNet Links"

abbreviation mesh_link :: "Endpoint \<Rightarrow> MeshNet UdpTransport" where
  "mesh_link e \<equiv> link_transport (sim_transport e) e"

record Mesh =
  mesh_nodes :: "Swim list"
  mesh_net :: MeshNet

text \<open>Construction: the network, a filter and a node per endpoint, and every node told of the others.\<close>

definition mesh_node :: "u64 \<Rightarrow> nat \<Rightarrow> Swim" where
  "mesh_node seed i = new_swim (mesh_eps ! i) default_swim_config (seed * 1000 + word_of_nat i)"

definition introduce :: "Swim \<Rightarrow> Swim" where
  "introduce s = foldl (\<lambda>s e. if e = self s then s else add_member e s) s mesh_eps"

definition mesh_world :: "u64 \<Rightarrow> MeshNet" where
  "mesh_world seed = \<lparr>under = foldl endpoint (new_simnet seed mesh_imp) mesh_eps, blocked = (\<lambda>_. {})\<rparr>"

definition new_mesh :: "u64 \<Rightarrow> Mesh" where
  "new_mesh seed = \<lparr>mesh_nodes = map (introduce \<circ> mesh_node seed) [0..<mesh_size], mesh_net = mesh_world seed\<rparr>"

text \<open>The lambda functions of \<^verbatim>\<open>main\<close>.\<close>

definition all_alive :: "Mesh \<Rightarrow> bool" where
  "all_alive m = list_all (\<lambda>s. list_all (\<lambda>e. e = self s \<or> state_of e s = Alive) mesh_eps) (mesh_nodes m)"

definition anyone_sees_victim :: "MemberState \<Rightarrow> Mesh \<Rightarrow> bool" where
  "anyone_sees_victim st m = list_ex (\<lambda>s. self s \<noteq> victim \<and> state_of victim s = st) (mesh_nodes m)"

definition mesh_table :: "Mesh \<Rightarrow> (Endpoint \<times> Endpoint \<times> MemberState \<times> u32) list" where
  "mesh_table m = concat (map (\<lambda>s. map (\<lambda>e. (self s, e, state_of e s, incarnation_of e s)) (filter (\<lambda>e. e \<noteq> self s) mesh_eps)) (mesh_nodes m))"

fun poll_all :: "Library \<Rightarrow> Swim list \<Rightarrow> MeshNet \<Rightarrow> (Swim list \<times> MeshNet) option" where
  "poll_all L [] w = Some ([], w)"
| "poll_all L (s # ss) w =
     (case swim_poll (mesh_link (self s)) L s w of
        None \<Rightarrow> None
      | Some (_, s, w) \<Rightarrow> (case poll_all L ss w of None \<Rightarrow> None | Some (ss, w) \<Rightarrow> Some (s # ss, w)))"

fun tick_all :: "Library \<Rightarrow> Swim list \<Rightarrow> MeshNet \<Rightarrow> Swim list \<times> MeshNet" where
  "tick_all L [] w = ([], w)"
| "tick_all L (s # ss) w =
     (let (s, w) = swim_tick (mesh_link (self s)) L s w;
          (ss, w) = tick_all L ss w
      in (s # ss, w))"

definition mesh_step :: "Library \<Rightarrow> millis \<Rightarrow> Mesh \<Rightarrow> Mesh option" where
  "mesh_step L dt m =
     (let w = (mesh_net m)\<lparr>under := advance (under (mesh_net m)) dt\<rparr>
      in case poll_all L (mesh_nodes m) w of
           None \<Rightarrow> None
         | Some (ss, w) \<Rightarrow> let (ss, w) = tick_all L ss w in Some \<lparr>mesh_nodes = ss, mesh_net = w\<rparr>)"

definition mesh_now :: "Mesh \<Rightarrow> time_point" where
  "mesh_now m = sim_now (under (mesh_net m))"

text \<open>The three phases; the first argument of a loop is the number of rounds it may still make.\<close>

fun warm_up :: "Library \<Rightarrow> nat \<Rightarrow> Mesh \<Rightarrow> Mesh option" where
  "warm_up L 0 m = Some m"
| "warm_up L (Suc k) m = (if all_alive m then Some m else Option.bind (mesh_step L 20 m) (warm_up L k))"

definition mesh_partition :: "Mesh \<Rightarrow> Mesh" where
  "mesh_partition m = m\<lparr>mesh_net := foldl (\<lambda>w e. if e = victim then w else block e victim (block victim e w)) (mesh_net m) mesh_eps\<rparr>"

fun watch :: "Library \<Rightarrow> time_point \<Rightarrow> nat \<Rightarrow> Mesh \<Rightarrow> (int option \<times> Mesh) option" where
  "watch L t_part 0 m = Some (None, m)"
| "watch L t_part (Suc k) m =
     Option.bind (mesh_step L 20 m) (\<lambda>m.
       if anyone_sees_victim Suspect m then Some (Some (to_ms (mesh_now m - t_part)), m) else watch L t_part k m)"

definition heal_all :: "Mesh \<Rightarrow> Mesh" where
  "heal_all m = m\<lparr>mesh_net := foldl (\<lambda>w e. heal e w) (mesh_net m) mesh_eps\<rparr>"

fun settle :: "Library \<Rightarrow> time_point \<Rightarrow> nat \<Rightarrow> bool \<Rightarrow> Mesh \<Rightarrow> (int option \<times> bool \<times> Mesh) option" where
  "settle L t_heal 0 ever_dead m = Some (None, ever_dead, m)"
| "settle L t_heal (Suc k) ever_dead m =
     Option.bind (mesh_step L 20 m) (\<lambda>m.
       let ever_dead = (ever_dead \<or> anyone_sees_victim Dead m)
       in if all_alive m then Some (Some (to_ms (mesh_now m - t_heal)), ever_dead, m) else settle L t_heal k ever_dead m)"

record MeshReport =
  converged_table :: "(Endpoint \<times> Endpoint \<times> MemberState \<times> u32) list"
  t_detect :: "int option"
  partition_table :: "(Endpoint \<times> Endpoint \<times> MemberState \<times> u32) list"
  t_reconverge :: "int option"
  ever_dead :: bool
  healed_table :: "(Endpoint \<times> Endpoint \<times> MemberState \<times> u32) list"
  mesh_exit :: nat

definition mesh_main :: "Library \<Rightarrow> u64 \<Rightarrow> (MeshReport \<times> Mesh \<times> Mesh \<times> Mesh) option" where
  "mesh_main L seed =
     Option.bind (warm_up L 100 (new_mesh seed)) (\<lambda>m1.
     Option.bind (let m = mesh_partition m1 in watch L (mesh_now m) 200 m) (\<lambda>(td, m2).
     Option.bind (let m = heal_all m2 in settle L (mesh_now m) 400 False m) (\<lambda>(tr, ed, m3).
       Some (\<lparr>converged_table = mesh_table m1, t_detect = td, partition_table = mesh_table m2, t_reconverge = tr, ever_dead = ed,
              healed_table = mesh_table m3, mesh_exit = (if tr \<noteq> None \<and> \<not> ed then 0 else 1)\<rparr>, m1, m2, m3))))"

section \<open>The demonstration as a cluster\<close>

text \<open>What may happen around the nodes: the network moves on, or links are severed and healed.\<close>

definition mesh_env :: "MeshNet \<Rightarrow> MeshNet \<Rightarrow> bool" where
  "mesh_env w w' \<longleftrightarrow> cluster_env (under w) (under w') \<and> blocked w' = blocked w \<or> under w' = under w"

interpretation mesh: swim_cluster mesh_link "\<lambda>w. sim_wire (under w)" "\<lambda>w. sim_now (under w)" mesh_env
  by (rule swim_cluster.intro) (rule sim.link_contract, use cluster_env_wire in \<open>fastforce simp: mesh_env_def\<close>)

definition as_cluster :: "Swim list \<Rightarrow> 'n \<Rightarrow> 'n Cluster" where
  "as_cluster ss w = \<lparr>nodes = map_of (map (\<lambda>s. (self s, s)) ss), cnet = w\<rparr>"

lemma as_cluster_node: "distinct (map self ss) \<Longrightarrow> s \<in> set ss \<Longrightarrow> nodes (as_cluster ss w) (self s) = Some s"
  by (simp add: as_cluster_def map_of_eq_Some_iff o_def image_iff)

lemma as_cluster_update:
  assumes "distinct (map self (pre @ s # post))" "self s' = self s"
  shows "(as_cluster (pre @ s # post) w)\<lparr>nodes := (nodes (as_cluster (pre @ s # post) w))(self s \<mapsto> s'), cnet := w'\<rparr> = as_cluster (pre @ s' # post) w'"
proof -
  have "self s \<notin> self ` set pre" using assms(1) by auto
  then have "self s \<notin> dom (map_of (map (\<lambda>s. (self s, s)) pre))" by (auto simp: dom_map_of_conv_image_fst)
  then show ?thesis using assms(2) by (auto simp: as_cluster_def map_add_def fun_eq_iff domIff split: option.split)
qed

lemma as_cluster_step:
  assumes "node_step (T (self s)) (s, w) (s', w')" "distinct (map self (pre @ s # post))"
  shows "cluster_step T env (as_cluster (pre @ s # post) w) (as_cluster (pre @ s' # post) w')" "self s' = self s"
proof -
  show self: "self s' = self s" using node_step_grows [OF assms(1)] by (simp add: grows_def)
  have "nodes (as_cluster (pre @ s # post) w) (self s) = Some s" by (rule as_cluster_node [OF assms(2)]) simp
  moreover have "cnet (as_cluster (pre @ s # post) w) = w" by (simp add: as_cluster_def)
  ultimately have "cluster_step T env (as_cluster (pre @ s # post) w)
      ((as_cluster (pre @ s # post) w)\<lparr>nodes := (nodes (as_cluster (pre @ s # post) w))(self s \<mapsto> s'), cnet := w'\<rparr>)"
    using cluster_step.node [of "as_cluster (pre @ s # post) w" "self s" s T s' w' env] assms(1) by simp
  then show "cluster_step T env (as_cluster (pre @ s # post) w) (as_cluster (pre @ s' # post) w')"
    unfolding as_cluster_update [OF assms(2) self] .
qed

definition mesh_reach :: "u64 \<Rightarrow> Swim list \<Rightarrow> MeshNet \<Rightarrow> bool" where
  "mesh_reach seed ss w \<longleftrightarrow> cluster_reach mesh_link mesh_env (mesh_world seed) (as_cluster ss w) \<and> map self ss = mesh_eps"

lemma distinct_eps: "distinct mesh_eps"
  by (simp add: mesh_eps_def mesh_size_def mesh_ep_def upt_rec)

lemma mesh_node_step:
  assumes "mesh_reach seed (pre @ s # post) w" "node_step (mesh_link (self s)) (s, w) (s', w')"
  shows "mesh_reach seed (pre @ s' # post) w'"
proof -
  have d: "distinct (map self (pre @ s # post))" using assms(1) distinct_eps unfolding mesh_reach_def by presburger
  note st = as_cluster_step [where T = mesh_link, OF assms(2) d]
  from assms(1) have "cluster_reach mesh_link mesh_env (mesh_world seed) (as_cluster (pre @ s # post) w)" by (simp add: mesh_reach_def)
  from cluster_reach.step [OF this st(1)] st(2) assms(1) show ?thesis by (simp add: mesh_reach_def)
qed

lemma mesh_env_step:
  assumes "mesh_reach seed ss w" "mesh_env w w'"
  shows "mesh_reach seed ss w'"
proof -
  have "cluster_step mesh_link mesh_env (as_cluster ss w) (as_cluster ss w')"
    using cluster_step.outside [of mesh_env "as_cluster ss w" w' mesh_link] assms(2) by (simp add: as_cluster_def)
  from cluster_reach.step [OF _ this] assms(1) show ?thesis by (simp add: mesh_reach_def)
qed

lemma swim_poll_returns: "\<exists>b s' n'. swim_poll T L s n = Some (b, s', n')"
  using swim_poll_loop_total [of T L "sw_max_recv (sw_cfg s)" s n] by (auto simp: swim_poll_def)

lemma poll_all_reach:
  assumes "mesh_reach seed (pre @ ss) w"
  shows "\<exists>ss' w'. poll_all L ss w = Some (ss', w') \<and> mesh_reach seed (pre @ ss') w'"
  using assms
proof (induction ss arbitrary: pre w)
  case (Cons s ss)
  obtain b s1 w1 where p: "swim_poll (mesh_link (self s)) L s w = Some (b, s1, w1)"
    using swim_poll_returns [of "mesh_link (self s)" L s w] by blast
  have "mesh_reach seed ((pre @ [s1]) @ ss) w1" using mesh_node_step [OF Cons(2) node_step.poll [OF p]] by simp
  from Cons(1) [OF this] p show ?case by auto
qed auto

lemma tick_all_reach:
  assumes "mesh_reach seed (pre @ ss) w" "tick_all L ss w = (ss', w')"
  shows "mesh_reach seed (pre @ ss') w'"
  using assms
proof (induction ss arbitrary: pre w ss')
  case (Cons s ss)
  obtain s1 w1 where t: "swim_tick (mesh_link (self s)) L s w = (s1, w1)" by fastforce
  obtain ss2 where r: "tick_all L ss w1 = (ss2, w')" "ss' = s1 # ss2" using Cons(3) t by (auto split: prod.splits)
  have "node_step (mesh_link (self s)) (s, w) (s1, w1)" using node_step.tick [of "mesh_link (self s)" s w L] t by simp
  then have "mesh_reach seed ((pre @ [s1]) @ ss) w1" using mesh_node_step [OF Cons(2)] by simp
  from Cons(1) [OF this r(1)] r(2) show ?case by simp
qed auto

abbreviation mesh_ok :: "u64 \<Rightarrow> Mesh \<Rightarrow> bool" where
  "mesh_ok seed m \<equiv> mesh_reach seed (mesh_nodes m) (mesh_net m)"

lemma mesh_step_ok:
  assumes "mesh_ok seed m"
  shows "\<exists>m'. mesh_step L dt m = Some m' \<and> mesh_ok seed m'"
proof -
  let ?w = "(mesh_net m)\<lparr>under := advance (under (mesh_net m)) dt\<rparr>"
  have "mesh_reach seed (mesh_nodes m) ?w"
    by (rule mesh_env_step [OF assms]) (auto simp: mesh_env_def cluster_env_def)
  then obtain ss w where p: "poll_all L (mesh_nodes m) ?w = Some (ss, w)" "mesh_reach seed ss w"
    using poll_all_reach [of seed "[]" "mesh_nodes m" ?w L] by auto
  obtain ss' w' where t: "tick_all L ss w = (ss', w')" by fastforce
  show ?thesis using p tick_all_reach [of seed "[]" ss w L ss' w'] t by (simp add: mesh_step_def)
qed

text \<open>The mesh after some rounds, independently of the loops of the three phases, and how many rounds a loop of at most \<open>k\<close> makes when \<open>f\<close> is the
  round it waits for.\<close>

primrec mesh_after :: "Library \<Rightarrow> nat \<Rightarrow> Mesh \<Rightarrow> Mesh" where
  "mesh_after L 0 m = m"
| "mesh_after L (Suc i) m = (case mesh_step L 20 m of None \<Rightarrow> m | Some m' \<Rightarrow> mesh_after L i m')"

definition rounds_made :: "nat \<Rightarrow> nat option \<Rightarrow> nat" where
  "rounds_made k f = (case f of None \<Rightarrow> k | Some i \<Rightarrow> i)"

lemma mesh_after_ok: "mesh_ok seed m \<Longrightarrow> mesh_ok seed (mesh_after L i m)"
proof (induction i arbitrary: m)
  case (Suc i)
  obtain m1 where "mesh_step L 20 m = Some m1" "mesh_ok seed m1" using mesh_step_ok [OF Suc(2)] by blast
  then show ?case using Suc(1) by simp
qed simp

lemma mesh_after_step: "mesh_ok seed m \<Longrightarrow> mesh_step L 20 (mesh_after L i m) = Some (mesh_after L (Suc i) m)"
proof (induction i arbitrary: m)
  case 0
  show ?case using mesh_step_ok [OF 0, of L 20] by auto
next
  case (Suc i)
  obtain m1 where "mesh_step L 20 m = Some m1" "mesh_ok seed m1" using mesh_step_ok [OF Suc(2)] by blast
  then show ?case using Suc(1) by simp
qed

lemma find_Suc:
  "find P [0..<Suc k] = (if P 0 then Some 0 else map_option Suc (find (P \<circ> Suc) [0..<k]))"
  "find P [1..<Suc (Suc k)] = (if P 1 then Some 1 else map_option Suc (find (P \<circ> Suc) [1..<Suc k]))"
proof -
  have m: "find P (map Suc xs) = map_option Suc (find (P \<circ> Suc) xs)" for xs by (induction xs) simp_all
  have "[0..<Suc k] = 0 # map Suc [0..<k]" "[1..<Suc (Suc k)] = 1 # map Suc [1..<Suc k]"
    by (simp_all add: map_Suc_upt upt_conv_Cons del: upt_Suc)
  then show "find P [0..<Suc k] = (if P 0 then Some 0 else map_option Suc (find (P \<circ> Suc) [0..<k]))"
    "find P [1..<Suc (Suc k)] = (if P 1 then Some 1 else map_option Suc (find (P \<circ> Suc) [1..<Suc k]))"
    by (simp_all only: find.simps m)
qed

lemma rounds_Suc: "rounds_made (Suc k) (map_option Suc f) = Suc (rounds_made k f)"
  by (simp add: rounds_made_def split: option.split)

lemma warm_up_rounds:
  "mesh_ok seed m \<Longrightarrow> warm_up L k m = Some (mesh_after L (rounds_made k (find (\<lambda>i. all_alive (mesh_after L i m)) [0..<k])) m)"
proof (induction k arbitrary: m)
  case 0
  then show ?case by (simp add: rounds_made_def)
next
  case (Suc k)
  obtain m1 where m1: "mesh_step L 20 m = Some m1" "mesh_ok seed m1" using mesh_step_ok [OF Suc(2)] by blast
  show ?case
  proof (cases "all_alive m")
    case True
    then show ?thesis unfolding find_Suc by (simp add: rounds_made_def)
  next
    case False
    then show ?thesis using m1 Suc(1) [OF m1(2)] unfolding find_Suc by (simp add: rounds_Suc comp_def)
  qed
qed

lemma watch_rounds:
  assumes "mesh_ok seed m"
  shows "watch L t0 k m = (let f = find (\<lambda>i. anyone_sees_victim Suspect (mesh_after L i m)) [1..<Suc k]
    in Some (map_option (\<lambda>i. to_ms (mesh_now (mesh_after L i m) - t0)) f, mesh_after L (rounds_made k f) m))"
  using assms
proof (induction k arbitrary: m)
  case 0
  then show ?case by (simp add: rounds_made_def)
next
  case (Suc k)
  obtain m1 where m1: "mesh_step L 20 m = Some m1" "mesh_ok seed m1" using mesh_step_ok [OF Suc(2)] by blast
  show ?case
  proof (cases "anyone_sees_victim Suspect m1")
    case True
    then show ?thesis using m1 unfolding find_Suc by (simp add: rounds_made_def Let_def)
  next
    case False
    then show ?thesis using m1 Suc(1) [OF m1(2)] unfolding find_Suc
      by (simp add: rounds_Suc comp_def Let_def option.map_comp)
  qed
qed

lemma settle_rounds:
  assumes "mesh_ok seed m"
  shows "settle L t0 k d m = (let f = find (\<lambda>i. all_alive (mesh_after L i m)) [1..<Suc k]
    in Some (map_option (\<lambda>i. to_ms (mesh_now (mesh_after L i m) - t0)) f,
         d \<or> (\<exists>i\<in>{1..rounds_made k f}. anyone_sees_victim Dead (mesh_after L i m)), mesh_after L (rounds_made k f) m))"
  using assms
proof (induction k arbitrary: m d)
  case 0
  then show ?case by (simp add: rounds_made_def)
next
  case (Suc k)
  obtain m1 where m1: "mesh_step L 20 m = Some m1" "mesh_ok seed m1" using mesh_step_ok [OF Suc(2)] by blast
  have shift: "(\<exists>i\<in>{1..Suc n}. P i) \<longleftrightarrow> P 1 \<or> (\<exists>i\<in>{1..n}. P (Suc i))" for n and P :: "nat \<Rightarrow> bool"
  proof -
    have e: "{1..Suc n} = insert 1 (Suc ` {1..n})" unfolding image_Suc_atLeastAtMost by auto
    show ?thesis unfolding e by blast
  qed
  show ?case
  proof (cases "all_alive m1")
    case True
    then show ?thesis using m1 unfolding find_Suc by (simp add: rounds_made_def Let_def)
  next
    case False
    then show ?thesis using m1 Suc(1) [OF m1(2)] unfolding find_Suc
      by (simp add: rounds_Suc comp_def Let_def option.map_comp shift [unfolded One_nat_def])
  qed
qed

text \<open>The construction is a run of the cluster too.\<close>

lemma length_eps [simp]: "length mesh_eps = 5"
  by (simp add: mesh_eps_def mesh_size_def)

lemma self_mesh_node [simp]: "self (mesh_node seed i) = mesh_eps ! i"
  by (simp add: mesh_node_def)

lemma as_cluster_snoc:
  assumes "nodes (as_cluster ss w) (self s) = None"
  shows "(as_cluster ss w)\<lparr>nodes := (nodes (as_cluster ss w))(self s \<mapsto> s)\<rparr> = as_cluster (ss @ [s]) w"
  using assms by (auto simp: as_cluster_def map_add_def fun_eq_iff split: option.split)

lemma started_reach:
  "k \<le> mesh_size \<Longrightarrow>
   cluster_reach mesh_link mesh_env (mesh_world seed) (as_cluster (map (mesh_node seed) [0..<k]) (mesh_world seed))"
proof (induction k)
  case 0
  show ?case using cluster_reach.initial [of mesh_link mesh_env "mesh_world seed"] by (simp add: as_cluster_def)
next
  case (Suc k)
  let ?ss = "map (mesh_node seed) [0..<k]"
  let ?y = "as_cluster ?ss (mesh_world seed)"
  have "mesh_eps ! i \<noteq> mesh_eps ! k" if "i < k" for i
    using that Suc(2) distinct_eps by (simp add: nth_eq_iff_index_eq mesh_size_def)
  then have "mesh_eps ! k \<notin> (\<lambda>i. mesh_eps ! i) ` {0..<k}" by fastforce
  then have none: "nodes ?y (mesh_eps ! k) = None" by (simp add: as_cluster_def map_of_eq_None_iff image_image)
  have "cluster_step mesh_link mesh_env ?y (?y\<lparr>nodes := (nodes ?y)(mesh_eps ! k \<mapsto> mesh_node seed k)\<rparr>)"
    using cluster_step.start [OF none] unfolding mesh_node_def [of seed k] .
  then have "cluster_step mesh_link mesh_env ?y (as_cluster (?ss @ [mesh_node seed k]) (mesh_world seed))"
    using as_cluster_snoc [of ?ss "mesh_world seed" "mesh_node seed k"] none by simp
  from cluster_reach.step [OF _ this] Suc show ?case by simp
qed

lemma introduce_reach:
  assumes "mesh_reach seed (pre @ s # post) w"
  shows "mesh_reach seed (pre @ foldl (\<lambda>s e. if e = self s then s else add_member e s) s es # post) w"
  using assms
proof (induction es arbitrary: s)
  case (Cons e es)
  have "mesh_reach seed (pre @ (if e = self s then s else add_member e s) # post) w"
    using Cons(2) mesh_node_step [OF Cons(2) node_step.add, of e] by simp
  from Cons(1) [OF this] show ?case by simp
qed simp

lemma introduce_all_reach: "mesh_reach seed (pre @ ss) w \<Longrightarrow> mesh_reach seed (pre @ map introduce ss) w"
proof (induction ss arbitrary: pre)
  case (Cons s ss)
  have "mesh_reach seed ((pre @ [introduce s]) @ ss) w" using introduce_reach [OF Cons(2)] by (simp add: introduce_def)
  from Cons(1) [OF this] show ?case by simp
qed simp

lemma new_mesh_ok: "mesh_ok seed (new_mesh seed)"
proof -
  have "map ((!) mesh_eps) [0..<mesh_size] = mesh_eps"
    using map_nth [of mesh_eps] by (simp add: mesh_eps_def)
  then have "mesh_reach seed (map (mesh_node seed) [0..<mesh_size]) (mesh_world seed)"
    using started_reach [of mesh_size seed] by (simp add: mesh_reach_def o_def)
  from introduce_all_reach [of seed "[]", simplified, OF this] show ?thesis by (simp add: new_mesh_def)
qed

lemma links_under: "under (foldl (\<lambda>w e. if e = v then w else block e v (block v e w)) w es) = under w" "under (foldl (\<lambda>w e. heal e w) w es) = under w"
  by (induction es arbitrary: w) (simp_all add: block_def heal_def)

lemma links_ok: "mesh_ok seed m \<Longrightarrow> mesh_ok seed (mesh_partition m)" "mesh_ok seed m \<Longrightarrow> mesh_ok seed (heal_all m)"
  by (simp_all add: mesh_partition_def heal_all_def) (rule mesh_env_step, assumption, simp add: mesh_env_def links_under)+

lemma mesh_world_empty: "sim_wire (under (mesh_world seed)) e = {}"
proof -
  have "sim_wire (foldl endpoint n es) e = sim_wire n e" for n es by (induction es arbitrary: n) simp_all
  then show ?thesis by (simp add: mesh_world_def) (simp add: sim_wire_def box_of_def new_simnet_def)
qed

text \<open>No table shows an incarnation that the node it is about has not taken.\<close>

definition table_honest :: "Mesh \<Rightarrow> bool" where
  "table_honest m \<longleftrightarrow> (\<forall>(a, e, st, inc)\<in>set (mesh_table m). \<exists>s\<in>set (mesh_nodes m). self s = e \<and> inc \<le> my_incarnation s)"

lemma table_ok:
  assumes "mesh_ok seed m"
  shows "table_honest m"
proof -
  let ?y = "as_cluster (mesh_nodes m) (mesh_net m)"
  have r: "cluster_reach mesh_link mesh_env (mesh_world seed) ?y" and eps: "map self (mesh_nodes m) = mesh_eps"
    using assms by (simp_all add: mesh_reach_def)
  have d: "distinct (map self (mesh_nodes m))" using eps distinct_eps by simp
  have "\<exists>q\<in>set (mesh_nodes m). self q = e \<and> incarnation_of e s \<le> my_incarnation q" if s: "s \<in> set (mesh_nodes m)" and e: "e \<in> set mesh_eps" for s e
  proof -
    obtain q where q: "q \<in> set (mesh_nodes m)" "self q = e" using e eps by (metis (no_types, lifting) image_iff set_map)
    have "incarnation_of e s \<le> incarnation ?y e"
      by (rule mesh.authority [OF r mesh_world_empty as_cluster_node [OF d s]])
    also have "incarnation ?y e = my_incarnation q" using as_cluster_node [OF d q(1), of "mesh_net m"] q(2) by (simp add: incarnation_def)
    finally show ?thesis using q by blast
  qed
  then show ?thesis by (auto simp: table_honest_def mesh_table_def)
qed

section \<open>Properties\<close>

text \<open>When the first round of the right kind comes in time and nothing bad happened up to it.\<close>

lemma find_and_not_before:
  "(\<exists>i. find P [1..<Suc k] = Some i \<and> \<not> (\<exists>j\<in>{1..i}. Q j)) \<longleftrightarrow> (\<exists>i\<in>{1..k}. P i \<and> \<not> (\<exists>j\<in>{1..i}. Q j))"
proof
  assume "\<exists>i. find P [1..<Suc k] = Some i \<and> \<not> (\<exists>j\<in>{1..i}. Q j)"
  then obtain i where i: "find P [1..<Suc k] = Some i" "\<not> (\<exists>j\<in>{1..i}. Q j)" by blast
  then have "i \<in> {1..k}" "P i" by (auto simp: find_Some_iff simp del: upt_Suc)
  then show "\<exists>i\<in>{1..k}. P i \<and> \<not> (\<exists>j\<in>{1..i}. Q j)" using i(2) by blast
next
  assume "\<exists>i\<in>{1..k}. P i \<and> \<not> (\<exists>j\<in>{1..i}. Q j)"
  then obtain i where i: "i \<in> {1..k}" "P i" "\<not> (\<exists>j\<in>{1..i}. Q j)" by blast
  then have "i \<in> set [1..<Suc k]" by auto
  then have "find P [1..<Suc k] \<noteq> None" using i(2) unfolding find_None_iff by blast
  then obtain l where l: "find P [1..<Suc k] = Some l" by blast
  then obtain n where n: "n < k" "l = Suc n" "\<And>j. j < n \<Longrightarrow> \<not> P (Suc j)" by (auto simp: find_Some_iff simp del: upt_Suc)
  have "l \<le> i" using n(2) n(3) [of "i - 1"] i(1,2) by (cases "i - 1 < n") auto
  then show "\<exists>i. find P [1..<Suc k] = Some i \<and> \<not> (\<exists>j\<in>{1..i}. Q j)" using l i(3) by force
qed

text \<open>C22: What the membership demonstration reports is what happened, for every seed, hash order and shuffle. It always runs to its end: no
  round gets stuck, and no receive of a link filter over the simulator loops forever. Its phases make as many rounds as it takes, up to 100, 200
  and 400, for the mesh to converge, for somebody to suspect the cut-off node, and for the healed mesh to converge again. The times it reports
  are those of the first such rounds, and missing when there is none; the node counts as declared dead exactly when somebody believed
  it dead after one of the rounds since the healing; and the exit code is 0 exactly when within 400 rounds after the healing there was one after
  which everybody believed everybody alive and up to which nobody ever believed the node dead. In each of the three tables it prints, no node
  is shown at an incarnation it has not taken itself, also while it was cut off.\<close>

theorem mesh_demo_report:
  "\<exists>r m1 m2 m3. mesh_main L seed = Some (r, m1, m2, m3)
     \<and> (let m = new_mesh seed
        in m1 = mesh_after L (rounds_made 100 (find (\<lambda>i. all_alive (mesh_after L i m)) [0..<100])) m
           \<and> (\<forall>i. mesh_step L 20 (mesh_after L i m) = Some (mesh_after L (Suc i) m)))
     \<and> (let m = mesh_partition m1; f = find (\<lambda>i. anyone_sees_victim Suspect (mesh_after L i m)) [1..<201]
        in m2 = mesh_after L (rounds_made 200 f) m
           \<and> (\<forall>i. mesh_step L 20 (mesh_after L i m) = Some (mesh_after L (Suc i) m))
           \<and> t_detect r = map_option (\<lambda>i. to_ms (mesh_now (mesh_after L i m) - mesh_now m)) f)
     \<and> (let m = heal_all m2; f = find (\<lambda>i. all_alive (mesh_after L i m)) [1..<401]
        in m3 = mesh_after L (rounds_made 400 f) m
           \<and> (\<forall>i. mesh_step L 20 (mesh_after L i m) = Some (mesh_after L (Suc i) m))
           \<and> t_reconverge r = map_option (\<lambda>i. to_ms (mesh_now (mesh_after L i m) - mesh_now m)) f
           \<and> ever_dead r = (\<exists>i\<in>{1..rounds_made 400 f}. anyone_sees_victim Dead (mesh_after L i m))
           \<and> (mesh_exit r = 0) = (\<exists>i\<in>{1..400}. all_alive (mesh_after L i m) \<and> \<not> (\<exists>j\<in>{1..i}. anyone_sees_victim Dead (mesh_after L j m))))
     \<and> converged_table r = mesh_table m1 \<and> partition_table r = mesh_table m2 \<and> healed_table r = mesh_table m3
     \<and> table_honest m1 \<and> table_honest m2 \<and> table_honest m3
     \<and> (\<forall>me B cap n. link_recv_loop (sim_transport me) B cap n \<noteq> None)"
proof -
  let ?m = "new_mesh seed"
  define m1 where "m1 = mesh_after L (rounds_made 100 (find (\<lambda>i. all_alive (mesh_after L i ?m)) [0..<100])) ?m"
  define p where "p = mesh_partition m1"
  define f2 where "f2 = find (\<lambda>i. anyone_sees_victim Suspect (mesh_after L i p)) [1..<201]"
  define m2 where "m2 = mesh_after L (rounds_made 200 f2) p"
  define h where "h = heal_all m2"
  define f3 where "f3 = find (\<lambda>i. all_alive (mesh_after L i h)) [1..<401]"
  define m3 where "m3 = mesh_after L (rounds_made 400 f3) h"
  define ed where "ed = (\<exists>i\<in>{1..rounds_made 400 f3}. anyone_sees_victim Dead (mesh_after L i h))"
  define r where "r = \<lparr>converged_table = mesh_table m1, t_detect = map_option (\<lambda>i. to_ms (mesh_now (mesh_after L i p) - mesh_now p)) f2,
    partition_table = mesh_table m2, t_reconverge = map_option (\<lambda>i. to_ms (mesh_now (mesh_after L i h) - mesh_now h)) f3, ever_dead = ed,
    healed_table = mesh_table m3, mesh_exit = (if f3 \<noteq> None \<and> \<not> ed then 0 else 1)\<rparr>"
  have ok: "mesh_ok seed m1" "mesh_ok seed p" "mesh_ok seed m2" "mesh_ok seed h" "mesh_ok seed m3"
    unfolding m3_def h_def m2_def p_def m1_def by (intro mesh_after_ok links_ok new_mesh_ok)+
  have "warm_up L 100 ?m = Some m1" using warm_up_rounds [OF new_mesh_ok] by (simp add: m1_def)
  moreover have "watch L (mesh_now p) 200 p = Some (t_detect r, m2)"
    using watch_rounds [OF ok(2), of L "mesh_now p" 200] by (simp add: r_def m2_def f2_def Let_def)
  moreover have "settle L (mesh_now h) 400 False h = Some (t_reconverge r, ed, m3)"
    using settle_rounds [OF ok(4), of L "mesh_now h" 400 False] by (simp add: r_def m3_def f3_def ed_def Let_def)
  ultimately have main: "mesh_main L seed = Some (r, m1, m2, m3)"
    by (simp add: mesh_main_def Let_def p_def [symmetric] h_def [symmetric]) (simp add: r_def)
  have "mesh_exit r = 0 \<longleftrightarrow> (\<exists>i. f3 = Some i \<and> \<not> (\<exists>j\<in>{1..i}. anyone_sees_victim Dead (mesh_after L j h)))"
    by (cases f3) (simp_all add: r_def ed_def rounds_made_def)
  also have "\<dots> \<longleftrightarrow> (\<exists>i\<in>{1..400}. all_alive (mesh_after L i h) \<and> \<not> (\<exists>j\<in>{1..i}. anyone_sees_victim Dead (mesh_after L j h)))"
    using find_and_not_before [of "\<lambda>i. all_alive (mesh_after L i h)" 400] unfolding f3_def by simp
  finally have ex: "(mesh_exit r = 0) = (\<exists>i\<in>{1..400}. all_alive (mesh_after L i h) \<and> \<not> (\<exists>j\<in>{1..i}. anyone_sees_victim Dead (mesh_after L j h)))" .
  have rc: "link_recv_loop (sim_transport me) B cap n \<noteq> None" for me B cap n using link_recv_returns by auto
  note st = mesh_after_step [OF new_mesh_ok] mesh_after_step [OF ok(2)] mesh_after_step [OF ok(4)]
  have "mesh_main L seed = Some (r, m1, m2, m3)
     \<and> (m1 = mesh_after L (rounds_made 100 (find (\<lambda>i. all_alive (mesh_after L i ?m)) [0..<100])) ?m
           \<and> (\<forall>i. mesh_step L 20 (mesh_after L i ?m) = Some (mesh_after L (Suc i) ?m)))
     \<and> (m2 = mesh_after L (rounds_made 200 f2) p
           \<and> (\<forall>i. mesh_step L 20 (mesh_after L i p) = Some (mesh_after L (Suc i) p))
           \<and> t_detect r = map_option (\<lambda>i. to_ms (mesh_now (mesh_after L i p) - mesh_now p)) f2)
     \<and> (m3 = mesh_after L (rounds_made 400 f3) h
           \<and> (\<forall>i. mesh_step L 20 (mesh_after L i h) = Some (mesh_after L (Suc i) h))
           \<and> t_reconverge r = map_option (\<lambda>i. to_ms (mesh_now (mesh_after L i h) - mesh_now h)) f3
           \<and> ever_dead r = (\<exists>i\<in>{1..rounds_made 400 f3}. anyone_sees_victim Dead (mesh_after L i h))
           \<and> (mesh_exit r = 0) = (\<exists>i\<in>{1..400}. all_alive (mesh_after L i h) \<and> \<not> (\<exists>j\<in>{1..i}. anyone_sees_victim Dead (mesh_after L j h))))
     \<and> converged_table r = mesh_table m1 \<and> partition_table r = mesh_table m2 \<and> healed_table r = mesh_table m3
     \<and> table_honest m1 \<and> table_honest m2 \<and> table_honest m3
     \<and> (\<forall>me B cap n. link_recv_loop (sim_transport me) B cap n \<noteq> None)"
    by (intro conjI allI, rule main, rule m1_def, rule st(1), rule m2_def, rule st(2), simp add: r_def, rule m3_def, rule st(3), simp add: r_def,
      simp only: r_def MeshReport.simps ed_def, rule ex, simp_all add: r_def table_ok [OF ok(1)] table_ok [OF ok(3)] table_ok [OF ok(5)] rc [simplified])
  then show ?thesis unfolding Let_def f2_def f3_def p_def h_def
    by (intro exI [of _ r] exI [of _ m1] exI [of _ m2] exI [of _ m3])
qed

lemma blocked_partition:
  "key a \<in> blocked (foldl (\<lambda>w e. if e = v then w else block e v (block v e w)) w es) b \<longleftrightarrow>
     key a \<in> blocked w b \<or> (a = v \<and> b \<noteq> v \<and> b \<in> set es) \<or> (b = v \<and> a \<noteq> v \<and> a \<in> set es)"
  by (induction es arbitrary: w) (auto simp: block_def)

text \<open>A severed link carries nothing, in either direction. Once the demonstration has cut off its victim, what another node sends to
  the victim, or the victim to another node, is claimed as sent and leaves the network untouched, and no receive on one side returns a
  datagram of the other; the receive loop that drops such datagrams always ends. Healing restores the links.\<close>

theorem partition_severs:
  assumes "e \<in> set mesh_eps" "e \<noteq> victim" "(me, other) = (e, victim) \<or> (me, other) = (victim, e)"
  shows "link_send (sim_transport me) me other d (mesh_net (mesh_partition m)) = (length d, mesh_net (mesh_partition m))
    \<and> (\<exists>r n'. link_recv_loop (sim_transport me) (blocked (mesh_net (mesh_partition m)) me) cap n = Some (r, n')
        \<and> (case r of None \<Rightarrow> True | Some (x, src) \<Rightarrow> src \<noteq> other))
    \<and> blocked (mesh_net (heal_all (mesh_partition m))) me = {}"
proof -
  have b: "ekey other \<in> blocked (mesh_net (mesh_partition m)) me"
    using assms by (auto simp: mesh_partition_def blocked_partition)
  obtain r n' where r: "link_recv_loop (sim_transport me) (blocked (mesh_net (mesh_partition m)) me) cap n = Some (r, n')"
    using link_recv_returns [of me "blocked (mesh_net (mesh_partition m)) me" cap n] by auto
  then have "\<not> from_blocked (blocked (mesh_net (mesh_partition m)) me) (r, n')" using sim.link_recv_loop_facts by blast
  then have "case r of None \<Rightarrow> True | Some (x, src) \<Rightarrow> src \<noteq> other" using b by (auto simp: from_blocked_def split: option.splits)
  moreover have "blocked (foldl (\<lambda>w e. heal e w) w es) x = {}" if "x \<in> set es \<or> blocked w x = {}" for w :: MeshNet and es x
    using that by (induction es arbitrary: w) (auto simp: heal_def)
  moreover have "me \<in> set mesh_eps" using assms nth_mem [of "mesh_size - 1" mesh_eps] by (auto simp: victim_def mesh_size_def)
  ultimately show ?thesis using b r by (auto simp: link_send_def heal_all_def)
qed

theorem partition_severs_witness:
  "mesh_eps ! 0 \<in> set mesh_eps \<and> mesh_eps ! 0 \<noteq> victim
    \<and> link_send (sim_transport (mesh_eps ! 0)) (mesh_eps ! 0) victim [1] (mesh_net (mesh_partition (new_mesh 7)))
        = (1, mesh_net (mesh_partition (new_mesh 7)))"
proof -
  have v: "mesh_eps ! 0 \<in> set mesh_eps" "mesh_eps ! 0 \<noteq> victim"
    using distinct_eps by (simp_all add: victim_def mesh_size_def nth_eq_iff_index_eq)
  from partition_severs [OF v, of "mesh_eps ! 0" victim "[1]" "new_mesh 7"] v show ?thesis by simp
qed

end
