(* ===== verification/Bench_Common.thy ===== *)
theory Bench_Common
  imports Codec Ieee_Double
begin

text \<open>
  The plumbing that the benchmark programs share, \<^verbatim>\<open>bench/common.h\<close> and \<^verbatim>\<open>bench/resource.h\<close>: the layout of a message, nearest-rank
  percentiles in \<^verbatim>\<open>double\<close> arithmetic, and the files the results are appended to.
\<close>

section \<open>Messages\<close>

definition kMsgHeader :: nat where "kMsgHeader = 16"
definition kEndSeq :: u64 where "kEndSeq = 0xFFFFFFFFFFFFFFFF"

text \<open>A buffer shorter than the header would be written, and read, out of bounds: \<open>None\<close>.\<close>

definition filler :: "nat \<Rightarrow> byte" where
  "filler i = word_of_nat ((i * 31 + 7) mod 256)"

definition write_msg :: "bytes \<Rightarrow> u64 \<Rightarrow> u64 \<Rightarrow> bytes option" where
  "write_msg buf ts_ns seq =
     (if length buf < kMsgHeader then None
      else let buf = le64 ts_ns @ drop 8 buf;
               buf = take 8 buf @ le64 seq @ drop 16 buf
           in Some (foldl (\<lambda>b i. b[i := filler i]) buf [kMsgHeader..<length buf]))"

definition read_msg :: "bytes \<Rightarrow> (u64 \<times> u64) option" where
  "read_msg buf = (if length buf < kMsgHeader then None else Some (ld64 (take 8 buf), ld64 (take 8 (drop 8 buf))))"

section \<open>Percentiles\<close>

text \<open>Samples are finite \<^verbatim>\<open>double\<close> values.\<close>

record Percentiles =
  pc_n :: nat
  p50 :: rat
  p90 :: rat
  p99 :: rat
  p999 :: rat
  pc_min :: rat
  pc_max :: rat
  pc_mean :: rat

definition rank :: "rat list \<Rightarrow> rat \<Rightarrow> rat" where
  "rank xs p =
     (let idx = nat \<lceil>fl (fl p * fl (of_nat (length xs)))\<rceil>;
          idx = (if idx < 1 then 1 else idx);
          idx = (if idx > length xs then length xs else idx)
      in xs ! (idx - 1))"

definition percentiles :: "rat list \<Rightarrow> Percentiles" where
  "percentiles xs =
     (if xs = [] then \<lparr>pc_n = 0, p50 = 0, p90 = 0, p99 = 0, p999 = 0, pc_min = 0, pc_max = 0, pc_mean = 0\<rparr>
      else let n = length xs; xs = sort xs
           in \<lparr>pc_n = n, p50 = rank xs (50 / 100), p90 = rank xs (90 / 100), p99 = rank xs (99 / 100), p999 = rank xs (999 / 1000),
               pc_min = hd xs, pc_max = last xs, pc_mean = fl (foldl (\<lambda>s x. fl (s + x)) 0 xs / fl (of_nat n))\<rparr>)"

section \<open>Result files\<close>

text \<open>The content of a file, if there is one; \<open>can_open\<close> is whether opening it for writing succeeds.\<close>

type_synonym csv = "string option"

definition append_csv :: "bool \<Rightarrow> string \<Rightarrow> string \<Rightarrow> csv \<Rightarrow> csv" where
  "append_csv can_open header row f =
     (let need_header = (case f of None \<Rightarrow> True | Some c \<Rightarrow> c = [])
      in if \<not> can_open then f
         else Some ((case f of None \<Rightarrow> [] | Some c \<Rightarrow> c) @ (if need_header then header @ [CHR 0x0A] else []) @ row @ [CHR 0x0A]))"

definition resource_path :: "string \<Rightarrow> string" where
  "resource_path out =
     (if out = [] then []
      else (if CHR ''.'' \<in> set out then take (length out - Suc (length (takeWhile (\<lambda>c. c \<noteq> CHR ''.'') (rev out)))) out else out)
           @ ''.resources.csv'')"

section \<open>Round trip\<close>

lemma length_fill [simp]: "length (foldl (\<lambda>b i. b[i := filler i]) buf is) = length buf"
  by (induction "is" arbitrary: buf) simp_all

lemma fill_take: "\<forall>i\<in>set is. k \<le> i \<Longrightarrow> take k (foldl (\<lambda>b i. b[i := filler i]) buf is) = take k buf"
  by (induction "is" arbitrary: buf) simp_all

lemma fill_nth:
  "k \<le> i \<Longrightarrow> i < m \<Longrightarrow> m \<le> length buf \<Longrightarrow> foldl (\<lambda>b i. b[i := filler i]) buf [k..<m] ! i = filler i"
proof (induction m)
  case (Suc m)
  show ?case
  proof (cases "i = m")
    case True
    then show ?thesis using Suc by simp
  next
    case False
    then show ?thesis using Suc by simp
  qed
qed simp

lemma fill_tail:
  assumes "k \<le> length buf"
  shows "foldl (\<lambda>b i. b[i := filler i]) buf [k..<length buf] = take k buf @ map filler [k..<length buf]" (is "?r = _")
proof (rule nth_equalityI)
  fix i assume i: "i < length ?r"
  show "?r ! i = (take k buf @ map filler [k..<length buf]) ! i"
  proof (cases "i < k")
    case True
    have "take k ?r = take k buf" by (rule fill_take) simp
    from arg_cong [OF this, of "\<lambda>xs. xs ! i"] have "?r ! i = buf ! i" using True by simp
    then show ?thesis using True assms by (simp add: nth_append)
  next
    case False
    then have "?r ! i = filler i" using fill_nth [of k i "length buf" buf] i by simp
    then show ?thesis using False i assms by (simp add: nth_append)
  qed
qed (use assms in simp)

lemma write_msg_eq:
  assumes "16 \<le> length buf"
  shows "write_msg buf ts seq = Some (le64 ts @ le64 seq @ map filler [16..<length buf])"
  using assms fill_tail [of 16 "le64 ts @ le64 seq @ drop 16 buf"] by (simp add: write_msg_def kMsgHeader_def)

lemma read_msg_written: "read_msg (le64 ts @ le64 seq @ xs) = Some (ts, seq)"
  by (simp add: read_msg_def kMsgHeader_def)

section \<open>Nearest rank\<close>

lemma round_near:
  assumes "\<bar>y - of_int k\<bar> < 1 / 2"
  shows "round_half_even y = k"
proof -
  consider "\<lfloor>y\<rfloor> = k" "y - of_int k < 1 / 2" | "\<lfloor>y\<rfloor> = k - 1" "1 / 2 < y - of_int (k - 1)"
    using assms by (cases "of_int k \<le> y") (auto simp: floor_eq_iff abs_if split: if_splits)
  then show ?thesis by cases (simp_all add: round_half_even_def Let_def)
qed

text \<open>A value closer to an integer than half a unit in the last place is rounded to it.\<close>

lemma fl_near_int:
  assumes "\<bar>x - of_int k\<bar> < x / 2 ^ 54" "1 / 2 \<le> x" "x < 2 ^ 53"
  shows "fl x = of_int k"
proof -
  let ?e = "rat_exponent x" and ?u = "ulp_exponent x"
  have x: "0 < x" using assms(2) by simp
  note e = rat_exponent_bounds [OF x]
  have "(2 :: rat) powi (- 1) < 2 powi (?e + 1)" "(2 :: rat) powi ?e < 2 powi 53" using e assms(2,3) by (simp_all add: power_int_def)
  then have er: "- 1 \<le> ?e" "?e < 53" unfolding two_powi_less by simp_all
  then have u: "?u = ?e - 52" by (simp add: ulp_exponent_def)
  have K: "of_int k / 2 powi ?u = (of_int (k * 2 ^ nat (- ?u)) :: rat)"
    using scaled_int [of ?u 0 k] er u by simp
  have "\<bar>x / 2 powi ?u - of_int (k * 2 ^ nat (- ?u))\<bar> = \<bar>x - of_int k\<bar> / 2 powi ?u"
    unfolding K [symmetric] by (simp add: diff_divide_distrib [symmetric] abs_divide)
  also have "\<dots> < x / 2 ^ 54 / 2 powi ?u" by (rule divide_strict_right_mono [OF assms(1)]) simp
  also have "\<dots> < 2 powi (?e + 1) / 2 ^ 54 / 2 powi ?u" by (rule divide_strict_right_mono, rule divide_strict_right_mono [OF e(2)]) simp_all
  also have "\<dots> = 1 / 2" unfolding u by (simp add: power_int_diff power_int_add)
  finally have "round_half_even (x / 2 powi ?u) = k * 2 ^ nat (- ?u)" by (rule round_near)
  then have "fl_pos x = of_int k / 2 powi ?u * 2 powi ?u" unfolding fl_pos_def K by simp
  then show ?thesis using x by (simp add: fl_def)
qed

text \<open>The rounded product has the ceiling of the exact one, when \<open>p\<close> is a multiple of a thousandth rounded to within \<open>2 ^ - 55\<close>.\<close>

lemma ceiling_fl:
  assumes p: "p = of_int a / 1000" "0 < a" "a \<le> 1000" and near: "\<bar>fl p - p\<bar> < fl p / 2 ^ 54" and n: "0 < n" "n \<le> 2 ^ 40"
  shows "\<lceil>fl (fl p * of_nat n)\<rceil> = \<lceil>p * of_nat n\<rceil>"
proof -
  let ?x = "fl p * of_nat n :: rat" and ?k = "\<lceil>p * of_nat n\<rceil>"
  have nr: "(0 :: rat) < of_nat n" "of_nat n \<le> (2 ^ 40 :: rat)"
    using n by (simp, metis of_nat_le_iff of_nat_numeral of_nat_power)
  have pb: "0 < p" "p \<le> 1" using p by simp_all
  have fb: "0 < fl p" "fl p \<le> 1"
    using near fl_mono [OF pb(2)] fl_int [of 1] by (auto simp: abs_if split: if_splits)
  have d: "\<bar>?x - p * of_nat n\<bar> < ?x / 2 ^ 54"
  proof -
    have "\<bar>?x - p * of_nat n\<bar> = \<bar>fl p - p\<bar> * of_nat n" by (simp add: abs_mult left_diff_distrib [symmetric])
    also have "\<dots> < fl p / 2 ^ 54 * of_nat n" using near nr by (intro mult_strict_right_mono)
    finally show ?thesis by simp
  qed
  have xb: "?x \<le> 2 ^ 40" using fb nr mult_mono [of "fl p" 1 "of_nat n :: rat" "2 ^ 40"] by simp
  then have small: "?x / 2 ^ 54 \<le> 1 / 16384" by simp
  have pn: "p * of_nat n = of_int (a * int n) / 1000" using p by simp
  show ?thesis
  proof (cases "1000 dvd a * int n")
    case True
    then obtain k where k: "a * int n = 1000 * k" by (auto elim: dvdE)
    have "0 < a * int n" using p n by simp
    then have "1 \<le> k" unfolding k by simp
    then have k1: "(1 :: rat) \<le> of_int k" by simp
    have e: "p * of_nat n = of_int k" unfolding pn k by simp
    have d': "\<bar>?x - of_int k\<bar> < ?x / 2 ^ 54" using d unfolding e .
    then have "of_int k - ?x < ?x / 2 ^ 54" by (simp only: abs_less_iff minus_diff_eq)
    then have "1 / 2 \<le> ?x" using k1 small by linarith
    moreover have "?x < 2 ^ 53" using xb by simp
    ultimately have "fl ?x = of_int k" by (rule fl_near_int [OF d'])
    then show ?thesis unfolding e by simp
  next
    case False
    define q where "q = a * int n div 1000"
    define m where "m = a * int n mod 1000"
    have m: "1 \<le> m" "m \<le> 999" and am: "a * int n = 1000 * q + m" using False by (simp_all add: q_def m_def dvd_eq_mod_eq_0)
    have q: "p * of_nat n = of_int q + of_int m / 1000" unfolding pn am by (simp add: add_divide_distrib)
    have mr: "(1 :: rat) \<le> of_int m" "of_int m \<le> (999 :: rat)" using m by simp_all
    have k: "?k = q + 1" unfolding q using mr by (simp add: ceiling_eq_iff)
    have "of_int q \<le> (2 ^ 40 :: rat)" using q mr pb nr mult_mono [of p 1 "of_nat n :: rat" "2 ^ 40"] by simp
    then have qb: "q \<le> 2 ^ 40" by (metis of_int_le_iff of_int_numeral of_int_power)
    have q0: "0 \<le> q" using p(2) by (simp add: q_def pos_imp_zdiv_nonneg_iff)
    have lo: "p * of_nat n - ?x < ?x / 2 ^ 54" and hi: "?x - p * of_nat n < ?x / 2 ^ 54"
      using d by (simp_all only: abs_less_iff minus_diff_eq)
    have t: "(2 :: rat) powi (- 11) = 1 / 2048" by (simp add: power_int_def power_one_over)
    have "of_int q + 1 / 2048 \<le> ?x" using lo q mr small by linarith
    then have "of_int (2048 * q + 1) * 2 powi (- 11) \<le> ?x" unfolding t by simp
    then have "fl (of_int (2048 * q + 1) * 2 powi (- 11)) \<le> fl ?x" by (rule fl_mono)
    moreover have "fl (of_int (2048 * q + 1) * 2 powi (- 11)) = of_int (2048 * q + 1) * 2 powi (- 11)"
      by (rule fl_exact) (use qb q0 in simp_all)
    ultimately have "of_int q < fl ?x" unfolding t by simp
    moreover have "?x \<le> of_int (q + 1)" using hi q mr small by simp
    then have "fl ?x \<le> fl (of_int (q + 1))" by (rule fl_mono)
    then have "fl ?x \<le> of_int (q + 1)" using fl_int [of "q + 1"] qb q0 by simp
    ultimately show ?thesis unfolding k by (simp add: ceiling_eq_iff)
  qed
qed

text \<open>The specification: an observed sample with at least \<open>p n\<close> samples up to it and fewer than \<open>p n\<close> below it.\<close>

definition nearest_rank :: "rat \<Rightarrow> rat list \<Rightarrow> rat \<Rightarrow> bool" where
  "nearest_rank p xs v \<longleftrightarrow> v \<in> set xs \<and> p * of_nat (length xs) \<le> of_nat (length (filter (\<lambda>x. x \<le> v) xs))
     \<and> of_nat (length (filter (\<lambda>x. x < v) xs)) < p * of_nat (length xs)"

lemma sorted_counts:
  assumes "sorted xs" "j < length xs"
  shows "Suc j \<le> length (filter (\<lambda>x. x \<le> xs ! j) xs)" "length (filter (\<lambda>x. x < xs ! j) xs) \<le> j"
proof -
  have "filter (\<lambda>x. x \<le> xs ! j) (take (Suc j) xs) = take (Suc j) xs"
    using assms by (auto simp: filter_id_conv in_set_conv_nth intro!: sorted_nth_mono)
  moreover have "length (filter (\<lambda>x. x \<le> xs ! j) (take (Suc j) xs)) \<le> length (filter (\<lambda>x. x \<le> xs ! j) (take (Suc j) xs @ drop (Suc j) xs))"
    by (simp only: filter_append length_append le_add1)
  ultimately show "Suc j \<le> length (filter (\<lambda>x. x \<le> xs ! j) xs)" using assms(2) by simp
  have "filter (\<lambda>x. x < xs ! j) (drop j xs) = []"
    using assms by (auto simp: filter_empty_conv in_set_conv_nth not_less intro!: sorted_nth_mono)
  moreover have "length (filter (\<lambda>x. x < xs ! j) (take j xs @ drop j xs)) = length (filter (\<lambda>x. x < xs ! j) (take j xs)) + length (filter (\<lambda>x. x < xs ! j) (drop j xs))"
    by (simp only: filter_append length_append)
  ultimately show "length (filter (\<lambda>x. x < xs ! j) xs) \<le> j"
    using length_filter_le [of "\<lambda>x. x < xs ! j" "take j xs"] assms(2) by simp
qed

lemma nearest_rank_sort: "nearest_rank p (sort xs) v = nearest_rank p xs v"
proof -
  have "length (filter P (sort xs)) = length (filter P xs)" for P
    by (metis mset_eq_length mset_filter mset_sort)
  then show ?thesis by (simp add: nearest_rank_def)
qed

lemma rank_nearest:
  assumes "sorted xs" "xs \<noteq> []" "length xs \<le> 2 ^ 40" "p = of_int a / 1000" "0 < a" "a \<le> 1000" "\<bar>fl p - p\<bar> < fl p / 2 ^ 54"
  shows "nearest_rank p xs (rank xs p)"
proof -
  let ?n = "length xs"
  define k where "k = \<lceil>p * of_nat ?n\<rceil>"
  have n: "0 < ?n" using assms(2) by simp
  have pb: "0 < p" "p \<le> 1" using assms(4-6) by simp_all
  have "fl (of_nat ?n) = of_nat ?n" using fl_int [of "int ?n"] assms(3) by simp
  then have c: "\<lceil>fl (fl p * fl (of_nat ?n))\<rceil> = k" using ceiling_fl [OF assms(4-7) n assms(3)] by (simp add: k_def)
  have "0 < p * of_nat ?n" using pb n by simp
  then have k1: "1 \<le> k" unfolding k_def by (simp add: less_ceiling_iff)
  have "p * of_nat ?n \<le> of_nat ?n" using pb by (simp add: mult_left_le_one_le)
  then have kn: "k \<le> int ?n" unfolding k_def by (simp add: ceiling_le_iff)
  have r: "rank xs p = xs ! (nat k - 1)" using c k1 kn by (simp add: rank_def Let_def)
  have j: "nat k - 1 < ?n" using k1 kn by simp
  have up: "p * of_nat ?n \<le> of_nat (nat k)" using k1 le_of_int_ceiling [of "p * of_nat ?n"] by (simp add: k_def)
  have low: "of_nat (nat k - 1) < p * of_nat ?n"
    using k1 ceiling_correct [of "p * of_nat ?n"] by (simp add: k_def of_nat_diff)
  have "nat k \<le> length (filter (\<lambda>x. x \<le> rank xs p) xs)" using sorted_counts(1) [OF assms(1) j] k1 unfolding r by simp
  then have "(of_nat (nat k) :: rat) \<le> of_nat (length (filter (\<lambda>x. x \<le> rank xs p) xs))" by (simp only: of_nat_le_iff)
  with up have "p * of_nat ?n \<le> of_nat (length (filter (\<lambda>x. x \<le> rank xs p) xs))" by (rule order_trans)
  moreover have "(of_nat (length (filter (\<lambda>x. x < rank xs p) xs)) :: rat) \<le> of_nat (nat k - 1)"
    using sorted_counts(2) [OF assms(1) j] unfolding r of_nat_le_iff .
  then have "of_nat (length (filter (\<lambda>x. x < rank xs p) xs)) < p * of_nat ?n" using low by (rule order_le_less_trans)
  ultimately show ?thesis using j by (simp add: nearest_rank_def r)
qed

lemma quantiles_near:
  "\<bar>fl (50 / 100) - 50 / 100\<bar> < fl (50 / 100) / 2 ^ 54" "\<bar>fl (90 / 100) - 90 / 100\<bar> < fl (90 / 100) / 2 ^ 54"
  "\<bar>fl (99 / 100) - 99 / 100\<bar> < fl (99 / 100) / 2 ^ 54" "\<bar>fl (999 / 1000) - 999 / 1000\<bar> < fl (999 / 1000) / 2 ^ 54"
  by code_simp+

section \<open>Files\<close>

lemma append_csv_rows:
  "foldl (\<lambda>f row. append_csv True header row f) (Some (header @ [CHR 0x0A] @ c)) rows
     = Some (header @ [CHR 0x0A] @ c @ concat (map (\<lambda>row. row @ [CHR 0x0A]) rows))"
  by (induction rows arbitrary: c) (simp_all add: append_csv_def)

text \<open>Appending rows to a file that is absent or empty gives the header once, then the rows.\<close>

lemma append_csv_header_once:
  assumes "f = None \<or> f = Some []" "rows \<noteq> []"
  shows "foldl (\<lambda>f row. append_csv True header row f) f rows = Some (header @ [CHR 0x0A] @ concat (map (\<lambda>row. row @ [CHR 0x0A]) rows))"
proof -
  obtain row rest where "rows = row # rest" using assms(2) by (cases rows) auto
  then show ?thesis using assms(1) append_csv_rows [of header "row @ [CHR 0x0A]" rest] by (auto simp: append_csv_def)
qed

text \<open>
  The path of the resource file is cut at the last dot of the whole path, which may belong to a directory: the row then does not land
  beside the run.
\<close>

lemma resource_path_dotted: "resource_path ''./lat'' = ''.resources.csv''" "resource_path ''run.d/lat'' = ''run.resources.csv''"
  "resource_path ''out/lat.csv'' = ''out/lat.resources.csv''"
  by (simp_all add: resource_path_def)

section \<open>Properties\<close>

text \<open>The percentiles are exact nearest-rank statistics in spite of the \<^verbatim>\<open>double\<close> arithmetic of the rank: for up to \<open>2 ^ 40\<close> samples each
  reported percentile is an observed sample, at least the given share of the samples is at most it, and less than that share is below it;
  minimum and maximum are those of the samples.\<close>

theorem percentiles_nearest_rank:
  assumes "xs \<noteq> []" "length xs \<le> 2 ^ 40"
  shows "nearest_rank (1 / 2) xs (p50 (percentiles xs)) \<and> nearest_rank (9 / 10) xs (p90 (percentiles xs))
    \<and> nearest_rank (99 / 100) xs (p99 (percentiles xs)) \<and> nearest_rank (999 / 1000) xs (p999 (percentiles xs))
    \<and> pc_n (percentiles xs) = length xs \<and> pc_min (percentiles xs) = Min (set xs) \<and> pc_max (percentiles xs) = Max (set xs)"
proof -
  let ?s = "sort xs"
  have "?s \<noteq> []" using assms(1) by (metis length_0_conv length_sort)
  then have s: "sorted ?s" "?s \<noteq> []" "length ?s \<le> 2 ^ 40" using assms by simp_all
  have r: "nearest_rank p xs (rank ?s p)" if "p = of_int a / 1000" "0 < a" "a \<le> 1000" "\<bar>fl p - p\<bar> < fl p / 2 ^ 54" for p a
    using rank_nearest [OF s that] by (simp add: nearest_rank_sort)
  note q = quantiles_near
  have ends: "hd ?s \<le> y \<and> y \<le> last ?s" if "y \<in> set xs" for y
  proof -
    have "y \<in> set ?s" using that by simp
    then obtain i where "i < length ?s" "y = ?s ! i" unfolding in_set_conv_nth by blast
    then show ?thesis using s(1,2) by (auto simp: hd_conv_nth last_conv_nth intro!: sorted_nth_mono)
  qed
  have "hd ?s \<in> set xs" "last ?s \<in> set xs" using hd_in_set [OF s(2)] last_in_set [OF s(2)] by simp_all
  then have "hd ?s = Min (set xs)" "last ?s = Max (set xs)" using ends by (auto intro!: Min_eqI [symmetric] Max_eqI [symmetric])
  moreover have "nearest_rank (50 / 100) xs (rank ?s (50 / 100))" "nearest_rank (90 / 100) xs (rank ?s (90 / 100))"
    "nearest_rank (99 / 100) xs (rank ?s (99 / 100))" "nearest_rank (999 / 1000) xs (rank ?s (999 / 1000))"
    using r [of "50 / 100" 500, OF _ _ _ q(1)] r [of "90 / 100" 900, OF _ _ _ q(2)] r [of "99 / 100" 990, OF _ _ _ q(3)]
      r [of "999 / 1000" 999, OF _ _ _ q(4)] by simp_all
  ultimately show ?thesis using assms(1) by (simp add: percentiles_def Let_def)
qed

theorem percentiles_nearest_rank_witness:
  "[3, 1, 2 :: rat] \<noteq> [] \<and> length [3, 1, 2 :: rat] \<le> 2 ^ 40 \<and> nearest_rank (9 / 10) [3, 1, 2] (p90 (percentiles [3, 1, 2]))"
  using percentiles_nearest_rank [of "[3, 1, 2]"] by simp

end
