(* ===== verification/Tcp_Stream.thy ===== *)
theory Tcp_Stream
  imports Bench_Common "HOL-Library.Sublist"
begin

text \<open>
  Messages over a byte stream, as the benchmark programs send them over TCP: the channel \<^verbatim>\<open>Tcp\<close> of \<^verbatim>\<open>bench/paced_bench.cc\<close> with its
  send queue, partial writes and partial reads, and the blocking framing of \<^verbatim>\<open>bench/tcp_baseline.cc\<close>. The calls on the connected socket are
  a record of functions; the locale \<open>byte_stream\<close> states what a stream socket promises, and is interpreted on a pair of bounded pipes.
\<close>

section \<open>The stream socket\<close>

datatype wr = Took nat | Write_again | Write_error
datatype rd = Got bytes | Read_again | End_of_stream | Read_error

record 'n TcpCalls =
  tcp_write :: "bytes \<Rightarrow> 'n \<Rightarrow> wr \<times> 'n"
  tcp_read :: "nat \<Rightarrow> 'n \<Rightarrow> rd \<times> 'n"

section \<open>The channel of paced_bench\<close>

definition kLimit :: nat where "kLimit = 64"
definition kSize :: nat where "kSize = 512"

record Tcp =
  out_queue :: "bytes list"
  offset :: nat
  got :: nat
  input :: bytes

definition new_tcp :: Tcp where
  "new_tcp = \<lparr>out_queue = [], offset = 0, got = 0, input = replicate (kSize + 4) 0\<rparr>"

text \<open>The exceptions; \<open>Overrun\<close> is the copy of a message longer than the frame, which the source does not check.\<close>

datatype tcp_error = Overrun | Write_failed | Read_failed | Invalid_length

definition tcp_frame :: "bytes \<Rightarrow> bytes" where
  "tcp_frame b = le32 (word_of_nat kSize) @ b @ replicate (kSize - length b) 0"

definition tcp_send :: "bytes \<Rightarrow> Tcp \<Rightarrow> tcp_error + bool \<times> Tcp" where
  "tcp_send b t =
     (if length (out_queue t) = kLimit then Inr (False, t)
      else if length b > kSize then Inl Overrun
      else Inr (True, t\<lparr>out_queue := out_queue t @ [tcp_frame b]\<rparr>))"

fun tcp_flush :: "'n TcpCalls \<Rightarrow> nat \<Rightarrow> Tcp \<Rightarrow> 'n \<Rightarrow> tcp_error + Tcp \<times> 'n" where
  "tcp_flush K 0 t n = Inr (t, n)"
| "tcp_flush K (Suc i) t n =
     (case out_queue t of
        [] \<Rightarrow> Inr (t, n)
      | b # rest \<Rightarrow>
          (case tcp_write K (drop (offset t) b) n of
             (Write_again, n) \<Rightarrow> Inr (t, n)
           | (Write_error, n) \<Rightarrow> Inl Write_failed
           | (Took k, n) \<Rightarrow>
               if k = 0 then Inl Write_failed
               else let t = t\<lparr>offset := offset t + k\<rparr>;
                        t = (if offset t = length b then t\<lparr>out_queue := rest, offset := 0\<rparr> else t)
                    in tcp_flush K i t n))"

definition read_frame_length :: "bytes \<Rightarrow> u32" where
  "read_frame_length p = ld32 (p ! 0) (p ! 1) (p ! 2) (p ! 3)"

text \<open>The read loop; the third component are the messages handed to the callback.\<close>

fun tcp_drain :: "'n TcpCalls \<Rightarrow> nat \<Rightarrow> Tcp \<Rightarrow> 'n \<Rightarrow> tcp_error + Tcp \<times> 'n \<times> bytes list" where
  "tcp_drain K 0 t n = Inr (t, n, [])"
| "tcp_drain K (Suc i) t n =
     (case tcp_read K (length (input t) - got t) n of
        (Read_again, n) \<Rightarrow> Inr (t, n, [])
      | (End_of_stream, n) \<Rightarrow> Inr (t, n, [])
      | (Read_error, n) \<Rightarrow> Inl Read_failed
      | (Got bs, n) \<Rightarrow>
          let t = t\<lparr>input := take (got t) (input t) @ bs @ drop (got t + length bs) (input t), got := got t + length bs\<rparr>
          in if got t = length (input t) then
               if read_frame_length (input t) \<noteq> word_of_nat kSize then Inl Invalid_length
               else (case tcp_drain K i (t\<lparr>got := 0\<rparr>) n of
                       Inl e \<Rightarrow> Inl e
                     | Inr (t', n, msgs) \<Rightarrow> Inr (t', n, take kSize (drop 4 (input t)) # msgs))
             else tcp_drain K i t n)"

definition tcp_poll :: "'n TcpCalls \<Rightarrow> Tcp \<Rightarrow> 'n \<Rightarrow> tcp_error + Tcp \<times> 'n \<times> bytes list" where
  "tcp_poll K t n =
     (case tcp_flush K kLimit t n of
        Inl e \<Rightarrow> Inl e
      | Inr (t, n) \<Rightarrow> tcp_drain K kLimit t n)"

text \<open>The two ends of a connection, the one that called \<^verbatim>\<open>connect\<close> being \<open>True\<close>, and what was accepted from and handed to their users.\<close>

datatype tcp_event = Offer bytes | Poll

record 'n TcpPair =
  ends :: "bool \<Rightarrow> Tcp"
  stream_net :: 'n
  accepted_msgs :: "bool \<Rightarrow> bytes list"
  received_msgs :: "bool \<Rightarrow> bytes list"

definition tcp_pair :: "'n \<Rightarrow> 'n TcpPair" where
  "tcp_pair n = \<lparr>ends = (\<lambda>w. new_tcp), stream_net = n, accepted_msgs = (\<lambda>w. []), received_msgs = (\<lambda>w. [])\<rparr>"

fun tcp_step :: "(bool \<Rightarrow> 'n TcpCalls) \<Rightarrow> bool \<Rightarrow> tcp_event \<Rightarrow> 'n TcpPair \<Rightarrow> tcp_error + 'n TcpPair" where
  "tcp_step K w (Offer b) s =
     (case tcp_send b (ends s w) of
        Inl e \<Rightarrow> Inl e
      | Inr (ok, t) \<Rightarrow> Inr (s\<lparr>ends := (ends s)(w := t), accepted_msgs := (accepted_msgs s)(w := accepted_msgs s w @ (if ok then [b] else []))\<rparr>))"
| "tcp_step K w Poll s =
     (case tcp_poll (K w) (ends s w) (stream_net s) of
        Inl e \<Rightarrow> Inl e
      | Inr (t, n, msgs) \<Rightarrow> Inr (s\<lparr>ends := (ends s)(w := t), stream_net := n, received_msgs := (received_msgs s)(w := received_msgs s w @ msgs)\<rparr>))"

fun tcp_run :: "(bool \<Rightarrow> 'n TcpCalls) \<Rightarrow> (bool \<times> tcp_event) list \<Rightarrow> 'n TcpPair \<Rightarrow> tcp_error + 'n TcpPair" where
  "tcp_run K [] s = Inr s"
| "tcp_run K ((w, ev) # evs) s = (case tcp_step K w ev s of Inl e \<Rightarrow> Inl e | Inr s \<Rightarrow> tcp_run K evs s)"

section \<open>What a stream socket promises\<close>

text \<open>\<open>pipe w n\<close> are the bytes that the end \<open>w\<close> has written and the other end has not read.\<close>

locale byte_stream =
  fixes K :: "bool \<Rightarrow> 'n TcpCalls"
    and pipe :: "bool \<Rightarrow> 'n \<Rightarrow> bytes"
  assumes write_took: "tcp_write (K w) d n = (Took k, n') \<Longrightarrow> k \<le> length d \<and> pipe w n' = pipe w n @ take k d"
    and write_none: "tcp_write (K w) d n = (r, n') \<Longrightarrow> (\<forall>k. r \<noteq> Took k) \<Longrightarrow> pipe w n' = pipe w n"
    and write_other: "tcp_write (K w) d n = (r, n') \<Longrightarrow> pipe (\<not> w) n' = pipe (\<not> w) n"
    and read_got: "tcp_read (K w) cap n = (Got bs, n') \<Longrightarrow> bs \<noteq> [] \<and> length bs \<le> cap \<and> pipe (\<not> w) n = bs @ pipe (\<not> w) n'"
    and read_none: "tcp_read (K w) cap n = (q, n') \<Longrightarrow> (\<forall>bs. q \<noteq> Got bs) \<Longrightarrow> pipe (\<not> w) n' = pipe (\<not> w) n"
    and read_other: "tcp_read (K w) cap n = (q, n') \<Longrightarrow> pipe w n' = pipe w n"

definition tcp_ok :: "Tcp \<Rightarrow> bool" where
  "tcp_ok t \<longleftrightarrow> length (input t) = 516 \<and> got t < 516 \<and> (\<forall>b\<in>set (out_queue t). length b = 516) \<and> offset t < 516 \<and>
     (out_queue t = [] \<longrightarrow> offset t = 0) \<and> length (out_queue t) \<le> kLimit"

definition unsent :: "Tcp \<Rightarrow> bytes" where
  "unsent t = drop (offset t) (concat (out_queue t))"

definition partial :: "Tcp \<Rightarrow> bytes" where
  "partial t = take (got t) (input t)"

abbreviation frames_ok :: "bytes list \<Rightarrow> bool" where
  "frames_ok F \<equiv> (\<forall>f\<in>set F. length f = 516 \<and> take 4 f = le32 512)"

lemma tcp_frame_ok: "length b \<le> kSize \<Longrightarrow> length (tcp_frame b) = 516 \<and> take 4 (tcp_frame b) = le32 512"
  by (simp add: tcp_frame_def kSize_def le32_def)

lemma read_frame_length_ok: "length p = 516 \<Longrightarrow> take 4 p = le32 512 \<Longrightarrow> read_frame_length p = word_of_nat kSize"
proof -
  assume "length p = 516" "take 4 p = le32 512"
  then have "\<And>i. i < 4 \<Longrightarrow> p ! i = le32 512 ! i" by (metis nth_take)
  then show ?thesis using ld32_le32 [of 512] by (simp add: read_frame_length_def le32_def kSize_def)
qed

lemma same_length_append: "length x = length f \<Longrightarrow> x @ y = f @ z \<Longrightarrow> x = f \<and> y = z"
  by simp

lemma concat_frames: "frames_ok F \<Longrightarrow> F = [] \<longleftrightarrow> concat F = []"
  by (cases F) auto

lemma new_tcp_ok [simp]: "tcp_ok new_tcp" "unsent new_tcp = []" "partial new_tcp = []"
  by (simp_all add: tcp_ok_def new_tcp_def unsent_def partial_def kSize_def)

text \<open>The frames that one end accepted are the frames the other end delivered, then its partial frame, the pipe and the queue.\<close>

definition flow_ok :: "(bool \<Rightarrow> 'n \<Rightarrow> bytes) \<Rightarrow> bool \<Rightarrow> 'n TcpPair \<Rightarrow> bool" where
  "flow_ok p w s \<longleftrightarrow>
     (let F = map tcp_frame (accepted_msgs s w); k = length (received_msgs s (\<not> w))
      in frames_ok F \<and> k \<le> length F \<and> received_msgs s (\<not> w) = map (drop 4) (take k F) \<and>
         partial (ends s (\<not> w)) @ p w (stream_net s) @ unsent (ends s w) = concat (drop k F))"

lemma unsent_le: "tcp_ok t \<Longrightarrow> offset t \<le> length (concat (out_queue t))"
  by (cases "out_queue t") (auto simp: tcp_ok_def)

lemma unsent_nil: "tcp_ok t \<Longrightarrow> unsent t = [] \<longleftrightarrow> out_queue t = []"
  by (cases "out_queue t") (auto simp: tcp_ok_def unsent_def)

lemma partial_nil: "tcp_ok t \<Longrightarrow> partial t = [] \<longleftrightarrow> got t = 0"
  by (auto simp: tcp_ok_def partial_def)

lemma tcp_send_ok:
  assumes "tcp_ok t" "length b \<le> kSize"
  obtains "tcp_send b t = Inr (False, t)"
  | t' where "tcp_send b t = Inr (True, t')" "tcp_ok t'" "unsent t' = unsent t @ tcp_frame b" "partial t' = partial t"
proof (cases "length (out_queue t) = kLimit")
  case False
  let ?t = "t\<lparr>out_queue := out_queue t @ [tcp_frame b]\<rparr>"
  have "tcp_send b t = Inr (True, ?t)" "tcp_ok ?t" "partial ?t = partial t"
    using False assms tcp_frame_ok [OF assms(2)] by (auto simp: tcp_send_def tcp_ok_def partial_def)
  moreover have "unsent ?t = unsent t @ tcp_frame b" using unsent_le [OF assms(1)] by (simp add: unsent_def)
  ultimately show thesis using that(2) by blast
qed (use that(1) in \<open>simp add: tcp_send_def\<close>)

context byte_stream
begin

lemma flush_keeps:
  assumes "tcp_flush (K w) i t n = Inr (t', n')" "tcp_ok t"
  shows "tcp_ok t' \<and> input t' = input t \<and> got t' = got t \<and> pipe (\<not> w) n' = pipe (\<not> w) n \<and> pipe w n' @ unsent t' = pipe w n @ unsent t"
  using assms
proof (induction i arbitrary: t n)
  case (Suc i)
  show ?case
  proof (cases "out_queue t")
    case Nil
    then show ?thesis using Suc.prems by simp
  next
    case (Cons b rest)
    obtain r m where wr: "tcp_write (K w) (drop (offset t) b) n = (r, m)" by fastforce
    note other = write_other [OF wr]
    have b: "length b = 516" "offset t < 516" using Suc.prems(2) Cons by (auto simp: tcp_ok_def)
    show ?thesis
    proof (cases r)
      case (Took k)
      then have k: "k \<le> 516 - offset t" "pipe w m = pipe w n @ take k (drop (offset t) b)" "k \<noteq> 0"
        using write_took [OF wr [unfolded Took]] wr b Suc.prems(1) Cons by (auto split: if_splits)
      let ?t = "(if offset t + k = length b then t\<lparr>out_queue := rest, offset := 0\<rparr> else t\<lparr>offset := offset t + k\<rparr>)"
      have ok: "tcp_ok ?t" using Suc.prems(2) Cons b k by (auto simp: tcp_ok_def)
      have "take k (drop (offset t) b) @ unsent ?t = unsent t"
        using Cons b k by (auto simp: unsent_def add.commute simp flip: append_assoc drop_drop)
      moreover have "tcp_flush (K w) i ?t m = Inr (t', n')"
        using Suc.prems(1) Cons wr Took k b by (auto simp: Let_def split: if_splits)
      ultimately show ?thesis using Suc.IH [OF _ ok] other k(2) by fastforce
    qed (use Suc.prems Cons wr write_none [OF wr] other in auto)
  qed
qed simp

lemma flush_error: "tcp_flush (K w) i t n = Inl e \<Longrightarrow> e = Write_failed"
  by (induction i arbitrary: t n) (auto simp: Let_def split: list.splits prod.splits wr.splits if_splits)

lemma drain_keeps:
  assumes "partial t @ pipe (\<not> w) n @ rest = concat F" "frames_ok F" "tcp_ok t"
  shows "case tcp_drain (K w) i t n of
           Inl e \<Rightarrow> e = Read_failed
         | Inr (t', n', msgs) \<Rightarrow> tcp_ok t' \<and> unsent t' = unsent t \<and> out_queue t' = out_queue t \<and> pipe w n' = pipe w n \<and> length msgs \<le> length F \<and>
             partial t' @ pipe (\<not> w) n' @ rest = concat (drop (length msgs) F) \<and> msgs = map (drop 4) (take (length msgs) F)"
  using assms
proof (induction i arbitrary: t n F)
  case (Suc i)
  obtain r m where rd: "tcp_read (K w) (length (input t) - got t) n = (r, m)" by fastforce
  note other = read_other [OF rd]
  have t: "length (input t) = 516" "got t < 516" using Suc.prems(3) by (auto simp: tcp_ok_def)
  show ?case
  proof (cases r)
    case (Got bs)
    then have bs: "length bs \<le> 516 - got t" "pipe (\<not> w) n = bs @ pipe (\<not> w) m" using read_got rd t by auto
    let ?in = "take (got t) (input t) @ bs @ drop (got t + length bs) (input t)"
    let ?t = "t\<lparr>input := ?in, got := got t + length bs\<rparr>"
    have in516: "length ?in = 516" using bs t by simp
    have data: "take (got t + length bs) ?in @ pipe (\<not> w) m @ rest = concat F"
      using Suc.prems(1) bs t by (simp add: partial_def)
    show ?thesis
    proof (cases "got t + length bs = 516")
      case True
      then have whole: "?in @ pipe (\<not> w) m @ rest = concat F" using data in516 by (metis take_all order_refl)
      then obtain f F' where F: "F = f # F'" using in516 by (cases F) auto
      have f: "length f = 516" "take 4 f = le32 512" using Suc.prems(2) F by auto
      have eq: "?in = f" "pipe (\<not> w) m @ rest = concat F'" using same_length_append [OF _ whole [unfolded F concat.simps]] f(1) in516 by simp_all
      have ok: "tcp_ok (?t\<lparr>got := 0\<rparr>)" using Suc.prems(3) in516 by (simp add: tcp_ok_def)
      have "partial (?t\<lparr>got := 0\<rparr>) @ pipe (\<not> w) m @ rest = concat F'" using eq(2) by (simp add: partial_def)
      note IH = Suc.IH [OF this _ ok]
      have "tcp_drain (K w) (Suc i) t n =
              (case tcp_drain (K w) i (?t\<lparr>got := 0\<rparr>) m of Inl e \<Rightarrow> Inl e | Inr (t', n, msgs) \<Rightarrow> Inr (t', n, drop 4 f # msgs))"
        using rd Got True in516 eq(1) f read_frame_length_ok [OF f] by (auto simp: Let_def kSize_def split: sum.splits)
      then show ?thesis using IH Suc.prems(2) F other by (auto simp: unsent_def split: sum.splits prod.splits)
    next
      case False
      then have ok: "tcp_ok ?t" using Suc.prems(3) bs t in516 by (auto simp: tcp_ok_def)
      have "partial ?t @ pipe (\<not> w) m @ rest = concat F" using data by (simp add: partial_def)
      from Suc.IH [OF this Suc.prems(2) ok] show ?thesis
        using rd Got False in516 other by (auto simp: unsent_def split: sum.splits prod.splits)
    qed
  qed (use Suc.prems rd read_none [OF rd] other in auto)
qed auto

lemma step_keeps:
  assumes "\<forall>v. tcp_ok (ends s v) \<and> flow_ok pipe v s" "case ev of Offer b \<Rightarrow> length b \<le> kSize | Poll \<Rightarrow> True"
  shows "case tcp_step K w ev s of Inl e \<Rightarrow> e \<in> {Write_failed, Read_failed} | Inr s' \<Rightarrow> \<forall>v. tcp_ok (ends s' v) \<and> flow_ok pipe v s'"
proof (cases ev)
  case (Offer b)
  with assms have b: "length b \<le> kSize" and ok: "\<And>v. tcp_ok (ends s v)" and fl: "\<And>v. flow_ok pipe v s" by auto
  show ?thesis
  proof (rule tcp_send_ok [OF ok b, of w])
    assume "tcp_send b (ends s w) = Inr (False, ends s w)"
    then show ?thesis using Offer ok fl by (simp add: flow_ok_def)
  next
    fix t' assume t': "tcp_send b (ends s w) = Inr (True, t')" "tcp_ok t'" "unsent t' = unsent (ends s w) @ tcp_frame b"
      "partial t' = partial (ends s w)"
    let ?s = "s\<lparr>ends := (ends s)(w := t'), accepted_msgs := (accepted_msgs s)(w := accepted_msgs s w @ [b])\<rparr>"
    have "flow_ok pipe v ?s" for v
    proof (cases "v = w")
      case True
      then show ?thesis using fl [of w] t' tcp_frame_ok [OF b] by (auto simp: flow_ok_def Let_def)
    next
      case False
      then have "v = (\<not> w)" by auto
      then show ?thesis using fl [of v] t' by (auto simp: flow_ok_def Let_def)
    qed
    then show ?thesis using Offer t' ok by simp
  qed
next
  case Poll
  from assms have ok: "\<And>v. tcp_ok (ends s v)" and fl: "\<And>v. flow_ok pipe v s" by auto
  show ?thesis
  proof (cases "tcp_flush (K w) kLimit (ends s w) (stream_net s)")
    case (Inl e)
    then show ?thesis using Poll flush_error [OF Inl] by (simp add: tcp_poll_def)
  next
    case (Inr p)
    obtain t n where p: "p = (t, n)" by fastforce
    note f = flush_keeps [OF Inr [unfolded p] ok]
    let ?F = "map tcp_frame (accepted_msgs s (\<not> w))" and ?k = "length (received_msgs s w)"
    have F: "frames_ok (drop ?k ?F)" "partial t @ pipe (\<not> w) n @ unsent (ends s (\<not> w)) = concat (drop ?k ?F)"
      using fl [of "\<not> w"] f by (auto simp: flow_ok_def Let_def partial_def dest!: in_set_dropD)
    have t: "tcp_ok t" using f by simp
    note d = drain_keeps [OF F(2) F(1) t, of kLimit]
    show ?thesis
    proof (cases "tcp_drain (K w) kLimit t n")
      case (Inl e)
      then show ?thesis using Poll Inr p d by (simp add: tcp_poll_def)
    next
      case dr: (Inr q)
      obtain t' n' msgs where q: "q = (t', n', msgs)" by (cases q) auto
      let ?s = "s\<lparr>ends := (ends s)(w := t'), stream_net := n', received_msgs := (received_msgs s)(w := received_msgs s w @ msgs)\<rparr>"
      note d = d [unfolded dr q sum.case prod.case]
      have "flow_ok pipe v ?s" for v
      proof (cases "v = w")
        case True
        then show ?thesis using fl [of w] f d by (simp add: flow_ok_def Let_def)
      next
        case False
        then have "v = (\<not> w)" by auto
        have "received_msgs s w @ msgs = map (drop 4) (take (?k + length msgs) ?F)"
          using fl [of "\<not> w"] d unfolding flow_ok_def Let_def not_not take_add map_append by metis
        moreover have "partial t' @ pipe (\<not> w) n' @ unsent (ends s (\<not> w)) = concat (drop (?k + length msgs) ?F)"
          using d by (simp add: add.commute)
        moreover have "?k + length msgs \<le> length ?F" using fl [of "\<not> w"] d by (auto simp: flow_ok_def Let_def)
        ultimately show ?thesis using fl [of "\<not> w"] \<open>v = (\<not> w)\<close> unfolding flow_ok_def Let_def by simp
      qed
      then show ?thesis using Poll Inr p dr q d ok by (simp add: tcp_poll_def)
    qed
  qed
qed


lemma run_keeps:
  assumes "\<forall>v. tcp_ok (ends s v) \<and> flow_ok pipe v s" "\<forall>(w, ev)\<in>set evs. case ev of Offer b \<Rightarrow> length b \<le> kSize | Poll \<Rightarrow> True"
  shows "case tcp_run K evs s of Inl e \<Rightarrow> e \<in> {Write_failed, Read_failed} | Inr s' \<Rightarrow> \<forall>v. tcp_ok (ends s' v) \<and> flow_ok pipe v s'"
  using assms
proof (induction evs arbitrary: s)
  case (Cons a evs)
  obtain w ev where a: "a = (w, ev)" by fastforce
  have "case tcp_step K w ev s of Inl e \<Rightarrow> e \<in> {Write_failed, Read_failed} | Inr s' \<Rightarrow> \<forall>v. tcp_ok (ends s' v) \<and> flow_ok pipe v s'"
    using step_keeps [OF Cons.prems(1)] Cons.prems(2) a by auto
  then show ?case using Cons.IH Cons.prems(2) a by (cases "tcp_step K w ev s") auto
qed simp

end

section \<open>Bounded pipes\<close>

text \<open>A connection whose ends each buffer at most \<open>pp_cap\<close> bytes, whose reads return at most \<open>pp_seg\<close> bytes, and which may be reset.\<close>

record Pipes =
  pp_bytes :: "bool \<Rightarrow> bytes"
  pp_cap :: nat
  pp_seg :: nat
  pp_reset :: bool

definition pipe_write :: "bool \<Rightarrow> bytes \<Rightarrow> Pipes \<Rightarrow> wr \<times> Pipes" where
  "pipe_write w d n =
     (let k = min (length d) (pp_cap n - length (pp_bytes n w))
      in if pp_reset n then (Write_error, n)
         else if k = 0 then (Write_again, n)
         else (Took k, n\<lparr>pp_bytes := (pp_bytes n)(w := pp_bytes n w @ take k d)\<rparr>))"

definition pipe_read :: "bool \<Rightarrow> nat \<Rightarrow> Pipes \<Rightarrow> rd \<times> Pipes" where
  "pipe_read w cap n =
     (let b = pp_bytes n (\<not> w); k = min cap (pp_seg n)
      in if pp_reset n then (Read_error, n)
         else if take k b = [] then (Read_again, n)
         else (Got (take k b), n\<lparr>pp_bytes := (pp_bytes n)(\<not> w := drop k b)\<rparr>))"

definition pipe_calls :: "bool \<Rightarrow> Pipes TcpCalls" where
  "pipe_calls w = \<lparr>tcp_write = pipe_write w, tcp_read = pipe_read w\<rparr>"

interpretation pipes: byte_stream pipe_calls "\<lambda>w n. pp_bytes n w"
  by unfold_locales (auto simp: pipe_calls_def pipe_write_def pipe_read_def Let_def split: if_splits)

section \<open>Properties\<close>

definition padded :: "bytes \<Rightarrow> bytes" where
  "padded b = b @ replicate (kSize - length b) 0"

lemma tcp_frame_payload: "drop 4 (tcp_frame b) = padded b"
  by (simp add: tcp_frame_def padded_def le32_def)

lemma flow_delivered:
  assumes "flow_ok p w s" "\<forall>v. tcp_ok (ends s v)"
  shows "prefix (received_msgs s (\<not> w)) (map padded (accepted_msgs s w))"
    "received_msgs s (\<not> w) = map padded (accepted_msgs s w) \<longleftrightarrow>
       p w (stream_net s) = [] \<and> out_queue (ends s w) = [] \<and> got (ends s (\<not> w)) = 0"
proof -
  let ?F = "map tcp_frame (accepted_msgs s w)" and ?r = "received_msgs s (\<not> w)"
  have fl: "frames_ok ?F" "length ?r \<le> length ?F" "?r = map (drop 4) (take (length ?r) ?F)"
    "partial (ends s (\<not> w)) @ p w (stream_net s) @ unsent (ends s w) = concat (drop (length ?r) ?F)"
    using assms(1) by (auto simp: flow_ok_def Let_def)
  have r: "?r = take (length ?r) (map padded (accepted_msgs s w))"
    using fl(3) by (simp add: take_map comp_def tcp_frame_payload)
  then show "prefix ?r (map padded (accepted_msgs s w))" by (metis take_is_prefix)
  have "?r = map padded (accepted_msgs s w) \<longleftrightarrow> length ?r = length ?F" using r by (metis length_map take_all order_refl)
  also have "\<dots> \<longleftrightarrow> drop (length ?r) ?F = []" using fl(2) by auto
  also have "\<dots> \<longleftrightarrow> concat (drop (length ?r) ?F) = []" using concat_frames [of "drop (length ?r) ?F"] fl(1) in_set_dropD by metis
  also have "\<dots> \<longleftrightarrow> partial (ends s (\<not> w)) = [] \<and> p w (stream_net s) = [] \<and> unsent (ends s w) = []"
    unfolding fl(4) [symmetric] by simp
  also have "\<dots> \<longleftrightarrow> p w (stream_net s) = [] \<and> out_queue (ends s w) = [] \<and> got (ends s (\<not> w)) = 0"
    using assms(2) by (auto simp: unsent_nil partial_nil)
  finally show "?r = map padded (accepted_msgs s w) \<longleftrightarrow> p w (stream_net s) = [] \<and> out_queue (ends s w) = [] \<and> got (ends s (\<not> w)) = 0" .
qed

text \<open>C23: The channel frames messages over any connected stream socket, however the kernel splits its reads and writes: whatever the two
  ends send and poll, and in whatever order, each end is handed the messages that the other accepted, in order, complete and only once
  (padded to 512 bytes), no frame is ever found to have a wrong length, and everything accepted has been handed over exactly when the
  queue, the stream and the partial frame are empty.\<close>

theorem tcp_channel_in_order:
  assumes "byte_stream K pipe" "\<forall>w. pipe w n = []"
    "\<forall>(w, ev)\<in>set evs. case ev of Offer b \<Rightarrow> length b \<le> kSize | Poll \<Rightarrow> True"
  shows "case tcp_run K evs (tcp_pair n) of
           Inl e \<Rightarrow> e \<in> {Write_failed, Read_failed}
         | Inr s \<Rightarrow> \<forall>w. prefix (received_msgs s (\<not> w)) (map padded (accepted_msgs s w)) \<and>
             (received_msgs s (\<not> w) = map padded (accepted_msgs s w) \<longleftrightarrow>
                pipe w (stream_net s) = [] \<and> out_queue (ends s w) = [] \<and> got (ends s (\<not> w)) = 0)"
proof -
  have "\<forall>v. tcp_ok (ends (tcp_pair n) v) \<and> flow_ok pipe v (tcp_pair n)"
    using assms(2) by (simp add: tcp_pair_def flow_ok_def)
  from byte_stream.run_keeps [OF assms(1) this assms(3)] show ?thesis
    by (cases "tcp_run K evs (tcp_pair n)") (simp_all add: flow_delivered [of pipe])
qed

lemma pipes_stream: "byte_stream pipe_calls (\<lambda>w n. pp_bytes n w)"
  by (fact pipes.byte_stream_axioms)

definition demo_pipes :: Pipes where
  "demo_pipes = \<lparr>pp_bytes = (\<lambda>w. []), pp_cap = 700, pp_seg = 300, pp_reset = False\<rparr>"

definition demo_events :: "(bool \<times> tcp_event) list" where
  "demo_events = [(True, Offer [1, 2, 3]), (True, Offer [4]), (True, Poll), (False, Poll), (False, Offer [5]), (True, Poll), (False, Poll)]"

theorem tcp_channel_in_order_witness:
  "\<exists>s. tcp_run pipe_calls demo_events (tcp_pair demo_pipes) = Inr s \<and>
     prefix (received_msgs s False) (map padded (accepted_msgs s True)) \<and> length (received_msgs s False) = 2"
proof -
  have t: "case tcp_run pipe_calls demo_events (tcp_pair demo_pipes) of
           Inl e \<Rightarrow> False | Inr s \<Rightarrow> length (received_msgs s False) = 2" by code_simp
  have "case tcp_run pipe_calls demo_events (tcp_pair demo_pipes) of
           Inl e \<Rightarrow> e \<in> {Write_failed, Read_failed}
         | Inr s \<Rightarrow> \<forall>w. prefix (received_msgs s (\<not> w)) (map padded (accepted_msgs s w)) \<and>
             (received_msgs s (\<not> w) = map padded (accepted_msgs s w) \<longleftrightarrow>
                pp_bytes (stream_net s) w = [] \<and> out_queue (ends s w) = [] \<and> got (ends s (\<not> w)) = 0)"
    by (rule tcp_channel_in_order [OF pipes_stream]) (auto simp: demo_pipes_def demo_events_def kSize_def)
  with t show ?thesis by (auto split: sum.splits dest: spec [of _ True])
qed

end
