(* ===== verification/Paced_Bench.thy ===== *)
theory Paced_Bench
  imports Tcp_Stream Session
begin

text \<open>
  The paced benchmark \<^verbatim>\<open>bench/paced_bench.cc\<close>: a sender that offers messages at a fixed cadence, or in bulk, with at most 64 outstanding,
  and accounts for each of them, and the receiver that echoes them. The channel is an interface with two implementations, over TCP and over
  a session; the clock is the sequence of the readings that the program takes. Instants are nanoseconds as natural numbers: the monotonic
  clock stays below \<open>2 ^ 64\<close> for more than five hundred years.
\<close>

section \<open>Channels\<close>

text \<open>\<open>ch_poll\<close> gives the messages handed to the callback, \<open>Inl\<close> an exception and \<open>None\<close> a poll that does not return.\<close>

record 'c Channel =
  ch_send :: "bytes \<Rightarrow> 'c \<Rightarrow> bool \<times> 'c"
  ch_poll :: "'c \<Rightarrow> (string + bytes list \<times> 'c) option"

definition udp_channel :: "'n UdpTransport \<Rightarrow> (Session \<times> 'n) Channel" where
  "udp_channel T =
     \<lparr>ch_send = (\<lambda>b (s, n). send T ReliableOrdered b s n),
      ch_poll = (\<lambda>(s, n).
        let s = set_on_message s; before = length (app_log (rx_side s));
            (hit, s, n) = poll T s n
        in case tick T s n of
             None \<Rightarrow> None
           | Some (s, n) \<Rightarrow>
               Some (Inr (map snd (drop before (app_log (rx_side s))), s\<lparr>rx_side := (rx_side s)\<lparr>handler := False\<rparr>\<rparr>, n)))\<rparr>"

fun tcp_what :: "tcp_error \<Rightarrow> string" where
  "tcp_what Write_failed = ''TCP write failed''"
| "tcp_what Read_failed = ''TCP read failed''"
| "tcp_what Invalid_length = ''invalid TCP frame length''"
| "tcp_what Overrun = []"

text \<open>The messages of this program have exactly 512 bytes, so that \<^const>\<open>tcp_send\<close> does not overrun its frame.\<close>

definition tcp_channel :: "'n TcpCalls \<Rightarrow> (Tcp \<times> 'n) Channel" where
  "tcp_channel K =
     \<lparr>ch_send = (\<lambda>b (t, n). case tcp_send b t of Inl e \<Rightarrow> (False, t, n) | Inr (ok, t) \<Rightarrow> (ok, t, n)),
      ch_poll = (\<lambda>(t, n). Some (case tcp_poll K t n of Inl e \<Rightarrow> Inl (tcp_what e) | Inr (t, n, msgs) \<Rightarrow> Inr (msgs, t, n)))\<rparr>"

section \<open>The run\<close>

text \<open>Times are sums of \<^verbatim>\<open>std::uint64_t\<close>, which wrap.\<close>

definition wrap64 :: "nat \<Rightarrow> nat" where
  "wrap64 t = t mod 2 ^ 64"

record Params =
  p_sender :: bool
  p_bulk :: bool
  p_count :: nat
  p_interval :: nat
  p_start :: nat
  p_end :: nat
  p_until :: nat

record Paced =
  offered :: nat
  accepted :: nat
  completed :: nat
  in_window :: nat
  rejected :: nat
  errors :: nat
  late :: nat
  peak :: nat
  pending :: "(nat \<times> nat) list"
  samples :: "rat list"
  offers_file :: "(nat \<times> nat \<times> nat \<times> bool) list"
  samples_file :: "(nat \<times> nat \<times> nat) list"
  echo_queue :: "bytes list"
  server_done :: bool
  readings :: nat

definition new_paced :: Paced where
  "new_paced = \<lparr>offered = 0, accepted = 0, completed = 0, in_window = 0, rejected = 0, errors = 0, late = 0, peak = 0, pending = [],
     samples = [], offers_file = [], samples_file = [], echo_queue = [], server_done = False, readings = 0\<rparr>"

definition now_ns :: "(nat \<Rightarrow> nat) \<Rightarrow> Paced \<Rightarrow> nat \<times> Paced" where
  "now_ns clk st = (clk (readings st), st\<lparr>readings := readings st + 1\<rparr>)"

definition paced_message :: "nat \<Rightarrow> u64 \<Rightarrow> bytes" where
  "paced_message ts seq = (case write_msg (replicate kSize 0) (word_of_nat ts) seq of Some b \<Rightarrow> b | None \<Rightarrow> [])"

text \<open>The callback of the receiver, and that of the sender.\<close>

definition receive_request :: "bytes \<Rightarrow> Paced \<Rightarrow> Paced" where
  "receive_request b st =
     (case read_msg b of
        None \<Rightarrow> st
      | Some (ts, seq) \<Rightarrow>
          if seq = kEndSeq then st\<lparr>server_done := True\<rparr>
          else if length (echo_queue st) = kLimit then st\<lparr>errors := errors st + 1\<rparr>
          else st\<lparr>echo_queue := echo_queue st @ [b]\<rparr>)"

definition receive_reply :: "(nat \<Rightarrow> nat) \<Rightarrow> Params \<Rightarrow> bytes \<Rightarrow> Paced \<Rightarrow> Paced" where
  "receive_reply clk P b st =
     (case read_msg b of
        None \<Rightarrow> st
      | Some (ts, seq) \<Rightarrow>
          if map_of (pending st) (unat seq) \<noteq> Some (unat ts) \<or> paced_message (unat ts) seq \<noteq> b then st\<lparr>errors := errors st + 1\<rparr>
          else let (now, st) = now_ns clk st
               in if p_until P \<le> now then st
                  else st\<lparr>samples := samples st @ [fl (fl (of_nat (unat (word_of_nat now - ts))) / 1000000)],
                          samples_file := samples_file st @ [(unat seq, unat ts, now)],
                          pending := filter (\<lambda>(k, v). k \<noteq> unat seq) (pending st),
                          completed := completed st + 1,
                          in_window := in_window st + (if now < p_end P then 1 else 0)\<rparr>)"

definition paced_receive :: "(nat \<Rightarrow> nat) \<Rightarrow> Params \<Rightarrow> bytes \<Rightarrow> Paced \<Rightarrow> Paced" where
  "paced_receive clk P b st =
     (if length b \<noteq> kSize then st\<lparr>errors := errors st + 1\<rparr>
      else if \<not> p_sender P then receive_request b st
      else receive_reply clk P b st)"

fun echo_back :: "'c Channel \<Rightarrow> bytes list \<Rightarrow> 'c \<Rightarrow> bytes list \<times> 'c" where
  "echo_back C [] c = ([], c)"
| "echo_back C (b # q) c = (case ch_send C b c of (ok, c) \<Rightarrow> if ok then echo_back C q c else (b # q, c))"

definition offer_one :: "'c Channel \<Rightarrow> Params \<Rightarrow> nat \<Rightarrow> Paced \<Rightarrow> 'c \<Rightarrow> bool \<times> Paced \<times> 'c" where
  "offer_one C P now st c =
     (let seq = offered st;
          intended = (if p_bulk P then now else wrap64 (p_start P + seq * p_interval P));
          st = st\<lparr>offered := seq + 1, late := late st + (if wrap64 (intended + 1000000) < now then 1 else 0)\<rparr>;
          (accept, c) =
            (if now < p_end P \<and> now \<le> wrap64 (intended + p_interval P) \<and> length (pending st) < kLimit
             then ch_send C (paced_message intended (word_of_nat seq)) c else (False, c));
          st = st\<lparr>offers_file := offers_file st @ [(seq, intended, now, accept)]\<rparr>
      in if \<not> accept then (False, st\<lparr>rejected := rejected st + 1\<rparr>, c)
         else let st = st\<lparr>pending := (if map_of (pending st) seq = None then pending st @ [(seq, intended)] else pending st),
                          accepted := accepted st + 1\<rparr>
              in (True, st\<lparr>peak := max (peak st) (length (pending st))\<rparr>, c))"

definition offer_due :: "Params \<Rightarrow> nat \<Rightarrow> Paced \<Rightarrow> bool" where
  "offer_due P now st \<longleftrightarrow>
     (\<not> p_bulk P \<and> offered st < p_count P \<and> wrap64 (p_start P + offered st * p_interval P) \<le> now) \<or>
     (p_bulk P \<and> p_start P \<le> now \<and> now < p_end P \<and> length (pending st) < kLimit)"

partial_function (option) offer_loop ::
  "'c Channel \<Rightarrow> (nat \<Rightarrow> nat) \<Rightarrow> Params \<Rightarrow> nat \<Rightarrow> Paced \<Rightarrow> 'c \<Rightarrow> (nat \<times> Paced \<times> 'c) option" where
  "offer_loop C clk P now st c =
     (if \<not> offer_due P now st then Some (now, st, c)
      else case offer_one C P now st c of
        (accept, st, c) \<Rightarrow>
          (case now_ns clk st of
             (now, st) \<Rightarrow> if p_bulk P \<and> \<not> accept then Some (now, st, c) else offer_loop C clk P now st c))"

partial_function (option) flush_loop ::
  "'c Channel \<Rightarrow> (nat \<Rightarrow> nat) \<Rightarrow> Params \<Rightarrow> nat \<Rightarrow> Paced \<Rightarrow> 'c \<Rightarrow> (string + Paced \<times> 'c) option" where
  "flush_loop C clk P flush st c =
     (case now_ns clk st of
        (now, st) \<Rightarrow>
          if flush \<le> now then Some (Inr (st, c))
          else case ch_poll C c of
            None \<Rightarrow> None
          | Some (Inl e) \<Rightarrow> Some (Inl e)
          | Some (Inr (msgs, c)) \<Rightarrow> flush_loop C clk P flush (foldl (\<lambda>st b. paced_receive clk P b st) st msgs) c)"

text \<open>The sender's part of a round; the flag is whether the run goes on.\<close>

definition sender_part ::
  "'c Channel \<Rightarrow> (nat \<Rightarrow> nat) \<Rightarrow> Params \<Rightarrow> nat \<Rightarrow> Paced \<Rightarrow> 'c \<Rightarrow> (string + bool \<times> Paced \<times> 'c) option" where
  "sender_part C clk P now st c =
     (case offer_loop C clk P now st c of
        None \<Rightarrow> None
      | Some (now, st, c) \<Rightarrow>
          if (p_bulk P \<or> offered st = p_count P) \<and> pending st = [] \<and> p_end P \<le> now then
            (case ch_send C (paced_message now kEndSeq) c of
               (False, c) \<Rightarrow> Some (Inr (True, st, c))
             | (True, c) \<Rightarrow>
                 (case now_ns clk st of
                    (now, st) \<Rightarrow>
                      (case flush_loop C clk P (wrap64 (now + 300000000)) st c of
                         None \<Rightarrow> None
                       | Some (Inl e) \<Rightarrow> Some (Inl e)
                       | Some (Inr (st, c)) \<Rightarrow> Some (Inr (False, st, c)))))
          else Some (Inr (True, st, c)))"

definition paced_round :: "'c Channel \<Rightarrow> (nat \<Rightarrow> nat) \<Rightarrow> Params \<Rightarrow> Paced \<Rightarrow> 'c \<Rightarrow> (string + bool \<times> Paced \<times> 'c) option" where
  "paced_round C clk P st c =
     (if p_bulk P \<and> 100000 \<le> offered st then Some (Inr (False, st\<lparr>errors := errors st + 1\<rparr>, c))
      else case ch_poll C c of
        None \<Rightarrow> None
      | Some (Inl e) \<Rightarrow> Some (Inl e)
      | Some (Inr (msgs, c)) \<Rightarrow>
          let st = foldl (\<lambda>st b. paced_receive clk P b st) st msgs;
              (q, c) = echo_back C (echo_queue st) c;
              st = st\<lparr>echo_queue := q\<rparr>;
              (now, st) = now_ns clk st
          in if server_done st then Some (Inr (False, st, c))
             else if p_sender P then sender_part C clk P now st c
             else Some (Inr (True, st, c)))"

partial_function (option) paced_loop ::
  "'c Channel \<Rightarrow> (nat \<Rightarrow> nat) \<Rightarrow> Params \<Rightarrow> Paced \<Rightarrow> 'c \<Rightarrow> (string + Paced \<times> 'c) option" where
  "paced_loop C clk P st c =
     (case now_ns clk st of
        (now, st) \<Rightarrow>
          if p_until P \<le> now then Some (Inr (st, c))
          else case paced_round C clk P st c of
            None \<Rightarrow> None
          | Some (Inl e) \<Rightarrow> Some (Inl e)
          | Some (Inr (goon, st, c)) \<Rightarrow> if goon then paced_loop C clk P st c else Some (Inr (st, c)))"

section \<open>The report\<close>

text \<open>The counters of the result row, the percentiles, and the exit code.\<close>

record Row =
  r_offered :: nat
  r_accepted :: nat
  r_rejected :: nat
  r_completed :: nat
  r_in_window :: nat
  r_missing :: nat
  r_errors :: nat
  r_late :: nat
  r_peak :: nat
  r_latency :: Percentiles

definition paced_report :: "Params \<Rightarrow> Paced \<Rightarrow> nat \<times> Row option" where
  "paced_report P st =
     (if \<not> p_sender P then (if errors st \<noteq> 0 then 1 else 0, None)
      else let st = st\<lparr>errors := errors st + length (pending st)\<rparr>
           in (if errors st \<noteq> 0 \<or> offered st \<noteq> accepted st + rejected st \<or> accepted st \<noteq> completed st then 1 else 0,
               Some \<lparr>r_offered = offered st, r_accepted = accepted st, r_rejected = rejected st, r_completed = completed st,
                     r_in_window = in_window st, r_missing = length (pending st), r_errors = errors st, r_late = late st, r_peak = peak st,
                     r_latency = percentiles (samples st)\<rparr>))"

text \<open>The checks of the arguments; \<open>start = 0\<close> stands for 200 milliseconds from the first reading of the clock.\<close>

definition paced_params :: "(nat \<Rightarrow> nat) \<Rightarrow> bool \<Rightarrow> bool \<Rightarrow> rat \<Rightarrow> int \<Rightarrow> int \<Rightarrow> nat \<Rightarrow> string + Params \<times> Paced" where
  "paced_params clk sender bulk rate duration_s drain_s start =
     (if rate \<le> 0 \<or> 10000 < rate \<or> duration_s \<le> 0 \<or> 30 < duration_s \<or> drain_s < 0 \<or> 30 < drain_s
      then Inl ''rate/duration/drain outside bounded protocol''
      else let n = nat \<lfloor>fl (rate * of_int duration_s)\<rfloor>
           in if 100000 < n then Inl ''study offer limit exceeded''
              else let interval = nat \<lfloor>fl (1000000000 / rate)\<rfloor>;
                       (start, st) = (if start = 0 then (case now_ns clk new_paced of (now, st) \<Rightarrow> (wrap64 (now + 200000000), st)) else (start, new_paced));
                       fin = wrap64 (start + nat duration_s * 1000000000)
                   in Inr (\<lparr>p_sender = sender, p_bulk = bulk, p_count = n, p_interval = interval, p_start = start, p_end = fin,
                            p_until = wrap64 (fin + nat drain_s * 1000000000)\<rparr>, st))"

definition paced_main ::
  "'c Channel \<Rightarrow> (nat \<Rightarrow> nat) \<Rightarrow> bool \<Rightarrow> bool \<Rightarrow> rat \<Rightarrow> int \<Rightarrow> int \<Rightarrow> nat \<Rightarrow> 'c \<Rightarrow> (nat \<times> Row option) option" where
  "paced_main C clk sender bulk rate duration_s drain_s start c =
     (case paced_params clk sender bulk rate duration_s drain_s start of
        Inl e \<Rightarrow> Some (1, None)
      | Inr (P, st) \<Rightarrow>
          (case paced_loop C clk P st c of
             None \<Rightarrow> None
           | Some (Inl e) \<Rightarrow> Some (1, None)
           | Some (Inr (st, c)) \<Rightarrow> Some (paced_report P st)))"

section \<open>The accounts\<close>

definition accepts :: "(nat \<times> nat \<times> nat \<times> bool) list \<Rightarrow> (nat \<times> nat) set" where
  "accepts rows = {(k, v). \<exists>t. (k, v, t, True) \<in> set rows}"

text \<open>Each offer is recorded under its number; the accepted ones are those that are pending or completed, each of them once.\<close>

definition paced_inv :: "Params \<Rightarrow> Paced \<Rightarrow> bool" where
  "paced_inv P st \<longleftrightarrow>
     map fst (offers_file st) = [0..<offered st] \<and>
     distinct (map fst (samples_file st) @ map fst (pending st)) \<and>
     accepts (offers_file st) = set (map (\<lambda>(k, v, t). (k, v)) (samples_file st)) \<union> set (pending st) \<and>
     accepted st + rejected st = offered st \<and> completed st + length (pending st) = accepted st \<and>
     length (samples_file st) = completed st \<and> length (samples st) = completed st \<and>
     length (filter (\<lambda>(k, v, t). t < p_end P) (samples_file st)) = in_window st \<and>
     (\<forall>(k, v, t)\<in>set (samples_file st). t < p_until P) \<and>
     length (pending st) \<le> peak st \<and> peak st \<le> kLimit \<and> length (echo_queue st) \<le> kLimit"

text \<open>How far the offers have got at the start of a round.\<close>

definition offer_bound :: "Params \<Rightarrow> Paced \<Rightarrow> bool" where
  "offer_bound P st \<longleftrightarrow> (if p_bulk P then offered st \<le> 100063 else offered st \<le> p_count P)"

lemma paced_inv_new: "paced_inv P (new_paced\<lparr>readings := k\<rparr>)" "offer_bound P (new_paced\<lparr>readings := k\<rparr>)"
  by (simp_all add: paced_inv_def offer_bound_def new_paced_def accepts_def)

lemma accepts_snoc: "accepts (rows @ [(k, v, t, a)]) = (if a then insert (k, v) (accepts rows) else accepts rows)"
  by (auto simp: accepts_def)

lemma pending_old: "paced_inv P st \<Longrightarrow> k \<in> set (map fst (samples_file st) @ map fst (pending st)) \<Longrightarrow> k < offered st"
proof -
  assume inv: "paced_inv P st" and "k \<in> set (map fst (samples_file st) @ map fst (pending st))"
  then have "k \<in> fst ` (set (map (\<lambda>(k, v, t). (k, v)) (samples_file st)) \<union> set (pending st))"
    by (simp add: image_Un image_image split_beta)
  moreover have "accepts (offers_file st) = set (map (\<lambda>(k, v, t). (k, v)) (samples_file st)) \<union> set (pending st)"
    using inv unfolding paced_inv_def by simp
  ultimately obtain v where "(k, v) \<in> accepts (offers_file st)" by (metis imageE prod.collapse)
  then have "k \<in> set (map fst (offers_file st))" by (force simp: accepts_def)
  then show ?thesis using inv unfolding paced_inv_def by simp
qed

lemma filter_keys_absent: "k \<notin> fst ` set m \<Longrightarrow> filter (\<lambda>(k', v'). k' \<noteq> k) m = m"
  by (induction m) auto

lemma alist_erase:
  assumes "distinct (map fst m)" "map_of m k = Some v"
  shows "insert (k, v) (set (filter (\<lambda>(k', v'). k' \<noteq> k) m)) = set m \<and> Suc (length (filter (\<lambda>(k', v'). k' \<noteq> k) m)) = length m"
  using assms
proof (induction m)
  case (Cons a m)
  show ?case
  proof (cases "fst a = k")
    case True
    then show ?thesis using Cons.prems by (cases a) (simp add: filter_keys_absent)
  next
    case False
    then show ?thesis using Cons by (cases a) (simp add: insert_commute del: set_filter)
  qed
qed simp

lemma receive_reply_keeps:
  assumes "paced_inv P st"
  shows "paced_inv P (receive_reply clk P b st)"
proof (cases "read_msg b")
  case (Some p)
  obtain ts seq where p: "p = (ts, seq)" by fastforce
  let ?k = "unat seq" and ?now = "clk (readings st)"
  let ?f = "filter (\<lambda>(k', v'). k' \<noteq> ?k) (pending st)"
  show ?thesis
  proof (cases "map_of (pending st) ?k = Some (unat ts) \<and> paced_message (unat ts) seq = b \<and> ?now < p_until P")
    case True
    have d: "distinct (map fst (samples_file st) @ map fst (pending st))" using assms unfolding paced_inv_def by simp
    note e = alist_erase [of "pending st" ?k "unat ts"]
    have pend: "insert (?k, unat ts) (set ?f) = set (pending st)" "Suc (length ?f) = length (pending st)" using e d True by simp_all
    have "?k \<in> fst ` set (pending st)" using True map_of_eq_None_iff [of "pending st" ?k] by auto
    then have new: "?k \<notin> fst ` set (samples_file st)" using d by auto
    have dis: "distinct (map fst (samples_file st @ [(?k, unat ts, ?now)]) @ map fst ?f)"
      using d new by (auto simp: distinct_map_filter)
    have acc: "insert (?k, unat ts) (A \<union> set ?f) = A \<union> set (pending st)" for A unfolding pend(1) [symmetric] by (simp del: set_filter)
    show ?thesis using assms True Some p pend(2) dis
      unfolding receive_reply_def now_ns_def paced_inv_def by (simp add: acc del: set_filter)
  next
    case False
    then have "receive_reply clk P b st = st\<lparr>readings := readings (receive_reply clk P b st), errors := errors (receive_reply clk P b st)\<rparr>"
      using Some p by (auto simp: receive_reply_def now_ns_def)
    then obtain r e where "receive_reply clk P b st = st\<lparr>readings := r, errors := e\<rparr>" by blast
    then show ?thesis using assms by (simp add: paced_inv_def)
  qed
qed (use assms in \<open>simp add: receive_reply_def\<close>)

lemma offer_one_keeps:
  assumes "paced_inv P st" "length (pending st) \<le> kLimit"
  shows "case offer_one C P now st c of (a, st', c') \<Rightarrow>
           paced_inv P st' \<and> offered st' = offered st + 1 \<and> length (pending st') = length (pending st) + (if a then 1 else 0) \<and>
           readings st' = readings st \<and> (c' = c \<or> (\<exists>m. c' = snd (ch_send C m c)))"
proof -
  let ?i = "(if p_bulk P then now else wrap64 (p_start P + offered st * p_interval P))"
  have fresh: "map_of (pending st) (offered st) = None" "offered st \<notin> fst ` set (samples_file st)" "offered st \<notin> fst ` set (pending st)"
    using pending_old [OF assms(1), of "offered st"] by (auto simp: map_of_eq_None_iff)
  show ?thesis
  proof (cases "now < p_end P \<and> now \<le> wrap64 (?i + p_interval P) \<and> length (pending st) < kLimit")
    case True
    obtain a c' where s: "ch_send C (paced_message ?i (word_of_nat (offered st))) c = (a, c')" by fastforce
    then have c': "\<exists>m. c' = snd (ch_send C m c)" by (metis snd_conv)
    have "offer_one C P now st c =
        (let st = st\<lparr>offered := offered st + 1, late := late st + (if wrap64 (?i + 1000000) < now then 1 else 0),
                     offers_file := offers_file st @ [(offered st, ?i, now, a)]\<rparr>
         in if \<not> a then (False, st\<lparr>rejected := rejected st + 1\<rparr>, c')
            else (True, st\<lparr>pending := pending st @ [(offered st - 1, ?i)], accepted := accepted st + 1, peak := max (peak st) (length (pending st) + 1)\<rparr>, c'))"
      unfolding offer_one_def Let_def using True s fresh(1) by (cases a) (simp_all split del: if_split)
    then show ?thesis using c' fresh assms True
      by (cases a) (simp_all add: Let_def paced_inv_def accepts_snoc split del: if_split)
  next
    case False
    then have no: "(now < p_end P \<and> now \<le> wrap64 (?i + p_interval P) \<and> length (pending st) < kLimit) = False" by blast
    have "offer_one C P now st c =
       (False, st\<lparr>offered := offered st + 1, late := late st + (if wrap64 (?i + 1000000) < now then 1 else 0),
                  offers_file := offers_file st @ [(offered st, ?i, now, False)], rejected := rejected st + 1\<rparr>, c)"
      unfolding offer_one_def Let_def by (simp add: no split del: if_split)
    then show ?thesis using assms by (simp add: paced_inv_def accepts_snoc split del: if_split)
  qed
qed

lemma receive_keeps:
  assumes "paced_inv P st"
  shows "paced_inv P (paced_receive clk P b st) \<and> offered (paced_receive clk P b st) = offered st \<and> readings st \<le> readings (paced_receive clk P b st)"
proof -
  have "paced_inv P (receive_request b st)"
    using assms by (auto simp: receive_request_def paced_inv_def split: option.splits)
  moreover have "offered (paced_receive clk P b st) = offered st \<and> readings st \<le> readings (paced_receive clk P b st)"
    by (simp add: paced_receive_def receive_request_def receive_reply_def now_ns_def Let_def split: option.splits prod.splits)
  ultimately show ?thesis using receive_reply_keeps [OF assms] assms by (simp add: paced_receive_def) (simp add: paced_inv_def)
qed

lemma receives_keep:
  assumes "paced_inv P st"
  shows "paced_inv P (foldl (\<lambda>st b. paced_receive clk P b st) st msgs) \<and> offered (foldl (\<lambda>st b. paced_receive clk P b st) st msgs) = offered st \<and>
    readings st \<le> readings (foldl (\<lambda>st b. paced_receive clk P b st) st msgs)"
  using assms
proof (induction msgs arbitrary: st)
  case (Cons b msgs)
  then show ?case using receive_keeps [OF Cons.prems, of clk b] by (fastforce dest: Cons.IH)
qed simp

section \<open>A channel that always returns\<close>

locale channel =
  fixes C :: "'c Channel" and usable :: "'c \<Rightarrow> bool"
  assumes send_live: "usable c \<Longrightarrow> usable (snd (ch_send C b c))"
    and poll_returns: "usable c \<Longrightarrow> \<exists>r. ch_poll C c = Some r"
    and poll_live: "usable c \<Longrightarrow> ch_poll C c = Some (Inr (msgs, c')) \<Longrightarrow> usable c'"
begin

lemma echo_back_keeps: "usable c \<Longrightarrow> usable (snd (echo_back C q c)) \<and> length (fst (echo_back C q c)) \<le> length q"
proof (induction q arbitrary: c)
  case (Cons b q)
  obtain ok c' where s: "ch_send C b c = (ok, c')" by fastforce
  then have "usable c'" using send_live [OF Cons.prems, of b] by simp
  then show ?case using Cons.IH [of c'] s by simp
qed simp

lemma offer_loop_returns:
  assumes "usable c" "paced_inv P st"
  shows "\<exists>now' st' c'. offer_loop C clk P now st c = Some (now', st', c') \<and> usable c' \<and> paced_inv P st' \<and> readings st \<le> readings st' \<and>
    (if p_bulk P then offered st' \<le> offered st + (kLimit - length (pending st)) else offered st \<le> p_count P \<longrightarrow> offered st' \<le> p_count P)"
  using assms
proof (induction "if p_bulk P then kLimit - length (pending st) else p_count P - offered st" arbitrary: now st c rule: less_induct)
  case less
  show ?case
  proof (cases "offer_due P now st")
    case False
    then show ?thesis using less.prems by (simp add: offer_loop.simps [of _ _ _ _ st])
  next
    case True
    obtain a st1 c1 where one: "offer_one C P now st c = (a, st1, c1)" by (metis prod_cases3)
    have "length (pending st) \<le> kLimit" using less.prems(2) by (simp add: paced_inv_def)
    note o1 = offer_one_keeps [OF less.prems(2) this, where C = C and now = now and c = c, unfolded one prod.case]
    let ?st = "st1\<lparr>readings := readings st1 + 1\<rparr>"
    have inv: "paced_inv P ?st" using o1 by (simp add: paced_inv_def)
    have l1: "usable c1" using o1 less.prems(1) send_live by metis
    have eq: "offer_loop C clk P now st c = (if p_bulk P \<and> \<not> a then Some (clk (readings st1), ?st, c1) else offer_loop C clk P (clk (readings st1)) ?st c1)"
      using True one by (simp add: offer_loop.simps [of _ _ _ _ st] now_ns_def)
    show ?thesis
    proof (cases "p_bulk P \<and> \<not> a")
      case stop: True
      then show ?thesis using eq inv l1 o1 True by (auto simp: offer_due_def)
    next
      case False
      then have "(if p_bulk P then kLimit - length (pending ?st) else p_count P - offered ?st)
        < (if p_bulk P then kLimit - length (pending st) else p_count P - offered st)"
        using True o1 by (auto simp: offer_due_def)
      from less.hyps [OF this l1 inv, of "clk (readings st1)"] eq False True o1 show ?thesis by (auto simp: offer_due_def)
    qed
  qed
qed

lemma flush_loop_returns:
  assumes "usable c" "paced_inv P st" "\<forall>k\<ge>N. flush \<le> clk k"
  shows "\<exists>r. flush_loop C clk P flush st c = Some r \<and>
    (case r of Inl e \<Rightarrow> True | Inr (st', c') \<Rightarrow> usable c' \<and> paced_inv P st' \<and> offered st' = offered st \<and> readings st < readings st')"
  using assms(1,2)
proof (induction "N - readings st" arbitrary: st c rule: less_induct)
  case less
  let ?st = "st\<lparr>readings := readings st + 1\<rparr>"
  have inv: "paced_inv P ?st" using less.prems by (simp add: paced_inv_def)
  note unfold = flush_loop.simps [of C clk P flush st c]
  show ?case
  proof (cases "flush \<le> clk (readings st)")
    case True
    then show ?thesis using unfold inv less.prems by (simp add: now_ns_def)
  next
    case False
    then have lt: "readings st < N" using assms(3) by (meson not_le)
    obtain r where r: "ch_poll C c = Some r" using poll_returns [OF less.prems(1)] by blast
    show ?thesis
    proof (cases r)
      case (Inl e)
      then show ?thesis using unfold r False by (simp add: now_ns_def)
    next
      case (Inr p)
      obtain msgs c' where p: "p = (msgs, c')" by fastforce
      have l: "usable c'" using poll_live [OF less.prems(1)] r Inr p by simp
      let ?st' = "foldl (\<lambda>st b. paced_receive clk P b st) ?st msgs"
      note k = receives_keep [OF inv, of clk msgs]
      have "readings st < readings ?st'" using k by simp
      then have "N - readings ?st' < N - readings st" by (rule diff_less_mono2 [OF _ lt])
      from less.hyps [OF this l] k show ?thesis using unfold r Inr p False by (fastforce simp: now_ns_def split: sum.splits)
    qed
  qed
qed

lemma sender_part_returns:
  assumes "usable c" "paced_inv P st" "\<forall>t. \<exists>N. \<forall>k\<ge>N. t \<le> clk k"
  shows "\<exists>r. sender_part C clk P now st c = Some r \<and>
    (case r of Inl e \<Rightarrow> True | Inr (b, st', c') \<Rightarrow> usable c' \<and> paced_inv P st' \<and> readings st \<le> readings st' \<and>
      (if p_bulk P then offered st' \<le> offered st + kLimit else offered st \<le> p_count P \<longrightarrow> offered st' \<le> p_count P))"
proof -
  obtain now1 st1 c1 where o1: "offer_loop C clk P now st c = Some (now1, st1, c1)" "usable c1" "paced_inv P st1" "readings st \<le> readings st1"
    "if p_bulk P then offered st1 \<le> offered st + (kLimit - length (pending st)) else offered st \<le> p_count P \<longrightarrow> offered st1 \<le> p_count P"
    using offer_loop_returns [OF assms(1,2)] by blast
  let ?st = "st1\<lparr>readings := readings st1 + 1\<rparr>"
  have inv: "paced_inv P ?st" using o1(3) by (simp add: paced_inv_def)
  obtain ok c2 where s: "ch_send C (paced_message now1 kEndSeq) c1 = (ok, c2)" by fastforce
  then have l: "usable c2" using send_live [OF o1(2)] by (metis snd_conv)
  obtain N where "\<forall>k\<ge>N. wrap64 (clk (readings st1) + 300000000) \<le> clk k" using assms(3) by blast
  from flush_loop_returns [OF l inv this] obtain r where r: "flush_loop C clk P (wrap64 (clk (readings st1) + 300000000)) ?st c2 = Some r"
    "case r of Inl e \<Rightarrow> True | Inr (st', c') \<Rightarrow> usable c' \<and> paced_inv P st' \<and> offered st' = offered ?st \<and> readings ?st < readings st'"
    by blast
  show ?thesis
    using o1 s l r by (cases ok; cases r) (auto simp: sender_part_def now_ns_def split: if_splits)
qed

lemma paced_round_returns:
  assumes "usable c" "paced_inv P st" "\<forall>t. \<exists>N. \<forall>k\<ge>N. t \<le> clk k" "offer_bound P st"
  shows "\<exists>r. paced_round C clk P st c = Some r \<and>
    (case r of Inl e \<Rightarrow> True | Inr (b, st', c') \<Rightarrow> usable c' \<and> paced_inv P st' \<and> offer_bound P st' \<and> readings st \<le> readings st')"
proof (cases "p_bulk P \<and> 100000 \<le> offered st")
  case True
  then show ?thesis using assms by (simp add: paced_round_def paced_inv_def offer_bound_def)
next
  case False
  obtain r where r: "ch_poll C c = Some r" using poll_returns [OF assms(1)] by blast
  show ?thesis
  proof (cases r)
    case (Inl e)
    then show ?thesis using r False by (auto simp: paced_round_def)
  next
    case (Inr p)
    obtain msgs c1 where p: "p = (msgs, c1)" by fastforce
    have l1: "usable c1" using poll_live [OF assms(1)] r Inr p by simp
    define st1 where "st1 = foldl (\<lambda>st b. paced_receive clk P b st) st msgs"
    have k1: "paced_inv P st1" "offered st1 = offered st" "readings st \<le> readings st1"
      using receives_keep [OF assms(2), of clk msgs] by (simp_all add: st1_def)
    obtain q c2 where e: "echo_back C (echo_queue st1) c1 = (q, c2)" by fastforce
    have l2: "usable c2" "length q \<le> length (echo_queue st1)" using echo_back_keeps [OF l1, of "echo_queue st1"] e by simp_all
    let ?st = "st1\<lparr>echo_queue := q, readings := readings st1 + 1\<rparr>"
    have inv: "paced_inv P ?st" using k1(1) l2(2) by (simp add: paced_inv_def)
    have eq: "paced_round C clk P st c =
      (if server_done st1 then Some (Inr (False, ?st, c2)) else if p_sender P then sender_part C clk P (clk (readings st1)) ?st c2 else Some (Inr (True, ?st, c2)))"
      using r Inr p False e by (auto simp: paced_round_def now_ns_def Let_def simp flip: st1_def)
    obtain r' where r': "sender_part C clk P (clk (readings st1)) ?st c2 = Some r'"
      "case r' of Inl e \<Rightarrow> True | Inr (b, st', c') \<Rightarrow> usable c' \<and> paced_inv P st' \<and> readings ?st \<le> readings st' \<and>
        (if p_bulk P then offered st' \<le> offered ?st + kLimit else offered ?st \<le> p_count P \<longrightarrow> offered st' \<le> p_count P)"
      using sender_part_returns [OF l2(1) inv assms(3)] by blast
    show ?thesis using eq r' k1 l2(1) inv assms(4) False
      by (auto simp: offer_bound_def kLimit_def split: sum.splits if_splits)
  qed
qed

lemma paced_loop_returns:
  assumes "usable c" "paced_inv P st" "\<forall>t. \<exists>N. \<forall>k\<ge>N. t \<le> clk k" "offer_bound P st"
  shows "\<exists>r. paced_loop C clk P st c = Some r \<and>
    (case r of Inl e \<Rightarrow> True | Inr (st', c') \<Rightarrow> paced_inv P st' \<and> offer_bound P st')"
proof -
  obtain N where N: "\<forall>k\<ge>N. p_until P \<le> clk k" using assms(3) by blast
  show ?thesis
    using assms(1,2,4)
  proof (induction "N - readings st" arbitrary: st c rule: less_induct)
    case less
    let ?st = "st\<lparr>readings := readings st + 1\<rparr>"
    have inv: "paced_inv P ?st" "offer_bound P ?st" using less.prems by (simp_all add: paced_inv_def offer_bound_def)
    note unfold = paced_loop.simps [of C clk P st c]
    show ?case
    proof (cases "p_until P \<le> clk (readings st)")
      case True
      then show ?thesis using unfold inv by (simp add: now_ns_def)
    next
      case False
      then have lt: "readings st < N" using N by (meson not_le)
      obtain r where r: "paced_round C clk P ?st c = Some r"
        "case r of Inl e \<Rightarrow> True | Inr (b, st', c') \<Rightarrow> usable c' \<and> paced_inv P st' \<and> offer_bound P st' \<and> readings ?st \<le> readings st'"
        using paced_round_returns [OF less.prems(1) inv(1) assms(3) inv(2)] by blast
      show ?thesis
      proof (cases r)
        case (Inl e)
        then show ?thesis using unfold r False by (simp add: now_ns_def)
      next
        case (Inr p)
        obtain b st' c' where p: "p = (b, st', c')" by (metis prod_cases3)
        have k: "usable c'" "paced_inv P st'" "offer_bound P st'" "readings st < readings st'" using r(2) Inr p by auto
        have "N - readings st' < N - readings st" using lt k(4) by simp
        from less.hyps [OF this k(1-3)] show ?thesis using unfold r Inr p False k by (cases b) (simp_all add: now_ns_def)
      qed
    qed
  qed
qed

end

interpretation tcp: channel "tcp_channel K" "\<lambda>c. True" for K
  by unfold_locales (auto simp: tcp_channel_def split: prod.splits)

section \<open>Properties\<close>

lemma paced_params_ok:
  assumes "paced_params clk sender bulk rate duration_s drain_s start = Inr (P, st)"
  shows "paced_inv P st" "offer_bound P st" "p_sender P = sender" "p_bulk P = bulk" "p_count P \<le> 100000"
proof -
  obtain k where "st = new_paced\<lparr>readings := k\<rparr>"
    using assms by (auto simp: paced_params_def now_ns_def new_paced_def Let_def split: if_splits)
  then show "paced_inv P st" "offer_bound P st" using paced_inv_new by simp_all
  show "p_sender P = sender" "p_bulk P = bulk" "p_count P \<le> 100000"
    using assms by (auto simp: paced_params_def now_ns_def Let_def split: if_splits)
qed

text \<open>C24: A paced run over any channel whose polls return ends, once the clock passes its limit, and its accounts balance: every offer was
  accepted or rejected, every accepted one was completed or is counted as missing and as an error, at most 64 were ever outstanding, the
  latencies are those of the completed ones, and the exit code is zero exactly when no error was counted, which means that all accepted
  messages came back. The other two conditions that the program tests before it exits are therefore implied.\<close>

theorem paced_accounts:
  assumes "channel C usable" "usable c" "\<forall>t. \<exists>N. \<forall>k\<ge>N. t \<le> clk k"
  shows "\<exists>code row. paced_main C clk True bulk rate duration_s drain_s start c = Some (code, row) \<and>
    (case row of
       None \<Rightarrow> code = 1
     | Some r \<Rightarrow> r_offered r = r_accepted r + r_rejected r \<and> r_accepted r = r_completed r + r_missing r \<and> r_in_window r \<le> r_completed r \<and>
         r_missing r \<le> r_errors r \<and> r_missing r \<le> r_peak r \<and> r_peak r \<le> 64 \<and> r_offered r \<le> 100063 \<and>
         pc_n (r_latency r) = r_completed r \<and> code = (if r_errors r = 0 then 0 else 1) \<and> (code = 0 \<longrightarrow> r_completed r = r_accepted r))"
proof (cases "paced_params clk True bulk rate duration_s drain_s start")
  case (Inl e)
  then show ?thesis by (simp add: paced_main_def)
next
  case (Inr p)
  obtain P st where p: "p = (P, st)" by fastforce
  note P = paced_params_ok [OF Inr [unfolded p]]
  obtain r where r: "paced_loop C clk P st c = Some r" "case r of Inl e \<Rightarrow> True | Inr (st', c') \<Rightarrow> paced_inv P st' \<and> offer_bound P st'"
    using channel.paced_loop_returns [OF assms(1,2) P(1) assms(3) P(2)] by blast
  show ?thesis
  proof (cases r)
    case (Inl e)
    then show ?thesis using Inr p r by (simp add: paced_main_def)
  next
    case ok: (Inr q)
    obtain st' c' where q: "q = (st', c')" by fastforce
    have inv: "paced_inv P st'" "offer_bound P st'" using r(2) ok q by simp_all
    have n: "pc_n (percentiles (samples st')) = length (samples st')" by (simp add: percentiles_def Let_def)
    have w: "length (filter (\<lambda>(k, v, t). t < p_end P) (samples_file st')) \<le> length (samples_file st')" by (rule length_filter_le)
    have "offered st' \<le> 100063" using inv(2) P(5) by (auto simp: offer_bound_def split: if_splits)
    then show ?thesis using inv(1) n w Inr p r ok q P(3)
      by (auto simp: paced_main_def paced_report_def paced_inv_def kLimit_def)
  qed
qed

lemma steady_clock: "\<forall>t. \<exists>N. \<forall>k\<ge>N. t \<le> k * (100000000 :: nat)"
proof
  fix t :: nat
  show "\<exists>N. \<forall>k\<ge>N. t \<le> k * (100000000 :: nat)" by (intro exI [of _ t]) auto
qed

theorem paced_accounts_witness:
  "\<exists>code row. paced_main (tcp_channel (pipe_calls True)) (\<lambda>k. k * 100000000) True False 2 1 0 0 (new_tcp, demo_pipes) = Some (code, row) \<and>
     (case row of None \<Rightarrow> code = 1 | Some r \<Rightarrow> r_offered r = r_accepted r + r_rejected r \<and> code = (if r_errors r = 0 then 0 else 1))"
proof -
  let ?run = "paced_main (tcp_channel (pipe_calls True)) (\<lambda>k. k * 100000000) True False 2 1 0 0 (new_tcp, demo_pipes)"
  note facts = paced_accounts [OF tcp.channel_axioms TrueI steady_clock, of "pipe_calls True" False 2 1 0 0 "(new_tcp, demo_pipes)"]
  obtain code row where run: "?run = Some (code, row)" and row: "case row of None \<Rightarrow> code = 1
     | Some r \<Rightarrow> r_offered r = r_accepted r + r_rejected r \<and> r_accepted r = r_completed r + r_missing r \<and> r_in_window r \<le> r_completed r \<and>
         r_missing r \<le> r_errors r \<and> r_missing r \<le> r_peak r \<and> r_peak r \<le> 64 \<and> r_offered r \<le> 100063 \<and>
         pc_n (r_latency r) = r_completed r \<and> code = (if r_errors r = 0 then 0 else 1) \<and> (code = 0 \<longrightarrow> r_completed r = r_accepted r)"
    using facts by (elim exE conjE)
  have "case row of None \<Rightarrow> code = 1 | Some r \<Rightarrow> r_offered r = r_accepted r + r_rejected r \<and> code = (if r_errors r = 0 then 0 else 1)"
    using row by (cases row) simp_all
  with run show ?thesis by blast
qed

end
