(* ===== verification/Tcp_Baseline.thy ===== *)
theory Tcp_Baseline
  imports Tcp_Stream
begin

text \<open>
  The TCP baseline of the latency study, \<^verbatim>\<open>bench/tcp_baseline.cc\<close>: blocking reads and writes of whole frames, the echo server of the
  round-trip mode, and the sender and the receiver of the one-way modes. A read or write call that gives nothing (end of stream, an error,
  or the receive timeout) ends \<open>read_full\<close> and \<open>write_full\<close>, as in the source. Clock readings are nanoseconds as natural numbers, and
  differences of them are taken modulo \<open>2 ^ 64\<close> as in the source; the arrival schedule is a sequence of offsets in seconds.
\<close>

section \<open>Whole reads and writes\<close>

text \<open>The bytes that were placed in the buffer, whether all were, and the connection.\<close>

function read_full :: "'n TcpCalls \<Rightarrow> nat \<Rightarrow> 'n \<Rightarrow> bytes \<times> bool \<times> 'n" where
  "read_full K k n =
     (if k = 0 then ([], True, n)
      else case tcp_read K k n of
        (Got bs, n) \<Rightarrow>
          if bs = [] then ([], False, n)
          else (case read_full K (k - length bs) n of (rest, ok, n) \<Rightarrow> (bs @ rest, ok, n))
      | (r, n) \<Rightarrow> ([], False, n))"
  by pat_completeness auto
termination
  by (relation "measure (\<lambda>(K, k, n). k)") auto

function write_full :: "'n TcpCalls \<Rightarrow> bytes \<Rightarrow> 'n \<Rightarrow> bool \<times> 'n" where
  "write_full K d n =
     (if d = [] then (True, n)
      else case tcp_write K d n of
        (Took k, n) \<Rightarrow> if k = 0 then (False, n) else write_full K (drop k d) n
      | (r, n) \<Rightarrow> (False, n))"
  by pat_completeness auto
termination
  by (relation "measure (\<lambda>(K, d, n). length d)") auto

declare read_full.simps [simp del] write_full.simps [simp del]

definition put :: "bytes \<Rightarrow> nat \<Rightarrow> bytes \<Rightarrow> bytes" where
  "put buf i bs = take i buf @ bs @ drop (i + length bs) buf"

text \<open>A frame of \<open>m\<close> payload bytes; the buffer it is written in holds whatever the last message left, all of which is overwritten.\<close>

definition base_frame :: "nat \<Rightarrow> nat \<Rightarrow> u64 \<Rightarrow> bytes" where
  "base_frame m ts seq =
     le32 (word_of_nat m) @ (case write_msg (replicate m 0) (word_of_nat ts) seq of Some b \<Rightarrow> b | None \<Rightarrow> [])"

definition elapsed :: "nat \<Rightarrow> nat \<Rightarrow> nat" where
  "elapsed now t = unat (word_of_nat now - word_of_nat t :: u64)"

section \<open>The echo server\<close>

text \<open>One round of the loop, in the buffer of \<open>4 + m\<close> bytes; the flag is whether the loop goes on.\<close>

definition rr_serve :: "'n TcpCalls \<Rightarrow> nat \<Rightarrow> bytes \<Rightarrow> 'n \<Rightarrow> bool \<times> bytes \<times> 'n" where
  "rr_serve K m buf n =
     (let (h, ok, n) = read_full K 4 n; buf = put buf 0 h
      in if \<not> ok then (False, buf, n)
         else let len = read_frame_length buf
              in if len = 0 \<or> m < unat len then (False, buf, n)
                 else let (b, ok, n) = read_full K (unat len) n; buf = put buf 4 b
                      in if \<not> ok then (False, buf, n)
                         else case read_msg (drop 4 buf) of
                           None \<Rightarrow> (False, buf, n)
                         | Some (ts, seq) \<Rightarrow>
                             if seq = kEndSeq then (False, buf, n)
                             else let (ok, n) = write_full K (take (4 + unat len) buf) n in (ok, buf, n))"

partial_function (option) rr_server :: "'n TcpCalls \<Rightarrow> nat \<Rightarrow> bytes \<Rightarrow> 'n \<Rightarrow> 'n option" where
  "rr_server K m buf n =
     (case rr_serve K m buf n of (goon, buf, n) \<Rightarrow> if goon then rr_server K m buf n else Some n)"

definition run_rr_server :: "'n TcpCalls \<Rightarrow> nat \<Rightarrow> 'n \<Rightarrow> 'n option" where
  "run_rr_server K m n = rr_server K m (replicate (4 + m) 0) n"

section \<open>The round-trip client\<close>

text \<open>One exchange; \<open>None\<close> is a failed read or write, or a bad length, after which the client stops. The count of messages sent rises as soon as
  the request is written.\<close>

definition rr_exchange :: "'n TcpCalls \<Rightarrow> nat \<Rightarrow> nat \<Rightarrow> nat \<Rightarrow> bytes \<Rightarrow> 'n \<Rightarrow> nat \<times> bytes \<times> u64 option \<times> 'n" where
  "rr_exchange K m now sent reply n =
     (let (ok, n) = write_full K (base_frame m now (word_of_nat sent)) n
      in if \<not> ok then (sent, reply, None, n)
         else let (h, ok, n) = read_full K 4 n; reply = put reply 0 h
              in if \<not> ok then (sent + 1, reply, None, n)
                 else let rlen = read_frame_length reply
                      in if rlen = 0 \<or> m < unat rlen then (sent + 1, reply, None, n)
                         else let (b, ok, n) = read_full K (unat rlen) n; reply = put reply 4 b
                              in if \<not> ok then (sent + 1, reply, None, n)
                                 else (sent + 1, reply, map_option fst (read_msg (drop 4 reply)), n))"

partial_function (option) rr_client ::
  "'n TcpCalls \<Rightarrow> (nat \<Rightarrow> nat) \<Rightarrow> nat \<Rightarrow> nat \<Rightarrow> nat \<Rightarrow> nat \<Rightarrow> rat list \<Rightarrow> bytes \<Rightarrow> nat \<Rightarrow> 'n \<Rightarrow> (nat \<times> rat list \<times> nat \<times> 'n) option" where
  "rr_client K clk m start dur_ns sent samples reply i n =
     (if dur_ns \<le> elapsed (clk i) start then Some (sent, samples, i + 1, n)
      else case rr_exchange K m (clk (i + 1)) sent reply n of
        (sent, reply, None, n) \<Rightarrow> Some (sent, samples, i + 2, n)
      | (sent, reply, Some ts, n) \<Rightarrow>
          rr_client K clk m start dur_ns sent (samples @ [fl (fl (of_nat (unat (word_of_nat (clk (i + 2)) - ts))) / 1000000)]) reply (i + 3) n)"

definition run_rr_client :: "'n TcpCalls \<Rightarrow> (nat \<Rightarrow> nat) \<Rightarrow> nat \<Rightarrow> nat \<Rightarrow> 'n \<Rightarrow> (nat \<times> Percentiles \<times> 'n) option" where
  "run_rr_client K clk m duration_s n =
     (case rr_client K clk m (clk 0) (duration_s * 1000000000) 0 [] (replicate (4 + m) 0) 1 n of
        None \<Rightarrow> None
      | Some (sent, samples, i, n) \<Rightarrow>
          (case write_full K (base_frame m (clk i) kEndSeq) n of (ok, n) \<Rightarrow> Some (sent, percentiles samples, n)))"

section \<open>The receiver\<close>

record Recv =
  rv_received :: nat
  rv_max_seq :: u64
  rv_goodput :: nat
  rv_first :: nat
  rv_last :: nat
  rv_activity :: nat
  rv_samples :: "rat list"
  rv_buf :: bytes
  rv_reads :: nat

definition rv_now :: "(nat \<Rightarrow> nat) \<Rightarrow> Recv \<Rightarrow> nat \<times> Recv" where
  "rv_now clk st = (clk (rv_reads st), st\<lparr>rv_reads := rv_reads st + 1\<rparr>)"

definition rv_message :: "nat \<Rightarrow> nat \<Rightarrow> u64 \<Rightarrow> u64 \<Rightarrow> Recv \<Rightarrow> Recv" where
  "rv_message m recv ts seq st =
     st\<lparr>rv_first := (if rv_first st = 0 then recv else rv_first st), rv_last := recv, rv_received := rv_received st + 1,
        rv_goodput := rv_goodput st + m, rv_max_seq := max (rv_max_seq st) seq,
        rv_samples := rv_samples st @ [if unat ts < recv then fl (fl (of_nat (recv - unat ts)) / 1000000) else 0]\<rparr>"

definition rv_round :: "'n TcpCalls \<Rightarrow> (nat \<Rightarrow> nat) \<Rightarrow> nat \<Rightarrow> nat \<Rightarrow> nat \<Rightarrow> Recv \<Rightarrow> 'n \<Rightarrow> bool \<times> Recv \<times> 'n" where
  "rv_round K clk m idle_ns hard_cap_ns st n =
     (let (h, ok, n) = read_full K 4 n
      in if \<not> ok then
           let (now, st) = rv_now clk st
           in (\<not> ((0 < rv_received st \<and> idle_ns < elapsed now (rv_activity st)) \<or> hard_cap_ns < now), st, n)
         else let len = read_frame_length h
              in if len = 0 \<or> m < unat len then (False, st, n)
                 else let (b, ok, n) = read_full K (unat len) n; st = st\<lparr>rv_buf := put (rv_buf st) 0 b\<rparr>
                      in if \<not> ok then (False, st, n)
                         else case read_msg (rv_buf st) of
                           None \<Rightarrow> (False, st, n)
                         | Some (ts, seq) \<Rightarrow>
                             let (recv, st) = rv_now clk st; st = st\<lparr>rv_activity := recv\<rparr>
                             in if seq = kEndSeq then (False, st, n) else (True, rv_message m recv ts seq st, n))"

partial_function (option) rv_loop :: "'n TcpCalls \<Rightarrow> (nat \<Rightarrow> nat) \<Rightarrow> nat \<Rightarrow> nat \<Rightarrow> nat \<Rightarrow> Recv \<Rightarrow> 'n \<Rightarrow> (Recv \<times> 'n) option" where
  "rv_loop K clk m idle_ns hard_cap_ns st n =
     (case rv_round K clk m idle_ns hard_cap_ns st n of
        (goon, st, n) \<Rightarrow> if goon then rv_loop K clk m idle_ns hard_cap_ns st n else Some (st, n))"

definition run_receiver :: "'n TcpCalls \<Rightarrow> (nat \<Rightarrow> nat) \<Rightarrow> nat \<Rightarrow> nat \<Rightarrow> nat \<Rightarrow> 'n \<Rightarrow> (Recv \<times> 'n) option" where
  "run_receiver K clk m idle_ms duration_s n =
     (let st = \<lparr>rv_received = 0, rv_max_seq = 0, rv_goodput = 0, rv_first = 0, rv_last = 0, rv_activity = clk 0, rv_samples = [],
                rv_buf = replicate m 0, rv_reads = 2\<rparr>
      in rv_loop K clk m (idle_ms * 1000000) (clk 1 + (duration_s + 60) * 1000000000) st n)"

text \<open>The goodput in megabits per second that the throughput mode reports.\<close>

definition goodput_mbps :: "Recv \<Rightarrow> rat" where
  "goodput_mbps st =
     (let secs = (if rv_first st < rv_last st then fl (fl (of_nat (rv_last st - rv_first st)) / 1000000000) else 0)
      in if 0 < secs then fl (fl (fl (fl (of_nat (rv_goodput st)) * 8) / secs) / 1000000) else 0)"

section \<open>The sender\<close>

text \<open>Both loops give the number of messages sent; the second component is the number of clock readings so far.\<close>

partial_function (option) throughput_loop :: "'n TcpCalls \<Rightarrow> (nat \<Rightarrow> nat) \<Rightarrow> nat \<Rightarrow> nat \<Rightarrow> nat \<Rightarrow> nat \<Rightarrow> 'n \<Rightarrow> (nat \<times> nat \<times> 'n) option" where
  "throughput_loop K clk m fin sent i n =
     (if fin \<le> clk i then Some (sent, i + 1, n)
      else case write_full K (base_frame m (clk (i + 1)) (word_of_nat sent)) n of
        (ok, n) \<Rightarrow> if \<not> ok then Some (sent, i + 2, n) else throughput_loop K clk m fin (sent + 1) (i + 2) n)"

partial_function (option) wait_until :: "(nat \<Rightarrow> nat) \<Rightarrow> nat \<Rightarrow> nat \<Rightarrow> nat option" where
  "wait_until clk target i = (if target \<le> clk i then Some (i + 1) else wait_until clk target (i + 1))"

partial_function (option) latency_loop ::
  "'n TcpCalls \<Rightarrow> (nat \<Rightarrow> nat) \<Rightarrow> (nat \<Rightarrow> rat) \<Rightarrow> nat \<Rightarrow> nat \<Rightarrow> nat \<Rightarrow> nat \<Rightarrow> nat \<Rightarrow> 'n \<Rightarrow> (nat \<times> nat \<times> 'n) option" where
  "latency_loop K clk offs m start dur_ns sent i n =
     (let intended = start + nat \<lfloor>fl (offs sent * 1000000000)\<rfloor>
      in if dur_ns < intended - start then Some (sent, i, n)
         else if dur_ns + 15000000000 < elapsed (clk i) start then Some (sent, i + 1, n)
         else case wait_until clk intended (i + 1) of
           None \<Rightarrow> None
         | Some i \<Rightarrow>
             (case write_full K (base_frame m intended (word_of_nat sent)) n of
                (ok, n) \<Rightarrow> if \<not> ok then Some (sent, i, n) else latency_loop K clk offs m start dur_ns (sent + 1) i n))"

definition run_sender :: "'n TcpCalls \<Rightarrow> (nat \<Rightarrow> nat) \<Rightarrow> (nat \<Rightarrow> rat) \<Rightarrow> bool \<Rightarrow> nat \<Rightarrow> nat \<Rightarrow> 'n \<Rightarrow> (nat \<times> bool \<times> 'n) option" where
  "run_sender K clk offs throughput m duration_s n =
     (case (if throughput then throughput_loop K clk m (clk 0 + duration_s * 1000000000) 0 1 n
            else latency_loop K clk offs m (clk 0) (duration_s * 1000000000) 0 1 n) of
        None \<Rightarrow> None
      | Some (sent, i, n) \<Rightarrow> (case write_full K (base_frame m (clk i) kEndSeq) n of (ok, n) \<Rightarrow> Some (sent, ok, n)))"

section \<open>Reads that do not wait\<close>

text \<open>\<open>todo n\<close> are bytes that have arrived: reads give them, in pieces of any size, without waiting.\<close>

locale prompt_reads =
  fixes K :: "'n TcpCalls" and todo :: "'n \<Rightarrow> bytes"
  assumes got: "tcp_read K cap n = (Got bs, n') \<Longrightarrow> todo n \<noteq> [] \<Longrightarrow> bs \<noteq> [] \<and> length bs \<le> cap \<and> todo n = bs @ todo n'"
    and prompt: "todo n \<noteq> [] \<Longrightarrow> 0 < cap \<Longrightarrow> \<exists>bs n'. tcp_read K cap n = (Got bs, n')"
begin

lemma read_full_ok:
  assumes "todo n = x @ y"
  shows "\<exists>n'. read_full K (length x) n = (x, True, n') \<and> todo n' = y"
  using assms
proof (induction "length x" arbitrary: x n rule: less_induct)
  case less
  show ?case
  proof (cases "x = []")
    case True
    then show ?thesis using less.prems by (simp add: read_full.simps)
  next
    case False
    then have ne: "todo n \<noteq> []" using less.prems by simp
    obtain bs n' where r: "tcp_read K (length x) n = (Got bs, n')" using prompt [OF ne] False by blast
    note g = got [OF r ne]
    define x' where "x' = drop (length bs) x"
    have x: "x = bs @ x'" "todo n' = x' @ y" using g less.prems by (auto simp: x'_def append_eq_append_conv2)
    then have "length x' < length x" using g by simp
    from less.hyps [OF this x(2)] show ?thesis using r g x(1) by (auto simp: read_full.simps [of K _ n])
  qed
qed

end

lemma length_le32: "length (le32 v) = 4"
  by (simp add: le32_def)

lemma read_frame_length_le32 [simp]: "read_frame_length (le32 v @ xs) = v"
  by (simp add: read_frame_length_def le32_def)

lemma base_frame_eq:
  "16 \<le> m \<Longrightarrow> base_frame m ts seq = le32 (word_of_nat m) @ le64 (word_of_nat ts) @ le64 seq @ map filler [16..<m]"
  by (simp add: base_frame_def write_msg_eq)

definition rv_after :: "(nat \<Rightarrow> nat) \<Rightarrow> nat \<Rightarrow> nat \<Rightarrow> u64 \<Rightarrow> Recv \<Rightarrow> Recv" where
  "rv_after clk m ts seq st =
     (let recv = clk (rv_reads st);
          st = st\<lparr>rv_buf := drop 4 (base_frame m ts seq), rv_reads := rv_reads st + 1, rv_activity := recv\<rparr>
      in if seq = kEndSeq then st else rv_message m recv (word_of_nat ts) seq st)"

lemma frame_length_ok: "16 \<le> m \<Longrightarrow> m < 2 ^ 32 \<Longrightarrow> unat (word_of_nat m :: u32) = m" "16 \<le> m \<Longrightarrow> m < 2 ^ 32 \<Longrightarrow> (word_of_nat m :: u32) \<noteq> 0"
proof -
  assume m: "16 \<le> m" "m < 2 ^ 32"
  then show "unat (word_of_nat m :: u32) = m" by (simp add: unat_of_nat take_bit_nat_eq_self)
  with m show "(word_of_nat m :: u32) \<noteq> 0" by auto
qed

context prompt_reads
begin

lemma read_frame:
  assumes "todo n = base_frame m ts seq @ rest" "16 \<le> m"
  obtains n1 n2 where "read_full K 4 n = (le32 (word_of_nat m), True, n1)"
    "read_full K m n1 = (le64 (word_of_nat ts) @ le64 seq @ map filler [16..<m], True, n2)" "todo n2 = rest"
proof -
  let ?p = "le64 (word_of_nat ts) @ le64 seq @ map filler [16..<m]"
  have t: "todo n = le32 (word_of_nat m) @ ?p @ rest" and len: "length ?p = m" using assms by (simp_all add: base_frame_eq)
  obtain n1 where n1: "read_full K 4 n = (le32 (word_of_nat m), True, n1)" "todo n1 = ?p @ rest"
    using read_full_ok [OF t] unfolding length_le32 by blast
  obtain n2 where "read_full K m n1 = (?p, True, n2)" "todo n2 = rest" using read_full_ok [OF n1(2)] unfolding len by blast
  with n1(1) show thesis by (rule that)
qed

lemma rv_round_frame:
  assumes "todo n = base_frame m ts seq @ rest" "16 \<le> m" "m < 2 ^ 32" "length (rv_buf st) = m"
  shows "\<exists>n'. rv_round K clk m idle hard st n = (seq \<noteq> kEndSeq, rv_after clk m ts seq st, n') \<and> todo n' = rest"
proof -
  let ?p = "le64 (word_of_nat ts) @ le64 seq @ map filler [16..<m]"
  obtain n1 n2 where n1: "read_full K 4 n = (le32 (word_of_nat m), True, n1)" and n2: "read_full K m n1 = (?p, True, n2)" "todo n2 = rest"
    using read_frame [OF assms(1,2)] .
  note m = frame_length_ok [OF assms(2,3)]
  have b: "put (rv_buf st) 0 ?p = ?p" using assms(2,4) by (simp add: put_def)
  have l: "read_frame_length (le32 (word_of_nat m)) = word_of_nat m" using read_frame_length_le32 [of _ "[]"] by simp
  show ?thesis
    unfolding rv_round_def rv_after_def n1 Let_def prod.case l m(1)
    using n2 m(2) b assms(2) by (simp add: read_msg_written rv_now_def base_frame_eq le32_def)
qed

text \<open>The server writes each request back as it was, and stops at the end mark; the client takes the time stamp of a reply.\<close>

lemma put_frame:
  assumes "length buf = 4 + m" "16 \<le> m"
  shows "put (put buf 0 (le32 (word_of_nat m))) 4 (le64 (word_of_nat ts) @ le64 seq @ map filler [16..<m]) = base_frame m ts seq"
    "read_frame_length (put buf 0 (le32 (word_of_nat m))) = word_of_nat m"
  using assms by (simp_all add: put_def base_frame_eq length_le32)

lemma rr_serve_frame:
  assumes "todo n = base_frame m ts seq @ rest" "16 \<le> m" "m < 2 ^ 32" "length buf = 4 + m"
  shows "\<exists>n1. todo n1 = rest \<and> rr_serve K m buf n =
    (if seq = kEndSeq then (False, base_frame m ts seq, n1)
     else case write_full K (base_frame m ts seq) n1 of (ok, n2) \<Rightarrow> (ok, base_frame m ts seq, n2))"
proof -
  let ?p = "le64 (word_of_nat ts) @ le64 seq @ map filler [16..<m]"
  obtain n1 n2 where n1: "read_full K 4 n = (le32 (word_of_nat m), True, n1)" and n2: "read_full K m n1 = (?p, True, n2)" "todo n2 = rest"
    using read_frame [OF assms(1,2)] .
  note m = frame_length_ok [OF assms(2,3)]
  have r: "read_msg (drop 4 (base_frame m ts seq)) = Some (word_of_nat ts, seq)" and l: "length (base_frame m ts seq) = 4 + m"
    using assms(2) by (simp_all add: base_frame_eq read_msg_written length_le32)
  show ?thesis
    unfolding rr_serve_def n1 Let_def prod.case put_frame [OF assms(4,2)] m(1) n2(1)
    by (rule exI [of _ n2]) (use n2(2) m(2) r l in simp)
qed

lemma rr_exchange_frame:
  assumes "write_full K (base_frame m now (word_of_nat sent)) n = (True, n1)" "todo n1 = base_frame m ts seq @ rest"
    "16 \<le> m" "m < 2 ^ 32" "length reply = 4 + m"
  shows "\<exists>n'. todo n' = rest \<and> rr_exchange K m now sent reply n = (sent + 1, base_frame m ts seq, Some (word_of_nat ts), n')"
proof -
  let ?p = "le64 (word_of_nat ts) @ le64 seq @ map filler [16..<m]"
  obtain n2 n3 where n2: "read_full K 4 n1 = (le32 (word_of_nat m), True, n2)" and n3: "read_full K m n2 = (?p, True, n3)" "todo n3 = rest"
    using read_frame [OF assms(2,3)] .
  note m = frame_length_ok [OF assms(3,4)]
  have r: "read_msg (drop 4 (base_frame m ts seq)) = Some (word_of_nat ts, seq)"
    using assms(3) by (simp add: base_frame_eq read_msg_written length_le32)
  show ?thesis
    unfolding rr_exchange_def assms(1) Let_def prod.case n2 put_frame [OF assms(5,3)] m(1) n3(1)
    using n3(2) m(2) r by simp
qed

lemma rv_loop_frames:
  assumes "todo n = concat (map (\<lambda>(ts, seq). base_frame m ts seq) xs) @ base_frame m te kEndSeq @ rest"
    "16 \<le> m" "m < 2 ^ 32" "length (rv_buf st) = m" "kEndSeq \<notin> snd ` set xs"
  shows "\<exists>n'. rv_loop K clk m idle hard st n =
      Some (rv_after clk m te kEndSeq (foldl (\<lambda>st (ts, seq). rv_after clk m ts seq st) st xs), n') \<and> todo n' = rest"
  using assms
proof (induction xs arbitrary: n st)
  case Nil
  then show ?case using rv_round_frame [of n m te kEndSeq rest st clk idle hard] by (auto simp: rv_loop.simps [of _ _ _ _ _ st])
next
  case (Cons x xs)
  obtain ts seq where x: "x = (ts, seq)" by fastforce
  have seq: "seq \<noteq> kEndSeq" using Cons.prems(5) x by auto
  obtain n1 where n1: "rv_round K clk m idle hard st n = (True, rv_after clk m ts seq st, n1)"
    "todo n1 = concat (map (\<lambda>(ts, seq). base_frame m ts seq) xs) @ base_frame m te kEndSeq @ rest"
    using rv_round_frame [of n m ts seq _ st clk idle hard] Cons.prems x seq by auto
  have "length (rv_buf (rv_after clk m ts seq st)) = m"
    using Cons.prems(2) seq by (simp add: rv_after_def rv_message_def Let_def base_frame_eq le32_def)
  from Cons.IH [OF n1(2) Cons.prems(2,3) this] Cons.prems(5) show ?case
    using n1(1) x by (simp add: rv_loop.simps [of _ _ _ _ _ st])
qed

end

lemma rv_after_counts:
  assumes "kEndSeq \<notin> snd ` set xs"
  shows "let st' = foldl (\<lambda>st (ts, seq). rv_after clk m ts seq st) st xs
    in rv_received st' = rv_received st + length xs \<and> rv_goodput st' = rv_goodput st + m * length xs \<and>
       length (rv_samples st') = length (rv_samples st) + length xs \<and> rv_max_seq st' = foldl max (rv_max_seq st) (map snd xs)"
  using assms
proof (induction xs arbitrary: st)
  case (Cons x xs)
  then show ?case by (cases x) (auto simp: Let_def rv_after_def rv_message_def)
qed simp

section \<open>What the sender writes\<close>

context byte_stream
begin

lemma write_full_ok: "write_full (K w) d n = (True, n') \<Longrightarrow> pipe w n' = pipe w n @ d"
proof (induction "length d" arbitrary: d n rule: less_induct)
  case less
  show ?case
  proof (cases "d = []")
    case True
    then show ?thesis using less.prems by (simp add: write_full.simps)
  next
    case False
    obtain r n1 where r: "tcp_write (K w) d n = (r, n1)" by fastforce
    obtain k where k: "r = Took k" "k \<noteq> 0" "write_full (K w) (drop k d) n1 = (True, n')"
      using less.prems False r by (auto simp: write_full.simps [of _ d] split: wr.splits if_splits)
    have "length (drop k d) < length d" using k(2) False by simp
    from less.hyps [OF this k(3)] write_took [OF r [unfolded k(1)]] show ?thesis by simp
  qed
qed

end

text \<open>A connection without failures: a write takes at least one byte, and a read gives what has arrived.\<close>

locale open_stream = byte_stream K pipe for K :: "bool \<Rightarrow> 'n TcpCalls" and pipe +
  assumes write_ready: "d \<noteq> [] \<Longrightarrow> \<exists>k n'. 0 < k \<and> tcp_write (K w) d n = (Took k, n')"
    and read_ready: "pipe (\<not> w) n \<noteq> [] \<Longrightarrow> 0 < cap \<Longrightarrow> \<exists>bs n'. tcp_read (K w) cap n = (Got bs, n')"

sublocale open_stream \<subseteq> arrived: prompt_reads "K w" "pipe (\<not> w)" for w
  by unfold_locales (use read_got read_ready in blast)+

abbreviation seq_frames :: "nat \<Rightarrow> (nat \<Rightarrow> nat) \<Rightarrow> nat \<Rightarrow> nat \<Rightarrow> bytes" where
  "seq_frames m ts a b \<equiv> concat (map (\<lambda>k. base_frame m (ts k) (word_of_nat k)) [a..<b])"

lemma seq_frames_step: "a < b \<Longrightarrow> seq_frames m (ts(a := t)) a b = base_frame m t (word_of_nat a) @ seq_frames m ts (Suc a) b"
proof -
  assume ab: "a < b"
  have "seq_frames m (ts(a := t)) (Suc a) b = seq_frames m ts (Suc a) b"
    by (rule arg_cong [where f = concat], rule map_cong) auto
  then show ?thesis by (simp only: upt_conv_Cons [OF ab] list.map concat.simps fun_upd_same)
qed

lemma wait_until_returns:
  assumes "\<forall>k\<ge>N. target \<le> clk k"
  shows "\<exists>j. wait_until clk target i = Some j"
proof (induction "N - i" arbitrary: i rule: less_induct)
  case less
  show ?case
  proof (cases "target \<le> clk i")
    case False
    then have "i < N" using assms by (meson not_le)
    then show ?thesis using less.hyps [of "i + 1"] False by (simp add: wait_until.simps [of clk target i])
  qed (simp add: wait_until.simps)
qed

context open_stream
begin

lemma arrived_prompt: "prompt_reads (K w) (pipe (\<not> w))"
  by (fact arrived.prompt_reads_axioms)

lemma write_full_all: "\<exists>n'. write_full (K w) d n = (True, n')"
proof (induction "length d" arbitrary: d n rule: less_induct)
  case less
  show ?case
  proof (cases "d = []")
    case False
    then obtain k n1 where k: "0 < k" "tcp_write (K w) d n = (Took k, n1)" using write_ready by blast
    have "length (drop k d) < length d" using k(1) False by simp
    from less.hyps [OF this, of n1] show ?thesis using k False by (simp add: write_full.simps [of _ d])
  qed (simp add: write_full.simps)
qed

lemma throughput_loop_returns:
  assumes "\<forall>k\<ge>N. fin \<le> clk k"
  shows "\<exists>sent' i' n' ts. throughput_loop (K w) clk m fin sent i n = Some (sent', i', n') \<and> sent \<le> sent' \<and> pipe w n' = pipe w n @ seq_frames m ts sent sent'"
proof (induction "N - i" arbitrary: i sent n rule: less_induct)
  case less
  show ?case
  proof (cases "fin \<le> clk i")
    case True
    then show ?thesis by (simp add: throughput_loop.simps [of _ _ _ _ sent i])
  next
    case False
    then have i: "i < N" using assms by (meson not_le)
    obtain n1 where n1: "write_full (K w) (base_frame m (clk (i + 1)) (word_of_nat sent)) n = (True, n1)" using write_full_all by blast
    have "N - (i + 2) < N - i" using i by simp
    from less.hyps [OF this, of "sent + 1" n1] obtain sent' i' n' ts where
      t: "throughput_loop (K w) clk m fin (sent + 1) (i + 2) n1 = Some (sent', i', n')" "sent + 1 \<le> sent'"
      "pipe w n' = pipe w n1 @ seq_frames m ts (sent + 1) sent'" by blast
    have "pipe w n' = pipe w n @ seq_frames m (ts(sent := clk (i + 1))) sent sent'"
      using t(2,3) write_full_ok [OF n1] seq_frames_step [of sent sent' m ts "clk (i + 1)"] by simp
    moreover have "throughput_loop (K w) clk m fin sent i n = Some (sent', i', n')"
      using False n1 t(1) by (simp add: throughput_loop.simps [of _ _ _ _ sent i])
    moreover have "sent \<le> sent'" using t(2) by linarith
    ultimately show ?thesis by blast
  qed
qed

lemma latency_loop_returns:
  assumes "\<forall>t. \<exists>N. \<forall>k\<ge>N. t \<le> clk k" "dur_ns < nat \<lfloor>fl (offs M * 1000000000)\<rfloor>"
  shows "sent \<le> M \<Longrightarrow> \<exists>sent' i' n' ts. latency_loop (K w) clk offs m start dur_ns sent i n = Some (sent', i', n') \<and> sent \<le> sent' \<and> pipe w n' = pipe w n @ seq_frames m ts sent sent'"
proof (induction "M - sent" arbitrary: i sent n rule: less_induct)
  case less
  let ?t = "start + nat \<lfloor>fl (offs sent * 1000000000)\<rfloor>"
  show ?case
  proof (cases "dur_ns < ?t - start \<or> dur_ns + 15000000000 < elapsed (clk i) start")
    case True
    have "latency_loop (K w) clk offs m start dur_ns sent i n = Some (sent, if dur_ns < ?t - start then i else i + 1, n)"
      unfolding latency_loop.simps [of _ _ _ _ _ _ sent i] Let_def using True by (cases "dur_ns < ?t - start") (simp_all only: if_P if_not_P if_True if_False simp_thms)
    then show ?thesis by (intro exI [of _ sent] exI [of _ n] exI [of _ "\<lambda>k. 0"] exI) (rule conjI, assumption, simp)
  next
    case False
    then have no: "\<not> dur_ns < ?t - start" "\<not> dur_ns + 15000000000 < elapsed (clk i) start" by blast+
    have "dur_ns < ?t - start" if "sent = M" unfolding that diff_add_inverse by (rule assms(2))
    with no(1) have "sent \<noteq> M" by blast
    then have lt: "sent < M" by (rule le_neq_implies_less [OF less.prems])
    obtain N where "\<forall>k\<ge>N. ?t \<le> clk k" using assms(1) by blast
    then obtain j where j: "wait_until clk ?t (i + 1) = Some j" using wait_until_returns by blast
    obtain n1 where n1: "write_full (K w) (base_frame m ?t (word_of_nat sent)) n = (True, n1)" using write_full_all by blast
    have "M - (sent + 1) < M - sent" "sent + 1 \<le> M" using lt by simp_all
    from less.hyps [OF this, of j n1] obtain sent' i' n' ts where
      t: "latency_loop (K w) clk offs m start dur_ns (sent + 1) j n1 = Some (sent', i', n')" "sent + 1 \<le> sent'"
      "pipe w n' = pipe w n1 @ seq_frames m ts (sent + 1) sent'" by blast
    have "pipe w n' = pipe w n @ seq_frames m (ts(sent := ?t)) sent sent'"
      using t(2,3) write_full_ok [OF n1] seq_frames_step [of sent sent' m ts ?t] by simp
    moreover have "latency_loop (K w) clk offs m start dur_ns sent i n = Some (sent', i', n')"
      unfolding latency_loop.simps [of _ _ _ _ _ _ sent i] Let_def if_not_P [OF no(1)] if_not_P [OF no(2)] j option.case n1 prod.case t(1) by simp
    moreover have "sent \<le> sent'" using t(2) by linarith
    ultimately show ?thesis by blast
  qed
qed

end

lemma unat_nat64: "k < 2 ^ 64 \<Longrightarrow> unat (word_of_nat k :: u64) = k"
  by (simp add: unat_of_nat take_bit_nat_eq_self)

lemma not_end_seq: "k + 1 < 2 ^ 64 \<Longrightarrow> (word_of_nat k :: u64) \<noteq> kEndSeq"
proof
  assume k: "k + 1 < 2 ^ 64" and "(word_of_nat k :: u64) = kEndSeq"
  then have "unat (word_of_nat k :: u64) = unat kEndSeq" by simp
  then show False using k by (simp add: unat_of_nat take_bit_nat_eq_self kEndSeq_def)
qed

lemma max_seqs: "0 < k \<Longrightarrow> k < 2 ^ 64 \<Longrightarrow> foldl max (0 :: u64) (map word_of_nat [0..<k]) = word_of_nat (k - 1)"
proof (induction k)
  case (Suc k)
  show ?case
  proof (cases "k = 0")
    case False
    have u: "unat (word_of_nat j :: u64) = j" if "j \<le> k" for j using that Suc.prems by (simp add: unat_of_nat take_bit_nat_eq_self)
    have "(word_of_nat (k - 1) :: u64) \<le> word_of_nat k" unfolding word_le_nat_alt u [OF order_refl] u [OF diff_le_self] by simp
    then show ?thesis using Suc False by (simp add: max_def)
  qed simp
qed simp

section \<open>Concrete connections\<close>

text \<open>Unbounded streams whose reads and writes handle at most \<open>g + 1\<close> bytes at a time.\<close>

definition open_write :: "nat \<Rightarrow> bool \<Rightarrow> bytes \<Rightarrow> (bool \<Rightarrow> bytes) \<Rightarrow> wr \<times> (bool \<Rightarrow> bytes)" where
  "open_write g w d n = (let k = min (length d) (g + 1) in (Took k, n(w := n w @ take k d)))"

definition open_read :: "nat \<Rightarrow> bool \<Rightarrow> nat \<Rightarrow> (bool \<Rightarrow> bytes) \<Rightarrow> rd \<times> (bool \<Rightarrow> bytes)" where
  "open_read g w cap n =
     (let b = n (\<not> w); k = min cap (g + 1)
      in if take k b = [] then (Read_again, n) else (Got (take k b), n(\<not> w := drop k b)))"

definition open_calls :: "nat \<Rightarrow> bool \<Rightarrow> (bool \<Rightarrow> bytes) TcpCalls" where
  "open_calls g w = \<lparr>tcp_write = open_write g w, tcp_read = open_read g w\<rparr>"

interpretation opened: open_stream "open_calls g" "\<lambda>w n. n w" for g
  by unfold_locales (auto simp: open_calls_def open_write_def open_read_def Let_def split: if_splits)

text \<open>A receiving end whose data arrives as scripted; a pause makes one read time out.\<close>

datatype arrival = Data bytes | Pause

fun script_read :: "nat \<Rightarrow> arrival list \<Rightarrow> rd \<times> arrival list" where
  "script_read cap [] = (End_of_stream, [])"
| "script_read cap (Pause # r) = (Read_again, r)"
| "script_read cap (Data b # r) = (if length b \<le> cap then (Got b, r) else (Got (take cap b), Data (drop cap b) # r))"

definition script_calls :: "arrival list TcpCalls" where
  "script_calls = \<lparr>tcp_write = (\<lambda>d n. (Write_error, n)), tcp_read = script_read\<rparr>"

section \<open>Properties\<close>

text \<open>The one-way run of the TCP baseline, in both modes: over a connection without failures the sender ends, and a receiver that reads what
  it wrote, in pieces of any size, ends with exactly the messages sent counted and measured, the highest number being the last one's,
  and nothing left in the stream.\<close>

theorem baseline_one_way:
  assumes "open_stream K pipe" "pipe True n = []" "16 \<le> m" "m < 2 ^ 32" "\<forall>t. \<exists>N. \<forall>k\<ge>N. t \<le> clk k"
    "\<not> throughput \<longrightarrow> (\<exists>M. duration_s * 1000000000 < nat \<lfloor>fl (offs M * 1000000000)\<rfloor>)"
  shows "\<exists>sent n'. run_sender (K True) clk offs throughput m duration_s n = Some (sent, True, n') \<and>
    (sent < 2 ^ 64 \<longrightarrow>
      (\<exists>st n''. run_receiver (K False) clk' m idle_ms duration_s n' = Some (st, n'') \<and> rv_received st = sent \<and> rv_goodput st = m * sent \<and>
        length (rv_samples st) = sent \<and> (0 < sent \<longrightarrow> unat (rv_max_seq st) = sent - 1) \<and> pipe True n'' = []))"
proof -
  obtain N where N: "\<forall>k\<ge>N. clk 0 + duration_s * 1000000000 \<le> clk k" using assms(5) by blast
  obtain sent i n1 ts where s: "(if throughput then throughput_loop (K True) clk m (clk 0 + duration_s * 1000000000) 0 1 n
            else latency_loop (K True) clk offs m (clk 0) (duration_s * 1000000000) 0 1 n) = Some (sent, i, n1)"
    "pipe True n1 = seq_frames m ts 0 sent"
  proof (cases throughput)
    case True
    then show thesis using open_stream.throughput_loop_returns [OF assms(1) N, of True m 0 1 n] assms(2) that by auto
  next
    case False
    then obtain M where "duration_s * 1000000000 < nat \<lfloor>fl (offs M * 1000000000)\<rfloor>" using assms(6) by blast
    then show thesis using open_stream.latency_loop_returns [OF assms(1,5), where offs = offs and sent = 0, OF _ le0, of "duration_s * 1000000000" M True m "clk 0" 1 n]
      False assms(2) that by auto
  qed
  obtain n2 where n2: "write_full (K True) (base_frame m (clk i) kEndSeq) n1 = (True, n2)"
    using open_stream.write_full_all [OF assms(1)] by blast
  have run: "run_sender (K True) clk offs throughput m duration_s n = Some (sent, True, n2)"
    unfolding run_sender_def s(1) option.case prod.case n2 ..
  have bs: "byte_stream K pipe" using assms(1) by (simp add: open_stream_def)
  let ?xs = "map (\<lambda>k. (ts k, word_of_nat k)) [0..<sent]"
  have p: "pipe (\<not> False) n2 = concat (map (\<lambda>(ts, seq). base_frame m ts seq) ?xs) @ base_frame m (clk i) kEndSeq @ []"
    using byte_stream.write_full_ok [OF bs n2] s(2) by (simp add: comp_def)
  have "\<exists>st n''. run_receiver (K False) clk' m idle_ms duration_s n2 = Some (st, n'') \<and> rv_received st = sent \<and> rv_goodput st = m * sent \<and>
        length (rv_samples st) = sent \<and> (0 < sent \<longrightarrow> unat (rv_max_seq st) = sent - 1) \<and> pipe True n'' = []" if "sent < 2 ^ 64"
  proof -
    have ne: "kEndSeq \<notin> snd ` set ?xs" 
    proof
      assume "kEndSeq \<in> snd ` set ?xs"
      then obtain k where "k < sent" "word_of_nat k = kEndSeq" by auto
      then show False using not_end_seq [of k] that by simp
    qed
    let ?st = "\<lparr>rv_received = 0, rv_max_seq = 0, rv_goodput = 0, rv_first = 0, rv_last = 0, rv_activity = clk' 0, rv_samples = [],
                rv_buf = replicate m 0, rv_reads = 2\<rparr>"
    have buf: "length (rv_buf ?st) = m" by simp
    obtain n'' where l: "rv_loop (K False) clk' m (idle_ms * 1000000) (clk' 1 + (duration_s + 60) * 1000000000) ?st n2 =
        Some (rv_after clk' m (clk i) kEndSeq (foldl (\<lambda>st (ts, seq). rv_after clk' m ts seq st) ?st ?xs), n'')" "pipe (\<not> False) n'' = []"
      using prompt_reads.rv_loop_frames [OF open_stream.arrived_prompt [OF assms(1)] p assms(3,4) buf ne] by blast
    let ?f = "foldl (\<lambda>st (ts, seq). rv_after clk' m ts seq st) ?st ?xs"
    have c: "rv_received ?f = sent" "rv_goodput ?f = m * sent" "length (rv_samples ?f) = sent"
      "rv_max_seq ?f = foldl max 0 (map word_of_nat [0..<sent])"
      using rv_after_counts [OF ne, of clk' m ?st] by (simp_all add: Let_def comp_def)
    have "unat (rv_max_seq ?f) = sent - 1" if pos: "0 < sent"
      unfolding c(4) max_seqs [OF pos \<open>sent < 2 ^ 64\<close>] by (rule unat_nat64) (use \<open>sent < 2 ^ 64\<close> in simp)
    then show ?thesis using l c(1-3) by (simp add: run_receiver_def Let_def rv_after_def del: foldl.simps)
  qed
  then show ?thesis using run by (intro exI [of _ sent] exI [of _ n2] conjI impI)
qed

lemma late_offsets: "(1 :: nat) * 1000000000 < nat \<lfloor>fl ((\<lambda>k. of_nat k) 2 * 1000000000)\<rfloor>"
  using fl_int [of "2 * 1000000000"] by simp

theorem baseline_one_way_witness:
  "\<exists>sent n'. run_sender (open_calls 9 True) (\<lambda>k. k * 100000000) (\<lambda>k. of_nat k) False 512 1 (\<lambda>w. []) = Some (sent, True, n') \<and>
    (sent < 2 ^ 64 \<longrightarrow>
      (\<exists>st n''. run_receiver (open_calls 9 False) (\<lambda>k. k) 512 3000 1 n' = Some (st, n'') \<and> rv_received st = sent \<and> n'' True = []))"
proof -
  have clk: "\<forall>t. \<exists>N. \<forall>k\<ge>N. t \<le> k * (100000000 :: nat)" by (metis le_trans mult_le_mono2 mult.right_neutral one_le_numeral)
  show ?thesis
    using baseline_one_way [OF opened.open_stream_axioms, where n = "\<lambda>w. []" and m = 512 and throughput = False and duration_s = 1,
        OF _ _ _ clk, of "\<lambda>k. of_nat k" 9 "\<lambda>k. k" 3000] late_offsets by fastforce
qed

lemma shifted_length: "ld32 0 0 a b = 0 \<or> 512 < unat (ld32 0 0 a b)"
proof (cases "ld32 0 0 a b = 0")
  case False
  have "take_bit 16 (ld32 0 0 a b) = 0" by (rule bit_word_eqI) (simp add: bit_ld32 bit_simps)
  then have "take_bit 16 (unat (ld32 0 0 a b)) = 0" by (metis unsigned_0 unsigned_take_bit_eq)
  then have "(2 :: nat) ^ 16 dvd unat (ld32 0 0 a b)" by (simp add: take_bit_eq_mod mod_eq_0_iff_dvd)
  moreover have "0 < unat (ld32 0 0 a b)" using False by (simp add: unat_gt_0)
  ultimately have "2 ^ 16 \<le> unat (ld32 0 0 a b)" by (rule dvd_imp_le)
  then show ?thesis by simp
qed simp

text \<open>C40: The receiver of the TCP baseline loses its place when its 200 millisecond receive timeout expires inside the length of a frame: the
  bytes of the length that it had read are dropped and the next four bytes are taken for a length. Here the timeout comes after two of the
  four bytes, and the run ends without a single message, whatever the message and whatever follows, although all bytes arrive.\<close>

theorem baseline_timeout_desynchronises:
  assumes "clk 2 \<le> clk 1 + (duration_s + 60) * 1000000000"
  shows "\<exists>st n. run_receiver script_calls clk 512 idle_ms duration_s [Data (take 2 (base_frame 512 ts seq)), Pause, Data (drop 2 (base_frame 512 ts seq) @ rest)]
      = Some (st, n) \<and> rv_received st = 0"
proof -
  let ?F = "base_frame 512 ts seq" and ?hard = "clk 1 + (duration_s + 60) * 1000000000"
  obtain a b Z where Z: "le64 (word_of_nat ts) = a # b # Z"
    using length_le64 [of "word_of_nat ts"] by (cases "le64 (word_of_nat ts)"; cases "tl (le64 (word_of_nat ts))") auto
  define Y where "Y = Z @ le64 seq @ map filler [16..<512]"
  have h: "le32 (word_of_nat 512) = [0, 2, 0, 0]" by (simp add: le32_def)
  have m: "(16 :: nat) \<le> 512" by simp
  have Y: "?F = [0, 2, 0, 0] @ a # b # Y" unfolding base_frame_eq [OF m] Z h Y_def by (simp only: append.simps)
  let ?st = "\<lparr>rv_received = 0, rv_max_seq = 0, rv_goodput = 0, rv_first = 0, rv_last = 0, rv_activity = clk 0, rv_samples = [],
                rv_buf = replicate 512 0, rv_reads = 2\<rparr>"
  let ?n = "[Data (0 # 0 # a # b # Y @ rest)]"
  have r1: "rv_round script_calls clk 512 (idle_ms * 1000000) ?hard ?st (Data [0, 2] # Pause # ?n) = (True, ?st\<lparr>rv_reads := 3\<rparr>, ?n)"
    using assms by (simp add: rv_round_def read_full.simps script_calls_def rv_now_def)
  have r2: "\<exists>n. rv_round script_calls clk 512 (idle_ms * 1000000) ?hard (?st\<lparr>rv_reads := 3\<rparr>) ?n = (False, ?st\<lparr>rv_reads := 3\<rparr>, n)"
    using shifted_length [of a b] by (auto simp: rv_round_def read_full.simps script_calls_def read_frame_length_def Let_def)
  then obtain n where r2': "rv_round script_calls clk 512 (idle_ms * 1000000) ?hard (?st\<lparr>rv_reads := 3\<rparr>) ?n = (False, ?st\<lparr>rv_reads := 3\<rparr>, n)" ..
  have "rv_loop script_calls clk 512 (idle_ms * 1000000) ?hard ?st (Data [0, 2] # Pause # ?n) = Some (?st\<lparr>rv_reads := 3\<rparr>, n)"
    by (subst rv_loop.simps, unfold r1 prod.case if_True, subst rv_loop.simps, unfold r2' prod.case if_False) (rule refl)
  then show ?thesis unfolding run_receiver_def Let_def Y by simp
qed

theorem baseline_timeout_desynchronises_witness:
  "\<exists>st n. run_receiver script_calls (\<lambda>k. k) 512 3000 1
      [Data (take 2 (base_frame 512 77 0)), Pause, Data (drop 2 (base_frame 512 77 0) @ base_frame 512 99 kEndSeq)] = Some (st, n) \<and> rv_received st = 0"
  by (rule baseline_timeout_desynchronises) simp

end
