(* ===== verification/Fuzz_Harness.thy ===== *)
theory Fuzz_Harness
  imports Codec
begin

text \<open>
  The fuzzing harness of the decoder, \<^verbatim>\<open>fuzz/fuzz_decode.cc\<close>, in both of its builds. The harness traps when an accepted datagram does not
  re-encode to its own bytes; the patching build first repairs the guards that random bytes would not pass.
\<close>

section \<open>The harness\<close>

definition patch :: "bytes \<Rightarrow> bytes" where
  "patch d =
     (let d = d[0 := kMagic0];
          d = d[1 := kMagic1];
          d = d[2 := push_bit 4 kVersion OR (d ! 2 AND 0x0F)];
          pl = (word_of_nat (length d - kBaseHeaderSize) :: u16);
          d = d[15 := ucast (pl AND 0xFF)];
          d = d[16 := ucast (drop_bit 8 pl AND 0xFF)];
          d = foldl (\<lambda>d i. d[i := 0]) d [17..<21];
          crc = crc32c d;
          d = d[17 := ucast (crc AND 0xFF)];
          d = d[18 := ucast (drop_bit 8 crc AND 0xFF)];
          d = d[19 := ucast (drop_bit 16 crc AND 0xFF)];
          d = d[20 := ucast (drop_bit 24 crc AND 0xFF)]
      in d)"

datatype fuzz_result = Returned | Trapped

definition fuzz_one :: "bool \<Rightarrow> bytes \<Rightarrow> fuzz_result" where
  "fuzz_one patching input =
     (let d = (if patching \<and> kBaseHeaderSize \<le> length input then patch input else input)
      in case decode d of
           Inl _ \<Rightarrow> Returned
         | Inr pkt \<Rightarrow>
             let (n, out) = encode pkt (replicate kMaxDatagram 0)
             in if n \<noteq> length d \<or> take n out \<noteq> take n d then Trapped else Returned)"

section \<open>What patching does\<close>

lemma ucast_low_byte:
  "(ucast (v AND 0xFF :: u16) :: u8) = ucast v" "(ucast (w AND 0xFF :: u32) :: u8) = ucast w"
proof -
  have m: "(0xFF :: u16) = mask 8" "(0xFF :: u32) = mask 8" by (simp_all add: mask_eq_exp_minus_1)
  show "(ucast (v AND 0xFF :: u16) :: u8) = ucast v" "(ucast (w AND 0xFF :: u32) :: u8) = ucast w"
    unfolding m by (rule bit_word_eqI; simp add: bit_simps)+
qed

definition patched_head :: "bytes \<Rightarrow> bytes" where
  "patched_head d = [kMagic0, kMagic1, 0x10 OR (d ! 2 AND 0x0F)] @ take 12 (drop 3 d) @ le16 (word_of_nat (length d - 21))"

lemma patch_explicit:
  fixes a0 a1 a2 a3 a4 a5 a6 a7 a8 a9 a10 a11 a12 a13 a14 a15 a16 a17 a18 a19 a20 :: byte and r :: bytes
  defines "d \<equiv> [a0, a1, a2, a3, a4, a5, a6, a7, a8, a9, a10, a11, a12, a13, a14, a15, a16, a17, a18, a19, a20] @ r"
  shows "patch d = patched_head d @ le32 (crc32c (patched_head d @ [0, 0, 0, 0] @ drop 21 d)) @ drop 21 d"
  unfolding d_def patch_def patched_head_def Let_def
  by (simp add: ucast_low_byte le16_def le32_def kVersion_def kBaseHeaderSize_def upt_rec)

lemma split_header:
  assumes "21 \<le> length (d :: bytes)"
  shows "d = [d ! 0, d ! 1, d ! 2, d ! 3, d ! 4, d ! 5, d ! 6, d ! 7, d ! 8, d ! 9, d ! 10, d ! 11, d ! 12, d ! 13, d ! 14, d ! 15, d ! 16, d ! 17, d ! 18, d ! 19, d ! 20] @ drop 21 d"
proof (rule nth_equalityI)
  fix i assume "i < length d"
  show "d ! i = ([d ! 0, d ! 1, d ! 2, d ! 3, d ! 4, d ! 5, d ! 6, d ! 7, d ! 8, d ! 9, d ! 10, d ! 11, d ! 12, d ! 13, d ! 14, d ! 15, d ! 16, d ! 17, d ! 18, d ! 19, d ! 20] @ drop 21 d) ! i"
  proof (cases "i < 21")
    case True
    then have "i \<in> {0..<21}" by simp
    then show ?thesis by (auto simp: nth_append atLeastLessThan_nat_numeral)
  next
    case False
    then show ?thesis using assms by (simp add: nth_append)
  qed
qed (use assms in simp)

lemma patch_eq:
  assumes "21 \<le> length d"
  shows "patch d = patched_head d @ le32 (crc32c (patched_head d @ [0, 0, 0, 0] @ drop 21 d)) @ drop 21 d"
  using patch_explicit [of "d ! 0" "d ! 1" "d ! 2" "d ! 3" "d ! 4" "d ! 5" "d ! 6" "d ! 7" "d ! 8" "d ! 9" "d ! 10" "d ! 11" "d ! 12" "d ! 13" "d ! 14" "d ! 15" "d ! 16" "d ! 17" "d ! 18" "d ! 19" "d ! 20" "drop 21 d", folded split_header [OF assms]] .

lemma length_patched_head [simp]: "21 \<le> length d \<Longrightarrow> length (patched_head d) = 17"
  by (simp add: patched_head_def le16_def)

lemma patched_bytes:
  assumes "21 \<le> length d"
  shows "length (patch d) = length d" "patch d ! 0 = kMagic0" "patch d ! 1 = kMagic1" "patch d ! 2 = 0x10 OR (d ! 2 AND 0x0F)"
    "patch d ! 3 = d ! 3" "patch d ! 4 = d ! 4" "payload_len_of (patch d) = (length d - 21) mod 2 ^ 16"
proof -
  have u: "unat (word_of_nat k :: u16) = k mod 2 ^ 16" for k by (simp add: unat_of_nat take_bit_eq_mod)
  show "length (patch d) = length d" "patch d ! 0 = kMagic0" "patch d ! 1 = kMagic1" "patch d ! 2 = 0x10 OR (d ! 2 AND 0x0F)"
    "patch d ! 3 = d ! 3" "patch d ! 4 = d ! 4"
    using assms by (simp_all add: patch_eq patched_head_def nth_append le16_def le32_def)
  have "payload_len_of (patch d) = unat (word_of_nat (length d - 21) :: u16)"
    using assms by (simp add: patch_eq patched_head_def nth_append le16_def payload_len_of_def del: of_nat_diff)
  then show "payload_len_of (patch d) = (length d - 21) mod 2 ^ 16" unfolding u .
qed

lemma patched_version: "drop_bit 4 (0x10 OR (b AND 0x0F) :: u8) = kVersion"
proof -
  have "drop_bit 4 (b AND 0x0F :: u8) = 0"
  proof (rule bit_word_eqI)
    fix n assume "n < LENGTH(8)"
    have "(0x0F :: u8) = mask 4" by (simp add: mask_eq_exp_minus_1)
    then show "bit (drop_bit 4 (b AND 0x0F :: u8)) n = bit (0 :: u8) n" by (simp add: bit_simps)
  qed
  moreover have "drop_bit 4 (0x10 :: u8) = 1" by simp
  ultimately show ?thesis by (simp add: kVersion_def)
qed

lemma patched_crc:
  assumes "21 \<le> length d"
  shows "crc32c (crc_input (patch d)) = stored_crc (patch d)"
proof -
  let ?c = "crc32c (patched_head d @ [0, 0, 0, 0] @ drop 21 d)"
  have "crc_input (patch d) = patched_head d @ [0, 0, 0, 0] @ drop 21 d"
    using assms by (simp add: crc_input_def patch_eq le32_def)
  moreover have "stored_crc (patch d) = ?c"
    using assms by (simp add: stored_crc_def patch_eq nth_append le32_def)
  ultimately show ?thesis by simp
qed

section \<open>Properties\<close>

text \<open>The fuzzing harness of the decoder never traps, whatever the input and in both builds: an accepted datagram always re-encodes to its own bytes.\<close>

theorem fuzz_never_traps: "fuzz_one patching input = Returned"
proof -
  let ?d = "if patching \<and> kBaseHeaderSize \<le> length input then patch input else input"
  show ?thesis
  proof (cases "decode ?d")
    case (Inr p)
    then have "length ?d \<le> kMaxDatagram" using decode_by_guards [of ?d] by (auto split: if_splits)
    then have "encode p (replicate kMaxDatagram 0) = (length ?d, ?d @ drop (length ?d) (replicate kMaxDatagram 0))"
      using reencode [OF Inr, of "replicate kMaxDatagram 0"] by simp
    then show ?thesis using Inr unfolding fuzz_one_def Let_def by simp
  qed (simp add: fuzz_one_def Let_def)
qed

text \<open>C29: What the patching build of the fuzzing harness reaches. Patched inputs pass the magic, version and checksum guards, but those whose flags
  announce a SACK bitmap never pass the length guard, because the patched payload length leaves the bitmap out: the harness never decodes a
  packet with a SACK, for any input.\<close>

theorem patched_input_verdict:
  assumes "21 \<le> length d"
  shows "decode (patch d) =
    (if has_sack (d ! 3) then Inl (if length d < 29 then TooShort else LengthOverrun)
     else if 1200 < length d then Inl LengthOverrun
     else if d ! 3 AND NOT SackPresent \<noteq> 0 \<or> 2 < d ! 4 then Inl Unsupported
     else Inr (parse (patch d)))"
proof -
  note p = patched_bytes [OF assms] patched_version patched_crc [OF assms]
  have small: "(length d - 21) mod 2 ^ 16 = length d - 21" if "length d \<le> 1200" using that by simp
  show ?thesis
  proof (cases "length d \<le> 1200")
    case True
    then show ?thesis
      unfolding decode_by_guards [of "patch d"] p small [OF True] using assms
      by (auto simp: header_len_def kBaseHeaderSize_def kSackSize_def kMaxDatagram_def not_le)
  next
    case False
    then show ?thesis
      unfolding decode_by_guards [of "patch d"] p using assms
      by (auto simp: header_len_def kBaseHeaderSize_def kSackSize_def kMaxDatagram_def not_le)
  qed
qed

theorem patched_input_verdict_witness:
  "decode (patch (replicate 40 0)) = Inr (parse (patch (replicate 40 0))) \<and> decode (patch ((replicate 40 0)[3 := 1])) = Inl LengthOverrun"
  using patched_input_verdict [of "replicate 40 0"] patched_input_verdict [of "(replicate 40 0)[3 := 1]"]
  by (simp add: has_sack_def SackPresent_def)

end
