(* ===== verification/Flow_Conformance.thy ===== *)
theory Flow_Conformance
  imports Session_Rules
begin

text \<open>
  The bounded model of the window-update rule that the repository carries, \<^verbatim>\<open>formal/FlowControl.tla\<close>, as a transition system, and the program
  that replays its counterexample against a real session, \<^verbatim>\<open>formal/conformance.cc\<close>. The rule of the session is shown to refine the model's
  repaired policy, and the replay to end with the window that the rule gives.
\<close>

section \<open>FlowControl.tla\<close>

datatype policy = Seeded | Fixed

record FlowAck =
  fa_cum :: nat
  fa_seq :: nat
  fa_window :: nat

text \<open>What the sender knows: its window, the last generation applied, and whether there was one.\<close>

type_synonym flow_view = "nat \<times> nat \<times> bool"

record Flow =
  fl_network :: "FlowAck list"
  fl_view :: flow_view
  fl_reopened :: bool

definition flow_closed :: FlowAck where "flow_closed = \<lparr>fa_cum = 0, fa_seq = 1, fa_window = 0\<rparr>"
definition flow_opened :: FlowAck where "flow_opened = \<lparr>fa_cum = 0, fa_seq = 2, fa_window = 1\<rparr>"

definition flow_init :: Flow where
  "flow_init = \<lparr>fl_network = [flow_closed, flow_opened], fl_view = (0, 0, False), fl_reopened = False\<rparr>"

definition flow_apply :: "policy \<Rightarrow> FlowAck \<Rightarrow> flow_view \<Rightarrow> flow_view" where
  "flow_apply pol a v =
     (case v of (win, lst, has) \<Rightarrow>
        if pol = Seeded \<or> \<not> has \<or> lst < fa_seq a then (fa_window a, fa_seq a, True) else v)"

definition flow_deliver :: "policy \<Rightarrow> nat \<Rightarrow> Flow \<Rightarrow> Flow" where
  "flow_deliver pol i f =
     (let a = fl_network f ! i
      in \<lparr>fl_network = take i (fl_network f) @ drop (i + 1) (fl_network f), fl_view = flow_apply pol a (fl_view f),
          fl_reopened = (if fa_seq a = 2 then True else fl_reopened f)\<rparr>)"

inductive flow_reach :: "policy \<Rightarrow> Flow \<Rightarrow> bool" for pol where
  init: "flow_reach pol flow_init"
| deliver: "flow_reach pol f \<Longrightarrow> i < length (fl_network f) \<Longrightarrow> flow_reach pol (flow_deliver pol i f)"

definition NoStaleClose :: "Flow \<Rightarrow> bool" where
  "NoStaleClose f \<longleftrightarrow> \<not> (fl_reopened f \<and> fst (fl_view f) = 0)"

section \<open>conformance.cc\<close>

text \<open>The transport: sends vanish, receives come from the script, the clock stands still. The peer's address is fixed.\<close>

definition script_peer :: Endpoint where
  "script_peer = \<lparr>addr_be = 2, port_be = 2\<rparr>"

definition script_transport :: "bytes list UdpTransport" where
  "script_transport =
     \<lparr>t_send = (\<lambda>dest d n. (length d, n)),
      t_recv = (\<lambda>cap n. case n of [] \<Rightarrow> (None, []) | b # r \<Rightarrow> (Some (b, script_peer), r)),
      t_now = (\<lambda>n. (0, n))\<rparr>"

definition ack_packet :: "u32 \<Rightarrow> u32 \<Rightarrow> u16 \<Rightarrow> Packet" where
  "ack_packet cum_ack ack_seq win =
     empty_packet\<lparr>p_type := PT_Ack, p_cls := Unreliable, p_seq := ack_seq, p_cum_ack := cum_ack, p_adv_window := win\<rparr>"

definition inject_ack :: "u32 \<Rightarrow> u32 \<Rightarrow> u16 \<Rightarrow> bytes list \<Rightarrow> bytes list" where
  "inject_ack cum_ack ack_seq win inbox =
     (case encode (ack_packet cum_ack ack_seq win) (replicate kBaseHeaderSize 0) of (k, out) \<Rightarrow> inbox @ [take k out])"

text \<open>Extraction from a stream: \<open>None\<close> in the last component stands for a stream in the failed state.\<close>

definition blank :: "char \<Rightarrow> bool" where
  "blank c \<longleftrightarrow> c \<in> {CHR '' '', CHR 0x09, CHR 0x0A, CHR 0x0B, CHR 0x0C, CHR 0x0D}"

definition next_word :: "string \<Rightarrow> string \<times> string option" where
  "next_word s =
     (let s = dropWhile blank s; w = takeWhile (Not \<circ> blank) s
      in if w = [] then ([], None) else (w, Some (drop (length w) s)))"

definition decimal :: "string \<Rightarrow> nat" where
  "decimal = foldl (\<lambda>v c. 10 * v + (of_char c - 48)) 0"

text \<open>
  \<^verbatim>\<open>operator>>\<close> for an unsigned type of \<open>w\<close> bits, with the value that is assigned. On a stream that has failed or has nothing but blanks
  left the sentry fails and nothing is assigned; otherwise a text without digits assigns 0 and a number that is too large the maximum, both
  of them failing.
\<close>

definition next_unsigned :: "nat \<Rightarrow> string option \<Rightarrow> nat option \<times> string option" where
  "next_unsigned w st =
     (case st of
        None \<Rightarrow> (None, None)
      | Some s \<Rightarrow>
          let s = dropWhile blank s
          in if s = [] then (None, None)
             else
               let neg = (hd s = CHR ''-'');
                   s = (if hd s = CHR ''-'' \<or> hd s = CHR ''+'' then tl s else s);
                   ds = takeWhile (\<lambda>c. 48 \<le> (of_char c :: nat) \<and> (of_char c :: nat) \<le> 57) s;
                   v = decimal ds
               in if ds = [] then (Some 0, None)
                  else if 2 ^ w \<le> v then (Some (2 ^ w - 1), None)
                  else (Some (if neg then (2 ^ w - v) mod 2 ^ w else v), Some (drop (length ds) s)))"

text \<open>A variable that nothing is assigned to keeps its value: 0 for the fields of an acknowledgement, the expectation so far for \<open>None\<close>.\<close>

datatype trace_op = Ack u32 u32 u16 | Expect_window "u16 option" | Unknown string

definition assigned :: "nat option \<Rightarrow> nat" where
  "assigned v = (case v of None \<Rightarrow> 0 | Some k \<Rightarrow> k)"

definition trace_line :: "string \<Rightarrow> trace_op option" where
  "trace_line line =
     (if line = [] \<or> hd line = CHR ''#'' then None
      else case next_word line of
        (kind, st) \<Rightarrow>
          if kind = ''ack'' then
            (case next_unsigned 32 st of (cum_ack, st) \<Rightarrow>
               (case next_unsigned 32 st of (ack_seq, st) \<Rightarrow>
                  (case next_unsigned 16 st of (win, st) \<Rightarrow>
                     Some (Ack (word_of_nat (assigned cum_ack)) (word_of_nat (assigned ack_seq)) (word_of_nat (assigned win))))))
          else if kind = ''expect_window'' then
            (case next_unsigned 16 st of (win, st) \<Rightarrow> Some (Expect_window (map_option word_of_nat win)))
          else Some (Unknown kind))"

function text_lines :: "string \<Rightarrow> string list" where
  "text_lines s =
     (if s = [] then []
      else let l = takeWhile (\<lambda>c. c \<noteq> CHR 0x0A) s in l # text_lines (drop (length l + 1) s))"
  by pat_completeness auto
termination
  by (relation "measure length") auto

declare text_lines.simps [simp del]

record Replay =
  rp_session :: Session
  rp_inbox :: "bytes list"
  rp_expected :: u16
  rp_deliveries :: nat

definition conf_config :: Config where
  "conf_config = default_config\<lparr>window_pkts := 1\<rparr>"

definition new_replay :: Replay where
  "new_replay = \<lparr>rp_session = new_session script_peer conf_config, rp_inbox = [], rp_expected = 0, rp_deliveries = 0\<rparr>"

fun replay :: "trace_op list \<Rightarrow> Replay \<Rightarrow> Replay option" where
  "replay [] r = Some r"
| "replay (Ack cum_ack ack_seq win # ops) r =
     (case poll script_transport (rp_session r) (inject_ack cum_ack ack_seq win (rp_inbox r)) of
        (_, s, inbox) \<Rightarrow> replay ops (r\<lparr>rp_session := s, rp_inbox := inbox, rp_deliveries := rp_deliveries r + 1\<rparr>))"
| "replay (Expect_window v # ops) r = replay ops (case v of None \<Rightarrow> r | Some w \<Rightarrow> r\<lparr>rp_expected := w\<rparr>)"
| "replay (Unknown k # ops) r = None"

text \<open>\<open>None\<close> for a file that cannot be opened.\<close>

definition conf_run :: "string option \<Rightarrow> nat" where
  "conf_run file =
     (case file of
        None \<Rightarrow> 2
      | Some text \<Rightarrow>
          (case replay (List.map_filter trace_line (text_lines text)) new_replay of
             None \<Rightarrow> 2
           | Some r \<Rightarrow> if peer_adv_window (tx_side (rp_session r)) \<noteq> rp_expected r then 1 else 0))"

section \<open>The model\<close>

text \<open>Under the repaired policy the view is that of the newest generation delivered.\<close>

definition flow_inv :: "Flow \<Rightarrow> bool" where
  "flow_inv f \<longleftrightarrow> (fl_network f, fl_view f, fl_reopened f) \<in>
     {([flow_closed, flow_opened], (0, 0, False), False), ([flow_opened], (0, 1, True), False),
      ([flow_closed], (1, 2, True), True), ([], (1, 2, True), True)}"

lemma flow_inv_step: "flow_inv f \<Longrightarrow> i < length (fl_network f) \<Longrightarrow> flow_inv (flow_deliver Fixed i f)"
proof -
  assume inv: "flow_inv f" and i: "i < length (fl_network f)"
  note defs = flow_inv_def flow_deliver_def flow_apply_def flow_closed_def flow_opened_def
  consider (start) "fl_network f = [flow_closed, flow_opened]" "fl_view f = (0, 0, False)" "fl_reopened f = False"
    | (one) "fl_network f = [flow_opened]" "fl_view f = (0, 1, True)" "fl_reopened f = False"
    | (two) "fl_network f = [flow_closed]" "fl_view f = (1, 2, True)" "fl_reopened f = True"
    using inv i by (auto simp: flow_inv_def)
  then show "flow_inv (flow_deliver Fixed i f)"
  proof cases
    case start
    then have "i = 0 \<or> i = 1" using i by auto
    then show ?thesis using start by (auto simp: defs)
  qed (use i in \<open>simp_all add: defs\<close>)
qed

lemma flow_reach_inv: "flow_reach Fixed f \<Longrightarrow> flow_inv f"
  by (induction rule: flow_reach.induct) (simp add: flow_inv_def flow_init_def, rule flow_inv_step)

lemma seeded_violation: "flow_reach Seeded (flow_deliver Seeded 0 (flow_deliver Seeded 1 flow_init))"
  by (intro flow_reach.deliver flow_reach.init) (simp_all add: flow_init_def flow_deliver_def)

section \<open>Refinement\<close>

definition flow_of :: "SendSide \<Rightarrow> flow_view" where
  "flow_of s = (unat (peer_adv_window s), unat (last_ack_seq s), ack_seq_initialized s)"

definition flow_packet :: "FlowAck \<Rightarrow> Packet" where
  "flow_packet a = ack_packet (word_of_nat (fa_cum a)) (word_of_nat (fa_seq a)) (word_of_nat (fa_window a))"

lemma serial_after_small:
  assumes "0 < a" "a < 2 ^ 31" "unat b < 2 ^ 31" "0 < unat b"
  shows "serial_after (word_of_nat a) b \<longleftrightarrow> unat b < a"
proof -
  have b: "b = word_of_nat (Suc (unat b - 1))" using assms(4) by simp
  have a: "word_of_nat a = (word_of_nat (Suc (a - 1)) :: u32)" using assms(1) by simp
  show ?thesis unfolding a using serial_generation [of "a - 1" "unat b - 1"] assms by (subst b) auto
qed

section \<open>The replay\<close>

lemma ack_encodable: "encodable (ack_packet c q w)" "total_len (ack_packet c q w) = 21" "on_wire (ack_packet c q w) = ack_packet c q w\<lparr>p_version := kVersion\<rparr>"
  by (simp_all add: encodable_def total_len_def on_wire_def ack_packet_def empty_packet_def header_len_def has_sack_def kBaseHeaderSize_def
      kMaxDatagram_def PT_Ack_def)

lemma inject_ack_eq: "inject_ack c q w inbox = inbox @ [wire_image (ack_packet c q w)]"
proof -
  have "encode (ack_packet c q w) (replicate kBaseHeaderSize 0) = (21, wire_image (ack_packet c q w) @ [])"
    by (simp add: encode_eq ack_encodable kBaseHeaderSize_def)
  moreover have "length (wire_image (ack_packet c q w)) = 21" by (simp add: ack_encodable)
  ultimately show ?thesis by (simp add: inject_ack_def)
qed

definition idle_sender :: "Session \<Rightarrow> bool" where
  "idle_sender s \<longleftrightarrow> peer s = script_peer \<and> max_recv_per_poll (cfg s) = 64 \<and> ring (tx_side s) = [] \<and> pending (tx_side s) = [] \<and> \<not> persist_active (tx_side s)"

lemma poll_ack:
  assumes "idle_sender s"
  shows "poll script_transport s (inject_ack c q w []) =
    (False, s\<lparr>tx_side := process_window_update (ack_packet c q w) (tx_side s)\<rparr>, [])"
proof -
  let ?p = "ack_packet c q w" and ?d = "wire_image (ack_packet c q w)"
  have dec: "decode ?d = Inr (?p\<lparr>p_version := kVersion\<rparr>)" by (simp add: decode_wire_image ack_encodable)
  have upd: "process_window_update (?p\<lparr>p_version := kVersion\<rparr>) t = process_window_update ?p t" for t
    by (simp add: process_window_update_def ack_packet_def)
  have keep: "ring (process_window_update p t) = ring t" "pending (process_window_update p t) = pending t"
    "persist_active (process_window_update p t) = persist_active t" for p t
    by (simp_all add: process_window_update_def Let_def)
  let ?tx = "process_window_update ?p (tx_side s)"
  have ring: "?tx\<lparr>ring := []\<rparr> = ?tx" using assms keep(1) [of ?p "tx_side s"] by (cases ?tx) (simp add: idle_sender_def)
  have same: "s\<lparr>tx_side := t, rx_side := rx_side s\<rparr> = s\<lparr>tx_side := t\<rparr>" for t by (cases s) simp
  have sel: "p_flags (?p\<lparr>p_version := kVersion\<rparr>) = 0" "p_type (?p\<lparr>p_version := kVersion\<rparr>) = PT_Ack" "p_cum_ack (?p\<lparr>p_version := kVersion\<rparr>) = c"
    by (simp_all add: ack_packet_def empty_packet_def)
  have r: "ring ?tx = []" using assms keep(1) by (simp add: idle_sender_def)
  have cum: "process_cum_ack script_transport c ?tx [] = (?tx, [])"
    unfolding process_cum_ack_def r by (simp add: script_transport_def ring)
  have "process_packet script_transport (?p\<lparr>p_version := kVersion\<rparr>) s [] = (s\<lparr>tx_side := ?tx\<rparr>, [])"
    unfolding process_packet_def upd sel cum Let_def by (simp add: has_sack_def PT_Ack_def PT_Data_def PT_ProbeWindow_def same)
  then have d: "on_datagram script_transport ?d script_peer s [] = (s\<lparr>tx_side := ?tx\<rparr>, [])"
    using assms by (simp add: on_datagram_def dec idle_sender_def)
  have "unat (max_recv_per_poll (cfg s)) = Suc (Suc 62)" using assms by (simp add: idle_sender_def)
  moreover have "poll_loop script_transport (Suc (Suc k)) s [?d] = (False, s\<lparr>tx_side := ?tx\<rparr>, [])" for k
    using d by (simp add: script_transport_def [THEN arg_cong, of t_recv])
  ultimately have l: "poll_loop script_transport (unat (max_recv_per_poll (cfg s))) s [?d] = (False, s\<lparr>tx_side := ?tx\<rparr>, [])" by metis
  have "pump_and_arm script_transport (s\<lparr>tx_side := ?tx\<rparr>) [] = (s\<lparr>tx_side := ?tx\<rparr>, [])"
    using assms keep [of ?p "tx_side s"] by (simp add: pump_and_arm_def pump.simps maybe_arm_persist_def idle_sender_def)
  then show ?thesis unfolding poll_def inject_ack_eq using l by simp
qed

lemma idle_after: "idle_sender s \<Longrightarrow> idle_sender (s\<lparr>tx_side := process_window_update p (tx_side s)\<rparr>)"
  by (simp add: idle_sender_def process_window_update_def Let_def)

fun trace_acks :: "trace_op list \<Rightarrow> Packet list" where
  "trace_acks [] = []"
| "trace_acks (Ack c q w # ops) = ack_packet c q w # trace_acks ops"
| "trace_acks (op # ops) = trace_acks ops"

fun expectation :: "u16 \<Rightarrow> trace_op list \<Rightarrow> u16" where
  "expectation e [] = e"
| "expectation e (Expect_window v # ops) = expectation (case v of None \<Rightarrow> e | Some w \<Rightarrow> w) ops"
| "expectation e (op # ops) = expectation e ops"

abbreviation known :: "trace_op \<Rightarrow> bool" where
  "known op \<equiv> (case op of Unknown k \<Rightarrow> False | _ \<Rightarrow> True)"

lemma replay_folds:
  assumes "idle_sender (rp_session r)" "rp_inbox r = []"
  shows "replay ops r =
    (if list_all known ops
     then Some (r\<lparr>rp_session := (rp_session r)\<lparr>tx_side := foldl (\<lambda>s p. process_window_update p s) (tx_side (rp_session r)) (trace_acks ops)\<rparr>,
                  rp_expected := expectation (rp_expected r) ops, rp_deliveries := rp_deliveries r + length (trace_acks ops)\<rparr>)
     else None)"
  using assms
proof (induction ops r rule: replay.induct)
  case (1 r)
  then show ?case by simp
next
  case (2 c q w ops r)
  let ?s = "(rp_session r)\<lparr>tx_side := process_window_update (ack_packet c q w) (tx_side (rp_session r))\<rparr>"
  have p: "poll script_transport (rp_session r) (inject_ack c q w (rp_inbox r)) = (False, ?s, [])" using poll_ack 2(2,3) by simp
  have "replay (Ack c q w # ops) r = replay ops (r\<lparr>rp_session := ?s, rp_inbox := [], rp_deliveries := rp_deliveries r + 1\<rparr>)" by (simp add: p)
  also have "\<dots> = (if list_all known ops
     then Some (r\<lparr>rp_session := ?s\<lparr>tx_side := foldl (\<lambda>s p. process_window_update p s) (tx_side ?s) (trace_acks ops)\<rparr>, rp_inbox := [],
                  rp_expected := expectation (rp_expected r) ops, rp_deliveries := rp_deliveries r + 1 + length (trace_acks ops)\<rparr>)
     else None)"
    using 2(1) [OF p [symmetric] refl] idle_after [OF 2(2)] by simp
  finally show ?case using 2(3) by (cases r) simp
next
  case (3 v ops r)
  then show ?case by (cases v) simp_all
qed simp_all

lemma idle_new: "idle_sender (new_session script_peer conf_config)"
  by (simp add: idle_sender_def new_session_def conf_config_def default_config_def new_send_side_def)

lemma view_update:
  assumes "last_ack s = word_of_nat (fa_cum a)" "0 < fa_seq a" "fa_seq a < 2 ^ 31" "fa_window a < 2 ^ 16"
    "unat (last_ack_seq s) < 2 ^ 31" "ack_seq_initialized s \<longrightarrow> 0 < unat (last_ack_seq s)"
  shows "flow_of (process_window_update (flow_packet a) s) = flow_apply Fixed a (flow_of s)"
    "last_ack (process_window_update (flow_packet a) s) = last_ack s"
proof -
  have u: "unat (word_of_nat (fa_seq a) :: u32) = fa_seq a" "unat (word_of_nat (fa_window a) :: u16) = fa_window a"
    using assms(3,4) by (simp_all add: unat_of_nat take_bit_nat_eq_self)
  have nz: "(word_of_nat (fa_seq a) :: u32) \<noteq> 0" using u(1) assms(2) by auto
  have sel: "p_cum_ack (flow_packet a) = last_ack s" "p_type (flow_packet a) = PT_Ack" "p_seq (flow_packet a) = word_of_nat (fa_seq a)"
    "p_adv_window (flow_packet a) = word_of_nat (fa_window a)"
    using assms(1) by (simp_all add: flow_packet_def ack_packet_def empty_packet_def)
  have sa: "ack_seq_initialized s \<Longrightarrow> serial_after (word_of_nat (fa_seq a)) (last_ack_seq s) \<longleftrightarrow> unat (last_ack_seq s) < fa_seq a"
    by (rule serial_after_small [OF assms(2,3,5)]) (use assms(6) in blast)
  show "flow_of (process_window_update (flow_packet a) s) = flow_apply Fixed a (flow_of s)"
    using nz sa u by (auto simp: process_window_update_def sel flow_of_def flow_apply_def)
  show "last_ack (process_window_update (flow_packet a) s) = last_ack s" using nz by (simp add: process_window_update_def sel)
qed

lemma views_update:
  assumes "\<forall>a\<in>set acks. last_ack s = word_of_nat (fa_cum a) \<and> 0 < fa_seq a \<and> fa_seq a < 2 ^ 31 \<and> fa_window a < 2 ^ 16"
    "unat (last_ack_seq s) < 2 ^ 31" "ack_seq_initialized s \<longrightarrow> last_ack_seq s \<noteq> 0"
  shows "flow_of (foldl (\<lambda>s a. process_window_update (flow_packet a) s) s acks) = foldl (\<lambda>v a. flow_apply Fixed a v) (flow_of s) acks"
  using assms
proof (induction acks arbitrary: s)
  case (Cons a acks)
  let ?s = "process_window_update (flow_packet a) s"
  have a: "last_ack s = word_of_nat (fa_cum a)" "0 < fa_seq a" "fa_seq a < 2 ^ 31" "fa_window a < 2 ^ 16" using Cons.prems(1) by simp_all
  have nz: "ack_seq_initialized s \<longrightarrow> 0 < unat (last_ack_seq s)" using Cons.prems(3) by (simp add: unat_gt_0)
  note v = view_update [OF a Cons.prems(2) nz]
  have c: "unat (last_ack_seq ?s) = fa_seq a \<or> ack_seq_initialized s \<and> unat (last_ack_seq ?s) = unat (last_ack_seq s)"
    using v(1) by (auto simp: flow_of_def flow_apply_def split: if_splits)
  then have "unat (last_ack_seq ?s) < 2 ^ 31" "0 < unat (last_ack_seq ?s)" using a nz Cons.prems(2) by auto
  then have "unat (last_ack_seq ?s) < 2 ^ 31" "ack_seq_initialized ?s \<longrightarrow> last_ack_seq ?s \<noteq> 0" by (auto simp: unat_gt_0)
  with Cons.IH [of ?s] Cons.prems(1) v show ?case by simp
qed simp

lemma conf_run_folds:
  "conf_run (Some text) =
    (let ops = List.map_filter trace_line (text_lines text);
         final = foldl (\<lambda>s p. process_window_update p s) (new_send_side conf_config) (trace_acks ops)
     in if \<not> list_all known ops then 2 else if peer_adv_window final = expectation 0 ops then 0 else 1)"
  using replay_folds [of new_replay] idle_new by (simp add: conf_run_def new_replay_def Let_def new_session_def)

section \<open>Properties\<close>

text \<open>C27: The repository's bounded model of flow control. Under the repaired policy no reachable state shows a closed window after the reopened
  one was delivered, and the seeded policy reaches one that does. The session's own rule for window updates refines the repaired policy,
  for every number of acknowledgements and every generation below \<open>2 ^ 31\<close>, not only for the two of the model.\<close>

theorem flow_model_refined:
  "(\<forall>f. flow_reach Fixed f \<longrightarrow> NoStaleClose f) \<and> (\<exists>f. flow_reach Seeded f \<and> \<not> NoStaleClose f) \<and>
   (\<forall>acks s. (\<forall>a\<in>set acks. last_ack s = word_of_nat (fa_cum a) \<and> 0 < fa_seq a \<and> fa_seq a < 2 ^ 31 \<and> fa_window a < 2 ^ 16) \<longrightarrow>
      unat (last_ack_seq s) < 2 ^ 31 \<longrightarrow> (ack_seq_initialized s \<longrightarrow> last_ack_seq s \<noteq> 0) \<longrightarrow>
      flow_of (foldl (\<lambda>s a. process_window_update (flow_packet a) s) s acks) = foldl (\<lambda>v a. flow_apply Fixed a v) (flow_of s) acks)"
proof (intro conjI)
  show "\<forall>f. flow_reach Fixed f \<longrightarrow> NoStaleClose f"
    using flow_reach_inv by (fastforce simp: flow_inv_def NoStaleClose_def)
  show "\<exists>f. flow_reach Seeded f \<and> \<not> NoStaleClose f"
    by (intro exI conjI, rule seeded_violation)
      (simp add: NoStaleClose_def flow_deliver_def flow_init_def flow_apply_def flow_closed_def flow_opened_def)
qed (use views_update in blast)

theorem flow_model_refined_witness:
  "flow_of (foldl (\<lambda>s a. process_window_update (flow_packet a) s) (new_send_side conf_config) [flow_opened, flow_closed]) = (1, 2, True)"
proof -
  let ?s = "new_send_side conf_config"
  have "last_ack ?s = word_of_nat (fa_cum a) \<and> 0 < fa_seq a \<and> fa_seq a < 2 ^ 31 \<and> fa_window a < 2 ^ 16" if "a \<in> set [flow_opened, flow_closed]" for a
    using that by (auto simp: new_send_side_def flow_opened_def flow_closed_def)
  moreover have "unat (last_ack_seq ?s) < 2 ^ 31" "ack_seq_initialized ?s \<longrightarrow> last_ack_seq ?s \<noteq> 0" by (simp_all add: new_send_side_def)
  ultimately have "flow_of (foldl (\<lambda>s a. process_window_update (flow_packet a) s) ?s [flow_opened, flow_closed])
      = foldl (\<lambda>v a. flow_apply Fixed a v) (flow_of ?s) [flow_opened, flow_closed]"
    using flow_model_refined by blast
  then show ?thesis by (simp add: flow_of_def new_send_side_def flow_apply_def flow_opened_def flow_closed_def)
qed

text \<open>C28: Replaying a trace through the codec, the scripted transport and \<open>poll\<close> is folding the window-update rule over its acknowledgements: the
  conformance program exits with 2 for an unknown operation, and otherwise with 0 exactly when the rule ends with the window expected by the last
  line that names one.\<close>

theorem conformance_verdict:
  "conf_run (Some text) =
    (let ops = List.map_filter trace_line (text_lines text);
         final = foldl (\<lambda>s p. process_window_update p s) (new_send_side conf_config) (trace_acks ops)
     in if \<not> list_all known ops then 2 else if peer_adv_window final = expectation 0 ops then 0 else 1)"
  by (fact conf_run_folds)

text \<open>The counterexample that the repository keeps passes.\<close>

lemma counterexample_lines:
  "trace_line ''ack 0 2 1'' = Some (Ack 0 2 1)" "trace_line ''ack 0 1 0'' = Some (Ack 0 1 0)" "trace_line ''expect_window 1'' = Some (Expect_window (Some 1))"
  "trace_line ''# kind cum_ack ack_seq adv_window'' = None"
  by (simp_all add: trace_line_def next_word_def next_unsigned_def decimal_def blank_def of_char_def assigned_def Let_def)

lemma counterexample_passes:
  "conf_run (Some (''# kind cum_ack ack_seq adv_window'' @ [CHR 0x0A] @ ''ack 0 2 1'' @ [CHR 0x0A] @ ''ack 0 1 0'' @ [CHR 0x0A] @ ''expect_window 1'' @ [CHR 0x0A])) = 0"
proof -
  have "List.map_filter trace_line (text_lines (''# kind cum_ack ack_seq adv_window'' @ [CHR 0x0A] @ ''ack 0 2 1'' @ [CHR 0x0A] @ ''ack 0 1 0'' @ [CHR 0x0A] @ ''expect_window 1'' @ [CHR 0x0A]))
    = [Ack 0 2 1, Ack 0 1 0, Expect_window (Some 1)]"
    by (simp add: text_lines.simps Let_def map_filter_simps counterexample_lines)
  then show ?thesis
    by (simp add: conf_run_folds Let_def process_window_update_def ack_packet_def empty_packet_def new_send_side_def PT_Ack_def serial_after_def)
qed

text \<open>A line that expects a window without naming one keeps the expectation; one that names no number expects 0.\<close>

lemma bare_expectation_lines:
  "trace_line ''ack 0 1 1'' = Some (Ack 0 1 1)" "trace_line ''expect_window'' = Some (Expect_window None)"
  "trace_line ''expect_window x'' = Some (Expect_window (Some 0))" "trace_line ''ack 0 7'' = Some (Ack 0 7 0)"
  by (simp_all add: trace_line_def next_word_def next_unsigned_def decimal_def blank_def of_char_def assigned_def Let_def)

lemma bare_expectation_passes:
  "conf_run (Some (''ack 0 1 1'' @ [CHR 0x0A] @ ''expect_window 1'' @ [CHR 0x0A] @ ''expect_window'' @ [CHR 0x0A])) = 0"
proof -
  have "List.map_filter trace_line (text_lines (''ack 0 1 1'' @ [CHR 0x0A] @ ''expect_window 1'' @ [CHR 0x0A] @ ''expect_window'' @ [CHR 0x0A]))
    = [Ack 0 1 1, Expect_window (Some 1), Expect_window None]"
    by (simp add: text_lines.simps Let_def map_filter_simps counterexample_lines bare_expectation_lines)
  then show ?thesis
    by (simp add: conf_run_folds Let_def process_window_update_def ack_packet_def empty_packet_def new_send_side_def PT_Ack_def)
qed

end
