(* ===== verification/Session_Silent.thy ===== *)
theory Session_Silent
  imports Session_One_Way
begin

text \<open>
  A session whose peer never answers: the retransmit ring never shrinks, the first message is in flight at once, and the log stays as it is.
  Also how far one call of \<open>send\<close> can fill the queue.
\<close>

section \<open>The ring\<close>

text \<open>Only acknowledgements remove packets from the retransmit ring.\<close>

lemma pump_one_ring: "length (ring s) \<le> length (ring (fst (pump_one T dest r msg s n)))"
  by (auto simp: pump_one_def Let_def split: prod.splits)

lemma pump_ring: "length (ring s) \<le> length (ring (fst (pump T dest wp r s n)))"
proof (induction T dest wp r s n rule: pump.induct)
  case (1 T dest wp r s n)
  show ?case
  proof (cases "pending s")
    case (Cons msg rest)
    obtain t n1 where t: "t_now T n = (t, n1)" by fastforce
    obtain s2 n2 where o: "pump_one T dest r msg (s\<lparr>pending := rest\<rparr>) n1 = (s2, n2)" by fastforce
    have "length (ring s) \<le> length (ring s2)" using pump_one_ring [of "s\<lparr>pending := rest\<rparr>" T dest r msg n1] o by simp
    then show ?thesis using 1 [OF Cons _ t [symmetric] refl _ o [symmetric] refl] t o Cons
      by (auto simp: pump.simps [of T dest wp r s n])
  qed (simp add: pump.simps)
qed

lemma maybe_arm_ring: "ring (fst (maybe_arm_persist T s n)) = ring s"
  by (auto simp: maybe_arm_persist_def Let_def split: prod.splits)

lemma pump_and_arm_ring: "pump_and_arm T s n = (s', n') \<Longrightarrow> length (ring (tx_side s)) \<le> length (ring (tx_side s'))"
  using pump_ring [of "tx_side s" T "peer s" "window_pkts (cfg s)" "rx_side s" n]
  by (auto simp: pump_and_arm_def maybe_arm_persist_def Let_def split: prod.splits if_splits)

lemma poll_silent:
  assumes "\<And>cap n. fst (t_recv T cap n) = None" "poll T s n = (b, s', n')"
  shows "length (ring (tx_side s)) \<le> length (ring (tx_side s'))"
proof -
  have "fst (snd (poll_loop T k s n)) = s" for k using assms(1) [of kMaxDatagram n] by (cases k) (auto split: prod.splits option.splits)
  then show ?thesis using assms(2) pump_and_arm_ring [of T s] by (auto simp: poll_def Let_def split: prod.splits) (metis fst_conv snd_conv)
qed

lemma retransmit_ring: "ring (fst (snd (retransmit T dest sl s n))) = ring s"
  by (auto simp: retransmit_def Let_def split: prod.splits)

lemma retransmit_seq_length: "length (fst (retransmit_seq T dest sq slots s n)) = length slots"
  by (induction slots) (auto simp: Let_def split_beta)

lemma timer_fired_ring: "length (ring (fst (timer_fired T dest r tid s n))) = length (ring s)"
  using retransmit_seq_length by (auto simp: timer_fired_def Let_def split_beta split: option.split)

lemma tick_loop_ring:
  assumes "tick_loop T dest r now s n = Some (s', n')"
  shows "length (ring s') = length (ring s)"
proof -
  let ?P = "\<lambda>T dest r now s n (x :: SendSide \<times> 'a). length (ring (fst x)) = length (ring s)"
  have "?P T dest r now s n (s', n')"
  proof (rule tick_loop.raw_induct [where P = ?P, OF _ assms])
    fix tl and T :: "'a UdpTransport" and dest r now s n x
    assume ih: "\<And>T dest r now s n x. tl T dest r now s n = Some x \<Longrightarrow> ?P T dest r now s n x"
      and x: "(case pop_due (timers s) now of
          (None, th) \<Rightarrow> Some (s\<lparr>timers := th\<rparr>, n)
        | (Some tid, th) \<Rightarrow> (case timer_fired T dest r tid (s\<lparr>timers := th\<rparr>) n of (s, n) \<Rightarrow> tl T dest r now s n)) = Some x"
    obtain o1 th where p: "pop_due (timers s) now = (o1, th)" by fastforce
    show "?P T dest r now s n x"
    proof (cases o1)
      case (Some tid)
      have "tl T dest r now (fst (timer_fired T dest r tid (s\<lparr>timers := th\<rparr>) n)) (snd (timer_fired T dest r tid (s\<lparr>timers := th\<rparr>) n)) = Some x"
        using x p Some by (simp add: split_beta)
      from ih [OF this] show ?thesis by (simp add: timer_fired_ring)
    qed (use x p in auto)
  qed
  then show ?thesis by simp
qed

lemma tick_ring: "tick T s n = Some (s', n') \<Longrightarrow> length (ring (tx_side s)) \<le> length (ring (tx_side s'))"
  by (auto simp: tick_def Let_def split: prod.splits option.splits dest!: tick_loop_ring pump_and_arm_ring)

text \<open>The first message of a fresh session is in flight as soon as it is accepted.\<close>

lemma first_in_flight:
  assumes "length d \<le> 1171"
  shows "ring (tx_side (fst (snd (send T ReliableOrdered d (new_session e default_config) n)))) \<noteq> []"
proof -
  let ?s = "new_session e default_config" and ?msg = "\<lparr>pm_cls = ReliableOrdered, pm_data = d\<rparr>"
  let ?q = "?s\<lparr>tx_side := (tx_side ?s)\<lparr>pending := [?msg]\<rparr>\<rparr>"
  obtain s' n' where a: "pump_and_arm T ?q n = (s', n')" by fastforce
  obtain t n1 where t: "t_now T n = (t, n1)" by fastforce
  obtain tx n2 where o: "pump_one T e (rx_side ?s) ?msg (tx_side ?s\<lparr>pending := []\<rparr>) n1 = (tx, n2)" by fastforce
  let ?p = "(fill_ack_fields (rx_side ?s) (empty_packet\<lparr>p_type := PT_Data, p_cls := ReliableOrdered, p_seq := 0\<rparr>))\<lparr>p_payload := d\<rparr>"
  have "encodable ?p \<and> total_len ?p \<le> kMaxDatagram"
    using assms by (auto simp: encodable_def total_len_def header_len_def fill_ack_fields_def Let_def empty_packet_def new_session_def new_recv_side_def
      kMaxDatagram_def kBaseHeaderSize_def kSackSize_def)
  then have "fst (encode ?p (replicate kMaxDatagram 0)) > 0" by (simp add: encode_frame)
  then have "ring tx \<noteq> []" using o by (auto simp: pump_one_def Let_def new_session_def new_send_side_def split: prod.splits)
  have "pump T e (window_pkts default_config) (rx_side ?s) (tx_side ?q) n = pump T e (window_pkts default_config) (rx_side ?s) tx n2"
    using t o by (subst pump.simps) (simp add: effective_window_def new_session_def new_send_side_def new_congestion_def ready_def default_config_def)
  then have "ring (fst (pump T e (window_pkts default_config) (rx_side ?s) (tx_side ?q) n)) \<noteq> []"
    using \<open>ring tx \<noteq> []\<close> pump_ring [of tx T e "window_pkts default_config" "rx_side ?s" n2] by auto
  then have "ring (tx_side s') \<noteq> []" using a by (auto simp: pump_and_arm_def Let_def new_session_def split: prod.splits) (metis maybe_arm_ring fst_conv)
  then show ?thesis using a assms
    by (simp add: send_def Let_def new_session_def default_config_def new_send_side_def kMaxDatagram_def kBaseHeaderSize_def kSackSize_def split: prod.split)
qed

lemma send_ring:
  assumes "send T cls d s n = (ok, s', n')"
  shows "length (ring (tx_side s)) \<le> length (ring (tx_side s'))"
  using assms pump_and_arm_ring [of T "s\<lparr>tx_side := tx_side s\<lparr>pending := pending (tx_side s) @ [\<lparr>pm_cls = cls, pm_data = d\<rparr>]\<rparr>\<rparr>" n]
  by (auto simp: send_def Let_def split: prod.splits if_splits)

lemma poll_silent_log:
  assumes "\<And>cap n. fst (t_recv T cap n) = None" "poll T s n = (b, s', n')"
  shows "rx_side s' = rx_side s"
proof -
  have "fst (snd (poll_loop T k s n)) = s" for k using assms(1) [of kMaxDatagram n] by (cases k) (auto split: prod.splits option.splits)
  then show ?thesis using assms(2) pump_and_arm_rx [of T s] by (auto simp: poll_def Let_def split: prod.splits) (metis fst_conv snd_conv)
qed

section \<open>The queue\<close>

lemma pump_queue: "length (pending (fst (pump T dest wp r s n))) \<le> length (pending s)"
proof (induction T dest wp r s n rule: pump.induct)
  case (1 T dest wp r s n)
  show ?case
  proof (cases "pending s")
    case (Cons msg rest)
    obtain t n1 where t: "t_now T n = (t, n1)" by fastforce
    obtain s2 n2 where o: "pump_one T dest r msg (s\<lparr>pending := rest\<rparr>) n1 = (s2, n2)" by fastforce
    have "pending s2 = rest" using pending_pump_one [of T dest r msg "s\<lparr>pending := rest\<rparr>" n1] o by simp
    then show ?thesis using 1 [OF Cons _ t [symmetric] refl _ o [symmetric] refl] t o Cons
      by (auto simp: pump.simps [of T dest wp r s n])
  qed (simp add: pump.simps)
qed

lemma maybe_arm_pending: "pending (fst (maybe_arm_persist T s n)) = pending s"
  by (auto simp: maybe_arm_persist_def Let_def split: prod.splits)

lemma send_queue:
  assumes "send T cls d s n = (ok, s', n')"
  shows "cfg s' = cfg s \<and> length (pending (tx_side s')) \<le> Suc (length (pending (tx_side s)))"
proof -
  have "cfg (fst (pump_and_arm T q n)) = cfg q \<and> length (pending (tx_side (fst (pump_and_arm T q n)))) \<le> length (pending (tx_side q))" for q
    using pump_queue [of T "peer q" "window_pkts (cfg q)" "rx_side q" "tx_side q" n] by (simp add: pump_and_arm_def Let_def split_beta maybe_arm_pending)
  from this [of "s\<lparr>tx_side := tx_side s\<lparr>pending := pending (tx_side s) @ [\<lparr>pm_cls = cls, pm_data = d\<rparr>]\<rparr>\<rparr>"] show ?thesis
    using assms by (auto simp: send_def Let_def split_beta split: if_splits)
qed

end
