(* ===== verification/Latency_Bench.thy ===== *)
theory Latency_Bench
  imports File_Transfer Tcp_Baseline Session_Silent
begin

text \<open>
  The latency benchmark over sessions, \<^verbatim>\<open>bench/latency_bench.cc\<close>: the transport decorator that counts datagrams, the open-loop sender and
  receiver, and the closed loop of requests and replies. The benchmark's clock is a sequence of readings, as in \<open>Tcp_Baseline\<close>; \<open>wait\<close> is what
  happens outside while a program sleeps.
\<close>

section \<open>CountingTransport\<close>

record 'n Counted =
  c_under :: 'n
  tx_datagrams :: u64
  tx_bytes :: u64
  rx_datagrams :: u64
  rx_bytes :: u64

definition count_send :: "'n UdpTransport \<Rightarrow> Endpoint \<Rightarrow> bytes \<Rightarrow> 'n Counted \<Rightarrow> nat \<times> 'n Counted" where
  "count_send T dest d w =
     (let w = w\<lparr>tx_datagrams := tx_datagrams w + 1, tx_bytes := tx_bytes w + word_of_nat (length d)\<rparr>;
          (k, n) = t_send T dest d (c_under w)
      in (k, w\<lparr>c_under := n\<rparr>))"

definition count_recv :: "'n UdpTransport \<Rightarrow> nat \<Rightarrow> 'n Counted \<Rightarrow> (bytes \<times> Endpoint) option \<times> 'n Counted" where
  "count_recv T cap w =
     (let (r, n) = t_recv T cap (c_under w); w = w\<lparr>c_under := n\<rparr>
      in case r of
           None \<Rightarrow> (None, w)
         | Some (d, src) \<Rightarrow> (Some (d, src), w\<lparr>rx_datagrams := rx_datagrams w + 1, rx_bytes := rx_bytes w + word_of_nat (length d)\<rparr>))"

definition count_now :: "'n UdpTransport \<Rightarrow> 'n Counted \<Rightarrow> time_point \<times> 'n Counted" where
  "count_now T w = (let (t, n) = t_now T (c_under w) in (t, w\<lparr>c_under := n\<rparr>))"

definition counting_transport :: "'n UdpTransport \<Rightarrow> 'n Counted UdpTransport" where
  "counting_transport T = \<lparr>t_send = count_send T, t_recv = count_recv T, t_now = count_now T\<rparr>"

text \<open>The transport of the other process, which does not count, over the same world.\<close>

definition beside :: "'n UdpTransport \<Rightarrow> 'n Counted UdpTransport" where
  "beside T =
     \<lparr>t_send = (\<lambda>dest d w. let (k, n) = t_send T dest d (c_under w) in (k, w\<lparr>c_under := n\<rparr>)),
      t_recv = (\<lambda>cap w. let (r, n) = t_recv T cap (c_under w) in (r, w\<lparr>c_under := n\<rparr>)),
      t_now = count_now T\<rparr>"

definition make_config :: "int \<Rightarrow> int \<Rightarrow> Config" where
  "make_config floor_ms packets = default_config\<lparr>cfg_rto_floor := floor_ms, window_pkts := word_of_int packets, mtu_payload := 1200\<rparr>"

section \<open>The receiver\<close>

text \<open>The counters of the message handler, and its time stamps.\<close>

record LatCounts =
  lc_received :: nat
  lc_goodput :: nat
  lc_max_seq :: u64
  lc_short :: nat
  lc_nonmonotonic :: nat
  lc_last_seq :: "u64 option"
  lc_end :: bool

record LatTimes =
  lt_first :: nat
  lt_last :: nat
  lt_activity :: nat
  lt_samples :: "rat list"
  lt_reads :: nat

definition new_counts :: LatCounts where
  "new_counts = \<lparr>lc_received = 0, lc_goodput = 0, lc_max_seq = 0, lc_short = 0, lc_nonmonotonic = 0, lc_last_seq = None, lc_end = False\<rparr>"

definition lat_count :: "nat \<Rightarrow> bytes \<Rightarrow> LatCounts \<Rightarrow> LatCounts" where
  "lat_count m payload c =
     (case read_msg payload of
        None \<Rightarrow> c\<lparr>lc_short := lc_short c + 1\<rparr>
      | Some (ts, seq) \<Rightarrow>
          if seq = kEndSeq then c\<lparr>lc_end := True\<rparr>
          else c\<lparr>lc_received := lc_received c + 1, lc_goodput := lc_goodput c + m,
                 lc_nonmonotonic := lc_nonmonotonic c + (case lc_last_seq c of Some q \<Rightarrow> if seq \<le> q then 1 else 0 | None \<Rightarrow> 0),
                 lc_last_seq := Some seq, lc_max_seq := max (lc_max_seq c) seq\<rparr>)"

definition lat_time :: "(nat \<Rightarrow> nat) \<Rightarrow> bytes \<Rightarrow> LatTimes \<Rightarrow> LatTimes" where
  "lat_time clk payload t =
     (case read_msg payload of
        None \<Rightarrow> t
      | Some (ts, seq) \<Rightarrow>
          let recv = clk (lt_reads t); t = t\<lparr>lt_reads := lt_reads t + 1, lt_activity := recv\<rparr>
          in if seq = kEndSeq then t
             else t\<lparr>lt_first := (if lt_first t = 0 then recv else lt_first t), lt_last := recv,
                    lt_samples := lt_samples t @ [if unat ts < recv then fl (fl (of_nat (recv - unat ts)) / 1000000) else 0]\<rparr>)"

definition lat_on_message :: "(nat \<Rightarrow> nat) \<Rightarrow> nat \<Rightarrow> LatCounts \<times> LatTimes \<Rightarrow> Class \<times> bytes \<Rightarrow> LatCounts \<times> LatTimes" where
  "lat_on_message clk m st e = (lat_count m (snd e) (fst st), lat_time clk (snd e) (snd st))"

text \<open>One round of the loop; the flag is whether it goes on, and \<open>None\<close> a tick that does not return.\<close>

definition lat_round ::
  "'n UdpTransport \<Rightarrow> (nat \<Rightarrow> nat) \<Rightarrow> nat \<Rightarrow> nat \<Rightarrow> nat \<Rightarrow> LatCounts \<times> LatTimes \<Rightarrow> Session \<Rightarrow> 'n \<Rightarrow> (bool \<times> (LatCounts \<times> LatTimes) \<times> Session \<times> 'n) option" where
  "lat_round T clk m idle_ns hard_cap_ns st s n =
     (let before = length (app_log (rx_side s)); (_, s, n) = poll T s n
      in case tick T s n of
           None \<Rightarrow> None
         | Some (s, n) \<Rightarrow>
             let (c, t) = foldl (lat_on_message clk m) st (drop before (app_log (rx_side s)));
                 now = clk (lt_reads t); t = t\<lparr>lt_reads := lt_reads t + 1\<rparr>;
                 quiet = elapsed now (lt_activity t)
             in Some (\<not> (lc_end c \<and> 200000000 < quiet \<or> 0 < lc_received c \<and> idle_ns < quiet \<or> hard_cap_ns < now), (c, t), s, n))"

partial_function (option) lat_loop ::
  "'n UdpTransport \<Rightarrow> ('n \<Rightarrow> 'n) \<Rightarrow> (nat \<Rightarrow> nat) \<Rightarrow> nat \<Rightarrow> nat \<Rightarrow> nat \<Rightarrow> LatCounts \<times> LatTimes \<Rightarrow> Session \<Rightarrow> 'n
     \<Rightarrow> ((LatCounts \<times> LatTimes) \<times> Session \<times> 'n) option" where
  "lat_loop T wait clk m idle_ns hard_cap_ns st s n =
     (case lat_round T clk m idle_ns hard_cap_ns st s n of
        None \<Rightarrow> None
      | Some (goon, st, s, n) \<Rightarrow> if goon then lat_loop T wait clk m idle_ns hard_cap_ns st s (wait n) else Some (st, s, n))"

definition lat_errors :: "nat \<Rightarrow> LatCounts \<Rightarrow> nat" where
  "lat_errors offered c = (if lc_received c < offered then offered - lc_received c else 0) + lc_short c + lc_nonmonotonic c"

section \<open>The sender\<close>

definition lat_msg :: "nat \<Rightarrow> nat \<Rightarrow> u64 \<Rightarrow> bytes" where
  "lat_msg m ts seq = (case write_msg (replicate m 0) (word_of_nat ts) seq of Some b \<Rightarrow> b | None \<Rightarrow> [])"

definition lat_pump :: "'n UdpTransport \<Rightarrow> Session \<Rightarrow> 'n \<Rightarrow> (Session \<times> 'n) option" where
  "lat_pump T s n = (let (_, s, n) = poll T s n in tick T s n)"

partial_function (option) send_until :: "'n UdpTransport \<Rightarrow> Class \<Rightarrow> bytes \<Rightarrow> Session \<Rightarrow> 'n \<Rightarrow> (Session \<times> 'n) option" where
  "send_until T cls d s n =
     (case send T cls d s n of
        (ok, s, n) \<Rightarrow> if ok then Some (s, n) else Option.bind (lat_pump T s n) (\<lambda>(s, n). send_until T cls d s n))"

partial_function (option) pump_until ::
  "'n UdpTransport \<Rightarrow> ('n \<Rightarrow> 'n) \<Rightarrow> (nat \<Rightarrow> nat) \<Rightarrow> nat \<Rightarrow> nat \<Rightarrow> Session \<Rightarrow> 'n \<Rightarrow> (nat \<times> Session \<times> 'n) option" where
  "pump_until T wait clk target i s n =
     Option.bind (lat_pump T s n) (\<lambda>(s, n).
       if target \<le> clk i then Some (i + 1, s, n)
       else pump_until T wait clk target (i + 1) s (if 150000 < target - clk i then wait n else n))"

partial_function (option) lat_throughput ::
  "'n UdpTransport \<Rightarrow> (nat \<Rightarrow> nat) \<Rightarrow> Class \<Rightarrow> nat \<Rightarrow> nat \<Rightarrow> nat \<Rightarrow> nat \<Rightarrow> Session \<Rightarrow> 'n \<Rightarrow> (nat \<times> nat \<times> Session \<times> 'n) option" where
  "lat_throughput T clk cls m fin nsent i s n =
     (if fin \<le> clk i then Some (nsent, i + 1, s, n)
      else case send T cls (lat_msg m (clk (i + 1)) (word_of_nat nsent)) s n of
        (ok, s, n) \<Rightarrow>
          if ok then lat_throughput T clk cls m fin (nsent + 1) (i + 2) s n
          else Option.bind (lat_pump T s n) (\<lambda>(s, n). lat_throughput T clk cls m fin nsent (i + 2) s n))"

partial_function (option) lat_open_loop ::
  "'n UdpTransport \<Rightarrow> ('n \<Rightarrow> 'n) \<Rightarrow> (nat \<Rightarrow> nat) \<Rightarrow> (nat \<Rightarrow> rat) \<Rightarrow> Class \<Rightarrow> nat \<Rightarrow> nat \<Rightarrow> nat \<Rightarrow> nat \<Rightarrow> nat \<Rightarrow> Session \<Rightarrow> 'n \<Rightarrow> (nat \<times> nat \<times> Session \<times> 'n) option" where
  "lat_open_loop T wait clk offs cls m start dur_ns nsent i s n =
     (let intended = start + nat \<lfloor>fl (offs nsent * 1000000000)\<rfloor>
      in if dur_ns < intended - start then Some (nsent, i, s, n)
         else if dur_ns + 15000000000 < elapsed (clk i) start then Some (nsent, i + 1, s, n)
         else Option.bind (pump_until T wait clk intended (i + 1) s n) (\<lambda>(i, s, n).
              Option.bind (send_until T cls (lat_msg m intended (word_of_nat nsent)) s n) (\<lambda>(s, n).
              lat_open_loop T wait clk offs cls m start dur_ns (nsent + 1) i s n)))"

partial_function (option) drain_ring :: "'n UdpTransport \<Rightarrow> ('n \<Rightarrow> 'n) \<Rightarrow> Session \<Rightarrow> 'n \<Rightarrow> (Session \<times> 'n) option" where
  "drain_ring T wait s n =
     (if ring (tx_side s) = [] then Some (s, n)
      else Option.bind (lat_pump T s n) (\<lambda>(s, n). drain_ring T wait s (wait n)))"

partial_function (option) pump_while :: "'n UdpTransport \<Rightarrow> (nat \<Rightarrow> nat) \<Rightarrow> nat \<Rightarrow> nat \<Rightarrow> Session \<Rightarrow> 'n \<Rightarrow> (Session \<times> 'n) option" where
  "pump_while T clk extra i s n =
     (if extra \<le> clk i then Some (s, n)
      else Option.bind (lat_pump T s n) (\<lambda>(s, n). pump_while T clk extra (i + 1) s n))"

definition lat_sender ::
  "'n UdpTransport \<Rightarrow> ('n \<Rightarrow> 'n) \<Rightarrow> (nat \<Rightarrow> nat) \<Rightarrow> (nat \<Rightarrow> rat) \<Rightarrow> bool \<Rightarrow> Class \<Rightarrow> nat \<Rightarrow> nat \<Rightarrow> Session \<Rightarrow> 'n \<Rightarrow> (nat \<times> Session \<times> 'n) option" where
  "lat_sender T wait clk offs throughput cls m duration_s s n =
     Option.bind (if throughput then lat_throughput T clk cls m (clk 0 + duration_s * 1000000000) 0 1 s n
                  else lat_open_loop T wait clk offs cls m (clk 0) (duration_s * 1000000000) 0 1 s n) (\<lambda>(nsent, i, s, n).
     Option.bind (drain_ring T wait s n) (\<lambda>(s, n).
     Option.bind (send_until T cls (lat_msg m (clk i) kEndSeq) s n) (\<lambda>(s, n).
     Option.bind (drain_ring T wait s n) (\<lambda>(s, n).
     Option.bind (pump_while T clk (clk (i + 1) + 300000000) (i + 2) s n) (\<lambda>(s, n). Some (nsent, s, n))))))"

section \<open>The client of the closed loop\<close>

record RrClient =
  got_reply :: bool
  rr_samples :: "rat list"
  rr_short :: nat
  rr_mismatch :: nat
  rr_timeout :: nat
  expect_seq :: u64
  rr_reads :: nat

definition new_rr :: RrClient where
  "new_rr = \<lparr>got_reply = False, rr_samples = [], rr_short = 0, rr_mismatch = 0, rr_timeout = 0, expect_seq = 0, rr_reads = 0\<rparr>"

definition rr_on_message :: "(nat \<Rightarrow> nat) \<Rightarrow> RrClient \<Rightarrow> Class \<times> bytes \<Rightarrow> RrClient" where
  "rr_on_message clk c e =
     (case read_msg (snd e) of
        None \<Rightarrow> c\<lparr>rr_short := rr_short c + 1\<rparr>
      | Some (ts, seq) \<Rightarrow>
          if seq = kEndSeq then c
          else let c = (if seq \<noteq> expect_seq c then c\<lparr>rr_mismatch := rr_mismatch c + 1\<rparr> else c)
               in c\<lparr>rr_samples := rr_samples c @ [fl (fl (of_nat (elapsed (clk (rr_reads c)) (unat ts))) / 1000000)],
                    rr_reads := rr_reads c + 1, got_reply := True\<rparr>)"

text \<open>\<^verbatim>\<open>now_ns()\<close> in the program itself.\<close>

definition rr_now :: "(nat \<Rightarrow> nat) \<Rightarrow> RrClient \<Rightarrow> nat \<times> RrClient" where
  "rr_now clk c = (clk (rr_reads c), c\<lparr>rr_reads := rr_reads c + 1\<rparr>)"

definition rr_pump :: "'n UdpTransport \<Rightarrow> (nat \<Rightarrow> nat) \<Rightarrow> RrClient \<Rightarrow> Session \<Rightarrow> 'n \<Rightarrow> (RrClient \<times> Session \<times> 'n) option" where
  "rr_pump T clk c s n =
     (case lat_pump T s n of
        None \<Rightarrow> None
      | Some (s', n) \<Rightarrow> Some (foldl (rr_on_message clk) c (drop (length (app_log (rx_side s))) (app_log (rx_side s'))), s', n))"

partial_function (option) rr_send ::
  "'n UdpTransport \<Rightarrow> (nat \<Rightarrow> nat) \<Rightarrow> Class \<Rightarrow> bytes \<Rightarrow> RrClient \<Rightarrow> Session \<Rightarrow> 'n \<Rightarrow> (RrClient \<times> Session \<times> 'n) option" where
  "rr_send T clk cls d c s n =
     (case send T cls d s n of
        (ok, s, n) \<Rightarrow> if ok then Some (c, s, n) else Option.bind (rr_pump T clk c s n) (\<lambda>(c, s, n). rr_send T clk cls d c s n))"

partial_function (option) rr_await ::
  "'n UdpTransport \<Rightarrow> (nat \<Rightarrow> nat) \<Rightarrow> nat \<Rightarrow> RrClient \<Rightarrow> Session \<Rightarrow> 'n \<Rightarrow> (RrClient \<times> Session \<times> 'n) option" where
  "rr_await T clk cap c s n =
     (if got_reply c then Some (c, s, n)
      else case rr_now clk c of
        (now, c) \<Rightarrow> if cap \<le> now then Some (c, s, n) else Option.bind (rr_pump T clk c s n) (\<lambda>(c, s, n). rr_await T clk cap c s n))"

text \<open>The body of the loop: a request, and its reply or a timeout.\<close>

definition rr_round ::
  "'n UdpTransport \<Rightarrow> (nat \<Rightarrow> nat) \<Rightarrow> Class \<Rightarrow> nat \<Rightarrow> nat \<Rightarrow> RrClient \<Rightarrow> Session \<Rightarrow> 'n \<Rightarrow> (RrClient \<times> Session \<times> 'n) option" where
  "rr_round T clk cls m k c s n =
     (let (ts, c) = rr_now clk c
      in Option.bind (rr_send T clk cls (lat_msg m ts (word_of_nat k)) (c\<lparr>got_reply := False, expect_seq := word_of_nat k\<rparr>) s n) (\<lambda>(c, s, n).
           let (now, c) = rr_now clk c
           in Option.bind (rr_await T clk (now + 15000000000) c s n) (\<lambda>(c, s, n).
                Some (if got_reply c then c else c\<lparr>rr_timeout := rr_timeout c + 1\<rparr>, s, n))))"

partial_function (option) rr_loop ::
  "'n UdpTransport \<Rightarrow> (nat \<Rightarrow> nat) \<Rightarrow> Class \<Rightarrow> nat \<Rightarrow> nat \<Rightarrow> nat \<Rightarrow> nat \<Rightarrow> RrClient \<Rightarrow> Session \<Rightarrow> 'n \<Rightarrow> (nat \<times> RrClient \<times> Session \<times> 'n) option" where
  "rr_loop T clk cls m start dur_ns k c s n =
     (case rr_now clk c of
        (now, c) \<Rightarrow>
          if elapsed now start < dur_ns
          then Option.bind (rr_round T clk cls m k c s n) (\<lambda>(c, s, n). rr_loop T clk cls m start dur_ns (k + 1) c s n)
          else Some (k, c, s, n))"

partial_function (option) rr_flush ::
  "'n UdpTransport \<Rightarrow> ('n \<Rightarrow> 'n) \<Rightarrow> (nat \<Rightarrow> nat) \<Rightarrow> nat \<Rightarrow> RrClient \<Rightarrow> Session \<Rightarrow> 'n \<Rightarrow> (RrClient \<times> Session \<times> 'n) option" where
  "rr_flush T wait clk extra c s n =
     (case rr_now clk c of
        (now, c) \<Rightarrow> if extra \<le> now then Some (c, s, n) else Option.bind (rr_pump T clk c s n) (\<lambda>(c, s, n). rr_flush T wait clk extra c s (wait n)))"

definition closed_loop ::
  "'n UdpTransport \<Rightarrow> ('n \<Rightarrow> 'n) \<Rightarrow> (nat \<Rightarrow> nat) \<Rightarrow> Class \<Rightarrow> nat \<Rightarrow> nat \<Rightarrow> Session \<Rightarrow> 'n \<Rightarrow> (nat \<times> RrClient \<times> Session \<times> 'n) option" where
  "closed_loop T wait clk cls m duration_s s n =
     (let (start, c) = rr_now clk new_rr
      in Option.bind (rr_loop T clk cls m start (duration_s * 1000000000) 0 c s n) (\<lambda>(k, c, s, n).
           let (ts, c) = rr_now clk c
           in Option.bind (rr_send T clk cls (lat_msg m ts kEndSeq) c s n) (\<lambda>(c, s, n).
                let (now, c) = rr_now clk c
                in Option.bind (rr_flush T wait clk (now + 500000000) c s n) (\<lambda>(c, s, n). Some (k, c, s, n)))))"

text \<open>The totals the client reports.\<close>

definition rr_missing :: "nat \<Rightarrow> RrClient \<Rightarrow> nat" where
  "rr_missing nsent c = (if length (rr_samples c) < nsent then nsent - length (rr_samples c) else 0)"

definition rr_errors :: "nat \<Rightarrow> RrClient \<Rightarrow> nat" where
  "rr_errors nsent c = rr_missing nsent c + rr_short c + rr_mismatch c + rr_timeout c"

section \<open>The decorator keeps the contract\<close>

lemma count_simps [simp]:
  "c_under (snd (t_send (counting_transport T) dest d w)) = snd (t_send T dest d (c_under w))"
  "fst (t_send (counting_transport T) dest d w) = fst (t_send T dest d (c_under w))"
  "c_under (snd (t_recv (counting_transport T) cap w)) = snd (t_recv T cap (c_under w))"
  "fst (t_recv (counting_transport T) cap w) = fst (t_recv T cap (c_under w))"
  "c_under (snd (t_now (counting_transport T) w)) = snd (t_now T (c_under w))"
  "fst (t_now (counting_transport T) w) = fst (t_now T (c_under w))"
  by (simp_all add: counting_transport_def count_send_def count_recv_def count_now_def Let_def split: prod.splits option.splits)

lemma beside_simps [simp]:
  "c_under (snd (t_send (beside T) dest d w)) = snd (t_send T dest d (c_under w))"
  "fst (t_send (beside T) dest d w) = fst (t_send T dest d (c_under w))"
  "c_under (snd (t_recv (beside T) cap w)) = snd (t_recv T cap (c_under w))"
  "fst (t_recv (beside T) cap w) = fst (t_recv T cap (c_under w))"
  "c_under (snd (t_now (beside T) w)) = snd (t_now T (c_under w))"
  "fst (t_now (beside T) w) = fst (t_now T (c_under w))"
  by (simp_all add: beside_def count_now_def Let_def split: prod.splits)

context datagram_transport
begin

lemma counting_contract: "datagram_transport (counting_transport T) me (\<lambda>w. wire (c_under w)) (\<lambda>w. clock (c_under w))"
  by unfold_locales
    (simp_all only: count_simps send_wire send_size send_clock recv_wire recv_sent recv_clock now_wire now_clock simp_thms)

lemma beside_contract: "datagram_transport (beside T) me (\<lambda>w. wire (c_under w)) (\<lambda>w. clock (c_under w))"
  by unfold_locales
    (simp_all only: beside_simps send_wire send_size send_clock recv_wire recv_sent recv_clock now_wire now_clock simp_thms)

end

lemma counting_pair:
  assumes "session_pair TA TB ea eb wire clock env"
  shows "session_pair (counting_transport TA) (beside TB) ea eb (\<lambda>w. wire (c_under w)) (\<lambda>w. clock (c_under w)) (\<lambda>w w'. env (c_under w) (c_under w'))"
  using assms datagram_transport.counting_contract datagram_transport.beside_contract
  unfolding session_pair_def session_pair_axioms_def by blast

sublocale udp_pair \<subseteq> counted: session_pair "counting_transport (real_transport K \<lparr>sock_fd = fda\<rparr>)" "beside (real_transport K \<lparr>sock_fd = fdb\<rparr>)" ea eb
    "\<lambda>w. wire (c_under w)" "\<lambda>w. clock (c_under w)" "\<lambda>w w'. env (c_under w) (c_under w')"
  by (rule counting_pair [OF over.session_pair_axioms])

section \<open>A peer that never answers\<close>

lemma lat_pump_silent:
  assumes "\<And>cap n. fst (t_recv T cap n) = None" "lat_pump T s n = Some (s', n')" "ring (tx_side s) \<noteq> []"
  shows "ring (tx_side s') \<noteq> []"
proof -
  obtain b s1 n1 where p: "poll T s n = (b, s1, n1)" by (metis prod_cases3)
  have "length (ring (tx_side s)) \<le> length (ring (tx_side s'))"
    using poll_silent [OF assms(1) p] tick_ring [of T s1 n1 s' n'] assms(2) p by (simp add: lat_pump_def)
  then show ?thesis using assms(3) by auto
qed

lemma drain_ring_silent:
  assumes "drain_ring T wait s n = Some x" "\<And>cap n. fst (t_recv T cap n) = None"
  shows "ring (tx_side s) = []"
proof -
  let ?P = "\<lambda>T' (wait' :: 'a \<Rightarrow> 'a) s' (n' :: 'a) (x' :: Session \<times> 'a). T' = T \<longrightarrow> ring (tx_side s') = []"
  have "?P T wait s n x"
  proof (rule drain_ring.raw_induct [where P = ?P, OF _ assms(1)])
    fix d and T' :: "'a UdpTransport" and wait' s' n' x'
    assume ih: "\<And>T' wait' s' n' x'. d T' wait' s' n' = Some x' \<Longrightarrow> ?P T' wait' s' n' x'"
      and x: "(if ring (tx_side s') = [] then Some (s', n') else Option.bind (lat_pump T' s' n') (\<lambda>(s, n). d T' wait' s (wait' n))) = Some x'"
    show "?P T' wait' s' n' x'"
      using x lat_pump_silent [OF assms(2)] by (auto simp: Option.bind_eq_Some_conv split: if_splits dest!: ih)
  qed
  then show ?thesis by simp
qed

section \<open>Runs of the open-loop benchmark\<close>

text \<open>The sender's program state: how many messages its session accepted, and whether it accepted the end marker.\<close>

type_synonym 'n LatRun = "'n Pair \<times> nat \<times> bool"

inductive lat_step :: "'n UdpTransport \<Rightarrow> 'n UdpTransport \<Rightarrow> ('n \<Rightarrow> 'n \<Rightarrow> bool) \<Rightarrow> nat \<Rightarrow> 'n LatRun \<Rightarrow> 'n LatRun \<Rightarrow> bool"
  for TA TB env m where
  message: "offer TA (lat_msg m ts (word_of_nat k)) y = (ok, y') \<Longrightarrow> length (acc_a y') < 2 ^ 32
    \<Longrightarrow> lat_step TA TB env m (y, k, False) (y', if ok then k + 1 else k, False)"
| marker: "offer TA (lat_msg m ts kEndSeq) y = (ok, y') \<Longrightarrow> length (acc_a y') < 2 ^ 32 \<Longrightarrow> lat_step TA TB env m (y, k, False) (y', k, ok)"
| poll_a: "poll TA (pa y) (net y) = (b, s, n) \<Longrightarrow> lat_step TA TB env m (y, k, e) (y\<lparr>pa := s, net := n\<rparr>, k, e)"
| tick_a: "tick TA (pa y) (net y) = Some (s, n) \<Longrightarrow> lat_step TA TB env m (y, k, e) (y\<lparr>pa := s, net := n\<rparr>, k, e)"
| poll_b: "poll TB (pb y) (net y) = (b, s, n) \<Longrightarrow> lat_step TA TB env m (y, k, e) (y\<lparr>pb := s, net := n\<rparr>, k, e)"
| tick_b: "tick TB (pb y) (net y) = Some (s, n) \<Longrightarrow> lat_step TA TB env m (y, k, e) (y\<lparr>pb := s, net := n\<rparr>, k, e)"
| outside: "env (net y) n \<Longrightarrow> lat_step TA TB env m (y, k, e) (y\<lparr>net := n\<rparr>, k, e)"

inductive lat_reach :: "'n UdpTransport \<Rightarrow> 'n UdpTransport \<Rightarrow> ('n \<Rightarrow> 'n \<Rightarrow> bool) \<Rightarrow> nat \<Rightarrow> 'n Pair \<Rightarrow> 'n LatRun \<Rightarrow> bool"
  for TA TB env m y0 where
  start: "lat_reach TA TB env m y0 (y0, 0, False)"
| step: "lat_reach TA TB env m y0 x \<Longrightarrow> lat_step TA TB env m x x' \<Longrightarrow> lat_reach TA TB env m y0 x'"

text \<open>The messages accepted so far.\<close>

definition lat_messages :: "nat \<Rightarrow> nat list \<Rightarrow> nat option \<Rightarrow> bytes list" where
  "lat_messages m tss te =
     map (\<lambda>(k, ts). lat_msg m ts (word_of_nat k)) (List.enumerate 0 tss) @ (case te of None \<Rightarrow> [] | Some ts \<Rightarrow> [lat_msg m ts kEndSeq])"

definition lat_inv :: "nat \<Rightarrow> 'n LatRun \<Rightarrow> bool" where
  "lat_inv m x \<longleftrightarrow> (case x of (y, k, e) \<Rightarrow>
     (\<exists>tss te. acc_a y = map (Pair ReliableOrdered) (lat_messages m tss te) \<and> length tss = k \<and> (te \<noteq> None) = e)
     \<and> acc_b y = [] \<and> length (acc_a y) < 2 ^ 32 \<and> app_ready (rx_side (pb y)))"

lemma enumerate_snoc: "List.enumerate 0 (tss @ [ts]) = List.enumerate 0 tss @ [(length tss, ts)]"
  by (simp add: List.enumerate_append_eq)

lemma lat_messages_snoc [simp]:
  "lat_messages m (tss @ [ts]) None = lat_messages m tss None @ [lat_msg m ts (word_of_nat (length tss))]"
  "lat_messages m tss (Some te) = lat_messages m tss None @ [lat_msg m te kEndSeq]"
  by (simp_all add: lat_messages_def enumerate_snoc)

lemma lat_step_inv:
  assumes "lat_step TA TB env m x x'" "lat_inv m x"
  shows "pair_step U UB TA TB env (fst x) (fst x') \<and> lat_inv m x'"
  using assms(1)
proof cases
  case (message ts k y ok y')
  note o = offer_step [OF message(3,4)]
  obtain tss where "acc_a y = map (Pair ReliableOrdered) (lat_messages m tss None)" "length tss = k"
    using assms(2) message by (auto simp: lat_inv_def)
  then have "acc_a y' = map (Pair ReliableOrdered) (lat_messages m (if ok then tss @ [ts] else tss) None)"
    using o(2) by simp
  then show ?thesis using o(1,3,4) message assms(2) \<open>length tss = k\<close>
    by (auto simp: lat_inv_def intro!: exI [of _ "if ok then tss @ [ts] else tss"] exI [of _ None])
next
  case (marker ts y ok y' k)
  note o = offer_step [OF marker(3,4)]
  obtain tss where "acc_a y = map (Pair ReliableOrdered) (lat_messages m tss None)" "length tss = k"
    using assms(2) marker by (auto simp: lat_inv_def)
  then have "acc_a y' = map (Pair ReliableOrdered) (lat_messages m tss (if ok then Some ts else None))"
    using o(2) by simp
  then show ?thesis using o(1,3,4) marker assms(2) \<open>length tss = k\<close>
    by (auto simp: lat_inv_def intro!: exI [of _ tss] exI [of _ "if ok then Some ts else None"])
next
  case (poll_a y b s n k e)
  then show ?thesis using assms(2) same_acc_step(1) [OF _ _ side_step.poll [OF poll_a(3)]] by (simp add: lat_inv_def)
next
  case (tick_a y s n k e)
  then show ?thesis using assms(2) same_acc_step(1) [OF _ _ side_step.tick [OF tick_a(3)]] by (simp add: lat_inv_def)
next
  case (poll_b y b s n k e)
  then show ?thesis using assms(2) same_acc_step(2) [OF _ _ side_step.poll [OF poll_b(3)]] poll_ready [OF poll_b(3)] by (simp add: lat_inv_def)
next
  case (tick_b y s n k e)
  then show ?thesis using assms(2) same_acc_step(2) [OF _ _ side_step.tick [OF tick_b(3)]] tick_rx [OF tick_b(3)] by (simp add: lat_inv_def)
next
  case (outside y n k e)
  then show ?thesis using assms(2) pair_step.outside [of env y n U UB TA TB] by (simp add: lat_inv_def)
qed

lemma lat_reach_inv:
  assumes "lat_reach TA TB env m y0 x" "lat_inv m (y0, 0, False)"
  shows "pair_reach U UB TA TB env y0 (fst x) \<and> lat_inv m x"
  using assms(1)
proof induction
  case start
  then show ?case using assms(2) by (simp add: pair_reach.start)
next
  case (step x x')
  then show ?case using lat_step_inv [OF step(2), of U UB] pair_reach.step by blast
qed

section \<open>What the receiver counts\<close>

definition counts_of :: "nat \<Rightarrow> Session \<Rightarrow> LatCounts" where
  "counts_of m s = foldl (\<lambda>c e. lat_count m (snd e) c) new_counts (app_log (rx_side s))"

lemma read_lat_msg [simp]: "16 \<le> m \<Longrightarrow> read_msg (lat_msg m ts seq) = Some (word_of_nat ts, seq)"
  by (simp add: lat_msg_def write_msg_eq read_msg_written)

lemma count_messages:
  assumes "16 \<le> m" "length tss < 2 ^ 32"
  shows "foldl (\<lambda>c d. lat_count m d c) new_counts (lat_messages m tss None) =
    \<lparr>lc_received = length tss, lc_goodput = length tss * m, lc_max_seq = word_of_nat (length tss - 1), lc_short = 0, lc_nonmonotonic = 0,
     lc_last_seq = (if tss = [] then None else Some (word_of_nat (length tss - 1))), lc_end = False\<rparr>"
  using assms(2)
proof (induction tss rule: rev_induct)
  case Nil
  then show ?case by (simp add: lat_messages_def new_counts_def)
next
  case (snoc ts tss)
  let ?k = "length tss"
  have k: "?k < 2 ^ 64" "(word_of_nat ?k :: u64) \<noteq> kEndSeq" using snoc.prems not_end_seq [of ?k] by simp_all
  have "(word_of_nat (?k - 1) :: u64) < word_of_nat ?k" if "tss \<noteq> []"
    using that k(1) by (simp add: word_less_nat_alt unat_of_nat take_bit_nat_eq_self)
  moreover have "foldl (\<lambda>c d. lat_count m d c) new_counts (lat_messages m (tss @ [ts]) None) =
      lat_count m (lat_msg m ts (word_of_nat ?k)) (foldl (\<lambda>c d. lat_count m d c) new_counts (lat_messages m tss None))"
    by simp
  ultimately show ?case using snoc.IH snoc.prems k(2) assms(1)
    by (cases "tss = []") (auto simp: lat_count_def max_def not_le dest: less_asym)
qed

lemma take_lat_messages: "j \<le> length tss \<Longrightarrow> take j (lat_messages m tss None) = lat_messages m (take j tss) None"
proof (induction tss rule: rev_induct)
  case (snoc ts tss)
  have "length (lat_messages m tss None) = length tss" by (simp add: lat_messages_def)
  then show ?case using snoc by (cases "j = Suc (length tss)") simp_all
qed (simp add: lat_messages_def)

lemma lat_messages_prefix:
  assumes "prefix ds (lat_messages m tss te)"
  shows "(\<exists>j \<le> length tss. ds = lat_messages m (take j tss) None) \<or> te \<noteq> None \<and> ds = lat_messages m tss te"
proof -
  let ?a = "lat_messages m tss None"
  have l: "length ?a = length tss" by (simp add: lat_messages_def)
  show ?thesis
  proof (cases "prefix ds ?a")
    case True
    then have "ds = take (length ds) ?a" "length ds \<le> length tss" using l by (auto simp: prefix_def)
    then show ?thesis using take_lat_messages by metis
  next
    case False
    then show ?thesis using assms by (cases te) auto
  qed
qed

lemma counts_of_log:
  assumes "prefix (app_log (rx_side s)) (map (Pair ReliableOrdered) (lat_messages m tss te))" "16 \<le> m" "length tss < 2 ^ 32"
  shows "lc_short (counts_of m s) = 0 \<and> lc_nonmonotonic (counts_of m s) = 0 \<and> lc_received (counts_of m s) \<le> length tss
    \<and> lc_goodput (counts_of m s) = lc_received (counts_of m s) * m \<and> (lc_end (counts_of m s) \<longrightarrow> te \<noteq> None \<and> lc_received (counts_of m s) = length tss)
    \<and> (app_log (rx_side s) = map (Pair ReliableOrdered) (lat_messages m tss te) \<longrightarrow> lc_received (counts_of m s) = length tss \<and> (te \<noteq> None \<longrightarrow> lc_end (counts_of m s)))"
proof -
  obtain ds where ds: "app_log (rx_side s) = map (Pair ReliableOrdered) ds" "prefix ds (lat_messages m tss te)"
    using assms(1) by (metis (no_types, lifting) append_eq_map_conv prefix_def)
  have c: "counts_of m s = foldl (\<lambda>c d. lat_count m d c) new_counts ds" by (simp add: counts_of_def ds(1) foldl_map)
  consider j where "j \<le> length tss" "ds = lat_messages m (take j tss) None" | "te \<noteq> None" "ds = lat_messages m tss te"
    using lat_messages_prefix [OF ds(2)] by blast
  then show ?thesis
  proof cases
    case 1
    have "j = length tss \<and> te = None" if "ds = lat_messages m tss te"
      using that 1 by (auto simp: lat_messages_def dest: arg_cong [where f = length] split: option.splits)
    then have "app_log (rx_side s) = map (Pair ReliableOrdered) (lat_messages m tss te) \<Longrightarrow> j = length tss \<and> te = None"
      using ds(1) by (simp add: inj_map_eq_map inj_on_def)
    moreover have "lc_received (counts_of m s) = j \<and> lc_goodput (counts_of m s) = j * m \<and> lc_short (counts_of m s) = 0
        \<and> lc_nonmonotonic (counts_of m s) = 0 \<and> \<not> lc_end (counts_of m s)"
      using 1 c count_messages [OF assms(2), of "take j tss"] assms(3) by (simp add: min_absorb2)
    ultimately show ?thesis using 1(1) by simp
  next
    case 2
    then obtain t where "te = Some t" by blast
    then show ?thesis using 2 c count_messages [OF assms(2,3)] assms(2) by (simp add: lat_count_def)
  qed
qed

text \<open>The loop's counters are those of the session's log.\<close>

lemma fst_foldl_message: "fst (foldl (lat_on_message clk m) st es) = foldl (\<lambda>c e. lat_count m (snd e) c) (fst st) es"
  by (induction es arbitrary: st) (simp_all add: lat_on_message_def)

lemma lat_round_counts:
  assumes "lat_round T clk m idle hard st s n = Some (goon, st', s', n')" "fst st = counts_of m s"
  shows "fst st' = counts_of m s'"
proof -
  obtain b s1 n1 where p: "poll T s n = (b, s1, n1)" by (metis prod_cases3)
  obtain s2 n2 where k: "tick T s1 n1 = Some (s2, n2)" using assms(1) p by (auto simp: lat_round_def Let_def split: option.splits)
  have s': "s' = s2" and c': "fst st' = fst (foldl (lat_on_message clk m) st (drop (length (app_log (rx_side s))) (app_log (rx_side s2))))"
    using assms(1) p k by (auto simp: lat_round_def Let_def split: prod.splits)
  obtain new where "app_log (rx_side s2) = app_log (rx_side s) @ new"
    using poll_log [OF p] tick_rx [OF k] by (auto simp: prefix_def)
  then show ?thesis using s' c' assms(2) by (simp add: fst_foldl_message counts_of_def)
qed

lemma lat_loop_counts:
  assumes "lat_loop T wait clk m idle hard st s n = Some (st', s', n')" "fst st = counts_of m s"
  shows "fst st' = counts_of m s'"
proof -
  let ?P = "\<lambda>T (wait :: 'a \<Rightarrow> 'a) clk m (idle :: nat) (hard :: nat) st s n x. fst st = counts_of m s \<longrightarrow> fst (fst x) = counts_of m (fst (snd x))"
  have "?P T wait clk m idle hard st s n (st', s', n')"
  proof (rule lat_loop.raw_induct [where P = ?P, OF _ assms(1)])
    fix l and T :: "'a UdpTransport" and wait clk m idle hard st s n x
    assume ih: "\<And>T wait clk m idle hard st s n x. l T wait clk m idle hard st s n = Some x \<Longrightarrow> ?P T wait clk m idle hard st s n x"
      and x: "(case lat_round T clk m idle hard st s n of None \<Rightarrow> None
        | Some (goon, st, s, n) \<Rightarrow> if goon then l T wait clk m idle hard st s (wait n) else Some (st, s, n)) = Some x"
    show "?P T wait clk m idle hard st s n x"
      using x lat_round_counts [of T clk m idle hard st s n]
      by (auto split: option.splits prod.splits if_splits dest!: ih)
  qed
  then show ?thesis using assms(2) by simp
qed

section \<open>The calls of the sender are steps\<close>

definition lat_at :: "'n UdpTransport \<Rightarrow> 'n UdpTransport \<Rightarrow> ('n \<Rightarrow> 'n \<Rightarrow> bool) \<Rightarrow> nat \<Rightarrow> 'n Pair \<Rightarrow> nat \<Rightarrow> bool \<Rightarrow> Session \<Rightarrow> 'n \<Rightarrow> bool" where
  "lat_at TA TB env m y0 k e s n \<longleftrightarrow> (\<exists>y. lat_reach TA TB env m y0 (y, k, e) \<and> pa y = s \<and> net y = n)"

lemma at_pump:
  assumes "lat_at TA TB env m y0 k e s n" "lat_pump TA s n = Some (s', n')"
  shows "lat_at TA TB env m y0 k e s' n'"
proof -
  obtain y where y: "lat_reach TA TB env m y0 (y, k, e)" "pa y = s" "net y = n" using assms(1) by (auto simp: lat_at_def)
  obtain b s1 n1 where p: "poll TA s n = (b, s1, n1)" "tick TA s1 n1 = Some (s', n')" using assms(2) by (auto simp: lat_pump_def split: prod.splits)
  have "lat_reach TA TB env m y0 (y\<lparr>pa := s1, net := n1\<rparr>, k, e)" by (rule lat_reach.step [OF y(1) lat_step.poll_a]) (use y p(1) in simp)
  from lat_reach.step [OF this lat_step.tick_a] p(2) show ?thesis unfolding lat_at_def by fastforce
qed

lemma at_wait:
  assumes "lat_at TA TB env m y0 k e s n" "env n n'"
  shows "lat_at TA TB env m y0 k e s n'"
  using assms lat_reach.step [OF _ lat_step.outside] unfolding lat_at_def by fastforce

lemma at_offer:
  assumes "lat_at TA TB env m y0 k False s n" "lat_inv m (y0, 0, False)" "k + 1 < 2 ^ 32" "send TA ReliableOrdered d s n = (ok, s', n')"
  shows "d = lat_msg m ts (word_of_nat k) \<Longrightarrow> lat_at TA TB env m y0 (if ok then k + 1 else k) False s' n'"
    and "d = lat_msg m ts kEndSeq \<Longrightarrow> lat_at TA TB env m y0 k ok s' n'"
proof -
  obtain y where y: "lat_reach TA TB env m y0 (y, k, False)" "pa y = s" "net y = n" using assms(1) by (auto simp: lat_at_def)
  have "length (acc_a y) = k" using lat_reach_inv [OF y(1) assms(2), of "{}" "{}"] by (auto simp: lat_inv_def lat_messages_def)
  let ?y = "y\<lparr>pa := s', net := n', acc_a := acc_a y @ (if ok then [(ReliableOrdered, d)] else [])\<rparr>"
  have o: "offer TA d y = (ok, ?y)" using assms(4) y by (simp add: offer_def)
  have l: "length (acc_a ?y) < 2 ^ 32" using \<open>length (acc_a y) = k\<close> assms(3) by simp
  show "lat_at TA TB env m y0 (if ok then k + 1 else k) False s' n'" if "d = lat_msg m ts (word_of_nat k)"
    unfolding lat_at_def using lat_reach.step [OF y(1) lat_step.message [OF o [unfolded that] l [unfolded that]]] by fastforce
  show "lat_at TA TB env m y0 k ok s' n'" if "d = lat_msg m ts kEndSeq"
    unfolding lat_at_def using lat_reach.step [OF y(1) lat_step.marker [OF o [unfolded that] l [unfolded that]]] by fastforce
qed

text \<open>A predicate that the calls in a loop keep holds when the loop ends.\<close>

lemma send_until_keeps:
  assumes "send_until T cls d s n = Some (s', n')" "Q s n"
    and "\<And>s n s' n'. Q s n \<Longrightarrow> lat_pump T s n = Some (s', n') \<Longrightarrow> Q s' n'" "\<And>s n s' n'. Q s n \<Longrightarrow> send T cls d s n = (False, s', n') \<Longrightarrow> Q s' n'"
  shows "\<exists>s0 n0. Q s0 n0 \<and> send T cls d s0 n0 = (True, s', n')"
proof -
  let ?P = "\<lambda>T' cls' d' s n (x :: Session \<times> 'a). T' = T \<and> cls' = cls \<and> d' = d \<and> Q s n \<longrightarrow> (\<exists>s0 n0. Q s0 n0 \<and> send T cls d s0 n0 = (True, x))"
  have "?P T cls d s n (s', n')"
  proof (rule send_until.raw_induct [where P = ?P, OF _ assms(1)])
    fix f and T' :: "'a UdpTransport" and cls' d' s n x
    assume ih: "\<And>T' cls' d' s n x. f T' cls' d' s n = Some x \<Longrightarrow> ?P T' cls' d' s n x"
      and x: "(case send T' cls' d' s n of (ok, s, n) \<Rightarrow> if ok then Some (s, n) else Option.bind (lat_pump T' s n) (\<lambda>(s, n). f T' cls' d' s n)) = Some x"
    obtain ok s1 n1 where snd: "send T' cls' d' s n = (ok, s1, n1)" by (metis prod_cases3)
    show "?P T' cls' d' s n x"
    proof (cases ok)
      case True
      then show ?thesis using x snd by auto
    next
      case False
      then obtain s2 n2 where "lat_pump T' s1 n1 = Some (s2, n2)" "f T' cls' d' s2 n2 = Some x"
        using x snd by (auto simp: Option.bind_eq_Some_conv)
      moreover have "send T' cls' d' s n = (False, s1, n1)" using snd False by simp
      ultimately show ?thesis using assms(3,4) ih by blast
    qed
  qed
  then show ?thesis using assms(2) by simp
qed

lemma pump_until_keeps:
  assumes "pump_until T wait clk target i s n = Some (j, s', n')" "Q s n"
    and "\<And>s n s' n'. Q s n \<Longrightarrow> lat_pump T s n = Some (s', n') \<Longrightarrow> Q s' n' \<and> Q s' (wait n')"
  shows "Q s' n'"
proof -
  let ?P = "\<lambda>T' wait' (clk :: nat \<Rightarrow> nat) (target :: nat) (i :: nat) s n (x :: nat \<times> Session \<times> 'a).
    T' = T \<and> wait' = wait \<and> Q s n \<longrightarrow> Q (fst (snd x)) (snd (snd x))"
  have "?P T wait clk target i s n (j, s', n')"
  proof (rule pump_until.raw_induct [where P = ?P, OF _ assms(1)])
    fix f and T' :: "'a UdpTransport" and wait' clk target i s n x
    assume ih: "\<And>T' wait' clk target i s n x. f T' wait' clk target i s n = Some x \<Longrightarrow> ?P T' wait' clk target i s n x"
      and x: "Option.bind (lat_pump T' s n) (\<lambda>(s, n). if target \<le> clk i then Some (i + 1, s, n)
        else f T' wait' clk target (i + 1) s (if 150000 < target - clk i then wait' n else n)) = Some x"
    obtain s2 n2 where "lat_pump T' s n = Some (s2, n2)" and x2: "(if target \<le> clk i then Some (i + 1, s2, n2)
        else f T' wait' clk target (i + 1) s2 (if 150000 < target - clk i then wait' n2 else n2)) = Some x"
      using x by (auto simp: Option.bind_eq_Some_conv)
    then show "?P T' wait' clk target i s n x" using assms(3) ih [of T' wait' clk target "i + 1" s2 _ x] by (auto split: if_splits)
  qed
  then show ?thesis using assms(2) by simp
qed

lemma drain_ring_keeps:
  assumes "drain_ring T wait s n = Some (s', n')" "Q s n" "\<And>s n s' n'. Q s n \<Longrightarrow> lat_pump T s n = Some (s', n') \<Longrightarrow> Q s' (wait n')"
  shows "Q s' n' \<and> ring (tx_side s') = []"
proof -
  let ?P = "\<lambda>T' wait' s n (x :: Session \<times> 'a). T' = T \<and> wait' = wait \<and> Q s n \<longrightarrow> Q (fst x) (snd x) \<and> ring (tx_side (fst x)) = []"
  have "?P T wait s n (s', n')"
  proof (rule drain_ring.raw_induct [where P = ?P, OF _ assms(1)])
    fix f and T' :: "'a UdpTransport" and wait' s n x
    assume ih: "\<And>T' wait' s n x. f T' wait' s n = Some x \<Longrightarrow> ?P T' wait' s n x"
      and x: "(if ring (tx_side s) = [] then Some (s, n) else Option.bind (lat_pump T' s n) (\<lambda>(s, n). f T' wait' s (wait' n))) = Some x"
    show "?P T' wait' s n x"
    proof (cases "ring (tx_side s) = []")
      case False
      then obtain s2 n2 where "lat_pump T' s n = Some (s2, n2)" "f T' wait' s2 (wait' n2) = Some x"
        using x by (auto simp: Option.bind_eq_Some_conv)
      then show ?thesis using assms(3) ih by blast
    qed (use x in auto)
  qed
  then show ?thesis using assms(2) by simp
qed

lemma pump_while_keeps:
  assumes "pump_while T clk extra i s n = Some (s', n')" "Q s n" "\<And>s n s' n'. Q s n \<Longrightarrow> lat_pump T s n = Some (s', n') \<Longrightarrow> Q s' n'"
  shows "Q s' n'"
proof -
  let ?P = "\<lambda>T' (clk :: nat \<Rightarrow> nat) (extra :: nat) (i :: nat) s n (x :: Session \<times> 'a). T' = T \<and> Q s n \<longrightarrow> Q (fst x) (snd x)"
  have "?P T clk extra i s n (s', n')"
  proof (rule pump_while.raw_induct [where P = ?P, OF _ assms(1)])
    fix f and T' :: "'a UdpTransport" and clk extra i s n x
    assume ih: "\<And>T' clk extra i s n x. f T' clk extra i s n = Some x \<Longrightarrow> ?P T' clk extra i s n x"
      and x: "(if extra \<le> clk i then Some (s, n) else Option.bind (lat_pump T' s n) (\<lambda>(s, n). f T' clk extra (i + 1) s n)) = Some x"
    show "?P T' clk extra i s n x"
      using x assms(3) ih by (auto simp: Option.bind_eq_Some_conv split: if_splits)
  qed
  then show ?thesis using assms(2) by simp
qed

lemma lat_throughput_run:
  assumes "lat_throughput T clk ReliableOrdered m fin k i s n = Some (k', j, s', n')" "lat_inv m (y0, 0, False)"
  shows "k \<le> k' \<and> (k' + 1 < 2 ^ 32 \<and> lat_at T TB env m y0 k False s n \<longrightarrow> lat_at T TB env m y0 k' False s' n')"
proof -
  let ?P = "\<lambda>T' (clk :: nat \<Rightarrow> nat) cls m' (fin :: nat) k (i :: nat) s n (x :: nat \<times> nat \<times> Session \<times> 'a). T' = T \<and> cls = ReliableOrdered \<and> m' = m \<longrightarrow>
    k \<le> fst x \<and> (fst x + 1 < 2 ^ 32 \<and> lat_at T TB env m y0 k False s n \<longrightarrow> lat_at T TB env m y0 (fst x) False (fst (snd (snd x))) (snd (snd (snd x))))"
  have "?P T clk ReliableOrdered m fin k i s n (k', j, s', n')"
  proof (rule lat_throughput.raw_induct [where P = ?P, OF _ assms(1)])
    fix f and T' :: "'a UdpTransport" and clk cls m' fin k i s n x
    assume ih: "\<And>T' clk cls m' fin k i s n x. f T' clk cls m' fin k i s n = Some x \<Longrightarrow> ?P T' clk cls m' fin k i s n x"
      and x: "(if fin \<le> clk i then Some (k, i + 1, s, n)
      else case send T' cls (lat_msg m' (clk (i + 1)) (word_of_nat k)) s n of
        (ok, s, n) \<Rightarrow>
          if ok then f T' clk cls m' fin (k + 1) (i + 2) s n
          else Option.bind (lat_pump T' s n) (\<lambda>(s, n). f T' clk cls m' fin k (i + 2) s n)) = Some x"
    show "?P T' clk cls m' fin k i s n x"
    proof (intro impI)
      assume eq: "T' = T \<and> cls = ReliableOrdered \<and> m' = m"
      obtain ok s1 n1 where snd: "send T ReliableOrdered (lat_msg m (clk (i + 1)) (word_of_nat k)) s n = (ok, s1, n1)" by (metis prod_cases3)
      note o = at_offer(1) [OF _ assms(2) _ snd refl, of TB env]
      consider "fin \<le> clk i" "x = (k, i + 1, s, n)" | "ok" "f T clk cls m fin (k + 1) (i + 2) s1 n1 = Some x"
        | s2 n2 where "\<not> ok" "lat_pump T s1 n1 = Some (s2, n2)" "f T clk cls m fin k (i + 2) s2 n2 = Some x"
        using x snd eq by (auto simp: Option.bind_eq_Some_conv split: if_splits)
      then show "k \<le> fst x \<and> (fst x + 1 < 2 ^ 32 \<and> lat_at T TB env m y0 k False s n \<longrightarrow> lat_at T TB env m y0 (fst x) False (fst (snd (snd x))) (snd (snd (snd x))))"
      proof cases
        case 2
        then show ?thesis using ih [OF 2(2)] o eq by auto
      next
        case 3
        then show ?thesis using ih [OF 3(3)] o eq at_pump [OF _ 3(2), of TB env m y0 k False] by auto
      qed simp
    qed
  qed
  then show ?thesis by simp
qed

lemma send_until_run:
  assumes "send_until T ReliableOrdered d s n = Some (s', n')" "lat_at T TB env m y0 k False s n" "lat_inv m (y0, 0, False)" "k + 1 < 2 ^ 32"
  shows "d = lat_msg m ts (word_of_nat k) \<Longrightarrow> lat_at T TB env m y0 (k + 1) False s' n'"
    and "d = lat_msg m ts kEndSeq \<Longrightarrow> lat_at T TB env m y0 k True s' n'"
proof -
  show "lat_at T TB env m y0 (k + 1) False s' n'" if d: "d = lat_msg m ts (word_of_nat k)"
  proof -
    have "\<exists>s0 n0. lat_at T TB env m y0 k False s0 n0 \<and> send T ReliableOrdered d s0 n0 = (True, s', n')"
      using at_offer(1) [OF _ assms(3,4) _ d, of T TB env _ _ False]
      by (intro send_until_keeps [where Q = "lat_at T TB env m y0 k False", OF assms(1,2)]) (auto intro: at_pump)
    then show ?thesis using at_offer(1) [OF _ assms(3,4) _ d, of T TB env _ _ True] by auto
  qed
  show "lat_at T TB env m y0 k True s' n'" if d: "d = lat_msg m ts kEndSeq"
  proof -
    have "\<exists>s0 n0. lat_at T TB env m y0 k False s0 n0 \<and> send T ReliableOrdered d s0 n0 = (True, s', n')"
      using at_offer(2) [OF _ assms(3,4) _ d, of T TB env _ _ False]
      by (intro send_until_keeps [where Q = "lat_at T TB env m y0 k False", OF assms(1,2)]) (auto intro: at_pump)
    then show ?thesis using at_offer(2) [OF _ assms(3,4) _ d] by auto
  qed
qed

lemma lat_open_loop_run:
  assumes "lat_open_loop T wait clk offs ReliableOrdered m start dur k i s n = Some (k', j, s', n')" "lat_inv m (y0, 0, False)" "\<And>n. env n (wait n)"
  shows "k \<le> k' \<and> (k' + 1 < 2 ^ 32 \<and> lat_at T TB env m y0 k False s n \<longrightarrow> lat_at T TB env m y0 k' False s' n')"
proof -
  let ?P = "\<lambda>T' wait' (clk :: nat \<Rightarrow> nat) (offs :: nat \<Rightarrow> rat) cls m' (start :: nat) (dur :: nat) k (i :: nat) s n (x :: nat \<times> nat \<times> Session \<times> 'a).
    T' = T \<and> wait' = wait \<and> cls = ReliableOrdered \<and> m' = m \<longrightarrow>
    k \<le> fst x \<and> (fst x + 1 < 2 ^ 32 \<and> lat_at T TB env m y0 k False s n \<longrightarrow> lat_at T TB env m y0 (fst x) False (fst (snd (snd x))) (snd (snd (snd x))))"
  have "?P T wait clk offs ReliableOrdered m start dur k i s n (k', j, s', n')"
  proof (rule lat_open_loop.raw_induct [where P = ?P, OF _ assms(1)])
    fix f and T' :: "'a UdpTransport" and wait' clk offs cls m' start dur k i s n x
    assume ih: "\<And>T' wait' clk offs cls m' start dur k i s n x. f T' wait' clk offs cls m' start dur k i s n = Some x \<Longrightarrow> ?P T' wait' clk offs cls m' start dur k i s n x"
      and x: "(let intended = start + nat \<lfloor>fl (offs k * 1000000000)\<rfloor>
      in if dur < intended - start then Some (k, i, s, n)
         else if dur + 15000000000 < elapsed (clk i) start then Some (k, i + 1, s, n)
         else Option.bind (pump_until T' wait' clk intended (i + 1) s n) (\<lambda>(i, s, n).
              Option.bind (send_until T' cls (lat_msg m' intended (word_of_nat k)) s n) (\<lambda>(s, n).
              f T' wait' clk offs cls m' start dur (k + 1) i s n))) = Some x"
    show "?P T' wait' clk offs cls m' start dur k i s n x"
    proof (intro impI)
      assume eq: "T' = T \<and> wait' = wait \<and> cls = ReliableOrdered \<and> m' = m"
      define t where "t = start + nat \<lfloor>fl (offs k * 1000000000)\<rfloor>"
      consider j where "x = (k, j, s, n)"
        | j s1 n1 s2 n2 where "pump_until T wait clk t (i + 1) s n = Some (j, s1, n1)" "send_until T ReliableOrdered (lat_msg m t (word_of_nat k)) s1 n1 = Some (s2, n2)"
          "f T wait clk offs ReliableOrdered m start dur (k + 1) j s2 n2 = Some x"
        using x eq unfolding Let_def t_def [symmetric] by (auto simp: Option.bind_eq_Some_conv split: if_splits)
      then show "k \<le> fst x \<and> (fst x + 1 < 2 ^ 32 \<and> lat_at T TB env m y0 k False s n \<longrightarrow> lat_at T TB env m y0 (fst x) False (fst (snd (snd x))) (snd (snd (snd x))))"
      proof cases
        case 2
        have "lat_at T TB env m y0 k False s n \<Longrightarrow> lat_at T TB env m y0 k False s1 n1"
          using assms(3) by (elim pump_until_keeps [where Q = "lat_at T TB env m y0 k False", OF 2(1)]) (auto intro: at_pump at_wait)
        then have "lat_at T TB env m y0 k False s n \<Longrightarrow> k + 1 < 2 ^ 32 \<Longrightarrow> lat_at T TB env m y0 (k + 1) False s2 n2"
          using send_until_run(1) [OF 2(2) _ assms(2) _ refl] by blast
        then show ?thesis using ih [OF 2(3)] by auto
      qed simp
    qed
  qed
  then show ?thesis by simp
qed

text \<open>When the sender returns, its calls made a run in which the session accepted the number of messages it reports, and the end marker.\<close>

lemma lat_sender_run:
  assumes "lat_sender T wait clk offs thr ReliableOrdered m dur (pa y0) (net y0) = Some (k, s', n')"
    and "lat_inv m (y0, 0, False)" "k + 1 < 2 ^ 32" "\<And>n. env n (wait n)"
  shows "lat_at T TB env m y0 k True s' n'"
proof -
  obtain i s1 n1 s2 n2 s3 n3 s4 n4 where
    l: "(if thr then lat_throughput T clk ReliableOrdered m (clk 0 + dur * 1000000000) 0 1 (pa y0) (net y0)
        else lat_open_loop T wait clk offs ReliableOrdered m (clk 0) (dur * 1000000000) 0 1 (pa y0) (net y0)) = Some (k, i, s1, n1)"
    and d1: "drain_ring T wait s1 n1 = Some (s2, n2)" and e: "send_until T ReliableOrdered (lat_msg m (clk i) kEndSeq) s2 n2 = Some (s3, n3)"
    and d2: "drain_ring T wait s3 n3 = Some (s4, n4)" and w: "pump_while T clk (clk (i + 1) + 300000000) (i + 2) s4 n4 = Some (s', n')"
    using assms(1) unfolding lat_sender_def by (auto simp: Option.bind_eq_Some_conv split del: if_split)
  have pump_wait: "lat_at T TB env m y0 k e s' (wait n')" if "lat_at T TB env m y0 k e s n" "lat_pump T s n = Some (s', n')" for e s n s' n'
    by (rule at_wait [OF at_pump [OF that] assms(4)])
  have "lat_at T TB env m y0 0 False (pa y0) (net y0)" unfolding lat_at_def using lat_reach.start by blast
  then have "lat_at T TB env m y0 k False s1 n1"
    using l lat_throughput_run [OF _ assms(2)] lat_open_loop_run [where env = env and wait = wait, OF _ assms(2,4)] assms(3) by (auto split: if_splits)
  then have "lat_at T TB env m y0 k False s2 n2"
    by (rule drain_ring_keeps [where Q = "lat_at T TB env m y0 k False", THEN conjunct1, OF d1]) (rule pump_wait)
  from send_until_run(2) [OF e this assms(2,3) refl] have "lat_at T TB env m y0 k True s3 n3" .
  then have "lat_at T TB env m y0 k True s4 n4"
    by (rule drain_ring_keeps [where Q = "lat_at T TB env m y0 k True", THEN conjunct1, OF d2]) (rule pump_wait)
  then show ?thesis by (rule pump_while_keeps [where Q = "lat_at T TB env m y0 k True", OF w]) (rule at_pump)
qed

context session_pair
begin

lemma lat_run:
  assumes "lat_reach TA TB env m (one_way_pair ea eb ca cb w) (y, k, e)" "16 \<le> m"
    and "ea \<noteq> eb" "config_ok ca" "config_ok cb" "\<And>e d. (ea, d) \<notin> wire w e" "\<And>e d. (eb, d) \<notin> wire w e"
  shows "lc_short (counts_of m (pb y)) = 0 \<and> lc_nonmonotonic (counts_of m (pb y)) = 0 \<and> lc_received (counts_of m (pb y)) \<le> k
    \<and> lc_goodput (counts_of m (pb y)) = lc_received (counts_of m (pb y)) * m
    \<and> (lc_end (counts_of m (pb y)) \<longrightarrow> e \<and> lc_received (counts_of m (pb y)) = k)
    \<and> (ring (tx_side (pa y)) = [] \<and> pending (tx_side (pa y)) = [] \<longrightarrow> lc_received (counts_of m (pb y)) = k \<and> lc_end (counts_of m (pb y)) = e)"
proof -
  have "lat_inv m (one_way_pair ea eb ca cb w, 0, False)"
    by (auto simp: lat_inv_def one_way_pair_def set_on_message_def new_session_def new_recv_side_def lat_messages_def intro!: exI [of _ "[]"] exI [of _ None])
  from lat_reach_inv [OF assms(1) this, of "{}" "{}"]
  have i: "pair_reach {} {} TA TB env (one_way_pair ea eb ca cb w) y" "lat_inv m (y, k, e)" by simp_all
  obtain tss te where t: "acc_a y = map (Pair ReliableOrdered) (lat_messages m tss te)" "length tss = k" "(te \<noteq> None) = e"
    and b: "length (acc_a y) < 2 ^ 32" "app_ready (rx_side (pb y))" using i(2) unfolding lat_inv_def prod.case by blast
  obtain y' where y': "y = mute_a y'" "pair_inv {} {} y'" by (rule one_way_inv [OF i(1) assms(3-7)])
  then have s: "sess_inv {} (acc_a y) (acc_b y) (received (rx_side (pb y))) (pa y')" "sess_inv {} (acc_b y) (acc_a y) (received (rx_side (pa y'))) (pb y)"
    and tx: "tx_side (pa y) = tx_side (pa y')" by (simp_all add: pair_inv_def)
  have o: "\<And>x. x \<in> set (acc_a y) \<Longrightarrow> fst x = ReliableOrdered" using t(1) by auto
  have k: "length tss < 2 ^ 32" using b(1) t(1) by (simp add: lat_messages_def)
  note c = counts_of_log [OF ordered_only_prefix [OF s(2) o, unfolded t(1)] assms(2) k]
  have "app_log (rx_side (pb y)) = map (Pair ReliableOrdered) (lat_messages m tss te)"
    if "ring (tx_side (pa y)) = []" "pending (tx_side (pa y)) = []"
    using drained_log [OF s _ b(2) o] that tx t(1) by auto
  then show ?thesis using c t(2,3) by auto
qed

end

context udp_pair
begin

lemmas benchmark_counts = counted.lat_run

end

lemma throughput_once:
  assumes "clk 1 < fin" "fin \<le> clk 3" "send T cls (lat_msg m (clk 2) 0) s n = (True, s', n')"
  shows "lat_throughput T clk cls m fin 0 1 s n = Some (1, 4, s', n')"
proof -
  have e: "lat_throughput T clk cls m fin 1 3 s' n' = Some (1, 4, s', n')" using assms(2) by (subst lat_throughput.simps) simp
  show ?thesis using assms(1,3) e by (subst lat_throughput.simps) (simp add: numeral_2_eq_2 numeral_3_eq_3)
qed

section \<open>The accounting of the closed loop\<close>

text \<open>Handling messages only adds samples, and a reply comes with a sample; the timeouts and the expected sequence number stay.\<close>

definition rr_more :: "RrClient \<Rightarrow> RrClient \<Rightarrow> bool" where
  "rr_more c c' \<longleftrightarrow> length (rr_samples c) \<le> length (rr_samples c') \<and> rr_timeout c' = rr_timeout c
     \<and> (got_reply c' \<and> \<not> got_reply c \<longrightarrow> length (rr_samples c) < length (rr_samples c')) \<and> (got_reply c \<longrightarrow> got_reply c')"

lemma rr_more_refl [simp]: "rr_more c c"
  by (simp add: rr_more_def)

lemma rr_more_trans: "rr_more a b \<Longrightarrow> rr_more b c \<Longrightarrow> rr_more a c"
  by (auto simp: rr_more_def)

lemma rr_now_more [simp]: "rr_more c (snd (rr_now clk c))"
  by (simp add: rr_more_def rr_now_def)

lemma rr_message_more: "rr_more c (rr_on_message clk c e)"
  by (auto simp: rr_more_def rr_on_message_def Let_def split: option.split)

lemma rr_messages_more: "rr_more c (foldl (rr_on_message clk) c es)"
  by (induction es arbitrary: c) (auto intro: rr_more_trans rr_message_more)

lemma rr_pump_more: "rr_pump T clk c s n = Some (c', s', n') \<Longrightarrow> rr_more c c'"
  by (auto simp: rr_pump_def rr_messages_more split: option.splits)

lemma rr_send_more:
  assumes "rr_send T clk cls d c s n = Some (c', s', n')"
  shows "rr_more c c'"
proof -
  let ?P = "\<lambda>(T :: 'a UdpTransport) (clk :: nat \<Rightarrow> nat) (cls :: Class) (d :: bytes) c (s :: Session) (n :: 'a) (x :: RrClient \<times> Session \<times> 'a). rr_more c (fst x)"
  have "?P T clk cls d c s n (c', s', n')"
  proof (rule rr_send.raw_induct [where P = ?P, OF _ assms])
    fix f and T :: "'a UdpTransport" and clk cls d c s n x
    assume ih: "\<And>T clk cls d c s n x. f T clk cls d c s n = Some x \<Longrightarrow> ?P T clk cls d c s n x"
      and x: "(case send T cls d s n of
        (ok, s, n) \<Rightarrow> if ok then Some (c, s, n) else Option.bind (rr_pump T clk c s n) (\<lambda>(c, s, n). f T clk cls d c s n)) = Some x"
    show "?P T clk cls d c s n x"
      using x by (auto simp: Option.bind_eq_Some_conv split: prod.splits if_splits dest!: rr_pump_more ih intro: rr_more_trans)
  qed
  then show ?thesis by simp
qed

lemma rr_await_more:
  assumes "rr_await T clk cap c s n = Some (c', s', n')"
  shows "rr_more c c'"
proof -
  let ?P = "\<lambda>(T :: 'a UdpTransport) (clk :: nat \<Rightarrow> nat) (cap :: nat) c (s :: Session) (n :: 'a) (x :: RrClient \<times> Session \<times> 'a). rr_more c (fst x)"
  have "?P T clk cap c s n (c', s', n')"
  proof (rule rr_await.raw_induct [where P = ?P, OF _ assms])
    fix f and T :: "'a UdpTransport" and clk cap c s n x
    assume ih: "\<And>T clk cap c s n x. f T clk cap c s n = Some x \<Longrightarrow> ?P T clk cap c s n x"
      and x: "(if got_reply c then Some (c, s, n)
      else case rr_now clk c of
        (now, c) \<Rightarrow> if cap \<le> now then Some (c, s, n) else Option.bind (rr_pump T clk c s n) (\<lambda>(c, s, n). f T clk cap c s n)) = Some x"
    obtain now c1 where c1: "rr_now clk c = (now, c1)" by fastforce
    then have "rr_more c c1" using rr_now_more [of c clk] by simp
    then show "?P T clk cap c s n x"
      using x c1 by (auto simp: Option.bind_eq_Some_conv split: prod.splits if_splits dest!: rr_pump_more ih intro: rr_more_trans)
  qed
  then show ?thesis by simp
qed

lemma rr_flush_more:
  assumes "rr_flush T wait clk extra c s n = Some (c', s', n')"
  shows "rr_more c c'"
proof -
  let ?P = "\<lambda>(T :: 'a UdpTransport) (wait :: 'a \<Rightarrow> 'a) (clk :: nat \<Rightarrow> nat) (extra :: nat) c (s :: Session) (n :: 'a) (x :: RrClient \<times> Session \<times> 'a). rr_more c (fst x)"
  have "?P T wait clk extra c s n (c', s', n')"
  proof (rule rr_flush.raw_induct [where P = ?P, OF _ assms])
    fix f and T :: "'a UdpTransport" and wait clk extra c s n x
    assume ih: "\<And>T wait clk extra c s n x. f T wait clk extra c s n = Some x \<Longrightarrow> ?P T wait clk extra c s n x"
      and x: "(case rr_now clk c of
        (now, c) \<Rightarrow> if extra \<le> now then Some (c, s, n) else Option.bind (rr_pump T clk c s n) (\<lambda>(c, s, n). f T wait clk extra c s (wait n))) = Some x"
    obtain now c1 where c1: "rr_now clk c = (now, c1)" by fastforce
    then have "rr_more c c1" using rr_now_more [of c clk] by simp
    then show "?P T wait clk extra c s n x"
      using x c1 by (auto simp: Option.bind_eq_Some_conv split: prod.splits if_splits dest!: rr_pump_more ih intro: rr_more_trans)
  qed
  then show ?thesis by simp
qed

lemma rr_round_accounts:
  assumes "rr_round T clk cls m k c s n = Some (c', s', n')" "k \<le> length (rr_samples c) + rr_timeout c"
  shows "k + 1 \<le> length (rr_samples c') + rr_timeout c'"
proof -
  obtain ts c1 where c1: "rr_now clk c = (ts, c1)" by fastforce
  let ?c = "c1\<lparr>got_reply := False, expect_seq := word_of_nat k\<rparr>"
  obtain c2 s2 n2 where s2: "rr_send T clk cls (lat_msg m ts (word_of_nat k)) ?c s n = Some (c2, s2, n2)"
    using assms(1) c1 by (auto simp: rr_round_def Option.bind_eq_Some_conv)
  obtain now c3 where c3: "rr_now clk c2 = (now, c3)" by fastforce
  obtain c4 where c4: "rr_await T clk (now + 15000000000) c3 s2 n2 = Some (c4, s', n')" "c' = (if got_reply c4 then c4 else c4\<lparr>rr_timeout := rr_timeout c4 + 1\<rparr>)"
    using assms(1) c1 s2 c3 by (auto simp: rr_round_def Option.bind_eq_Some_conv)
  have "rr_more ?c c4"
    using rr_more_trans [OF rr_more_trans [OF rr_send_more [OF s2]] rr_await_more [OF c4(1)]] rr_now_more [of c2 clk] c3 by simp
  moreover have "rr_more c c1" using rr_now_more [of c clk] c1 by simp
  ultimately show ?thesis using c4(2) assms(2) by (auto simp: rr_more_def)
qed

lemma rr_loop_accounts:
  assumes "rr_loop T clk cls m start dur k c s n = Some (k', c', s', n')" "k \<le> length (rr_samples c) + rr_timeout c"
  shows "k' \<le> length (rr_samples c') + rr_timeout c'"
proof -
  let ?P = "\<lambda>(T :: 'a UdpTransport) (clk :: nat \<Rightarrow> nat) (cls :: Class) (m :: nat) (start :: nat) (dur :: nat) k c (s :: Session) (n :: 'a) (x :: nat \<times> RrClient \<times> Session \<times> 'a).
    k \<le> length (rr_samples c) + rr_timeout c \<longrightarrow> fst x \<le> length (rr_samples (fst (snd x))) + rr_timeout (fst (snd x))"
  have "?P T clk cls m start dur k c s n (k', c', s', n')"
  proof (rule rr_loop.raw_induct [where P = ?P, OF _ assms(1)])
    fix f and T :: "'a UdpTransport" and clk cls m start dur k c s n x
    assume ih: "\<And>T clk cls m start dur k c s n x. f T clk cls m start dur k c s n = Some x \<Longrightarrow> ?P T clk cls m start dur k c s n x"
      and x: "(case rr_now clk c of (now, c) \<Rightarrow>
          if elapsed now start < dur then Option.bind (rr_round T clk cls m k c s n) (\<lambda>(c, s, n). f T clk cls m start dur (k + 1) c s n)
          else Some (k, c, s, n)) = Some x"
    obtain now c1 where c1: "rr_now clk c = (now, c1)" by fastforce
    then have "rr_samples c1 = rr_samples c" "rr_timeout c1 = rr_timeout c" by (auto simp: rr_now_def)
    then show "?P T clk cls m start dur k c s n x"
      using x c1 rr_round_accounts [of T clk cls m k c1 s n] by (fastforce simp: Option.bind_eq_Some_conv split: if_splits dest!: ih)
  qed
  then show ?thesis using assms(2) by simp
qed

text \<open>A run of one request that times out at once.\<close>

lemma rr_one_round:
  assumes "send T cls (lat_msg m (clk 2) 0) s n = (True, s1, n1)" "send T cls (lat_msg m (clk 6) kEndSeq) s1 n1 = (True, s2, n2)"
    and "elapsed (clk 1) (clk 0) < dur * 1000000000" "clk 3 + 15000000000 \<le> clk 4"
    and "\<not> elapsed (clk 5) (clk 0) < dur * 1000000000" "clk 7 + 500000000 \<le> clk 8"
  shows "closed_loop T wait clk cls m dur s n = Some (1, new_rr\<lparr>rr_timeout := 1, rr_reads := 9\<rparr>, s2, n2)"
proof -
  have snd: "rr_send T clk cls d c q w = Some (c, q', w')" if "send T cls d q w = (True, q', w')" for d c q w q' w'
    using that by (subst rr_send.simps) simp
  have aw: "rr_await T clk (clk 3 + 15000000000) (new_rr\<lparr>rr_reads := 4\<rparr>) s1 n1 = Some (new_rr\<lparr>rr_reads := 5\<rparr>, s1, n1)"
    using assms(4) by (subst rr_await.simps) (simp add: new_rr_def rr_now_def)
  have rnd: "rr_round T clk cls m 0 (new_rr\<lparr>rr_reads := 2\<rparr>) s n = Some (new_rr\<lparr>rr_timeout := 1, rr_reads := 5\<rparr>, s1, n1)"
    using snd [OF assms(1)] aw by (simp add: rr_round_def rr_now_def new_rr_def)
  have fin: "rr_loop T clk cls m (clk 0) (dur * 1000000000) 1 (new_rr\<lparr>rr_timeout := 1, rr_reads := 5\<rparr>) s1 n1
      = Some (1, new_rr\<lparr>rr_timeout := 1, rr_reads := 6\<rparr>, s1, n1)"
    using assms(5) by (subst rr_loop.simps) (simp add: rr_now_def new_rr_def)
  have l: "rr_loop T clk cls m (clk 0) (dur * 1000000000) 0 (new_rr\<lparr>rr_reads := 1\<rparr>) s n = Some (1, new_rr\<lparr>rr_timeout := 1, rr_reads := 6\<rparr>, s1, n1)"
    using assms(3) rnd fin by (subst rr_loop.simps) (simp add: rr_now_def new_rr_def numeral_2_eq_2)
  have "rr_flush T wait clk (clk 7 + 500000000) (new_rr\<lparr>rr_timeout := 1, rr_reads := 8\<rparr>) s2 n2 = Some (new_rr\<lparr>rr_timeout := 1, rr_reads := 9\<rparr>, s2, n2)"
    using assms(6) by (subst rr_flush.simps) (simp add: rr_now_def new_rr_def)
  then show ?thesis using l snd [OF assms(2)] by (simp add: closed_loop_def rr_now_def new_rr_def)
qed

section \<open>Properties\<close>

text \<open>C25: The open-loop benchmark reports no error that did not happen. Let sender and receiver of \<^verbatim>\<open>latency_bench\<close> run over sockets with the
  ordered class and messages of at least a header, the sender's datagrams counted by its decorator, under any loss, repetition and
  reordering. At every moment the receiver has counted no short and no out-of-order message, at most as many messages as the sender's
  session accepted, and its goodput is their bytes. Once it has seen the end marker it has counted every accepted message; and when the
  sender has nothing in flight and nothing queued, the error total that it reports for a schedule of \<open>N\<close> messages is the number of those that
  the sender's session did not accept, so it is zero when all were accepted.\<close>

theorem latency_counts_exact:
  assumes "udp_pair K addr wire clock fda fdb ea eb env" "ea \<noteq> eb" "config_ok ca" "config_ok cb"
    and "\<And>e d. (ea, d) \<notin> wire (c_under w) e" "\<And>e d. (eb, d) \<notin> wire (c_under w) e" "16 \<le> m"
    and "lat_reach (counting_transport (real_transport K \<lparr>sock_fd = fda\<rparr>)) (beside (real_transport K \<lparr>sock_fd = fdb\<rparr>))
      (\<lambda>w w'. env (c_under w) (c_under w')) m (one_way_pair ea eb ca cb w) (y, k, e)"
  shows "lc_short (counts_of m (pb y)) = 0 \<and> lc_nonmonotonic (counts_of m (pb y)) = 0 \<and> lc_received (counts_of m (pb y)) \<le> k
    \<and> lc_goodput (counts_of m (pb y)) = lc_received (counts_of m (pb y)) * m
    \<and> (lc_end (counts_of m (pb y)) \<longrightarrow> e \<and> lc_received (counts_of m (pb y)) = k)
    \<and> (ring (tx_side (pa y)) = [] \<and> pending (tx_side (pa y)) = [] \<longrightarrow> lat_errors N (counts_of m (pb y)) = N - k \<and> lc_end (counts_of m (pb y)) = e)"
  using udp_pair.benchmark_counts [OF assms(1,8,7,2,3,4) assms(5,6)] by (auto simp: lat_errors_def)

theorem latency_counts_exact_witness:
  "\<exists>y. lat_reach (counting_transport (real_transport (host_kernel (sockets (host 1) (host 2))) \<lparr>sock_fd = 3\<rparr>))
        (beside (real_transport (host_kernel (sockets (host 1) (host 2))) \<lparr>sock_fd = 4\<rparr>)) (\<lambda>w w'. host_env (c_under w) (c_under w')) 16
        (one_way_pair (host 1) (host 2) default_config default_config
           \<lparr>c_under = \<lparr>inboxes = (\<lambda>_. []), uptime = 0\<rparr>, tx_datagrams = 0, tx_bytes = 0, rx_datagrams = 0, rx_bytes = 0\<rparr>) (y, 1, False)
     \<and> lc_received (counts_of 16 (pb y)) \<le> 1 \<and> lc_nonmonotonic (counts_of 16 (pb y)) = 0 \<and> \<not> lc_end (counts_of 16 (pb y))"
proof -
  let ?K = "host_kernel (sockets (host 1) (host 2))"
  let ?w = "\<lparr>c_under = \<lparr>inboxes = (\<lambda>_. []), uptime = 0\<rparr>, tx_datagrams = 0, tx_bytes = 0, rx_datagrams = 0, rx_bytes = 0\<rparr>"
  let ?TA = "counting_transport (real_transport ?K \<lparr>sock_fd = 3\<rparr>)"
  let ?y = "one_way_pair (host 1) (host 2) default_config default_config ?w" and ?d = "lat_msg 16 7 (word_of_nat 0)"
  have d: "length ?d = 16" by code_simp
  obtain ok y where o: "offer ?TA ?d ?y = (ok, y)" by fastforce
  have ok: ok using o send_accepts [of ReliableOrdered ?d "pa ?y" ?TA "net ?y"] d
    by (auto simp: offer_def Let_def one_way_pair_def set_on_message_def new_session_def default_config_def new_send_side_def split: prod.splits)
  have a: "length (acc_a y) < 2 ^ 32" using o by (auto simp: offer_def Let_def one_way_pair_def split: prod.splits)
  note r = lat_reach.step [OF lat_reach.start lat_step.message [OF o a], unfolded if_P [OF ok]]
  have n: "(x, d) \<notin> host_wire (c_under ?w) e" for x d e by (simp add: host_wire_def)
  from latency_counts_exact [OF hosts.udp_pair_axioms hosts_differ default_config_ok default_config_ok n n _ r]
  show ?thesis using r by (intro exI [of _ y]) simp
qed

text \<open>C39: A peer that stays silent hangs the sender. When nothing ever arrives and the offering loop of \<^verbatim>\<open>run_sender\<close> ends with a packet in
  flight, the run does not return: the wall-clock cap bounds the offering only, and \<^verbatim>\<open>drain_ring\<close> waits for an acknowledgement forever.\<close>

theorem silent_peer_hangs_sender:
  assumes "\<And>cap n. fst (t_recv T cap n) = None" "ring (tx_side s') \<noteq> []"
    and "(if thr then lat_throughput T clk cls m (clk 0 + dur * 1000000000) 0 1 s n
          else lat_open_loop T wait clk offs cls m (clk 0) (dur * 1000000000) 0 1 s n) = Some (k, i, s', n')"
  shows "lat_sender T wait clk offs thr cls m dur s n = None"
proof -
  have "drain_ring T wait s' n' = None" using drain_ring_silent [OF _ assms(1), of wait s' n'] assms(2) by (cases "drain_ring T wait s' n'") auto
  then show ?thesis unfolding lat_sender_def assms(3) by simp
qed


theorem silent_peer_hangs_sender_witness:
  "lat_sender (\<lparr>t_send = (\<lambda>_ d n. (length d, n)), t_recv = (\<lambda>_ n. (None, n)), t_now = (\<lambda>n. (0, n))\<rparr> :: unit UdpTransport)
     id (\<lambda>i. i * 500000000) (\<lambda>_. 0) True ReliableOrdered 16 1 (new_session (host 2) default_config) () = None"
proof -
  let ?T = "\<lparr>t_send = (\<lambda>_ d n. (length d, n)), t_recv = (\<lambda>_ n. (None, n)), t_now = (\<lambda>n. (0, n))\<rparr> :: unit UdpTransport"
  define clk :: "nat \<Rightarrow> nat" where "clk i = i * 500000000" for i
  define d where "d = lat_msg 16 (clk 2) 0"
  let ?s = "new_session (host 2) default_config"
  obtain ok s' n' where o: "send ?T ReliableOrdered d ?s () = (ok, s', n')" by (metis prod_cases3)
  have "length d = 16" by (simp add: d_def lat_msg_def write_msg_eq)
  then have ok: "ok = True" "ring (tx_side s') \<noteq> []"
    using send_accepts [of ReliableOrdered d ?s ?T "()"] first_in_flight [of d ?T "host 2" "()"] o
    by (simp_all add: new_session_def default_config_def new_send_side_def)
  have "lat_throughput ?T clk ReliableOrdered 16 (clk 0 + 1 * 1000000000) 0 1 ?s () = Some (1, 4, s', n')"
    using o by (intro throughput_once) (simp_all add: clk_def d_def ok(1))
  then have "lat_sender ?T id clk (\<lambda>_. 0) True ReliableOrdered 16 1 ?s () = None"
    by (intro silent_peer_hangs_sender [OF _ ok(2)]) simp_all
  then show ?thesis unfolding clk_def [abs_def] .
qed

text \<open>The closed-loop client accounts for every request. Whatever the network does, when it returns, every request it counts as sent has a
  round-trip sample or a counted timeout: the reported number of missing replies is at most the number of timeouts, and a report without
  errors has a sample for each request.\<close>

theorem closed_loop_accounts:
  assumes "closed_loop T wait clk cls m dur s n = Some (k, c, s', n')"
  shows "rr_missing k c \<le> rr_timeout c \<and> (rr_errors k c = 0 \<longrightarrow> k \<le> length (rr_samples c))"
proof -
  obtain c1 s1 n1 c2 s2 n2 where l: "rr_loop T clk cls m (clk 0) (dur * 1000000000) 0 (new_rr\<lparr>rr_reads := 1\<rparr>) s n = Some (k, c1, s1, n1)"
    and e: "rr_send T clk cls (lat_msg m (fst (rr_now clk c1)) kEndSeq) (snd (rr_now clk c1)) s1 n1 = Some (c2, s2, n2)"
    and f: "rr_flush T wait clk (fst (rr_now clk c2) + 500000000) (snd (rr_now clk c2)) s2 n2 = Some (c, s', n')"
    using assms by (auto simp: closed_loop_def Option.bind_eq_Some_conv Let_def split_beta rr_now_def new_rr_def)
  have "k \<le> length (rr_samples c1) + rr_timeout c1" by (rule rr_loop_accounts [OF l]) simp
  moreover have "rr_more c1 c"
    by (rule rr_more_trans [OF rr_now_more rr_more_trans [OF rr_send_more [OF e] rr_more_trans [OF rr_now_more rr_flush_more [OF f]]]])
  ultimately show ?thesis by (auto simp: rr_more_def rr_missing_def rr_errors_def split: if_splits)
qed

theorem closed_loop_accounts_witness:
  "\<exists>c s n. closed_loop (\<lparr>t_send = (\<lambda>_ d n. (length d, n)), t_recv = (\<lambda>_ n. (None, n)), t_now = (\<lambda>n. (0, n))\<rparr> :: unit UdpTransport)
     id (\<lambda>i. i * 20000000000) ReliableOrdered 16 30 (new_session (host 2) default_config) () = Some (1, c, s, n)
     \<and> rr_missing 1 c = 1 \<and> rr_missing 1 c \<le> rr_timeout c"
proof -
  let ?T = "\<lparr>t_send = (\<lambda>_ d n. (length d, n)), t_recv = (\<lambda>_ n. (None, n)), t_now = (\<lambda>n. (0, n))\<rparr> :: unit UdpTransport"
  define clk :: "nat \<Rightarrow> nat" where "clk i = i * 20000000000" for i
  let ?s = "new_session (host 2) default_config"
  define d where "d = lat_msg 16 (clk 2) 0"
  define e where "e = lat_msg 16 (clk 6) kEndSeq"
  have len: "length d = 16" "length e = 16" by (simp_all add: d_def e_def lat_msg_def write_msg_eq)
  obtain ok1 s1 n1 where o1: "send ?T ReliableOrdered d ?s () = (ok1, s1, n1)" by (metis prod_cases3)
  then have "cfg s1 = default_config" "length (pending (tx_side s1)) \<le> 1"
    using send_queue [OF o1] by (simp_all add: new_session_def new_send_side_def)
  moreover obtain ok2 s2 n2 where o2: "send ?T ReliableOrdered e s1 n1 = (ok2, s2, n2)" by (metis prod_cases3)
  ultimately have ok: "ok1 = True" "ok2 = True"
    using send_accepts [of ReliableOrdered d ?s ?T "()"] send_accepts [of ReliableOrdered e s1 ?T n1] o1 len
    by (simp_all add: new_session_def default_config_def new_send_side_def)
  have "closed_loop ?T id clk ReliableOrdered 16 30 ?s () = Some (1, new_rr\<lparr>rr_timeout := 1, rr_reads := 9\<rparr>, s2, n2)"
    by (rule rr_one_round [where clk = clk, OF o1 [unfolded d_def ok(1)] o2 [unfolded e_def ok(2)]]) (simp_all add: clk_def elapsed_def)
  from this closed_loop_accounts [OF this] show ?thesis
    unfolding clk_def [abs_def] by (auto simp: rr_missing_def new_rr_def)
qed

end
