(* ===== verification/File_Programs.thy ===== *)
theory File_Programs
  imports File_Transfer Session_Silent
begin

text \<open>
  The programs \<^verbatim>\<open>demo/send_file.cc\<close> and \<^verbatim>\<open>demo/recv_file.cc\<close> as a whole: arguments, socket, main loop and exit code. The file system is a
  parameter (\<open>fs\<close> what a path holds, \<open>writable\<close> which paths can be opened for writing), as is \<open>wait\<close>, the sleep until the socket is readable.
  Both programs give up when the other end never answers.
\<close>

section \<open>Arguments\<close>

record SendArgs =
  sa_bind :: "HostPort option"
  sa_peer :: "HostPort option"
  in_path :: "string option"
  sa_timeout :: int

definition default_send_args :: SendArgs where
  "default_send_args = \<lparr>sa_bind = None, sa_peer = None, in_path = None, sa_timeout = 120000\<rparr>"

text \<open>The loop over the arguments; a field that is still \<open>None\<close> at the end is a flag \<^verbatim>\<open>have_...\<close> that is not set. \<^verbatim>\<open>std::atoi\<close> is \<open>atol\<close> on the
  numbers that fit an \<^verbatim>\<open>int\<close> (its result is undefined on others).\<close>

fun send_args_loop :: "string list \<Rightarrow> SendArgs \<Rightarrow> SendArgs option" where
  "send_args_loop [] a = Some a"
| "send_args_loop (flag # rest) a =
     (if flag = ''--bind'' then
        (case rest of [] \<Rightarrow> None | v # rest \<Rightarrow>
           (case parse_hostport v of None \<Rightarrow> None | Some hp \<Rightarrow> send_args_loop rest (a\<lparr>sa_bind := Some hp\<rparr>)))
      else if flag = ''--peer'' then
        (case rest of [] \<Rightarrow> None | v # rest \<Rightarrow>
           (case parse_hostport v of None \<Rightarrow> None | Some hp \<Rightarrow> send_args_loop rest (a\<lparr>sa_peer := Some hp\<rparr>)))
      else if flag = ''--in'' then
        (case rest of [] \<Rightarrow> None | v # rest \<Rightarrow> send_args_loop rest (a\<lparr>in_path := Some v\<rparr>))
      else if flag = ''--timeout-ms'' then
        (case rest of [] \<Rightarrow> None | v # rest \<Rightarrow> send_args_loop rest (a\<lparr>sa_timeout := atol v\<rparr>))
      else None)"

definition send_args :: "string list \<Rightarrow> (HostPort \<times> HostPort \<times> string \<times> int) option" where
  "send_args argv =
     (case send_args_loop argv default_send_args of
        None \<Rightarrow> None
      | Some a \<Rightarrow>
          (case (sa_bind a, sa_peer a, in_path a) of
             (Some b, Some p, Some f) \<Rightarrow> Some (b, p, f, sa_timeout a)
           | _ \<Rightarrow> None))"

record RecvArgs =
  ra_bind :: "HostPort option"
  ra_peer :: "HostPort option"
  out_path :: "string option"
  ra_timeout :: int
  ra_linger :: int

definition default_recv_args :: RecvArgs where
  "default_recv_args = \<lparr>ra_bind = None, ra_peer = None, out_path = None, ra_timeout = 120000, ra_linger = 2000\<rparr>"

fun recv_args_loop :: "string list \<Rightarrow> RecvArgs \<Rightarrow> RecvArgs option" where
  "recv_args_loop [] a = Some a"
| "recv_args_loop (flag # rest) a =
     (if flag = ''--bind'' then
        (case rest of [] \<Rightarrow> None | v # rest \<Rightarrow>
           (case parse_hostport v of None \<Rightarrow> None | Some hp \<Rightarrow> recv_args_loop rest (a\<lparr>ra_bind := Some hp\<rparr>)))
      else if flag = ''--peer'' then
        (case rest of [] \<Rightarrow> None | v # rest \<Rightarrow>
           (case parse_hostport v of None \<Rightarrow> None | Some hp \<Rightarrow> recv_args_loop rest (a\<lparr>ra_peer := Some hp\<rparr>)))
      else if flag = ''--out'' then
        (case rest of [] \<Rightarrow> None | v # rest \<Rightarrow> recv_args_loop rest (a\<lparr>out_path := Some v\<rparr>))
      else if flag = ''--timeout-ms'' then
        (case rest of [] \<Rightarrow> None | v # rest \<Rightarrow> recv_args_loop rest (a\<lparr>ra_timeout := atol v\<rparr>))
      else if flag = ''--linger-ms'' then
        (case rest of [] \<Rightarrow> None | v # rest \<Rightarrow> recv_args_loop rest (a\<lparr>ra_linger := atol v\<rparr>))
      else None)"

definition recv_args :: "string list \<Rightarrow> (HostPort \<times> HostPort \<times> string \<times> int \<times> int) option" where
  "recv_args argv =
     (case recv_args_loop argv default_recv_args of
        None \<Rightarrow> None
      | Some a \<Rightarrow>
          (case (ra_bind a, ra_peer a, out_path a) of
             (Some b, Some p, Some f) \<Rightarrow> Some (b, p, f, ra_timeout a, ra_linger a)
           | _ \<Rightarrow> None))"

section \<open>The programs\<close>

text \<open>The exit code, the digest the sender prints, and the world with the socket closed; \<open>None\<close> is a program that does not end.\<close>

definition send_main ::
  "'w Kernel \<Rightarrow> ('w \<Rightarrow> 'w) \<Rightarrow> (string \<Rightarrow> bytes option) \<Rightarrow> string list \<Rightarrow> 'w \<Rightarrow> (nat \<times> string option \<times> 'w) option" where
  "send_main K wait fs argv w =
     (case send_args argv of
        None \<Rightarrow> Some (1, None, w)
      | Some (hb, hp, path, timeout) \<Rightarrow>
          (case fs path of
             None \<Rightarrow> Some (1, None, w)
           | Some data \<Rightarrow>
               let digest = sha256_of data;
                   (ok, r, w) = udp_bind K (hp_ip hb) (hp_port hb) new_udp w
               in if \<not> ok then Some (1, digest, close_udp K r w)
                  else (case make_endpoint K (hp_ip hp) (hp_port hp) of
                          None \<Rightarrow> Some (1, digest, close_udp K r w)
                        | Some dest \<Rightarrow>
                            let T = real_transport K r;
                                (start, w) = t_now T w
                            in case send_loop T wait data (start + ms timeout) new_feeder (new_session dest default_config) w of
                                 None \<Rightarrow> None
                               | Some (code, f, s, w) \<Rightarrow> Some (code, digest, close_udp K r w))))"

text \<open>The exit code, the bytes written to the output path, and the digest printed.\<close>

definition recv_main ::
  "'w Kernel \<Rightarrow> ('w \<Rightarrow> 'w) \<Rightarrow> (string \<Rightarrow> bool) \<Rightarrow> string list \<Rightarrow> 'w \<Rightarrow> (nat \<times> (string \<times> bytes) option \<times> string option \<times> 'w) option" where
  "recv_main K wait writable argv w =
     (case recv_args argv of
        None \<Rightarrow> Some (1, None, None, w)
      | Some (hb, hp, path, timeout, linger) \<Rightarrow>
          let (ok, r, w) = udp_bind K (hp_ip hb) (hp_port hb) new_udp w
          in if \<not> ok then Some (1, None, None, close_udp K r w)
             else (case make_endpoint K (hp_ip hp) (hp_port hp) of
                     None \<Rightarrow> Some (1, None, None, close_udp K r w)
                   | Some dest \<Rightarrow>
                       let T = real_transport K r;
                           (start, w) = t_now T w
                       in case recv_loop T wait (start + ms timeout) (set_on_message (new_session dest default_config)) w of
                            None \<Rightarrow> None
                          | Some (code, s, w) \<Rightarrow>
                              if code \<noteq> 0 then Some (code, None, None, close_udp K r w)
                              else let (now, w) = t_now T w
                                   in case linger_loop T wait (now + ms linger) s w of
                                        None \<Rightarrow> None
                                      | Some (s, w) \<Rightarrow>
                                          let body = resized (file_body s)
                                          in if \<not> writable path then Some (1, None, None, close_udp K r w)
                                             else Some (0, Some (path, body), sha256_of body, close_udp K r w)))"

section \<open>Time passes\<close>

context datagram_transport
begin

lemma call_clock: "transport_call T dest n n' \<Longrightarrow> clock n \<le> clock n'"
  using now_clock by (auto elim!: transport_call.cases intro: send_clock recv_clock order.trans)

lemma calls_clock: "calls T dest n n' \<Longrightarrow> clock n \<le> clock n'"
  by (induction rule: rtranclp_induct) (auto dest: call_clock)

end

lemma feed_loop_grows:
  assumes "feed_loop T data off s n = (off', s', n')"
  shows "length (ring (tx_side s)) \<le> length (ring (tx_side s')) \<and> calls T (peer s) n n' \<and> peer s' = peer s"
  using assms
proof (induction T data off s n rule: feed_loop.induct)
  case (1 T data off s n)
  obtain ok s1 n1 where snd: "send T ReliableOrdered (take (min kChunk (length data - off)) (drop off data)) s n = (ok, s1, n1)" by (metis prod_cases3)
  show ?case
  proof (cases "off < length data \<and> ok")
    case True
    then have "feed_loop T data (off + min kChunk (length data - off)) s1 n1 = (off', s', n')"
      using 1(2) snd by (simp add: feed_loop.simps [of T data off])
    with 1(1) [OF _ refl snd [symmetric] refl] True show ?thesis
      using send_ring [OF snd] send_calls [OF snd] calls_then by fastforce
  next
    case False
    then show ?thesis using 1(2) send_ring [OF snd] send_calls [OF snd] snd by (auto simp: feed_loop.simps [of T data off s n] split: if_splits)
  qed
qed

lemma feed_grows:
  assumes "feed T data f s n = (f', s', n')"
  shows "length (ring (tx_side s)) \<le> length (ring (tx_side s')) \<and> calls T (peer s) n n' \<and> peer s' = peer s"
proof -
  obtain ok s1 n1 where h: "send T ReliableOrdered (file_header (word_of_nat (length data))) s n = (ok, s1, n1)" by (metis prod_cases3)
  obtain off2 s2 n2 where l: "feed_loop T data (feed_off f) s n = (off2, s2, n2)" by (metis prod_cases3)
  obtain off3 s3 n3 where l3: "feed_loop T data (feed_off f) s1 n1 = (off3, s3, n3)" by (metis prod_cases3)
  show ?thesis
    using assms h l l3 send_ring [OF h] send_calls [OF h] feed_loop_grows [OF l] feed_loop_grows [OF l3]
    by (auto simp: feed_def Let_def intro: calls_then split: if_splits)
qed

text \<open>A fresh session has the header in flight after the first call of \<open>feed\<close>.\<close>

lemma feed_first:
  assumes "feed T data f (new_session e default_config) n = (f', s', n')" "\<not> header_sent f"
  shows "ring (tx_side s') \<noteq> []"
proof -
  let ?h = "file_header (word_of_nat (length data))" and ?s = "new_session e default_config"
  have h8: "length ?h = 8" by (simp add: file_header_def kHeaderLen_def)
  obtain ok s1 n1 where h: "send T ReliableOrdered ?h ?s n = (ok, s1, n1)" by (metis prod_cases3)
  obtain off3 s3 n3 where l3: "feed_loop T data (feed_off f) s1 n1 = (off3, s3, n3)" by (metis prod_cases3)
  have "ring (tx_side s1) \<noteq> []" using first_in_flight [of ?h T e n] h h8 by simp
  moreover have "length (ring (tx_side s1)) \<le> length (ring (tx_side s3))" using feed_loop_grows [OF l3] by simp
  moreover have "s' = s1 \<or> s' = s3" using assms h l3 by (auto simp: feed_def Let_def split: if_splits)
  ultimately show ?thesis by auto
qed

section \<open>Giving up\<close>

context session_pair
begin

lemma file_ticks:
  assumes "file_reach TA TB env data (one_way_pair ea eb ca cb w) (y, f)" "length data \<le> 2 ^ 40"
    and "ea \<noteq> eb" "config_ok ca" "config_ok cb" "\<And>e d. (ea, d) \<notin> wire w e" "\<And>e d. (eb, d) \<notin> wire w e"
  shows "\<exists>s n. tick TA (pa y) (net y) = Some (s, n)"
proof -
  have i: "pair_reach {} {} TA TB env (one_way_pair ea eb ca cb w) y" using file_reach_inv [OF assms(1,2), of "{}" "{}"] by simp
  obtain y' where "y = mute_a y'" "pair_inv {} {} y'" by (rule one_way_inv [OF i assms(3-7)])
  then show ?thesis using one_way_tick [of "{}" "{}" y'] by simp
qed

text \<open>One round of the sender's loop with a silent peer: it does not finish, and something stays in flight.\<close>

lemma silent_send_round:
  assumes r: "file_reach TA TB env data (one_way_pair ea eb default_config cb w) (y, f)" and d: "length data \<le> 2 ^ 40"
    and ok: "ea \<noteq> eb" "config_ok cb" "\<And>e d. (ea, d) \<notin> wire w e" "\<And>e d. (eb, d) \<notin> wire w e"
    and silent: "\<And>cap n. fst (t_recv TA cap n) = None"
    and st: "\<not> header_sent f \<and> pa y = new_session eb default_config \<or> ring (tx_side (pa y)) \<noteq> []"
  obtains f1 s1 n1 b s2 n2 y' where "feed TA data f (pa y) (net y) = (f1, s1, n1)" "poll TA s1 n1 = (b, s2, n2)" "tick TA s2 n2 = Some (pa y', net y')"
    and "file_reach TA TB env data (one_way_pair ea eb default_config cb w) (y', f1)" "ring (tx_side (pa y')) \<noteq> []" "clock (net y) \<le> clock (net y')"
proof -
  obtain f1 s1 n1 where f: "feed TA data f (pa y) (net y) = (f1, s1, n1)" by (metis prod_cases3)
  obtain b s2 n2 where p: "poll TA s1 n1 = (b, s2, n2)" by (metis prod_cases3)
  obtain y1 where y1: "file_reach TA TB env data (one_way_pair ea eb default_config cb w) (y1, f1)" "pa y1 = s1" "net y1 = n1"
    using feed_reach [OF r f] by blast
  have "file_reach TA TB env data (one_way_pair ea eb default_config cb w) (y1\<lparr>pa := s2, net := n2\<rparr>, f1)"
    using file_reach.step [OF y1(1) file_step.poll_a] p y1 by blast
  from file_ticks [OF this d ok(1) default_config_ok ok(2-4)]
  obtain s3 n3 where t: "tick TA s2 n2 = Some (s3, n3)" by auto
  obtain y' where y': "file_reach TA TB env data (one_way_pair ea eb default_config cb w) (y', f1)" "pa y' = s3" "net y' = n3"
    using send_round_reach [OF r f p t] by blast
  have "ring (tx_side s1) \<noteq> []" using st feed_first [of TA data f eb "net y"] feed_grows [OF f] f by auto
  then have "ring (tx_side s3) \<noteq> []" using poll_silent [OF silent p] tick_ring [OF t] by auto
  moreover have "clock (net y) \<le> clock n3"
    using a.calls_clock calls_then feed_grows [OF f] poll_calls [OF p] tick_calls [OF t] by metis
  ultimately show thesis using that [OF f p, of y'] t y' by simp
qed

lemma silent_send_gives_up:
  assumes r: "file_reach TA TB env data (one_way_pair ea eb default_config cb w) (y, f)" and d: "length data \<le> 2 ^ 40"
    and ok: "ea \<noteq> eb" "config_ok cb" "\<And>e d. (ea, d) \<notin> wire w e" "\<And>e d. (eb, d) \<notin> wire w e"
    and silent: "\<And>cap n. fst (t_recv TA cap n) = None" and wait: "\<And>n. env n (wait n) \<and> clock n < clock (wait n)"
    and read: "\<And>n. env n (snd (t_now TA n))" and st: "\<not> header_sent f \<and> pa y = new_session eb default_config \<or> ring (tx_side (pa y)) \<noteq> []"
  shows "\<exists>f' s' n'. send_loop TA wait data limit f (pa y) (net y) = Some (3, f', s', n')"
  using r st
proof (induction "nat (limit + 1 - clock (net y))" arbitrary: y f rule: less_induct)
  case less
  obtain f1 s1 n1 b s2 n2 y' where 1: "feed TA data f (pa y) (net y) = (f1, s1, n1)" "poll TA s1 n1 = (b, s2, n2)" "tick TA s2 n2 = Some (pa y', net y')"
    and 2: "file_reach TA TB env data (one_way_pair ea eb default_config cb w) (y', f1)" "ring (tx_side (pa y')) \<noteq> []" "clock (net y) \<le> clock (net y')"
    by (rule silent_send_round [OF less.prems(1) d ok silent less.prems(2)])
  obtain now n3 where t: "t_now TA (net y') = (now, n3)" by fastforce
  have c: "clock (net y') \<le> now" "now \<le> clock n3" using a.now_clock [of "net y'"] t by simp_all
  have eq: "send_loop TA wait data limit f (pa y) (net y) = (if limit < now then Some (3, f1, pa y', n3)
      else send_loop TA wait data limit f1 (pa y') (wait n3))"
    using 1 2(2) t by (subst send_loop.simps) (simp add: send_done_def)
  show ?case
  proof (cases "limit < now")
    case False
    let ?y = "y'\<lparr>net := wait n3\<rparr>"
    have "file_reach TA TB env data (one_way_pair ea eb default_config cb w) (y'\<lparr>net := n3\<rparr>, f1)"
      using file_reach.step [OF 2(1) file_step.outside] read [of "net y'"] t by simp
    from file_reach.step [OF this file_step.outside, of "wait n3"]
    have r: "file_reach TA TB env data (one_way_pair ea eb default_config cb w) (?y, f1)" using wait by simp
    have "clock (net y) < clock (wait n3)" using 2(3) c wait [of n3] by linarith
    then have "nat (limit + 1 - clock (net ?y)) < nat (limit + 1 - clock (net y))" using False c 2(3) by simp
    from less.hyps [OF this r] 2(2) show ?thesis using False by (simp add: eq)
  qed (simp add: eq)
qed

lemma silent_recv_gives_up:
  assumes r: "file_reach TA TB env data (one_way_pair ea eb ca cb w) (y, f)" and d: "length data \<le> 2 ^ 40"
    and ok: "ea \<noteq> eb" "config_ok ca" "config_ok cb" "\<And>e d. (ea, d) \<notin> wire w e" "\<And>e d. (eb, d) \<notin> wire w e"
    and silent: "\<And>cap n. fst (t_recv TB cap n) = None" and wait: "\<And>n. env n (wait n) \<and> clock n < clock (wait n)"
    and read: "\<And>n. env n (snd (t_now TB n))" and st: "app_log (rx_side (pb y)) = []"
  shows "\<exists>s' n'. recv_loop TB wait limit (pb y) (net y) = Some (3, s', n')"
  using r st
proof (induction "nat (limit + 1 - clock (net y))" arbitrary: y rule: less_induct)
  case less
  let ?w = "one_way_pair ea eb ca cb w"
  obtain b s2 n2 where p: "poll TB (pb y) (net y) = (b, s2, n2)" by (metis prod_cases3)
  have r2: "file_reach TA TB env data ?w (y\<lparr>pb := s2, net := n2\<rparr>, f)" using file_reach.step [OF less.prems(1) file_step.poll_b [OF p]] .
  have i: "pair_reach {} {} TA TB env ?w (y\<lparr>pb := s2, net := n2\<rparr>)" using file_reach_inv [OF r2 d, of "{}" "{}"] by simp
  obtain z where z: "y\<lparr>pb := s2, net := n2\<rparr> = mute_a z" "pair_inv {} {} z" by (rule one_way_inv [OF i ok])
  have "s2 = pb z" "n2 = net z" using arg_cong [OF z(1), of pb] arg_cong [OF z(1), of net] by simp_all
  then obtain s3 n3 where t: "tick TB s2 n2 = Some (s3, n3)" using pair_tick_b [OF z(2)] by blast
  have r3: "file_reach TA TB env data ?w (y\<lparr>pb := s3, net := n3\<rparr>, f)" using file_reach.step [OF r2 file_step.tick_b] t by simp
  have log: "app_log (rx_side s3) = []" using less.prems(2) poll_silent_log [OF silent p] tick_rx [OF t] by simp
  obtain now n4 where n: "t_now TB n3 = (now, n4)" by fastforce
  have c: "clock (net y) \<le> clock n3" "clock n3 \<le> now" "now \<le> clock n4"
    using b.calls_clock calls_then poll_calls [OF p] tick_calls [OF t] b.now_clock [of n3] n by (metis, simp_all)
  have nc: "\<not> complete (file_body (pb y))" "\<not> complete (file_body s3)"
    using less.prems(2) log by (simp_all add: file_body_def new_body_def complete_def)
  have eq: "recv_loop TB wait limit (pb y) (net y) = (if limit < now then Some (3, s3, n4) else recv_loop TB wait limit s3 (wait n4))"
    using p t n nc by (subst recv_loop.simps) simp
  show ?case
  proof (cases "limit < now")
    case False
    let ?y = "y\<lparr>pb := s3, net := wait n4\<rparr>"
    have "file_reach TA TB env data ?w (y\<lparr>pb := s3, net := n4\<rparr>, f)"
      using file_reach.step [OF r3 file_step.outside, of n4] read [of n3] n by simp
    from file_reach.step [OF this file_step.outside, of "wait n4"]
    have r4: "file_reach TA TB env data ?w (?y, f)" using wait by simp
    have "nat (limit + 1 - clock (net ?y)) < nat (limit + 1 - clock (net y))" using False c wait [of n4] by simp
    from less.hyps [OF this r4] log show ?thesis using False by (simp add: eq)
  qed (simp add: eq)
qed

end

context udp_pair
begin

lemma clock_wire: "k_clock K w = (t, w') \<Longrightarrow> (x, d) \<notin> wire w e \<Longrightarrow> (x, d) \<notin> wire w' e"
  using a.clock_gettime by blast

lemma silent_recv: "fst (k_recvfrom K fd cap w) < 0 \<Longrightarrow> fst (t_recv (real_transport K \<lparr>sock_fd = fd\<rparr>) cap w) = None"
  by (simp add: udp_recv_def split_beta)

lemma send_gives_up:
  assumes "ea \<noteq> eb" "\<And>cap w. fst (k_recvfrom K fda cap w) < 0" "\<And>w. env w (wait w) \<and> clock w < clock (wait w)" "\<And>w. env w (snd (k_clock K w))"
    and "length data \<le> 2 ^ 40" "\<And>e d. (ea, d) \<notin> wire w e \<and> (eb, d) \<notin> wire w e" "k_clock K w = (t, w')"
  shows "\<exists>f s n. send_loop (real_transport K \<lparr>sock_fd = fda\<rparr>) wait data limit new_feeder (new_session eb default_config) w' = Some (3, f, s, n)"
proof -
  have e: "(ea, d) \<notin> wire w' e" "(eb, d) \<notin> wire w' e" for e d using clock_wire [OF assms(7)] assms(6) by blast+
  have r: "env n (snd (t_now (real_transport K \<lparr>sock_fd = fda\<rparr>) n))" for n using assms(4) by (simp add: udp_now_def)
  from over.silent_send_gives_up [OF file_reach.start assms(5,1) default_config_ok e silent_recv [OF assms(2)] assms(3) r, of limit]
  show ?thesis by (simp add: one_way_pair_def new_feeder_def)
qed

lemma recv_gives_up:
  assumes "ea \<noteq> eb" "\<And>cap w. fst (k_recvfrom K fdb cap w) < 0" "\<And>w. env w (wait w) \<and> clock w < clock (wait w)" "\<And>w. env w (snd (k_clock K w))"
    and "\<And>e d. (ea, d) \<notin> wire w e \<and> (eb, d) \<notin> wire w e" "k_clock K w = (t, w')"
  shows "\<exists>s n. recv_loop (real_transport K \<lparr>sock_fd = fdb\<rparr>) wait limit (set_on_message (new_session ea default_config)) w' = Some (3, s, n)"
proof -
  have e: "(ea, d) \<notin> wire w' e" "(eb, d) \<notin> wire w' e" for e d using clock_wire [OF assms(6)] assms(5) by blast+
  have r: "env n (snd (t_now (real_transport K \<lparr>sock_fd = fdb\<rparr>) n))" for n using assms(4) by (simp add: udp_now_def)
  from over.silent_recv_gives_up [OF file_reach.start _ assms(1) default_config_ok default_config_ok e silent_recv [OF assms(2)] assms(3) r, of "[]" limit]
  show ?thesis by (simp add: one_way_pair_def set_on_message_def new_session_def new_recv_side_def)
qed

end

section \<open>A kernel that never delivers\<close>

definition deaf_kernel :: "(int \<Rightarrow> Endpoint option) \<Rightarrow> 'z Host_scheme Kernel" where
  "deaf_kernel addr = (host_kernel addr)\<lparr>k_socket := \<lambda>w. (if uptime w = 0 then 3 else 4, w), k_recvfrom := \<lambda>fd cap w. (-1, [], no_endpoint, w)\<rparr>"

definition local :: "u16 \<Rightarrow> Endpoint" where
  "local port = \<lparr>addr_be = 0x0100007F, port_be = word_rotl 8 port\<rparr>"

lemma deaf_sel [simp]:
  "k_socket (deaf_kernel addr) = (\<lambda>w. (if uptime w = 0 then 3 else 4, w))" "k_getfl (deaf_kernel addr) = (\<lambda>_. Pair 0)"
  "k_setfl (deaf_kernel addr) = (\<lambda>_ _. Pair 0)" "k_reuseaddr (deaf_kernel addr) = (\<lambda>_. Pair 0)"
  "k_bind (deaf_kernel addr) = (\<lambda>fd ep. Pair (if addr fd = Some ep then 0 else -1))"
  "k_recvfrom (deaf_kernel addr) = (\<lambda>fd cap w. (-1, [], no_endpoint, w))" "k_clock (deaf_kernel addr) = (\<lambda>w. (uptime w, w\<lparr>uptime := uptime w + 1\<rparr>))"
  by (simp_all add: deaf_kernel_def host_kernel_def)

interpretation deaf: udp_pair "deaf_kernel (sockets ea eb)" "sockets ea eb" host_wire uptime 3 4 ea eb host_env for ea eb
proof unfold_locales
  fix fd me d dest n e and w w' :: "'z Host_scheme"
  assume "sockets ea eb fd = Some me" "k_sendto (deaf_kernel (sockets ea eb)) fd d dest w = (n, w')"
  then show "n \<le> int (length d) \<and> uptime w \<le> uptime w' \<and> host_wire w' e \<subseteq> host_wire w e \<union> (if e = dest then {(me, d)} else {})"
    using loopback.sendto [of "sockets ea eb" fd me d dest w n w' e] by (simp add: deaf_kernel_def)
qed (auto simp: deaf_kernel_def host_kernel_def host_env_def host_wire_def)

section \<open>Properties\<close>

text \<open>C19: The file programs give up. With well-formed arguments, a readable file, a socket that can be bound and a valid peer address, but a
  network from which nothing arrives, \<^verbatim>\<open>send_file\<close> ends with exit code 3 after printing the digest, and \<^verbatim>\<open>recv_file\<close> ends with exit code 3 and
  writes nothing, whatever the timeouts: no loop of theirs waits for an answer without a limit. (Sleeping lets the clock advance; neither
  sleeping nor reading the clock puts datagrams of the two programs on the network.)\<close>

theorem file_programs_give_up:
  assumes "udp_pair K addr wire clock fda fdb ea eb env" "ea \<noteq> eb"
    and "\<And>cap w. fst (k_recvfrom K fda cap w) < 0" "\<And>cap w. fst (k_recvfrom K fdb cap w) < 0"
    and "\<And>w. env w (wait w) \<and> clock w < clock (wait w)" "\<And>w. env w (snd (k_clock K w))"
    and "send_args argv = Some (hb, hp, path, timeout)" "fs path = Some data" "length data \<le> 2 ^ 40"
    and "udp_bind K (hp_ip hb) (hp_port hb) new_udp w = (True, \<lparr>sock_fd = fda\<rparr>, wa)" "make_endpoint K (hp_ip hp) (hp_port hp) = Some eb"
    and "\<And>e d. (ea, d) \<notin> wire wa e \<and> (eb, d) \<notin> wire wa e"
    and "recv_args argv' = Some (hb', hp', path', timeout', linger')"
    and "udp_bind K (hp_ip hb') (hp_port hb') new_udp w' = (True, \<lparr>sock_fd = fdb\<rparr>, wb)" "make_endpoint K (hp_ip hp') (hp_port hp') = Some ea"
    and "\<And>e d. (ea, d) \<notin> wire wb e \<and> (eb, d) \<notin> wire wb e"
  shows "(\<exists>v. send_main K wait fs argv w = Some (3, sha256_of data, v)) \<and> (\<exists>v. recv_main K wait writable argv' w' = Some (3, None, None, v))"
proof -
  obtain t va where va: "k_clock K wa = (t, va)" by fastforce
  obtain t' vb where vb: "k_clock K wb = (t', vb)" by fastforce
  obtain f s n where "send_loop (real_transport K \<lparr>sock_fd = fda\<rparr>) wait data (t + ms timeout) new_feeder (new_session eb default_config) va = Some (3, f, s, n)"
    using udp_pair.send_gives_up [OF assms(1-3,5,6,9,12) va] by blast
  then have "send_main K wait fs argv w = Some (3, sha256_of data, close_udp K \<lparr>sock_fd = fda\<rparr> n)"
    using assms(7,8,10,11) va by (simp add: send_main_def udp_now_def)
  moreover obtain s' n' where
    "recv_loop (real_transport K \<lparr>sock_fd = fdb\<rparr>) wait (t' + ms timeout') (set_on_message (new_session ea default_config)) vb = Some (3, s', n')"
    using udp_pair.recv_gives_up [OF assms(1,2,4,5,6,16) vb] by blast
  then have "recv_main K wait writable argv' w' = Some (3, None, None, close_udp K \<lparr>sock_fd = fdb\<rparr> n')"
    using assms(13-15) vb by (simp add: recv_main_def udp_now_def)
  ultimately show ?thesis by blast
qed

theorem file_programs_give_up_witness:
  "(\<exists>v. send_main (deaf_kernel (sockets (local 1) (local 2))) (\<lambda>w. w\<lparr>uptime := uptime w + 1\<rparr>) (\<lambda>_. Some [7])
        [''--bind'', ''127.0.0.1:1'', ''--peer'', ''127.0.0.1:2'', ''--in'', ''f''] \<lparr>inboxes = (\<lambda>_. []), uptime = 0\<rparr> = Some (3, sha256_of [7], v))
   \<and> (\<exists>v. recv_main (deaf_kernel (sockets (local 1) (local 2))) (\<lambda>w. w\<lparr>uptime := uptime w + 1\<rparr>) (\<lambda>_. True)
        [''--bind'', ''127.0.0.1:2'', ''--peer'', ''127.0.0.1:1'', ''--out'', ''g''] \<lparr>inboxes = (\<lambda>_. []), uptime = 1\<rparr> = Some (3, None, None, v))"
proof -
  let ?K = "deaf_kernel (sockets (local 1) (local 2)) :: unit Host_scheme Kernel"
  have hp: "parse_hostport ''127.0.0.1:1'' = Some \<lparr>hp_ip = ''127.0.0.1'', hp_port = 1\<rparr>"
    "parse_hostport ''127.0.0.1:2'' = Some \<lparr>hp_ip = ''127.0.0.1'', hp_port = 2\<rparr>"
    using parse_hostport_split [of "''1''" "''127.0.0.1''"] parse_hostport_split [of "''2''" "''127.0.0.1''"]
    by (simp_all add: atol_def digits_def is_space_def is_digit_def digit_value_def of_char_def)
  have ne: "local 1 \<noteq> local 2" by (simp add: local_def) code_simp
  have dest: "make_endpoint ?K ''127.0.0.1'' 1 = Some (local 1)" "make_endpoint ?K ''127.0.0.1'' 2 = Some (local 2)"
    by (simp_all add: make_endpoint_def deaf_kernel_def host_kernel_def c_string_def local_def)
  have ba: "udp_bind ?K ''127.0.0.1'' 1 new_udp \<lparr>inboxes = (\<lambda>_. []), uptime = 0\<rparr> = (True, \<lparr>sock_fd = 3\<rparr>, \<lparr>inboxes = (\<lambda>_. []), uptime = 0\<rparr>)"
    and bb: "udp_bind ?K ''127.0.0.1'' 2 new_udp \<lparr>inboxes = (\<lambda>_. []), uptime = 1\<rparr> = (True, \<lparr>sock_fd = 4\<rparr>, \<lparr>inboxes = (\<lambda>_. []), uptime = 1\<rparr>)"
    using dest by (simp_all add: udp_bind_def Let_def new_udp_def)
  have empty: "(x, d) \<notin> host_wire \<lparr>inboxes = (\<lambda>_. []), uptime = t\<rparr> e" for x d t e by (simp add: host_wire_def)
  show ?thesis
    by (rule file_programs_give_up [where K = ?K and data = "[7]" and wa = "\<lparr>inboxes = (\<lambda>_. []), uptime = 0\<rparr>" and wb = "\<lparr>inboxes = (\<lambda>_. []), uptime = 1\<rparr>" and env = host_env and path = "''f''" and path' = "''g''"
        and hb = "\<lparr>hp_ip = ''127.0.0.1'', hp_port = 1\<rparr>" and hp = "\<lparr>hp_ip = ''127.0.0.1'', hp_port = 2\<rparr>"
        and hb' = "\<lparr>hp_ip = ''127.0.0.1'', hp_port = 2\<rparr>" and hp' = "\<lparr>hp_ip = ''127.0.0.1'', hp_port = 1\<rparr>", OF deaf.udp_pair_axioms ne])
      (use hp dest ba bb empty in \<open>simp_all add: send_args_def recv_args_def default_send_args_def default_recv_args_def host_env_def\<close>)
qed

end
