(* ===== verification/Telemetry.thy ===== *)
theory Telemetry
  imports Browser_Lab
begin

text \<open>
  The example \<^verbatim>\<open>examples/telemetry/main.cc\<close>: a sensor pushes 500 readings over a lossy simulated link to a collector, with a few unreliable
  heartbeats in between, and checks what arrived. The handler of the collecting session appends to \<open>tl_received\<close> or counts a heartbeat.
\<close>

section \<open>Model\<close>

definition kReadings :: nat where "kReadings = 500"

definition as_bytes :: "string \<Rightarrow> bytes" where
  "as_bytes s = map of_char s"

definition reading :: "nat \<Rightarrow> bytes" where
  "reading i = as_bytes (''reading-'' @ to_string (int i))"

definition heartbeat :: bytes where
  "heartbeat = as_bytes ''heartbeat''"

definition sensor :: Endpoint where "sensor = \<lparr>addr_be = 1, port_be = 1\<rparr>"
definition collector :: Endpoint where "collector = \<lparr>addr_be = 2, port_be = 2\<rparr>"

record Tele =
  tl_net :: SimNet
  tl_up :: Session
  tl_sink :: Session
  tl_received :: "bytes list"
  tl_beats :: nat
  tl_stalls :: nat
  tl_sent :: nat
  tl_offered :: nat

definition tele_imp :: Impairments where
  "tele_imp = \<lparr>imp_loss = fl (20 / 100), imp_dup = 0, imp_delay = 5, imp_jitter = 3\<rparr>"

definition tele_net :: "u64 \<Rightarrow> SimNet" where
  "tele_net seed = endpoint (endpoint (new_simnet seed tele_imp) sensor) collector"

definition new_tele :: "u64 \<Rightarrow> Tele" where
  "new_tele seed =
     \<lparr>tl_net = tele_net seed, tl_up = new_session collector default_config, tl_sink = set_on_message (new_session sensor default_config),
      tl_received = [], tl_beats = 0, tl_stalls = 0, tl_sent = 0, tl_offered = 0\<rparr>"

text \<open>The message handler.\<close>

definition tele_message :: "Tele \<Rightarrow> message \<Rightarrow> Tele" where
  "tele_message st m =
     (if fst m = Unreliable then st\<lparr>tl_beats := tl_beats st + 1\<rparr> else st\<lparr>tl_received := tl_received st @ [snd m]\<rparr>)"

definition tele_pump :: "Tele \<Rightarrow> Tele option" where
  "tele_pump st =
     (let n = advance (tl_net st) 2
      in Option.bind (tick (sim_transport sensor) (tl_up st) n) (\<lambda>(up, n).
         Option.bind (tick (sim_transport collector) (tl_sink st) n) (\<lambda>(sink, n).
           let (_, up, n) = poll (sim_transport sensor) up n;
               (_, sink', n) = poll (sim_transport collector) sink n
           in Some ((foldl tele_message st (new_calls sink sink'))\<lparr>tl_net := n, tl_up := up, tl_sink := sink'\<rparr>))))"

text \<open>The retry loop for one reading, and the loop over the readings.\<close>

partial_function (option) send_reading :: "bytes \<Rightarrow> Tele \<Rightarrow> Tele option" where
  "send_reading d st =
     (case send (sim_transport sensor) ReliableOrdered d (tl_up st) (tl_net st) of
        (ok, up, n) \<Rightarrow>
          if ok then Some (st\<lparr>tl_up := up, tl_net := n, tl_sent := tl_sent st + 1\<rparr>)
          else Option.bind (tele_pump (st\<lparr>tl_up := up, tl_net := n, tl_stalls := tl_stalls st + 1\<rparr>)) (send_reading d))"

definition send_beat :: "Tele \<Rightarrow> Tele" where
  "send_beat st =
     (let (_, up, n) = send (sim_transport sensor) Unreliable heartbeat (tl_up st) (tl_net st)
      in st\<lparr>tl_up := up, tl_net := n, tl_offered := tl_offered st + 1\<rparr>)"

fun offer_readings :: "nat list \<Rightarrow> Tele \<Rightarrow> Tele option" where
  "offer_readings [] st = Some st"
| "offer_readings (i # rest) st =
     Option.bind (send_reading (reading i) st) (\<lambda>st. offer_readings rest (if i mod 50 = 0 then send_beat st else st))"

fun drain_readings :: "nat \<Rightarrow> nat \<Rightarrow> Tele \<Rightarrow> Tele option" where
  "drain_readings readings 0 st = Some st"
| "drain_readings readings (Suc k) st =
     (if length (tl_received st) < readings then Option.bind (tele_pump st) (drain_readings readings k) else Some st)"

definition tele_ordered :: "bytes list \<Rightarrow> bool" where
  "tele_ordered rs \<longleftrightarrow> list_all (\<lambda>i. rs ! i = reading i) [0..<length rs]"

definition tele_ok :: "nat \<Rightarrow> Tele \<Rightarrow> bool" where
  "tele_ok readings st \<longleftrightarrow> tele_ordered (tl_received st) \<and> length (tl_received st) = readings
     \<and> 0 < retransmit_count (tx_side (tl_up st)) \<and> tl_beats st \<le> tl_offered st"

text \<open>The program, for any number of readings; \<^verbatim>\<open>main\<close> has \<open>kReadings\<close>.\<close>

definition tele_run :: "nat \<Rightarrow> u64 \<Rightarrow> (nat \<times> Tele) option" where
  "tele_run readings seed =
     Option.bind (offer_readings [0..<readings] (new_tele seed)) (\<lambda>st.
     Option.bind (drain_readings readings 20000 st) (\<lambda>st. Some (if tele_ok readings st then 0 else 1, st)))"

definition tele_main :: "u64 \<Rightarrow> (nat \<times> Tele) option" where
  "tele_main seed = tele_run kReadings seed"

section \<open>The invariant\<close>

text \<open>The first \<open>k\<close> readings were accepted, and the handler has seen the log of its session.\<close>

definition tele_inv :: "u64 \<Rightarrow> nat \<Rightarrow> Tele \<Rightarrow> bool" where
  "tele_inv seed k st \<longleftrightarrow>
     one_way {heartbeat} sensor collector default_config (tele_net seed) (map reading [0..<k]) (tl_up st) (tl_sink st) (tl_net st)
     \<and> tl_received st = map snd (filter (\<lambda>m. fst m \<noteq> Unreliable) (app_log (rx_side (tl_sink st)))) \<and> tl_sent st = k"

lemma tele_net_ok: "one_way_ok sensor collector default_config (tele_net seed)"
proof -
  have "sim_wire (tele_net seed) e = {}" for e by (simp add: tele_net_def) (simp add: sim_wire_def box_of_def new_simnet_def)
  then show ?thesis by (simp add: one_way_ok_def default_config_ok sensor_def collector_def)
qed

lemma tele_inv_new: "tele_inv seed 0 (new_tele seed)"
  using one_way_start [of "{heartbeat}" sensor collector default_config "tele_net seed"]
  by (simp add: tele_inv_def new_tele_def set_on_message_def new_session_def new_recv_side_def)

lemma tele_messages:
  "tl_received (foldl tele_message st es) = tl_received st @ map snd (filter (\<lambda>m. fst m \<noteq> Unreliable) es)"
  "tl_sent (foldl tele_message st es) = tl_sent st" "tl_offered (foldl tele_message st es) = tl_offered st"
  by (induction es arbitrary: st) (simp_all add: tele_message_def)

lemma tele_pump_inv:
  assumes "tele_inv seed k st"
  shows "\<exists>st'. tele_pump st = Some st' \<and> tele_inv seed k st' \<and> tl_offered st' = tl_offered st"
proof -
  let ?A = "sim_transport sensor" and ?B = "sim_transport collector" and ?ps = "map reading [0..<k]"
  let ?o = "one_way {heartbeat} sensor collector default_config (tele_net seed) ?ps"
  have o0: "?o (tl_up st) (tl_sink st) (advance (tl_net st) 2)" using assms one_way_advance by (auto simp: tele_inv_def)
  obtain up n1 where t1: "tick ?A (tl_up st) (advance (tl_net st) 2) = Some (up, n1)" using one_way_ticks(1) [OF o0 tele_net_ok] by auto
  have o1: "?o up (tl_sink st) n1" by (rule one_way_tick_a [OF o0 t1])
  obtain sink n2 where t2: "tick ?B (tl_sink st) n1 = Some (sink, n2)" using one_way_ticks(2) [OF o1 tele_net_ok] by auto
  have o2: "?o up sink n2" by (rule one_way_tick_b [OF o1 t2])
  obtain b up3 n3 where p3: "poll ?A up n2 = (b, up3, n3)" by (metis prod_cases3)
  obtain b' sink' n4 where p4: "poll ?B sink n3 = (b', sink', n4)" by (metis prod_cases3)
  have o4: "?o up3 sink' n4" by (rule one_way_poll_b [OF one_way_poll_a [OF o2 p3] p4])
  obtain new where new: "app_log (rx_side sink') = app_log (rx_side sink) @ new" using poll_log [OF p4] by (auto simp: prefix_def)
  then have "new_calls sink sink' = new" by (simp add: new_calls_def)
  then have "tele_pump st = Some ((foldl tele_message st new)\<lparr>tl_net := n4, tl_up := up3, tl_sink := sink'\<rparr>)"
    using t1 t2 p3 p4 by (simp add: tele_pump_def)
  then show ?thesis using o4 assms new tick_rx [OF t2] by (simp add: tele_inv_def tele_messages)
qed

lemma send_reading_inv:
  assumes "send_reading d st = Some st'" "tele_inv seed k st" "d = reading k" "k < 2 ^ 31"
  shows "tele_inv seed (k + 1) st' \<and> tl_offered st' = tl_offered st"
proof -
  let ?P = "\<lambda>d st st'. d = reading k \<and> tele_inv seed k st \<longrightarrow> tele_inv seed (k + 1) st' \<and> tl_offered st' = tl_offered st"
  have "?P d st st'"
  proof (rule send_reading.raw_induct [where P = ?P, OF _ assms(1)])
    fix f d st x
    assume ih: "\<And>d st x. f d st = Some x \<Longrightarrow> ?P d st x"
      and x: "(case send (sim_transport sensor) ReliableOrdered d (tl_up st) (tl_net st) of
        (ok, up, n) \<Rightarrow>
          if ok then Some (st\<lparr>tl_up := up, tl_net := n, tl_sent := tl_sent st + 1\<rparr>)
          else Option.bind (tele_pump (st\<lparr>tl_up := up, tl_net := n, tl_stalls := tl_stalls st + 1\<rparr>)) (f d)) = Some x"
    show "?P d st x"
    proof (intro impI)
      assume a: "d = reading k \<and> tele_inv seed k st"
      obtain ok up n where snd: "send (sim_transport sensor) ReliableOrdered d (tl_up st) (tl_net st) = (ok, up, n)" by (metis prod_cases3)
      have o: "one_way {heartbeat} sensor collector default_config (tele_net seed) (map reading [0..<k] @ (if ok then [d] else [])) up (tl_sink st) n"
        using a assms(4) by (intro one_way_send [OF _ snd]) (auto simp: tele_inv_def)
      show "tele_inv seed (k + 1) x \<and> tl_offered x = tl_offered st"
      proof (cases ok)
        case True
        then show ?thesis using x snd o a by (auto simp: tele_inv_def)
      next
        case False
        let ?st = "st\<lparr>tl_up := up, tl_net := n, tl_stalls := tl_stalls st + 1\<rparr>"
        have "tele_inv seed k ?st" using o a False by (simp add: tele_inv_def)
        then obtain st2 where st2: "tele_pump ?st = Some st2" "tele_inv seed k st2" "tl_offered st2 = tl_offered ?st" using tele_pump_inv by blast
        then have "f d st2 = Some x" using x snd False by simp
        from ih [OF this] st2 a show ?thesis by simp
      qed
    qed
  qed
  then show ?thesis using assms(2,3) by simp
qed

lemma send_beat_inv: "tele_inv seed k st \<Longrightarrow> tele_inv seed k (send_beat st) \<and> tl_offered (send_beat st) = tl_offered st + 1"
  by (auto simp: tele_inv_def send_beat_def intro: one_way_unreliable split: prod.split)

lemma offer_readings_inv:
  assumes "offer_readings [k..<l] st = Some st'" "tele_inv seed k st" "k \<le> l" "l < 2 ^ 31"
  shows "tele_inv seed l st' \<and> tl_offered st' = tl_offered st + length (filter (\<lambda>i. i mod 50 = 0) [k..<l])"
  using assms
proof (induction "l - k" arbitrary: k st)
  case (Suc n)
  then have r: "[k..<l] = k # [Suc k..<l]" by (simp add: upt_conv_Cons)
  obtain st1 where s1: "send_reading (reading k) st = Some st1"
    and rest: "offer_readings [Suc k..<l] (if k mod 50 = 0 then send_beat st1 else st1) = Some st'"
    using Suc.prems(1) unfolding r by (auto simp: Option.bind_eq_Some_conv)
  have i1: "tele_inv seed (Suc k) st1" "tl_offered st1 = tl_offered st"
    using send_reading_inv [OF s1 Suc.prems(2) refl] Suc.prems(4) Suc.hyps(2) by simp_all
  then have "tele_inv seed (Suc k) (if k mod 50 = 0 then send_beat st1 else st1)" using send_beat_inv by simp
  from Suc.hyps(1) [OF _ rest this] Suc.prems Suc.hyps(2) i1 send_beat_inv [OF i1(1)] show ?case unfolding r by auto
qed simp

lemma drain_readings_inv:
  assumes "tele_inv seed k st"
  shows "\<exists>st'. drain_readings r j st = Some st' \<and> tele_inv seed k st' \<and> tl_offered st' = tl_offered st"
  using assms
proof (induction j arbitrary: st)
  case (Suc j)
  then show ?case using tele_pump_inv [of seed k st] by fastforce
qed simp

lemma tele_inv_received:
  assumes "tele_inv seed k st"
  shows "tl_received st = map reading [0..<length (tl_received st)] \<and> length (tl_received st) \<le> k"
proof -
  have "prefix (filter (\<lambda>m. fst m \<noteq> Unreliable) (app_log (rx_side (tl_sink st)))) (map (Pair ReliableOrdered) (map reading [0..<k]))"
    by (rule one_way_mixed_log(1) [OF _ tele_net_ok]) (use assms in \<open>unfold tele_inv_def, blast\<close>)
  from map_mono_prefix [OF this, of snd] have p: "prefix (tl_received st) (map reading [0..<k])" using assms by (simp add: tele_inv_def comp_def)
  then have "length (tl_received st) \<le> k" using prefix_length_le by fastforce
  moreover have "tl_received st = take (length (tl_received st)) (map reading [0..<k])" using p by (auto simp: prefix_def)
  ultimately show ?thesis by (simp add: take_map take_upt min_def)
qed

lemma tele_inv_ordered: "tele_inv seed k st \<Longrightarrow> tele_ordered (tl_received st)"
  using tele_inv_received [of seed k st] unfolding tele_ordered_def list_all_iff
  by (metis add_0 atLeast_upt lessThan_iff nth_map_upt diff_zero)

section \<open>Properties\<close>

text \<open>C21: The telemetry example reports what happened. For every seed and number of readings (the program has 500), when the readings could be
  handed to the uplink the program returns: its draining loop is bounded and every tick in it returns. What it has received is then an initial
  segment of the readings, in order and each once, so the order check never fails; it has sent them all and offered a heartbeat with every
  fiftieth; and the exit code is 0 exactly when all readings arrived, something was retransmitted, and no more heartbeats arrived than were
  offered.\<close>

theorem telemetry_reports:
  assumes "offer_readings [0..<readings] (new_tele seed) = Some st1" "readings < 2 ^ 31"
  shows "\<exists>code st. tele_run readings seed = Some (code, st)
    \<and> tl_received st = map reading [0..<length (tl_received st)] \<and> length (tl_received st) \<le> readings \<and> tl_sent st = readings
    \<and> tl_offered st = length (filter (\<lambda>i. i mod 50 = 0) [0..<readings])
    \<and> code = (if length (tl_received st) = readings \<and> 0 < retransmit_count (tx_side (tl_up st)) \<and> tl_beats st \<le> tl_offered st then 0 else 1)"
proof -
  have i1: "tele_inv seed readings st1" "tl_offered st1 = length (filter (\<lambda>i. i mod 50 = 0) [0..<readings])"
    using offer_readings_inv [OF assms(1) tele_inv_new _ assms(2)] by (simp_all add: new_tele_def)
  obtain st where d: "drain_readings readings 20000 st1 = Some st" "tele_inv seed readings st" "tl_offered st = tl_offered st1"
    using drain_readings_inv [OF i1(1)] by metis
  have m: "tele_run readings seed = Some (if tele_ok readings st then 0 else 1, st)" using assms(1) d(1) by (simp add: tele_run_def)
  show ?thesis
    unfolding m using tele_inv_received [OF d(2)] tele_inv_ordered [OF d(2)] d(2,3) i1(2)
    by (intro exI [of _ "if tele_ok readings st then 0 else 1"] exI [of _ st]) (auto simp: tele_ok_def tele_inv_def)
qed

theorem telemetry_reports_witness:
  "\<exists>code st. tele_run 1 7 = Some (code, st) \<and> tl_received st = map reading [0..<length (tl_received st)] \<and> length (tl_received st) \<le> 1 \<and> tl_sent st = 1"
proof -
  obtain ok up n where o: "send (sim_transport sensor) ReliableOrdered (reading 0) (tl_up (new_tele 7)) (tl_net (new_tele 7)) = (ok, up, n)"
    by (metis prod_cases3)
  have "length (reading 0) = 9" by (simp add: reading_def as_bytes_def to_string_def digits_of.simps)
  then have "ok" using send_accepts [of ReliableOrdered "reading 0" "tl_up (new_tele 7)" "sim_transport sensor" "tl_net (new_tele 7)"] o
    by (simp add: new_tele_def new_session_def default_config_def new_send_side_def)
  then obtain st1 where "offer_readings [0..<1] (new_tele 7) = Some st1"
    using o by (simp add: send_reading.simps)
  from telemetry_reports [OF this] show ?thesis by auto
qed

end
