(* ===== verification/Echo_Demo.thy ===== *)
theory Echo_Demo
  imports Event_Loop Browser_Lab File_Programs
begin

text \<open>
  The programs \<^verbatim>\<open>demo/echo_server.cc\<close> (the event loop with one socket whose handler sends every datagram back) and \<^verbatim>\<open>demo/echo_client.cc\<close> (a burst of
  datagrams, then a wait of at most one second for as many answers). There is no session here: losses show.
\<close>

section \<open>The server\<close>

definition echo_handler :: "'w UdpTransport \<Rightarrow> Endpoint \<Rightarrow> bytes \<Rightarrow> 'w live \<Rightarrow> 'w live" where
  "echo_handler T src d st = (fst st, snd (t_send T src d (snd st)))"

definition port_arg :: "string list \<Rightarrow> u16" where
  "port_arg argv = (case argv of [] \<Rightarrow> 7000 | p # _ \<Rightarrow> word_of_int (atol p))"

text \<open>The exit code; \<open>None\<close> is a server that keeps running.\<close>

definition echo_server :: "'w Kernel \<Rightarrow> 'w Epoll \<Rightarrow> string list \<Rightarrow> 'w \<Rightarrow> nat option" where
  "echo_server K P argv w =
     (let (ok, r, w) = udp_bind K ''0.0.0.0'' (port_arg argv) new_udp w
      in if \<not> ok then Some 1
         else let (l, live, w) = new_loop P w
              in if \<not> valid l then Some 1
                 else let T = real_transport K r;
                          (_, l, w) = add_transport P T (sock_fd r) (echo_handler T) l w
                      in map_option (\<lambda>_. 0) (run P l (live, w)))"

section \<open>The client\<close>

definition ping :: "nat \<Rightarrow> bytes" where
  "ping i = map of_char (''ping-'' @ to_string (int i))"

definition count_arg :: "string list \<Rightarrow> int" where
  "count_arg argv = (case argv of _ # c # _ \<Rightarrow> atol c | _ \<Rightarrow> 10)"

definition send_pings :: "'w UdpTransport \<Rightarrow> Endpoint \<Rightarrow> int \<Rightarrow> 'w \<Rightarrow> 'w" where
  "send_pings T server pings = fold (\<lambda>i w. snd (t_send T server (ping i) w)) [0..<nat pings]"

text \<open>\<open>nap\<close> is the sleep of one millisecond.\<close>

partial_function (option) await_echoes :: "'w Kernel \<Rightarrow> 'w UdpTransport \<Rightarrow> ('w \<Rightarrow> 'w) \<Rightarrow> int \<Rightarrow> time_point \<Rightarrow> int \<Rightarrow> 'w \<Rightarrow> (int \<times> 'w) option" where
  "await_echoes K T nap pings limit echoed w =
     (if echoed < pings then
        (case k_clock K w of (now, w) \<Rightarrow>
           if now < limit then
             (case t_recv T kMaxDatagram w of
                (Some _, w) \<Rightarrow> await_echoes K T nap pings limit (echoed + 1) w
              | (None, w) \<Rightarrow> await_echoes K T nap pings limit echoed (nap w))
           else Some (echoed, w))
      else Some (echoed, w))"

definition echo_client :: "'w Kernel \<Rightarrow> ('w \<Rightarrow> 'w) \<Rightarrow> string list \<Rightarrow> 'w \<Rightarrow> (nat \<times> int option) option" where
  "echo_client K nap argv w =
     (let (ok, r, w) = udp_bind K ''0.0.0.0'' 0 new_udp w
      in if \<not> ok then Some (1, None)
         else case make_endpoint K ''127.0.0.1'' (port_arg argv) of
           None \<Rightarrow> Some (1, None)
         | Some server \<Rightarrow>
             let T = real_transport K r; pings = count_arg argv;
                 w = send_pings T server pings w;
                 (now, w) = k_clock K w
             in case await_echoes K T nap pings (now + ms 1000) 0 w of
                  None \<Rightarrow> None
                | Some (echoed, w) \<Rightarrow> Some (if echoed = pings then 0 else 2, Some echoed))"

section \<open>The server answers, and does not end\<close>

text \<open>Let \<open>answered fd\<close> be what socket \<open>fd\<close> has sent. After some ticks, \<open>k\<close> of them with a wait that was not interrupted, the server has sent back an
  initial part of its queue and of what arrived behind it, each datagram to where it came from and in order: at least the first \<open>64 * k\<close> that
  were queued, or all of them.\<close>

lemma echo_server_answers:
  assumes "level_triggered l q answered P" "regs l = [\<lparr>reg_fd = fd, reg_transport = T, reg_handler = echo_handler T\<rparr>]"
    "loop_ticks P l t m st = Some st'" "k = good_waits P l t m st"
  shows "\<exists>new j. answered fd (snd st') = answered fd (snd st) @ map cut (take j (q fd (snd st) @ new)) \<and> min (64 * k) (length (q fd (snd st))) \<le> j"
  using level_triggered.ticks_move [OF assms(1) _ assms(3), of fd] assms(2,4) unfolding moved_def by (auto simp: kMaxRecvPerTick_def)

text \<open>Once it listens, only a signal ends the server; it ends by itself with code 1 when the socket or the loop cannot be set up.\<close>

lemma echo_server_ends: "echo_server K P argv w = Some c \<Longrightarrow> c = 1"
  by (auto simp: echo_server_def Let_def new_loop_def add_transport_def run_forever echo_handler_def split: prod.splits if_splits)

section \<open>The client ends within its limit\<close>

context udp_socket
begin

lemma await_returns:
  assumes "\<And>w. clock w < clock (nap w)" "echoed \<le> pings"
  shows "\<exists>e w'. await_echoes K (real_transport K \<lparr>sock_fd = fd\<rparr>) nap pings limit echoed w = Some (e, w') \<and> echoed \<le> e \<and> e \<le> pings"
  using assms(2)
proof (induction "nat (pings - echoed) + nat (limit - clock w)" arbitrary: echoed w rule: less_induct)
  case less
  let ?T = "real_transport K \<lparr>sock_fd = fd\<rparr>"
  obtain now w1 where n: "k_clock K w = (now, w1)" by fastforce
  obtain x w2 where x: "t_recv ?T kMaxDatagram w1 = (x, w2)" by fastforce
  have c: "clock w \<le> now" "now \<le> clock w1" "clock w1 \<le> clock w2"
    using clock_gettime [OF n] recv_clock [of w1 kMaxDatagram] x by simp_all
  show ?case
  proof (cases "echoed < pings \<and> now < limit")
    case False
    then show ?thesis using n less.prems by (subst await_echoes.simps) auto
  next
    case True
    show ?thesis
    proof (cases x)
      case None
      have "nat (pings - echoed) + nat (limit - clock (nap w2)) < nat (pings - echoed) + nat (limit - clock w)"
        using True c assms(1) [of w2] by simp
      from less.hyps [OF this less.prems] show ?thesis using True n x None by (subst await_echoes.simps) simp
    next
      case (Some m)
      have "nat (pings - (echoed + 1)) + nat (limit - clock w2) < nat (pings - echoed) + nat (limit - clock w)"
        using True c by (intro add_less_le_mono) simp_all
      from less.hyps [OF this] True show ?thesis using n x Some by (subst await_echoes.simps) fastforce
    qed
  qed
qed

end

section \<open>Properties\<close>

text \<open>Once its socket is bound and the server address is valid, the client ends, with code 0 when it received as many datagrams as it sent and 2
  when it received fewer; it never counts more.\<close>

theorem echo_client_report:
  assumes "udp_socket K addr wire clock fd me" "\<And>w. clock w < clock (nap w)" "0 \<le> count_arg argv"
    and "udp_bind K ''0.0.0.0'' 0 new_udp w = (True, \<lparr>sock_fd = fd\<rparr>, w')" "make_endpoint K ''127.0.0.1'' (port_arg argv) = Some server"
  shows "\<exists>e. 0 \<le> e \<and> e \<le> count_arg argv \<and> echo_client K nap argv w = Some (if e = count_arg argv then 0 else 2, Some e)"
proof -
  let ?T = "real_transport K \<lparr>sock_fd = fd\<rparr>" and ?n = "count_arg argv"
  obtain now v where c: "k_clock K (send_pings ?T server ?n w') = (now, v)" by fastforce
  obtain e v' where "await_echoes K ?T nap ?n (now + ms 1000) 0 v = Some (e, v')" "0 \<le> e" "e \<le> ?n"
    using udp_socket.await_returns [OF assms(1,2,3)] by blast
  then show ?thesis using assms(4,5) c by (simp add: echo_client_def)
qed

end
