(* ===== verification/Arrival_Schedule.thy ===== *)
theory Arrival_Schedule
  imports Latency_Bench
begin

text \<open>
  The arrival schedule of the open-loop benchmarks (\<^verbatim>\<open>PoissonSchedule\<close> and \<^verbatim>\<open>schedule_count\<close> of \<^verbatim>\<open>bench/common.h\<close>) and what the sender of
  \<^verbatim>\<open>latency_bench\<close> reports of it. The draws of the library's exponential distribution are a parameter \<open>gap\<close>.
\<close>

primrec next_offset_s :: "(nat \<Rightarrow> rat) \<Rightarrow> nat \<Rightarrow> rat" where
  "next_offset_s gap 0 = fl (0 + gap 0)"
| "next_offset_s gap (Suc k) = fl (next_offset_s gap k + gap (Suc k))"

partial_function (option) count_arrivals :: "(nat \<Rightarrow> rat) \<Rightarrow> rat \<Rightarrow> nat \<Rightarrow> nat option" where
  "count_arrivals offs dur n = (if offs n \<le> dur then count_arrivals offs dur (n + 1) else Some n)"

definition schedule_count :: "(nat \<Rightarrow> rat) \<Rightarrow> int \<Rightarrow> nat option" where
  "schedule_count gap duration_s = count_arrivals (next_offset_s gap) (fl (of_int duration_s)) 0"

definition lat_unoffered :: "nat \<Rightarrow> nat \<Rightarrow> nat" where
  "lat_unoffered scheduled nsent = (if nsent < scheduled then scheduled - nsent else 0)"

lemma count_arrivals_least:
  assumes "count_arrivals offs dur n = Some c" "n \<le> j" "dur < offs j"
  shows "c \<le> j"
proof -
  let ?P = "\<lambda>offs dur n c. \<forall>j. n \<le> j \<and> dur < offs j \<longrightarrow> c \<le> j"
  have "?P offs dur n c"
  proof (rule count_arrivals.raw_induct [where P = ?P, OF _ assms(1)])
    fix f and offs :: "nat \<Rightarrow> rat" and dur n c
    assume ih: "\<And>offs dur n c. f offs dur n = Some c \<Longrightarrow> ?P offs dur n c"
      and x: "(if offs n \<le> dur then f offs dur (n + 1) else Some n) = Some c"
    show "?P offs dur n c"
      using x ih [of offs dur "n + 1" c] by (auto split: if_splits simp: not_le Suc_le_eq order_less_le)
  qed
  then show ?thesis using assms(2,3) by blast
qed

text \<open>The open loop ends past the schedule or at the wall-clock cap.\<close>

lemma open_loop_ends:
  assumes "lat_open_loop T wait clk offs cls m start dur k i s n = Some (k', i', s', n')"
  shows "dur < nat \<lfloor>fl (offs k' * 1000000000)\<rfloor> \<or> dur + 15000000000 < elapsed (clk (i' - 1)) start"
proof -
  let ?P = "\<lambda>(T :: 'a UdpTransport) (wait :: 'a \<Rightarrow> 'a) clk offs (cls :: Class) (m :: nat) start dur (k :: nat) (i :: nat) (s :: Session) (n :: 'a) x.
    dur < nat \<lfloor>fl (offs (fst x) * 1000000000)\<rfloor> \<or> dur + 15000000000 < elapsed (clk (fst (snd x) - 1)) start"
  have "?P T wait clk offs cls m start dur k i s n (k', i', s', n')"
  proof (rule lat_open_loop.raw_induct [where P = ?P, OF _ assms])
    fix f and T :: "'a UdpTransport" and wait clk offs cls m start dur k i s n x
    assume ih: "\<And>T wait clk offs cls m start dur k i s n x. f T wait clk offs cls m start dur k i s n = Some x \<Longrightarrow> ?P T wait clk offs cls m start dur k i s n x"
      and x: "(let intended = start + nat \<lfloor>fl (offs k * 1000000000)\<rfloor>
      in if dur < intended - start then Some (k, i, s, n)
         else if dur + 15000000000 < elapsed (clk i) start then Some (k, i + 1, s, n)
         else Option.bind (pump_until T wait clk intended (i + 1) s n) (\<lambda>(i, s, n).
              Option.bind (send_until T cls (lat_msg m intended (word_of_nat k)) s n) (\<lambda>(s, n).
              f T wait clk offs cls m start dur (k + 1) i s n))) = Some x"
    define t where "t = nat \<lfloor>fl (offs k * 1000000000)\<rfloor>"
    consider "dur < t" "x = (k, i, s, n)" | "dur + 15000000000 < elapsed (clk i) start" "x = (k, i + 1, s, n)"
      | j s2 n2 where "f T wait clk offs cls m start dur (k + 1) j s2 n2 = Some x"
      using x unfolding Let_def t_def [symmetric] by (fastforce simp: Option.bind_eq_Some_conv split: if_splits)
    then show "?P T wait clk offs cls m start dur k i s n x"
    proof cases
      case 1
      then show ?thesis unfolding t_def by simp
    next
      case 2
      then show ?thesis by simp
    next
      case 3
      from ih [OF this] show ?thesis .
    qed
  qed
  then show ?thesis by (simp only: fst_conv snd_conv)
qed

section \<open>Properties\<close>

text \<open>Unoffered work means the cap. When the open-loop sender ends (a duration of at most 9000000 seconds) and reports scheduled messages it
  did not offer, then its wall-clock cap had passed: rounding in the schedule never loses an arrival.\<close>

theorem unoffered_means_capped:
  assumes "lat_open_loop T wait clk (next_offset_s gap) cls m start (d * 1000000000) 0 1 s n = Some (k, i, s', n')"
    and "schedule_count gap (int d) = Some c" "d \<le> 9000000" "lat_unoffered c k \<noteq> 0"
  shows "d * 1000000000 + 15000000000 < elapsed (clk (i - 1)) start"
proof (rule ccontr)
  assume "\<not> ?thesis"
  then have t: "d * 1000000000 < nat \<lfloor>fl (next_offset_s gap k * 1000000000)\<rfloor>" using open_loop_ends [OF assms(1)] by blast
  have f: "fl (of_int (int d)) = of_int (int d)" "fl (of_int (int d * 1000000000)) = of_int (int d * 1000000000)"
    using assms(3) by (intro fl_int; simp)+
  have "of_int (int d) < next_offset_s gap k"
  proof (rule ccontr)
    assume "\<not> ?thesis"
    then have "next_offset_s gap k * 1000000000 \<le> of_int (int d * 1000000000)" by simp
    from fl_mono [OF this] f(2) have "fl (next_offset_s gap k * 1000000000) \<le> of_int (int d * 1000000000)" by simp
    then have "\<lfloor>fl (next_offset_s gap k * 1000000000)\<rfloor> \<le> int d * 1000000000" by (simp add: floor_le_iff order_le_less_trans)
    then show False using t by linarith
  qed
  then have "c \<le> k" using count_arrivals_least [of "next_offset_s gap" "fl (of_int (int d))" 0 c k] assms(2) f(1) by (simp add: schedule_count_def)
  then show False using assms(4) by (simp add: lat_unoffered_def)
qed

end
