(* ===== verification/Spec2Isabelle.thy ===== *)
theory Spec2Isabelle
  imports Codec Timers Congestion Rto Sim_Net Session_Delivery Session_Rules Swim_Cluster Event_Loop File_Transfer
    Browser_Lab Mesh_Node Paced_Bench Tcp_Baseline Fuzz_Harness Flow_Conformance Latency_Bench File_Programs Telemetry Echo_Demo Arrival_Schedule
begin

text \<open>
  \<^bold>\<open>taut\<close>: a reliable-UDP library in C++ (\<^verbatim>\<open>src/\<close>, \<^verbatim>\<open>include/taut/\<close>), verified in Isabelle/HOL.

  \<^bold>\<open>The program.\<close> A \<^emph>\<open>session\<close> carries messages of three classes (unreliable, reliable unordered, reliable ordered) to one peer over a datagram
  transport. It encodes packets with the \<^emph>\<open>codec\<close> (fixed little-endian header, CRC-32C), keeps a window of unacknowledged packets whose
  retransmissions are driven by the \<^emph>\<open>timer heap\<close>, estimates round trips with the \<^emph>\<open>RTO\<close> estimator, and is throttled by the \<^emph>\<open>congestion\<close>
  controller and the peer's advertised window. The \<^emph>\<open>membership\<close> protocol (SWIM) runs beside it on the same codec. Both see the network only
  through the \<^emph>\<open>transport\<close> interface, implemented by real sockets and by the deterministic simulator \<^emph>\<open>SimNet\<close>. An \<^emph>\<open>event loop\<close> dispatches
  datagrams of registered sockets. Programs on top: two that \<^emph>\<open>transfer a file\<close> over a session and compare SHA-256 digests, a scripted
  \<^emph>\<open>mesh\<close> of membership nodes that is partitioned and healed, the \<^emph>\<open>browser\<close> bindings that run experiments over the simulator, a \<^emph>\<open>telemetry\<close>
  example, an \<^emph>\<open>echo\<close> server and client, and the \<^emph>\<open>benchmarks\<close> that measure sessions against plain TCP. Beside them stand a \<^emph>\<open>fuzzing\<close> harness for
  the codec and a TLA+ model of the window rule with the \<^emph>\<open>conformance\<close> program that replays its traces on a session.

  \<^bold>\<open>Conventions.\<close> Machine integers are words and wrap; instants and durations are integers (nanoseconds, or milliseconds where the source stores
  those); byte strings are lists of bytes; structs are records and enums datatypes; the outside world is a value that every call of a
  transport or of the kernel takes and returns; \<^verbatim>\<open>double\<close> arithmetic is rational arithmetic rounded to 53 bits after every operation. A loop
  that might not end is a partial function with result \<open>None\<close> for not ending, and the theorems that it returns are stated as such.

  \<^bold>\<open>Theories and sources.\<close>
  \<^item> \<open>Taut_Prelude\<close>: integer and time types, \<^verbatim>\<open>include/taut/types.h\<close>, shared list and word lemmas.
  \<^item> \<open>Crc32c\<close> (\<^verbatim>\<open>src/crc32c.cc\<close>): the table-driven checksum; it equals the bit-serial definition, and detects every change confined to one byte.
  \<^item> \<open>Codec\<close> (\<^verbatim>\<open>src/codec.cc\<close>, \<^verbatim>\<open>codec.h\<close>): \<open>encode\<close> and \<open>decode\<close>; round trips in both directions, the exact verdict on every byte string, rejection of
    every datagram with one corrupt byte, no read out of bounds.
  \<^item> \<open>Timers\<close> (\<^verbatim>\<open>src/timers.cc\<close>): the array heap with lazy deletion; the locale \<open>timer_service\<close> states the set of live timers and is interpreted on it.
  \<^item> \<open>Congestion\<close> (\<^verbatim>\<open>src/congestion.cc\<close>), \<open>Ieee_Double\<close> and \<open>Rto\<close> (\<^verbatim>\<open>src/rto.cc\<close>): window bounds, additive increase, one halving per flight; the
    timeout between floor and cap, the smoothed round trip within the samples.
  \<^item> \<open>Transport\<close> (\<^verbatim>\<open>include/taut/transport.h\<close>): endpoints, the interface as a record of functions, and its contract \<open>datagram_transport\<close>: what is
    received was sent to the receiver, and the clock does not run backwards. Loss, repetition and reordering are all allowed.
  \<^item> \<open>Mt19937\<close> and \<open>Sim_Net\<close> (\<^verbatim>\<open>src/sim_net.cc\<close>): the simulator with its engine; it satisfies the contract for every seed and impairment.
  \<^item> \<open>Udp_Socket\<close> (\<^verbatim>\<open>src/transport.cc\<close>): \<open>make_endpoint\<close> and the socket transport over a record of system calls; the locale \<open>udp_kernel\<close> states the documented
    behaviour of those calls, from which the contract follows. \<open>Event_Loop\<close> (\<^verbatim>\<open>src/loop.cc\<close>): registration, the bounded drain, \<open>run\<close> and \<open>stop\<close> over a
    record of \<^verbatim>\<open>epoll\<close> and \<^verbatim>\<open>eventfd\<close> calls; the locale \<open>level_triggered\<close> states their documented behaviour (a wait may be
    interrupted or block forever, and datagrams arrive at any moment).
  \<^item> \<open>Session\<close> (\<^verbatim>\<open>src/session.cc\<close>, \<^verbatim>\<open>session.h\<close>, \<^verbatim>\<open>config.h\<close>): every operation. \<open>Session_Receiver\<close>, \<open>Session_Dedup\<close>, \<open>Session_Sender\<close>, \<open>Session_Ticks\<close> and \<open>Session_Steps\<close>
    build the invariant of a session; \<open>Session_Rules\<close> has the rules of single operations (window updates across the wrap of
    the generations, Karn's rule, fast retransmission);
    \<open>Session_Delivery\<close> composes two sessions (locale \<open>session_pair\<close>) and interprets the result on the simulator. \<open>Session_Handler\<close>: whether a handler is
    registered makes no difference to the protocol, which carries the results to a sender that does not listen. \<open>Session_Calls\<close>: a session reaches the
    outside only through its transport, and sends only to its peer. \<open>Session_One_Way\<close>: one sender and one listener over the simulator, with rules
    for each call, for the programs that drive both ends. \<open>Session_Silent\<close>: a session whose peer never answers.
  \<^item> \<open>Swim\<close> (\<^verbatim>\<open>src/swim.cc\<close>, \<^verbatim>\<open>swim.h\<close>): every operation. \<open>Swim_Merge\<close>: merging gossip is taking maxima. \<open>Swim_Wire\<close>: what is sent is what is read.
    \<open>Swim_Detector\<close>: what a tick decides, the round robin, the silent target that becomes suspect. \<open>Swim_Cluster\<close>: clusters of nodes (locale \<open>swim_cluster\<close>,
    interpreted on the simulator), who may mint incarnations, refutation, rejoining, and the death of a suspect that stays
    silent, whatever its accuser does in between.
  \<^item> \<open>Sha256\<close> (\<^verbatim>\<open>demo/sha256.h\<close>): the streaming digest against FIPS 180-4. \<open>File_Transfer\<close> (\<^verbatim>\<open>demo/file_xfer.h\<close>, \<^verbatim>\<open>send_file.cc\<close>, \<^verbatim>\<open>recv_file.cc\<close>): framing, feeding
    and rebuilding a file, composed with sessions over sockets. \<open>File_Programs\<close>: both programs from their arguments to their exit codes; they give
    up when nothing arrives.
  \<^item> \<open>Browser_Lab\<close> (\<^verbatim>\<open>wasm/taut_wasm.cc\<close>): the batch experiment with the text it returns, and the interactive cursor-echo instrument.
  \<^item> \<open>Mesh_Node\<close> (\<^verbatim>\<open>demo/mesh_node.cc\<close>): the link filter, a decorator that keeps the transport contract, and the whole scripted demonstration.
  \<^item> \<open>Bench_Common\<close> (\<^verbatim>\<open>bench/common.h\<close>, \<^verbatim>\<open>resource.h\<close>): message layout, percentiles, result files. \<open>Tcp_Stream\<close> (\<^verbatim>\<open>bench/paced_bench.cc\<close>): framing over a
    non-blocking stream socket; the locale \<open>byte_stream\<close> states what such a socket promises. \<open>Paced_Bench\<close> (\<^verbatim>\<open>bench/paced_bench.cc\<close>): the run and its
    accounts over any channel (locale \<open>channel\<close>). \<open>Tcp_Baseline\<close> (\<^verbatim>\<open>bench/tcp_baseline.cc\<close>): blocking framing, echo server and client, sender and receiver.
    \<open>Latency_Bench\<close> (\<^verbatim>\<open>bench/latency_bench.cc\<close>): the counting transport, a decorator that keeps the transport contract; the open-loop sender and receiver,
    whose counters are exact over lossy sockets; the closed-loop client, whose every request is accounted for; and the sender's hang on a silent peer.
    \<open>Arrival_Schedule\<close>: the arrival schedule over given draws; scheduled messages stay unoffered only when the wall-clock cap has passed.
  \<^item> \<open>Telemetry\<close> (\<^verbatim>\<open>examples/telemetry/main.cc\<close>): the whole example over the simulator, with its verdict. \<open>Echo_Demo\<close> (\<^verbatim>\<open>demo/echo_server.cc\<close>,
    \<^verbatim>\<open>demo/echo_client.cc\<close>): the server on the event loop answers what it receives, the client ends within its limit.
  \<^item> \<open>Fuzz_Harness\<close> (\<^verbatim>\<open>fuzz/fuzz_decode.cc\<close>): both builds of the harness; its trap is never reached, and which patched inputs the decoder accepts.
  \<^item> \<open>Flow_Conformance\<close> (\<^verbatim>\<open>formal/FlowControl.tla\<close>, \<^verbatim>\<open>formal/conformance.cc\<close>): the transition system of the TLA+ model, its invariant under both policies, its
    refinement by the window-update rule of the session, and the replay program.

  \<^bold>\<open>End-to-end results.\<close> For two sessions over any transport with the contract (simulator or sockets): ordered messages are delivered in order, each once,
  as a prefix of those accepted; unordered reliable ones at most once; unreliable ones only if sent; nothing accepted is lost while its
  session lives; buffers stay within the window; \<open>tick\<close> returns. For files: what is received is a prefix of the file, and a complete transfer is
  the file; with a dead network both file programs end with their timeout code. For experiments in the browser: they return, and report what was delivered. For benchmarks: messages over TCP arrive in order and
  complete, every offer of a paced run is accounted for, the latency benchmark over sessions counts neither too much nor out of order, and percentiles are
  observed samples. For clusters: nobody believes an incarnation its owner has not announced, and accusations are refuted or confirmed as documented.

  \<^bold>\<open>Bounds.\<close> Sequence numbers are 32 bits wide and never reused, so runs accept fewer than \<open>2 ^ 32\<close> reliable messages per direction, and files
  have at most \<open>2 ^ 40\<close> bytes. Configurations satisfy \<open>config_ok\<close>: a retransmission floor between 1 ms and the cap of 2000 ms (above it the source violates
  the precondition of \<^verbatim>\<open>std::clamp\<close>). The window-update theorem compares acknowledgement generations within half of the 32-bit range, as the
  source's serial arithmetic does. Timer identifiers are natural numbers (64-bit counters that do not wrap in practice). The bounded loops of
  \<open>poll\<close> and \<open>run_once\<close> recurse on the number of receives left, which the source bounds as well; no other fuel is used. Instants in the benchmarks are natural numbers: the monotonic clock in nanoseconds stays below \<open>2 ^ 64\<close>;
  sums of instants that a command-line argument may make large wrap as in the source.

  \<^bold>\<open>Parameters.\<close> System calls (\<open>Kernel\<close>, \<open>Epoll\<close>); the iteration order of hash maps, the choices of \<^verbatim>\<open>std::shuffle\<close> and the library logarithm (\<open>L\<close> in \<open>Swim\<close>).
  For the benchmarks, the calls on a connected stream socket (\<open>TcpCalls\<close>), the readings of the clock and the draws of the arrival schedule;
  for the programs, the file system and what happens while they sleep.
  Each assumption on them is a locale that is interpreted on a concrete instance, or a hypothesis with a witness. A delay draw of the simulator that never ends
  sends nothing.

  \<^bold>\<open>Not modelled.\<close> Handlers that call back into the session (the closed-loop server of \<^verbatim>\<open>bench/latency_bench.cc\<close> is such a program) or register
  transports while the loop dispatches; data races between threads; calls of the public \<open>apply_rumor\<close> from outside in cluster runs; in the benchmarks,
  command-line parsing, the creation of sockets, the text of the result rows, the exponential distribution and resource sampling from \<^verbatim>\<open>/proc\<close>;
  console output other than what the theorems mention; \<^verbatim>\<open>bench/enet_baseline.cc\<close>, which drives the third-party ENet library; \<^verbatim>\<open>include/taut/node.h\<close>, the
  declarations of an interface without implementation; \<^verbatim>\<open>src/version.cc\<close> (a string).
\<close>

end
